(* ===== verification/Prelude.thy ===== *)
theory Prelude
  imports Main "HOL-Library.Multiset"
begin

text \<open>
  What every component theory shares: Python's insertion-ordered dictionaries as association
  lists, Python slices, the counting dictionaries the code keeps (a key is removed when its
  count drops to zero), and the collections of rewrite rules the component proofs use.

  A dictionary whose iteration order the code can observe, or over which it sums, is a
  \<open>pydict\<close>; where neither matters the component theories use a partial map.
\<close>

named_theorems dict_simps \<open>rewrite rules for the dictionary operations\<close>
named_theorems inv_intros \<open>preservation lemmas of the component invariants\<close>

type_synonym ('k, 'v) pydict = "('k \<times> 'v) list"

type_synonym bytes = "nat list"

text \<open>
  Lookups stay lookups: the library's rule that turns \<open>map_of d k = Some v\<close> into membership for
  distinct keys hides the function update the component proofs reason with.
\<close>

declare map_of_eq_Some_iff [simp del]

section \<open>Dictionaries in insertion order\<close>

abbreviation keys :: "('k, 'v) pydict \<Rightarrow> 'k list" where
  "keys d \<equiv> map fst d"

abbreviation dict_wf :: "('k, 'v) pydict \<Rightarrow> bool" where
  "dict_wf d \<equiv> distinct (keys d)"

text \<open>\<open>d[k] = v\<close>: a known key keeps its place, a new key goes last.\<close>

fun dict_set :: "('k, 'v) pydict \<Rightarrow> 'k \<Rightarrow> 'v \<Rightarrow> ('k, 'v) pydict" where
  "dict_set [] k v = [(k, v)]"
| "dict_set ((k', v') # d) k v =
     (if k' = k then (k, v) # d else (k', v') # dict_set d k v)"

text \<open>\<open>d.pop(k, None)\<close> as far as the dictionary is concerned.\<close>

definition dict_pop :: "('k, 'v) pydict \<Rightarrow> 'k \<Rightarrow> ('k, 'v) pydict" where
  "dict_pop d k = filter (\<lambda>p. fst p \<noteq> k) d"

text \<open>\<open>d.get(k, x)\<close>.\<close>

definition dict_get :: "('k, 'v) pydict \<Rightarrow> 'k \<Rightarrow> 'v \<Rightarrow> 'v" where
  "dict_get d k x = (case map_of d k of None \<Rightarrow> x | Some v \<Rightarrow> v)"

text \<open>\<open>d.setdefault(k, x)\<close> as far as the dictionary is concerned.\<close>

definition dict_setdefault :: "('k, 'v) pydict \<Rightarrow> 'k \<Rightarrow> 'v \<Rightarrow> ('k, 'v) pydict" where
  "dict_setdefault d k x = (case map_of d k of None \<Rightarrow> d @ [(k, x)] | Some v \<Rightarrow> d)"

lemma map_of_dict_set [simp, dict_simps]:
  "map_of (dict_set d k v) = (map_of d)(k \<mapsto> v)"
  by (induction d k v rule: dict_set.induct) (auto simp: fun_eq_iff)

lemma set_keys_dict_set [simp, dict_simps]:
  "set (keys (dict_set d k v)) = insert k (set (keys d))"
  by (induction d k v rule: dict_set.induct) auto

lemma dict_wf_dict_set [simp, intro, dict_simps]:
  "dict_wf d \<Longrightarrow> dict_wf (dict_set d k v)"
proof (induction d k v rule: dict_set.induct)
  case (2 k' v' d k v)
  then show ?case
    using set_keys_dict_set [of d k v] by (auto simp del: set_map)
qed simp

lemma in_set_dict_setD: "p \<in> set (dict_set d k v) \<Longrightarrow> p = (k, v) \<or> p \<in> set d"
  by (induction d k v rule: dict_set.induct) (auto split: if_splits)

lemma dict_get_cases:
  "dict_get d k x = x \<or> (k, dict_get d k x) \<in> set d"
  by (auto simp: dict_get_def dest: map_of_SomeD split: option.splits)

lemma map_of_dict_pop [simp, dict_simps]:
  "map_of (dict_pop d k) = (map_of d)(k := None)"
  by (induction d) (auto simp: dict_pop_def fun_eq_iff)

lemma set_keys_dict_pop [simp, dict_simps]:
  "set (keys (dict_pop d k)) = set (keys d) - {k}"
  by (auto simp: dict_pop_def)

lemma dict_wf_dict_pop [simp, intro, dict_simps]:
  "dict_wf d \<Longrightarrow> dict_wf (dict_pop d k)"
  by (induction d) (auto simp: dict_pop_def)

lemma dict_pop_absent [dict_simps]:
  "k \<notin> set (keys d) \<Longrightarrow> dict_pop d k = d"
  by (auto simp: dict_pop_def filter_id_conv)

lemma dict_get_set [simp, dict_simps]:
  "dict_get (dict_set d k v) k' x = (if k' = k then v else dict_get d k' x)"
  by (simp add: dict_get_def)

lemma dict_get_pop [simp, dict_simps]:
  "dict_get (dict_pop d k) k' x = (if k' = k then x else dict_get d k' x)"
  by (simp add: dict_get_def)

lemma map_of_dict_setdefault [simp, dict_simps]:
  "map_of (dict_setdefault d k x) =
     (case map_of d k of None \<Rightarrow> (map_of d)(k \<mapsto> x) | Some v \<Rightarrow> map_of d)"
  by (auto simp: dict_setdefault_def fun_eq_iff map_add_def split: option.splits)

lemma dict_wf_setdefault [simp, intro, dict_simps]:
  "dict_wf d \<Longrightarrow> dict_wf (dict_setdefault d k x)"
  by (auto simp: dict_setdefault_def map_of_eq_None_iff split: option.splits)

lemma length_dict_set:
  "length (dict_set d k v) = (if k \<in> set (keys d) then length d else Suc (length d))"
  by (induction d k v rule: dict_set.induct) auto

lemma dict_set_append_new [dict_simps]:
  "k \<notin> set (keys d) \<Longrightarrow> dict_set d k v = d @ [(k, v)]"
  by (induction d k v rule: dict_set.induct) auto

section \<open>Counting dictionaries\<close>

text \<open>
  The pattern \<open>d[k] = d.get(k, 0) + 1\<close> and its inverse, which removes the key once its count
  is no longer positive.  A missing key reads as one in the decrement, as the code writes it.
\<close>

definition count_up :: "('k, int) pydict \<Rightarrow> 'k \<Rightarrow> ('k, int) pydict" where
  "count_up d k = dict_set d k (dict_get d k 0 + 1)"

definition count_down :: "('k, int) pydict \<Rightarrow> 'k \<Rightarrow> ('k, int) pydict" where
  "count_down d k =
     (let n = dict_get d k 1 - 1
      in if n \<le> 0 then dict_pop (dict_set d k n) k else dict_set d k n)"

definition count_of :: "('k, int) pydict \<Rightarrow> 'k \<Rightarrow> int" where
  "count_of d k = dict_get d k 0"

definition counts_ok :: "('k, int) pydict \<Rightarrow> bool" where
  "counts_ok d \<longleftrightarrow> dict_wf d \<and> (\<forall>k n. map_of d k = Some n \<longrightarrow> 0 < n)"

lemma counts_ok_Nil [simp]: "counts_ok []"
  by (simp add: counts_ok_def)

lemma count_of_Nil [simp]: "count_of [] k = 0"
  by (simp add: count_of_def dict_get_def)

lemma count_of_nonneg: "counts_ok d \<Longrightarrow> 0 \<le> count_of d k"
  by (auto simp: counts_ok_def count_of_def dict_get_def split: option.splits dest: less_imp_le)

lemma counts_ok_up [intro, inv_intros]: "counts_ok d \<Longrightarrow> counts_ok (count_up d k)"
  by (force simp: counts_ok_def count_up_def dict_get_def split: option.splits)

lemma counts_ok_down [intro, inv_intros]: "counts_ok d \<Longrightarrow> counts_ok (count_down d k)"
  by (auto simp: counts_ok_def count_down_def Let_def dict_get_def split: option.splits if_splits)

lemma count_of_up [simp]: "count_of (count_up d k) k' = count_of d k' + (if k' = k then 1 else 0)"
  by (simp add: count_of_def count_up_def)

lemma count_of_down:
  "counts_ok d \<Longrightarrow> 0 < count_of d k \<Longrightarrow>
   count_of (count_down d k) k' = count_of d k' - (if k' = k then 1 else 0)"
  by (force simp: counts_ok_def count_of_def count_down_def Let_def dict_get_def
            split: option.splits)

lemma count_of_down_other:
  "k' \<noteq> k \<Longrightarrow> count_of (count_down d k) k' = count_of d k'"
  by (auto simp: count_of_def count_down_def Let_def)

lemma map_of_count_None: "counts_ok d \<Longrightarrow> map_of d k = None \<longleftrightarrow> count_of d k = 0"
  by (force simp: counts_ok_def count_of_def dict_get_def split: option.splits)

section \<open>Python slices\<close>

text \<open>\<open>xs[a:b]\<close>: a negative bound counts from the end, and both are clipped to the list.\<close>

definition slice_index :: "nat \<Rightarrow> int \<Rightarrow> nat" where
  "slice_index n i = (if i < 0 then nat (max 0 (int n + i)) else min n (nat i))"

definition py_slice :: "'a list \<Rightarrow> int \<Rightarrow> int \<Rightarrow> 'a list" where
  "py_slice xs a b =
     (let i = slice_index (length xs) a; j = slice_index (length xs) b
      in take (j - i) (drop i xs))"

lemma py_slice_nat [simp]:
  "py_slice xs (int a) (int b) = take (min (length xs) b - min (length xs) a) (drop a xs)"
  by (cases "a \<le> length xs") (auto simp: py_slice_def slice_index_def Let_def)

lemma py_slice_nat_le:
  "a \<le> b \<Longrightarrow> b \<le> length xs \<Longrightarrow> py_slice xs (int a) (int b) = take (b - a) (drop a xs)"
  by simp

end
