(* ===== verification/Profiles.thy ===== *)
theory Profiles
  imports PyStrings
begin

text \<open>
  The profile registry of \<open>profiles/registry.py\<close>: user-owned aliases for native targets with
  their Client Hint values, the callback that resolves \<open>impersonate\<close>, and the validation of the
  manifest \<open>scrapy_cffi_profiles.toml\<close>.  Reading the file and parsing TOML are the caller's:
  the manifest arrives as the value \<open>toml.load\<close> returned.
\<close>

section \<open>Profiles and the registry\<close>

record profile_spec =
  ps_name :: string
  ps_impersonate :: string
  ps_client_hints :: "(string \<times> string) list"

datatype profile_error =
    ValueError string
  | ProfileManifestError string

fun find_hint :: "string \<Rightarrow> (string \<times> string) list \<Rightarrow> string option" where
  "find_hint normalized [] = None"
| "find_hint normalized ((hint_name, value) # rest) =
     (if lower hint_name = normalized then Some value else find_hint normalized rest)"

definition get_client_hint :: "profile_spec \<Rightarrow> string \<Rightarrow> string option" where
  "get_client_hint spec name = find_hint (lower name) (ps_client_hints spec)"

text \<open>The two callbacks the registry can hand out.\<close>

datatype resolver = Passthrough | ResolveRegistered

record registry =
  reg_profiles :: "(string, profile_spec) pydict"
  reg_has_registered :: bool
  reg_resolver :: resolver

definition empty_registry :: registry where
  "empty_registry = \<lparr>reg_profiles = [], reg_has_registered = False, reg_resolver = Passthrough\<rparr>"

definition register :: "registry \<Rightarrow> profile_spec \<Rightarrow> bool \<Rightarrow> profile_error + (registry \<times> profile_spec)" where
  "register reg profile replace =
     (if ps_name profile = [] then Inl (ValueError ''Profile name cannot be empty'')
      else if ps_impersonate profile = [] then Inl (ValueError ''Native impersonate target cannot be empty'')
      else
        let current = map_of (reg_profiles reg) (ps_name profile) in
        if current = Some profile then Inr (reg, profile)
        else if current \<noteq> None \<and> \<not> replace
        then Inl (ValueError (''Profile is already registered: '' @ ps_name profile))
        else
          let reg1 = reg\<lparr>reg_profiles := dict_set (reg_profiles reg) (ps_name profile) profile\<rparr>;
              reg2 = (if \<not> reg_has_registered reg1
                      then reg1\<lparr>reg_has_registered := True, reg_resolver := ResolveRegistered\<rparr>
                      else reg1)
          in Inr (reg2, profile))"

text \<open>\<open>ProfileRegistry(profiles)\<close>: the initial definitions are registered one by one.\<close>

fun init_registry :: "registry \<Rightarrow> profile_spec list \<Rightarrow> profile_error + registry" where
  "init_registry reg [] = Inr reg"
| "init_registry reg (p # ps) =
     (case register reg p False of Inl e \<Rightarrow> Inl e | Inr (reg', _) \<Rightarrow> init_registry reg' ps)"

definition registry_get :: "registry \<Rightarrow> string \<Rightarrow> profile_spec option" where
  "registry_get reg profile = map_of (reg_profiles reg) profile"

definition resolve :: "registry \<Rightarrow> string \<Rightarrow> string" where
  "resolve reg profile =
     (case registry_get reg profile of Some spec \<Rightarrow> ps_impersonate spec | None \<Rightarrow> profile)"

definition resolve_registered :: "registry \<Rightarrow> string option \<Rightarrow> string option" where
  "resolve_registered reg impersonate =
     (case impersonate of None \<Rightarrow> None | Some p \<Rightarrow> Some (resolve reg p))"

text \<open>
  Calling a callback that was taken from the registry earlier: the bound method reads the
  registry as it is at the time of the call, the pass-through never does.
\<close>

fun call_resolver :: "resolver \<Rightarrow> registry \<Rightarrow> string option \<Rightarrow> string option" where
  "call_resolver Passthrough reg impersonate = impersonate"
| "call_resolver ResolveRegistered reg impersonate = resolve_registered reg impersonate"

definition get_impersonate_resolver :: "registry \<Rightarrow> resolver" where
  "get_impersonate_resolver reg = reg_resolver reg"

definition resolve_impersonate :: "registry \<Rightarrow> string option \<Rightarrow> string option" where
  "resolve_impersonate reg impersonate = call_resolver (reg_resolver reg) reg impersonate"

section \<open>Manifest validation\<close>

text \<open>What \<open>toml.load\<close> can return, as far as the validation looks.\<close>

datatype toml =
    TomlStr string
  | TomlInt int
  | TomlBool bool
  | TomlOther
  | TomlTable "(string \<times> toml) list"

definition is_hint_char :: "char \<Rightarrow> bool" where
  "is_hint_char c \<longleftrightarrow>
     (let n = (of_char c :: nat)
      in (65 \<le> n \<and> n \<le> 90) \<or> (97 \<le> n \<and> n \<le> 122) \<or> (48 \<le> n \<and> n \<le> 57) \<or> n = 45)"

definition client_hint_name_re :: "string \<Rightarrow> bool" where
  "client_hint_name_re name \<longleftrightarrow> name \<noteq> [] \<and> list_all is_hint_char name"

definition legacy_client_hint_names :: "string list" where
  "legacy_client_hint_names =
     [''device-memory'', ''downlink'', ''dpr'', ''ect'', ''rtt'', ''save-data'', ''viewport-width'', ''width'']"

fun validate_hint_items :: "(string \<times> toml) list \<Rightarrow> profile_error + (string \<times> string) list" where
  "validate_hint_items [] = Inr []"
| "validate_hint_items ((name, hint_value) # rest) =
     (if \<not> client_hint_name_re name
      then Inl (ProfileManifestError ''Client Hint names must be HTTP tokens'')
      else if \<not> starts_with ''sec-ch-'' (lower name) \<and> lower name \<notin> set legacy_client_hint_names
      then Inl (ProfileManifestError ''Unsupported Client Hint name'')
      else (case hint_value of
              TomlStr v \<Rightarrow>
                (case validate_hint_items rest of Inl e \<Rightarrow> Inl e | Inr items \<Rightarrow> Inr ((name, v) # items))
            | _ \<Rightarrow> Inl (ProfileManifestError ''Client Hint values must be strings'')))"

fun validate_client_hints :: "toml \<Rightarrow> profile_error + (string \<times> string) list" where
  "validate_client_hints (TomlTable items) = validate_hint_items items"
| "validate_client_hints _ = Inl (ProfileManifestError ''Client Hints must be a table'')"

definition register_profile ::
  "registry \<Rightarrow> string \<Rightarrow> string \<Rightarrow> bool \<Rightarrow> toml \<Rightarrow> profile_error + (registry \<times> profile_spec)" where
  "register_profile reg name impersonate replace client_hints =
     (case validate_client_hints client_hints of
        Inl e \<Rightarrow> Inl e
      | Inr hints \<Rightarrow>
          register reg \<lparr>ps_name = name, ps_impersonate = impersonate, ps_client_hints = hints\<rparr> replace)"

text \<open>One entry of the manifest's \<open>[profiles]\<close> table: its target and its hints.\<close>

fun profile_definition :: "toml \<Rightarrow> profile_error + (toml option \<times> (string \<times> string) list)" where
  "profile_definition (TomlStr target) = Inr (Some (TomlStr target), [])"
| "profile_definition (TomlTable entries) =
     (if \<exists>k \<in> set (keys entries). k \<notin> {''impersonate'', ''client_hints''}
      then Inl (ProfileManifestError ''Unknown profile entries'')
      else (case validate_client_hints (dict_get entries ''client_hints'' (TomlTable [])) of
              Inl e \<Rightarrow> Inl e
            | Inr hints \<Rightarrow> Inr (map_of entries ''impersonate'', hints)))"
| "profile_definition _ = Inr (None, [])"

fun validate_profile_items :: "(string \<times> toml) list \<Rightarrow> profile_error + profile_spec list" where
  "validate_profile_items [] = Inr []"
| "validate_profile_items ((name, definition) # rest) =
     (if strip name = [] then Inl (ProfileManifestError ''Manifest profile names must be non-empty strings'')
      else (case profile_definition definition of
              Inl e \<Rightarrow> Inl e
            | Inr (target, hints) \<Rightarrow>
                (case target of
                   Some (TomlStr t) \<Rightarrow>
                     (if strip t = [] then Inl (ProfileManifestError ''Manifest profile targets must be non-empty strings'')
                      else (case validate_profile_items rest of
                              Inl e \<Rightarrow> Inl e
                            | Inr ps \<Rightarrow>
                                Inr (\<lparr>ps_name = name, ps_impersonate = t, ps_client_hints = hints\<rparr> # ps)))
                 | _ \<Rightarrow> Inl (ProfileManifestError ''Manifest profile targets must be non-empty strings''))))"

definition validate_manifest_profiles :: "toml option \<Rightarrow> profile_error + profile_spec list" where
  "validate_manifest_profiles value =
     (case value of
        Some (TomlTable items) \<Rightarrow> validate_profile_items items
      | _ \<Rightarrow> Inl (ProfileManifestError ''Manifest [profiles] must be a table''))"

text \<open>\<open>schema_version == 1\<close> in Python also holds of \<open>True\<close>.\<close>

definition schema_version_ok :: "toml option \<Rightarrow> bool" where
  "schema_version_ok v \<longleftrightarrow> v = Some (TomlInt 1) \<or> v = Some (TomlBool True)"

text \<open>
  The list comprehension that registers the validated profiles: a conflict raises with the
  earlier profiles already registered, so the registry is returned on both paths.
\<close>

fun register_all :: "registry \<Rightarrow> profile_spec list \<Rightarrow> registry \<times> (profile_error + profile_spec list)" where
  "register_all reg [] = (reg, Inr [])"
| "register_all reg (p # ps) =
     (case register reg p False of
        Inl e \<Rightarrow> (reg, Inl e)
      | Inr (reg', q) \<Rightarrow>
          (case register_all reg' ps of
             (reg'', Inl e) \<Rightarrow> (reg'', Inl e)
           | (reg'', Inr qs) \<Rightarrow> (reg'', Inr (q # qs))))"

text \<open>The manifest file is absent, unreadable, or holds a table.\<close>

datatype manifest_file = NoManifest | Unreadable | Manifest "(string \<times> toml) list"

fun load_profile_manifest ::
  "manifest_file \<Rightarrow> registry \<Rightarrow> registry \<times> (profile_error + profile_spec list)" where
  "load_profile_manifest NoManifest reg = (reg, Inr [])"
| "load_profile_manifest Unreadable reg =
     (reg, Inl (ProfileManifestError ''Unable to read profile manifest''))"
| "load_profile_manifest (Manifest manifest) reg =
     (if \<not> schema_version_ok (map_of manifest ''schema_version'')
      then (reg, Inl (ProfileManifestError ''Unsupported profile manifest schema_version''))
      else (case validate_manifest_profiles (map_of manifest ''profiles'') of
              Inl e \<Rightarrow> (reg, Inl e)
            | Inr profiles \<Rightarrow> register_all reg profiles))"

section \<open>Invariant and behaviour\<close>

text \<open>
  Every alias is stored under its own non-empty name with a non-empty target, and the resolving
  callback is installed exactly when something is registered.
\<close>

definition registry_inv :: "registry \<Rightarrow> bool" where
  "registry_inv reg \<longleftrightarrow>
     dict_wf (reg_profiles reg) \<and>
     (\<forall>n p. map_of (reg_profiles reg) n = Some p \<longrightarrow>
        ps_name p = n \<and> ps_name p \<noteq> [] \<and> ps_impersonate p \<noteq> []) \<and>
     (reg_has_registered reg \<longleftrightarrow> reg_profiles reg \<noteq> []) \<and>
     (reg_resolver reg = (if reg_has_registered reg then ResolveRegistered else Passthrough))"

lemma registry_inv_empty [simp, inv_intros]: "registry_inv empty_registry"
  by (simp add: registry_inv_def empty_registry_def)

lemma dict_set_nonempty [simp]: "dict_set d k v \<noteq> []"
  by (cases d) (auto split: if_splits)

lemma register_cases:
  assumes "register reg p r = Inr (reg', q)"
  obtains (same) "q = p" "reg' = reg" "map_of (reg_profiles reg) (ps_name p) = Some p"
    "ps_name p \<noteq> []" "ps_impersonate p \<noteq> []"
  | (new) "q = p" "ps_name p \<noteq> []" "ps_impersonate p \<noteq> []"
    "reg_profiles reg' = dict_set (reg_profiles reg) (ps_name p) p"
    "reg_has_registered reg'"
    "reg_resolver reg' = (if reg_has_registered reg then reg_resolver reg else ResolveRegistered)"
    "map_of (reg_profiles reg) (ps_name p) = None \<or> r"
  using assms by (auto simp: register_def Let_def split: if_splits)

lemma registry_inv_register [inv_intros]:
  assumes "registry_inv reg" and "register reg p r = Inr (reg', q)"
  shows "registry_inv reg'"
  using assms(2)
proof (cases rule: register_cases)
  case new
  with assms(1) show ?thesis
    by (auto simp: registry_inv_def split: if_splits)
qed (use assms(1) in simp)

lemma registry_inv_register_all [inv_intros]:
  "registry_inv reg \<Longrightarrow> registry_inv (fst (register_all reg ps))"
proof (induction ps arbitrary: reg)
  case (Cons p ps)
  show ?case
  proof (cases "register reg p False")
    case (Inr a)
    then obtain reg' q where a: "register reg p False = Inr (reg', q)" by (cases a) auto
    with Cons.prems have "registry_inv reg'" by (blast intro: inv_intros)
    then have "registry_inv (fst (register_all reg' ps))" by (rule Cons.IH)
    with a show ?thesis by (auto split: prod.splits sum.splits)
  qed (use Cons.prems in simp)
qed simp

lemma registry_inv_load [inv_intros]:
  "registry_inv reg \<Longrightarrow> registry_inv (fst (load_profile_manifest m reg))"
  by (cases m) (auto intro: inv_intros split: sum.splits)

text \<open>A known alias is never changed by a registration that does not ask to replace it.\<close>

lemma register_keeps:
  assumes "register reg p False = Inr (reg', q)" and "map_of (reg_profiles reg) n = Some s"
  shows "map_of (reg_profiles reg') n = Some s"
  using assms(1) by (cases rule: register_cases) (use assms(2) in auto)

lemma register_all_keeps:
  "map_of (reg_profiles reg) n = Some s \<Longrightarrow>
   map_of (reg_profiles (fst (register_all reg ps))) n = Some s"
proof (induction ps arbitrary: reg)
  case (Cons p ps)
  show ?case
  proof (cases "register reg p False")
    case (Inr a)
    then obtain reg' q where a: "register reg p False = Inr (reg', q)" by (cases a) auto
    from register_keeps [OF a Cons.prems] have "map_of (reg_profiles reg') n = Some s" .
    then have "map_of (reg_profiles (fst (register_all reg' ps))) n = Some s" by (rule Cons.IH)
    with a show ?thesis by (auto split: prod.splits sum.splits)
  qed (use Cons.prems in simp)
qed simp

lemma register_all_registers:
  "snd (register_all reg ps) = Inr qs \<Longrightarrow>
   qs = ps \<and> (\<forall>p \<in> set ps. map_of (reg_profiles (fst (register_all reg ps))) (ps_name p) = Some p)"
proof (induction ps arbitrary: reg qs)
  case (Cons p ps)
  from Cons.prems obtain reg' q qs' where r: "register reg p False = Inr (reg', q)"
    and rs: "snd (register_all reg' ps) = Inr qs'" and qs: "qs = q # qs'"
    by (auto split: sum.splits prod.splits)
  from r have p: "map_of (reg_profiles reg') (ps_name p) = Some p" and q: "q = p"
    by (cases rule: register_cases; simp)+
  from Cons.IH [OF rs] rs obtain reg'' where rest: "register_all reg' ps = (reg'', Inr ps)"
    and all: "\<forall>p \<in> set ps. map_of (reg_profiles reg'') (ps_name p) = Some p"
    by (cases "register_all reg' ps") auto
  with register_all_keeps [OF p, of ps] have "map_of (reg_profiles reg'') (ps_name p) = Some p"
    by simp
  with rest all r rs qs q show ?case by auto
qed simp

lemma validate_profile_items_targets:
  "validate_profile_items items = Inr ps \<Longrightarrow> p \<in> set ps \<Longrightarrow>
   strip (ps_name p) \<noteq> [] \<and> strip (ps_impersonate p) \<noteq> []"
proof (induction items arbitrary: ps)
  case (Cons item rest)
  then show ?case
    by (cases item) (auto split: if_splits sum.splits prod.splits option.splits toml.splits)
qed simp

lemma validate_hint_items_names:
  "validate_hint_items items = Inr hs \<Longrightarrow> (n, v) \<in> set hs \<Longrightarrow>
   client_hint_name_re n \<and> (starts_with ''sec-ch-'' (lower n) \<or> lower n \<in> set legacy_client_hint_names)"
proof (induction items arbitrary: hs)
  case (Cons item rest)
  then show ?case
    by (cases item) (auto split: if_splits sum.splits toml.splits)
qed simp

end
