(* ===== verification/ClientHints.thy ===== *)
theory ClientHints
  imports Profiles
begin

text \<open>
  Client Hint state of one HTTP session (\<open>core/client_hints.py\<close>) and the interceptor that feeds
  it from responses and enriches later requests (\<open>interceptors/client_hints.py\<close>).  The split of a
  URL by \<open>urllib\<close> is an input, and so is what a spider's resolver returns.
\<close>

section \<open>Origins and header values\<close>

text \<open>What \<open>urlsplit\<close> yields: reading \<open>port\<close> raises ValueError for a malformed port.\<close>

record url_parts =
  up_scheme :: string
  up_hostname :: "string option"
  up_port :: "nat option option"

definition client_hint_origin :: "url_parts \<Rightarrow> profile_error + string option" where
  "client_hint_origin parsed =
     (case up_hostname parsed of
        None \<Rightarrow> Inr None
      | Some h \<Rightarrow>
          (if lower (up_scheme parsed) \<noteq> ''https'' \<or> h = [] then Inr None
           else let host = lower h in
             (case up_port parsed of
                None \<Rightarrow> Inl (ValueError ''Port could not be cast to integer value'')
              | Some port \<Rightarrow>
                  Inr (Some (if port = None \<or> port = Some 443 then ''https://'' @ host
                             else ''https://'' @ host @ '':'' @ str_nat (the port))))))"

fun parse_names :: "(string, string) pydict \<Rightarrow> string list \<Rightarrow> (string, string) pydict" where
  "parse_names result [] = result"
| "parse_names result (item # rest) =
     (let name = strip item
      in parse_names (if name \<noteq> [] then dict_set result (lower name) name else result) rest)"

definition parse_client_hint_names :: "string \<Rightarrow> (string, string) pydict" where
  "parse_client_hint_names value = parse_names [] (split_on CHR '','' value)"

section \<open>The state of a session\<close>

record origin_hints =
  oh_requested :: "(string, string) pydict"
  oh_runtime_values :: "(string, (string, string) pydict) pydict"

record hints_state =
  hs_origins :: "(string, origin_hints) pydict"
  hs_warned :: "string set"

definition fresh_origin :: origin_hints where
  "fresh_origin = \<lparr>oh_requested = [], oh_runtime_values = []\<rparr>"

definition init_hints :: hints_state where
  "init_hints = \<lparr>hs_origins = [], hs_warned = {}\<rparr>"

definition native_default_client_hints :: "string list" where
  "native_default_client_hints = [''sec-ch-ua'', ''sec-ch-ua-mobile'', ''sec-ch-ua-platform'']"

definition replace_requested :: "hints_state \<Rightarrow> string \<Rightarrow> (string, string) pydict \<Rightarrow> hints_state" where
  "replace_requested s origin names =
     s\<lparr>hs_origins := dict_set (hs_origins s) origin
         ((dict_get (hs_origins s) origin fresh_origin)\<lparr>oh_requested := names\<rparr>)\<rparr>"

definition nul :: char where
  "nul = CHR 0x00"

definition clear_origin :: "hints_state \<Rightarrow> string \<Rightarrow> hints_state" where
  "clear_origin s origin =
     s\<lparr>hs_origins := dict_pop (hs_origins s) origin,
       hs_warned := {key \<in> hs_warned s. \<not> starts_with (origin @ [nul]) key}\<rparr>"

definition requested_names :: "hints_state \<Rightarrow> string \<Rightarrow> (string, string) pydict" where
  "requested_names s origin =
     (case map_of (hs_origins s) origin of None \<Rightarrow> [] | Some st \<Rightarrow> oh_requested st)"

definition set_runtime_value :: "hints_state \<Rightarrow> string \<Rightarrow> string \<Rightarrow> string \<Rightarrow> string \<Rightarrow> hints_state" where
  "set_runtime_value s origin profile name value =
     (let st = dict_get (hs_origins s) origin fresh_origin;
          values = dict_get (oh_runtime_values st) profile []
      in s\<lparr>hs_origins := dict_set (hs_origins s) origin
             (st\<lparr>oh_runtime_values := dict_set (oh_runtime_values st) profile
                   (dict_set values (lower name) value)\<rparr>)\<rparr>)"

definition runtime_value :: "hints_state \<Rightarrow> string \<Rightarrow> string \<Rightarrow> string \<Rightarrow> string option" where
  "runtime_value s origin profile normalized =
     (case map_of (hs_origins s) origin of
        None \<Rightarrow> None
      | Some st \<Rightarrow> map_of (dict_get (oh_runtime_values st) profile []) normalized)"

definition get_value :: "hints_state \<Rightarrow> string \<Rightarrow> string \<Rightarrow> string \<Rightarrow> registry \<Rightarrow> string option" where
  "get_value s origin profile name reg =
     (case runtime_value s origin profile (lower name) of
        Some v \<Rightarrow> Some v
      | None \<Rightarrow>
          (case registry_get reg profile of
             None \<Rightarrow> None
           | Some spec \<Rightarrow> get_client_hint spec name))"

definition headers_for_request ::
  "hints_state \<Rightarrow> string \<Rightarrow> string \<Rightarrow> registry \<Rightarrow> (string \<times> string) list" where
  "headers_for_request s origin profile reg =
     List.maps (\<lambda>(normalized, requested_name).
         if normalized \<in> set native_default_client_hints then []
         else (case get_value s origin profile normalized reg of
                 None \<Rightarrow> []
               | Some value \<Rightarrow> [(requested_name, value)]))
       (requested_names s origin)"

definition warn_key :: "string \<Rightarrow> string \<Rightarrow> string \<Rightarrow> string" where
  "warn_key origin profile name = origin @ [nul] @ profile @ [nul] @ lower name"

definition mark_warned :: "hints_state \<Rightarrow> string \<Rightarrow> string \<Rightarrow> string \<Rightarrow> hints_state \<times> bool" where
  "mark_warned s origin profile name =
     (let key = warn_key origin profile name
      in if key \<in> hs_warned s then (s, False)
         else (s\<lparr>hs_warned := insert key (hs_warned s)\<rparr>, True))"

section \<open>Snapshots\<close>

text \<open>JSON values, as \<open>json.loads\<close> returns them.\<close>

datatype json =
    JNull
  | JBool bool
  | JInt int
  | JStr string
  | JList "json list"
  | JObj "(string \<times> json) list"

definition str_dict_json :: "(string, string) pydict \<Rightarrow> json" where
  "str_dict_json d = JObj (map (\<lambda>(k, v). (k, JStr v)) d)"

definition export_state :: "hints_state \<Rightarrow> json" where
  "export_state s =
     JObj [(''origins'',
       JObj (map (\<lambda>(origin, st).
         (origin, JObj [(''requested'', str_dict_json (oh_requested st)),
                        (''runtime_values'',
                          JObj (map (\<lambda>(profile, values). (profile, str_dict_json values))
                                 (oh_runtime_values st)))]))
         (hs_origins s)))]"

text \<open>
  \<open>str(value)\<close>: a string is itself, the text of any other value is the argument \<open>repr\<close>.
\<close>

fun py_str :: "(json \<Rightarrow> string) \<Rightarrow> json \<Rightarrow> string" where
  "py_str repr (JStr s) = s"
| "py_str repr j = repr j"

fun clean_dict :: "(json \<Rightarrow> string) \<Rightarrow> (string, string) pydict \<Rightarrow> (string \<times> json) list \<Rightarrow> (string, string) pydict" where
  "clean_dict repr acc [] = acc"
| "clean_dict repr acc ((name, value) # rest) =
     clean_dict repr (dict_set acc (lower name) (py_str repr value)) rest"

fun clean_profiles ::
  "(json \<Rightarrow> string) \<Rightarrow> (string, (string, string) pydict) pydict \<Rightarrow> (string \<times> json) list \<Rightarrow>
   (string, (string, string) pydict) pydict" where
  "clean_profiles repr acc [] = acc"
| "clean_profiles repr acc ((profile, JObj values) # rest) =
     clean_profiles repr (dict_set acc profile (clean_dict repr [] values)) rest"
| "clean_profiles repr acc (_ # rest) = clean_profiles repr acc rest"

fun clean_origins ::
  "(json \<Rightarrow> string) \<Rightarrow> (string, origin_hints) pydict \<Rightarrow> (string \<times> json) list \<Rightarrow> (string, origin_hints) pydict" where
  "clean_origins repr acc [] = acc"
| "clean_origins repr acc ((origin, JObj raw_state) # rest) =
     (case (dict_get raw_state ''requested'' (JObj []), dict_get raw_state ''runtime_values'' (JObj [])) of
        (JObj requested, JObj runtime_values) \<Rightarrow>
          clean_origins repr
            (dict_set acc origin
               \<lparr>oh_requested = clean_dict repr [] requested,
                oh_runtime_values = clean_profiles repr [] runtime_values\<rparr>) rest
      | _ \<Rightarrow> clean_origins repr acc rest)"
| "clean_origins repr acc (_ # rest) = clean_origins repr acc rest"

definition import_state :: "(json \<Rightarrow> string) \<Rightarrow> hints_state \<Rightarrow> json \<Rightarrow> hints_state" where
  "import_state repr s payload =
     (case payload of
        JObj entries \<Rightarrow>
          (case map_of entries ''origins'' of
             Some (JObj origins) \<Rightarrow>
               \<lparr>hs_origins = clean_origins repr [] origins, hs_warned = {}\<rparr>
           | _ \<Rightarrow> s)
      | _ \<Rightarrow> s)"

section \<open>The interceptor\<close>

text \<open>
  \<open>request.headers\<close> is a mapping, a list whose items may or may not be pairs, or any other
  object, which cannot take a header.
\<close>

datatype header_box =
    HMap "(string, string) pydict"
  | HList "(string \<times> string) option list"
  | HOther

fun has_request_header :: "header_box \<Rightarrow> string \<Rightarrow> bool" where
  "has_request_header (HMap d) name \<longleftrightarrow> (\<exists>key \<in> set (keys d). lower key = lower name)"
| "has_request_header (HList items) name \<longleftrightarrow>
     (\<exists>item \<in> set items. case item of None \<Rightarrow> False | Some p \<Rightarrow> lower (fst p) = lower name)"
| "has_request_header HOther name \<longleftrightarrow> False"

fun append_request_header :: "header_box \<Rightarrow> string \<Rightarrow> string \<Rightarrow> header_box option" where
  "append_request_header (HMap d) name value = Some (HMap (dict_set d name value))"
| "append_request_header (HList items) name value = Some (HList (items @ [Some (name, value)]))"
| "append_request_header HOther name value = None"

fun inject_headers ::
  "hints_state \<Rightarrow> string \<Rightarrow> string \<Rightarrow> header_box \<Rightarrow> (string \<times> string) list \<Rightarrow> hints_state \<times> header_box" where
  "inject_headers s origin profile h [] = (s, h)"
| "inject_headers s origin profile h ((name, value) # rest) =
     (if has_request_header h name then inject_headers s origin profile h rest
      else (case append_request_header h name value of
              Some h' \<Rightarrow> inject_headers s origin profile h' rest
            | None \<Rightarrow> (fst (mark_warned s origin profile ''invalid-header-container''), h)))"

text \<open>
  \<open>origin\<close> is the result of \<open>client_hint_origin(request.url)\<close>; the headers arrive as \<open>None\<close> when
  the request has none, and are then created as an empty mapping.
\<close>

definition request_intercept ::
  "hints_state \<Rightarrow> string option \<Rightarrow> string option \<Rightarrow> registry \<Rightarrow> header_box option \<Rightarrow>
   hints_state \<times> header_box option" where
  "request_intercept s origin impersonate reg headers =
     (case (impersonate, origin) of
        (Some profile, Some orig) \<Rightarrow>
          (if profile = [] then (s, headers)
           else
             let h = (case headers of None \<Rightarrow> HMap [] | Some h \<Rightarrow> h);
                 (s', h') = inject_headers s orig profile h (headers_for_request s orig profile reg)
             in (s', Some h'))
      | _ \<Rightarrow> (s, headers))"

definition header_values :: "(string \<times> string) list \<Rightarrow> string \<Rightarrow> string list option" where
  "header_values items name =
     (let values = map snd (filter (\<lambda>p. lower (fst p) = lower name) items)
      in if values = [] then None else Some values)"

fun resolve_requested ::
  "(string \<Rightarrow> string option) \<Rightarrow> registry \<Rightarrow> string \<Rightarrow> string \<Rightarrow> hints_state \<Rightarrow> (string \<times> string) list \<Rightarrow> hints_state" where
  "resolve_requested resolver reg origin profile s [] = s"
| "resolve_requested resolver reg origin profile s ((normalized, requested_name) # rest) =
     resolve_requested resolver reg origin profile
       (if normalized \<in> set native_default_client_hints then s
        else if get_value s origin profile normalized reg \<noteq> None then s
        else (case resolver requested_name of
                Some value \<Rightarrow> set_runtime_value s origin profile normalized value
              | None \<Rightarrow> fst (mark_warned s origin profile normalized))) rest"

definition response_intercept ::
  "(string \<Rightarrow> string option) \<Rightarrow> registry \<Rightarrow> hints_state \<Rightarrow> string option \<Rightarrow> string option \<Rightarrow>
   (string \<times> string) list \<Rightarrow> hints_state" where
  "response_intercept resolver reg s origin impersonate headers =
     (case (impersonate, origin) of
        (Some profile, Some orig) \<Rightarrow>
          (if profile = [] then s
           else
             let clear_values = (case header_values headers ''Clear-Site-Data'' of None \<Rightarrow> [] | Some vs \<Rightarrow> vs);
                 s1 = (if \<exists>value \<in> set clear_values. contains ([CHR 0x22] @ ''clienthints'' @ [CHR 0x22]) (lower value)
                       then clear_origin s orig else s)
             in (case header_values headers ''Accept-CH'' of
                   None \<Rightarrow> s1
                 | Some accept_values \<Rightarrow>
                     let requested = parse_client_hint_names (join '','' accept_values)
                     in resolve_requested resolver reg orig profile
                          (replace_requested s1 orig requested) requested))
      | _ \<Rightarrow> s)"

section \<open>Invariant\<close>

text \<open>
  Every stored name is in lower case and every dictionary has distinct keys; this is what the
  case-insensitive lookups rely on, and what a snapshot must bring back.
\<close>

definition lowered :: "(string, 'v) pydict \<Rightarrow> bool" where
  "lowered d \<longleftrightarrow> dict_wf d \<and> (\<forall>k \<in> set (keys d). lower k = k)"

definition origin_ok :: "origin_hints \<Rightarrow> bool" where
  "origin_ok st \<longleftrightarrow> lowered (oh_requested st) \<and> dict_wf (oh_runtime_values st) \<and>
     (\<forall>p \<in> set (oh_runtime_values st). lowered (snd p))"

definition hints_inv :: "hints_state \<Rightarrow> bool" where
  "hints_inv s \<longleftrightarrow> dict_wf (hs_origins s) \<and> (\<forall>p \<in> set (hs_origins s). origin_ok (snd p))"

lemma lowered_Nil [simp]: "lowered []"
  by (simp add: lowered_def)

lemma lowered_set [intro, inv_intros]: "lowered d \<Longrightarrow> lowered (dict_set d (lower k) v)"
  by (simp add: lowered_def del: set_map)

lemma origin_ok_fresh [simp]: "origin_ok fresh_origin"
  by (simp add: origin_ok_def fresh_origin_def)

lemma hints_inv_init [simp, inv_intros]: "hints_inv init_hints"
  by (simp add: hints_inv_def init_hints_def)

lemma hints_inv_origin: "hints_inv s \<Longrightarrow> origin_ok (dict_get (hs_origins s) o1 fresh_origin)"
  using dict_get_cases [of "hs_origins s" o1 fresh_origin] by (auto simp: hints_inv_def)

lemma hints_inv_update:
  "hints_inv s \<Longrightarrow> origin_ok st \<Longrightarrow> hints_inv (s\<lparr>hs_origins := dict_set (hs_origins s) origin st\<rparr>)"
  by (auto simp: hints_inv_def dest: in_set_dict_setD)

lemma hints_inv_replace [inv_intros]:
  "hints_inv s \<Longrightarrow> lowered names \<Longrightarrow> hints_inv (replace_requested s origin names)"
  unfolding replace_requested_def
  by (rule hints_inv_update) (use hints_inv_origin [of s origin] in \<open>auto simp: origin_ok_def\<close>)

lemma hints_inv_clear [inv_intros]: "hints_inv s \<Longrightarrow> hints_inv (clear_origin s origin)"
  by (auto simp: hints_inv_def clear_origin_def) (auto simp: dict_pop_def)

lemma hints_inv_set_runtime [inv_intros]:
  assumes "hints_inv s"
  shows "hints_inv (set_runtime_value s origin profile name value)"
proof -
  let ?st = "dict_get (hs_origins s) origin fresh_origin"
  let ?vals = "dict_get (oh_runtime_values ?st) profile []"
  have st: "origin_ok ?st" using assms by (rule hints_inv_origin)
  then have "lowered ?vals"
    using dict_get_cases [of "oh_runtime_values ?st" profile "[]"] by (auto simp: origin_ok_def)
  then have "lowered (dict_set ?vals (lower name) value)" by (rule lowered_set)
  with st have "origin_ok (?st\<lparr>oh_runtime_values :=
      dict_set (oh_runtime_values ?st) profile (dict_set ?vals (lower name) value)\<rparr>)"
    by (auto simp: origin_ok_def dest!: in_set_dict_setD)
  with assms show ?thesis
    by (simp add: set_runtime_value_def Let_def hints_inv_update)
qed

lemma hints_inv_mark [inv_intros]: "hints_inv s \<Longrightarrow> hints_inv (fst (mark_warned s origin profile name))"
  by (simp add: mark_warned_def Let_def hints_inv_def)

lemma lowered_parse_names: "lowered r \<Longrightarrow> lowered (parse_names r items)"
  by (induction items arbitrary: r) (auto simp: Let_def intro: lowered_set)

lemma lowered_parse [simp, inv_intros]: "lowered (parse_client_hint_names value)"
  by (simp add: parse_client_hint_names_def lowered_parse_names)

lemma hints_inv_resolve [inv_intros]:
  "hints_inv s \<Longrightarrow> hints_inv (resolve_requested resolver reg origin profile s items)"
proof (induction items arbitrary: s)
  case (Cons item items)
  then show ?case
    by (cases item) (auto intro!: Cons.IH inv_intros split: option.splits)
qed simp

lemma hints_inv_response [inv_intros]:
  "hints_inv s \<Longrightarrow> hints_inv (response_intercept resolver reg s origin impersonate headers)"
  by (auto simp: response_intercept_def Let_def intro!: inv_intros split: option.splits)

lemma hints_inv_inject [inv_intros]:
  "hints_inv s \<Longrightarrow> hints_inv (fst (inject_headers s origin profile h items))"
  by (induction s origin profile h items rule: inject_headers.induct)
     (auto intro: inv_intros split: option.splits)

lemma hints_inv_request [inv_intros]:
  assumes "hints_inv s"
  shows "hints_inv (fst (request_intercept s origin impersonate reg headers))"
proof -
  have "hints_inv s'" if "inject_headers s orig p h items = (s', h')" for orig p h items s' h'
    using hints_inv_inject [OF assms, of orig p h items] that by simp
  with assms show ?thesis
    by (auto simp: request_intercept_def Let_def split: option.splits prod.splits)
qed

section \<open>Snapshots\<close>

lemma clean_dict_strings:
  "distinct (keys acc @ keys d) \<Longrightarrow> \<forall>k \<in> set (keys d). lower k = k \<Longrightarrow>
   clean_dict repr acc (map (\<lambda>(k, v). (k, JStr v)) d) = acc @ d"
  by (induction d arbitrary: acc) (auto simp: dict_set_append_new)

lemma clean_dict_lowered:
  "lowered d \<Longrightarrow> clean_dict repr [] (map (\<lambda>(k, v). (k, JStr v)) d) = d"
  by (simp add: clean_dict_strings lowered_def)

lemma clean_profiles_export:
  "distinct (keys acc @ keys ps) \<Longrightarrow> \<forall>p \<in> set ps. lowered (snd p) \<Longrightarrow>
   clean_profiles repr acc (map (\<lambda>(profile, values). (profile, str_dict_json values)) ps) = acc @ ps"
  by (induction ps arbitrary: acc)
     (auto simp: dict_set_append_new str_dict_json_def clean_dict_lowered)

lemma clean_origins_export:
  "distinct (keys acc @ keys os) \<Longrightarrow> \<forall>p \<in> set os. origin_ok (snd p) \<Longrightarrow>
   clean_origins repr acc
     (map (\<lambda>(origin, st).
        (origin, JObj [(''requested'', str_dict_json (oh_requested st)),
                       (''runtime_values'',
                         JObj (map (\<lambda>(profile, values). (profile, str_dict_json values))
                                (oh_runtime_values st)))])) os) = acc @ os"
proof (induction os arbitrary: acc)
  case (Cons p os)
  obtain origin st where p: "p = (origin, st)" by (cases p)
  with Cons.prems have "lowered (oh_requested st)"
    and "dict_wf (oh_runtime_values st)" "\<forall>q \<in> set (oh_runtime_values st). lowered (snd q)"
    by (auto simp: origin_ok_def)
  then have "clean_dict repr [] (map (\<lambda>(k, v). (k, JStr v)) (oh_requested st)) = oh_requested st"
    and "clean_profiles repr [] (map (\<lambda>(profile, values). (profile, str_dict_json values))
           (oh_runtime_values st)) = oh_runtime_values st"
    by (simp_all add: clean_dict_lowered clean_profiles_export)
  with Cons p show ?case
    by (auto simp: dict_get_def str_dict_json_def dict_set_append_new)
qed simp

lemma import_export:
  "hints_inv s \<Longrightarrow> import_state repr s0 (export_state s) = \<lparr>hs_origins = hs_origins s, hs_warned = {}\<rparr>"
  by (simp add: import_state_def export_state_def clean_origins_export hints_inv_def)

lemma lowered_clean: "lowered acc \<Longrightarrow> lowered (clean_dict repr acc items)"
  by (induction repr acc items rule: clean_dict.induct) (auto intro: lowered_set)

lemma clean_profiles_ok:
  "dict_wf acc \<Longrightarrow> \<forall>p \<in> set acc. lowered (snd p) \<Longrightarrow>
   dict_wf (clean_profiles repr acc items) \<and> (\<forall>p \<in> set (clean_profiles repr acc items). lowered (snd p))"
proof (induction repr acc items rule: clean_profiles.induct)
  case (2 repr acc profile vals rest)
  have "\<forall>p \<in> set (dict_set acc profile (clean_dict repr [] vals)). lowered (snd p)"
    using "2.prems" by (auto dest!: in_set_dict_setD simp: lowered_clean)
  with 2 show ?case by simp
qed auto

lemma clean_origins_ok:
  "dict_wf acc \<Longrightarrow> \<forall>p \<in> set acc. origin_ok (snd p) \<Longrightarrow>
   dict_wf (clean_origins repr acc items) \<and> (\<forall>p \<in> set (clean_origins repr acc items). origin_ok (snd p))"
proof (induction items arbitrary: acc)
  case (Cons item items)
  obtain origin raw where item: "item = (origin, raw)" by (cases item)
  have "origin_ok \<lparr>oh_requested = clean_dict repr [] r, oh_runtime_values = clean_profiles repr [] v\<rparr>" for r v
    using clean_profiles_ok [of "[]" repr v] by (simp add: origin_ok_def lowered_clean)
  with Cons.prems have upd: "\<forall>p \<in> set (dict_set acc origin
      \<lparr>oh_requested = clean_dict repr [] r, oh_runtime_values = clean_profiles repr [] v\<rparr>). origin_ok (snd p)" for r v
    by (auto dest!: in_set_dict_setD)
  from Cons.prems item show ?case
    by (cases raw) (auto intro!: Cons.IH upd [rule_format] split: json.splits)
qed simp

lemma hints_inv_import [inv_intros]: "hints_inv s \<Longrightarrow> hints_inv (import_state repr s payload)"
  using clean_origins_ok [of "[]" repr]
  by (auto simp: import_state_def hints_inv_def split: json.splits option.splits)

section \<open>What the interceptor guarantees\<close>

lemma has_header_append:
  "append_request_header h name value = Some h' \<Longrightarrow> has_request_header h' name"
  by (cases h) (auto simp del: set_map)

lemma has_header_mono:
  "append_request_header h name value = Some h' \<Longrightarrow> has_request_header h n \<Longrightarrow> has_request_header h' n"
  by (cases h) (auto simp del: set_map)

lemma inject_mono:
  "has_request_header h n \<Longrightarrow> has_request_header (snd (inject_headers s origin profile h items)) n"
  by (induction s origin profile h items rule: inject_headers.induct)
     (auto split: option.splits dest: has_header_mono)

lemma inject_all:
  "h \<noteq> HOther \<Longrightarrow> (n, v) \<in> set items \<Longrightarrow>
   has_request_header (snd (inject_headers s origin profile h items)) n"
proof (induction s origin profile h items rule: inject_headers.induct)
  case (2 s origin profile h name v0 rest)
  show ?case
  proof (cases "has_request_header h name")
    case True
    with 2 show ?thesis by (auto intro: inject_mono)
  next
    case False
    from "2.prems"(1) obtain h' where h': "append_request_header h name v0 = Some h'" "h' \<noteq> HOther"
      by (cases h) auto
    with False 2 has_header_append [OF h'(1)] show ?thesis by (auto intro: inject_mono)
  qed
qed simp

lemma inject_keeps_values:
  "h = HMap d \<Longrightarrow> map_of d k = Some v \<Longrightarrow>
   \<exists>d'. snd (inject_headers s origin profile h items) = HMap d' \<and> map_of d' k = Some v"
proof (induction s origin profile h items arbitrary: d rule: inject_headers.induct)
  case (2 s origin profile h name v0 rest)
  show ?case
  proof (cases "has_request_header h name")
    case True
    with 2 show ?thesis by simp
  next
    case False
    with "2.prems" have "k \<noteq> name"
      by (auto dest!: map_of_SomeD simp del: set_map) (metis fst_conv image_eqI set_map)
    with False 2 show ?thesis by simp
  qed
qed simp

lemma headers_for_request_not_native:
  "(n, v) \<in> set (headers_for_request s origin profile reg) \<Longrightarrow>
   \<exists>normalized. (normalized, n) \<in> set (requested_names s origin) \<and>
     normalized \<notin> set native_default_client_hints \<and> get_value s origin profile normalized reg = Some v"
  by (auto simp: headers_for_request_def split: if_splits option.splits)

end
