(* ===== verification/WebSockets.thy ===== *)
theory WebSockets
  imports PyStrings
begin

text \<open>
  WebSocket ownership under one HTTP session (\<open>core/sessions.py\<close>): the event that can be set
  before it is bound to a loop, the reference-counted entry with its listener, its pings and its
  close, and the pool keyed by the digest of the URL.  asyncio tasks and sockets are handles
  (natural numbers); what an operation does to them is returned as a list of effects.
\<close>

section \<open>The loop-neutral event\<close>

record neutral_event =
  ne_is_set :: bool
  ne_event :: "bool option"

definition ne_init :: neutral_event where
  "ne_init = \<lparr>ne_is_set = False, ne_event = None\<rparr>"

definition ne_set :: "neutral_event \<Rightarrow> neutral_event" where
  "ne_set e = e\<lparr>ne_is_set := True, ne_event := map_option (\<lambda>_. True) (ne_event e)\<rparr>"

text \<open>
  \<open>wait\<close> either returns at once, or binds an event (unless one is bound) and suspends on it:
  the second component says whether the caller was suspended.
\<close>

definition ne_wait :: "neutral_event \<Rightarrow> neutral_event \<times> bool" where
  "ne_wait e =
     (if ne_is_set e then (e, False)
      else let e' = (case ne_event e of None \<Rightarrow> e\<lparr>ne_event := Some False\<rparr> | Some _ \<Rightarrow> e)
           in (e', ne_event e' \<noteq> Some True))"

definition ne_inv :: "neutral_event \<Rightarrow> bool" where
  "ne_inv e \<longleftrightarrow> (case ne_event e of None \<Rightarrow> True | Some b \<Rightarrow> b = ne_is_set e)"

lemma ne_inv_init [simp, inv_intros]: "ne_inv ne_init"
  by (simp add: ne_inv_def ne_init_def)

lemma ne_inv_set [simp, inv_intros]: "ne_inv e \<Longrightarrow> ne_inv (ne_set e)"
  by (simp add: ne_inv_def ne_set_def split: option.splits)

lemma ne_inv_wait [inv_intros]: "ne_inv e \<Longrightarrow> ne_inv (fst (ne_wait e))"
  by (auto simp: ne_inv_def ne_wait_def Let_def split: option.splits)

lemma ne_is_set_set [simp]: "ne_is_set (ne_set e)"
  by (simp add: ne_set_def)

lemma ne_is_set_wait [simp]: "ne_is_set (fst (ne_wait e)) = ne_is_set e"
  by (auto simp: ne_wait_def Let_def split: option.splits)

text \<open>A suspended waiter is woken by a later \<open>set\<close>: the event it is bound to becomes true.\<close>

lemma ne_no_lost_wakeup:
  "ne_inv e \<Longrightarrow> snd (ne_wait e) \<Longrightarrow> ne_event (ne_set (fst (ne_wait e))) = Some True"
  by (auto simp: ne_inv_def ne_wait_def ne_set_def Let_def split: option.splits if_splits)

lemma ne_wait_suspends_iff: "ne_inv e \<Longrightarrow> snd (ne_wait e) \<longleftrightarrow> \<not> ne_is_set e"
  by (auto simp: ne_inv_def ne_wait_def Let_def split: option.splits)

section \<open>Entries\<close>

type_synonym task_id = nat

record ws_entry =
  we_url :: string
  we_task :: "task_id option"
  we_websocket :: "nat option"
  we_stop_event :: neutral_event
  we_closed_event :: neutral_event
  we_ping_data :: "string option"
  we_ref_count :: int
  we_marked_end :: bool
  we_closed :: bool
  we_ping_task :: "task_id option"

definition new_entry :: "string \<Rightarrow> string option \<Rightarrow> ws_entry" where
  "new_entry url ping_data =
     \<lparr>we_url = url, we_task = None, we_websocket = None,
      we_stop_event = ne_init, we_closed_event = ne_init, we_ping_data = ping_data,
      we_ref_count = 0, we_marked_end = False, we_closed = False, we_ping_task = None\<rparr>"

definition entry_set_listener_task :: "ws_entry \<Rightarrow> task_id \<Rightarrow> ws_entry" where
  "entry_set_listener_task e t = e\<lparr>we_task := Some t\<rparr>"

text \<open>\<open>fresh\<close> is the task \<open>create_task\<close> makes for the ping loop when there is data to send.\<close>

definition entry_set_websocket :: "ws_entry \<Rightarrow> nat \<Rightarrow> task_id \<Rightarrow> ws_entry" where
  "entry_set_websocket e websocket fresh =
     (let e1 = e\<lparr>we_websocket := Some websocket\<rparr>
      in if we_ping_data e1 \<noteq> None \<and> we_ping_task e1 = None
         then e1\<lparr>we_ping_task := Some fresh\<rparr> else e1)"

definition entry_acquire :: "ws_entry \<Rightarrow> ws_entry" where
  "entry_acquire e = e\<lparr>we_ref_count := we_ref_count e + 1\<rparr>"

definition request_stop :: "ws_entry \<Rightarrow> ws_entry" where
  "request_stop e = e\<lparr>we_marked_end := True, we_stop_event := ne_set (we_stop_event e)\<rparr>"

definition entry_release :: "ws_entry \<Rightarrow> ws_entry" where
  "entry_release e =
     (let e1 = e\<lparr>we_ref_count := we_ref_count e - 1\<rparr>
      in if we_marked_end e1 \<and> we_ref_count e1 \<le> 0 then request_stop e1 else e1)"

definition entry_mark_end :: "ws_entry \<Rightarrow> ws_entry" where
  "entry_mark_end e =
     (let e1 = e\<lparr>we_marked_end := True\<rparr>
      in if we_ref_count e1 \<le> 0 then request_stop e1 else e1)"

text \<open>One turn of the ping loop: stop was requested, or the interval elapsed and the send went
  through or failed.  The second component says whether the loop goes on, the third whether a ping
  frame was sent.\<close>

datatype ping_outcome = StopRequested | Elapsed bool

definition ping_turn :: "ws_entry \<Rightarrow> ping_outcome \<Rightarrow> ws_entry \<times> bool \<times> bool" where
  "ping_turn e outcome =
     (if ne_is_set (we_stop_event e) then (e, False, False)
      else (case outcome of
              StopRequested \<Rightarrow> (e, False, False)
            | Elapsed send_ok \<Rightarrow>
                (if we_websocket e = None then (e, True, False)
                 else if send_ok then (e, True, True)
                 else (request_stop e, False, False))))"

datatype ws_effect = CancelPing task_id | CancelListener task_id | CloseSocket nat

text \<open>
  \<open>close\<close>: the part under the lock decides whether this call owns the cleanup; the effects are
  what the owner then does, leaving out the task it runs in; the \<open>finally\<close> publishes the closed
  event on every path, also for the call that found the entry closed already.
\<close>

definition close_enter :: "ws_entry \<Rightarrow> ws_entry \<times> bool" where
  "close_enter e =
     (if we_closed e then (e, False)
      else (e\<lparr>we_closed := True, we_stop_event := ne_set (we_stop_event e)\<rparr>, True))"

definition close_effects :: "task_id option \<Rightarrow> ws_entry \<Rightarrow> ws_effect list" where
  "close_effects current e =
     (case we_ping_task e of None \<Rightarrow> [] | Some t \<Rightarrow> if current = Some t then [] else [CancelPing t]) @
     (case we_task e of None \<Rightarrow> [] | Some t \<Rightarrow> if current = Some t then [] else [CancelListener t]) @
     (case we_websocket e of None \<Rightarrow> [] | Some w \<Rightarrow> [CloseSocket w])"

definition close_exit :: "ws_entry \<Rightarrow> ws_entry" where
  "close_exit e = e\<lparr>we_closed_event := ne_set (we_closed_event e)\<rparr>"

definition entry_close :: "task_id option \<Rightarrow> ws_entry \<Rightarrow> ws_entry \<times> ws_effect list" where
  "entry_close current e =
     (case close_enter e of
        (e1, owner) \<Rightarrow> (close_exit e1, if owner then close_effects current e1 else []))"

text \<open>
  The stop event is set only after an explicit end or a close, and stays set; an end that was
  marked while no reference is held has requested the stop.
\<close>

definition entry_inv :: "ws_entry \<Rightarrow> bool" where
  "entry_inv e \<longleftrightarrow> ne_inv (we_stop_event e) \<and> ne_inv (we_closed_event e) \<and>
     (ne_is_set (we_stop_event e) \<longrightarrow> we_marked_end e \<or> we_closed e) \<and>
     (we_closed e \<longrightarrow> ne_is_set (we_stop_event e)) \<and>
     (we_marked_end e \<and> we_ref_count e \<le> 0 \<longrightarrow> ne_is_set (we_stop_event e))"

lemmas entry_defs = entry_set_listener_task_def entry_set_websocket_def entry_acquire_def
  request_stop_def entry_release_def entry_mark_end_def close_enter_def close_exit_def

lemma entry_inv_new [simp, inv_intros]: "entry_inv (new_entry url ping)"
  by (simp add: entry_inv_def new_entry_def) (simp add: ne_init_def)

lemma entry_inv_ops [inv_intros]:
  assumes "entry_inv e"
  shows "entry_inv (entry_set_listener_task e t)" and "entry_inv (entry_set_websocket e w t)"
    and "entry_inv (entry_acquire e)" and "entry_inv (request_stop e)"
    and "entry_inv (entry_release e)" and "entry_inv (entry_mark_end e)"
    and "entry_inv (fst (close_enter e))" and "entry_inv (close_exit e)"
  using assms by (auto simp: entry_inv_def entry_defs Let_def)

lemma entry_inv_ping [inv_intros]: "entry_inv e \<Longrightarrow> entry_inv (fst (ping_turn e oc))"
  by (auto simp: ping_turn_def intro: entry_inv_ops split: ping_outcome.splits)

lemma entry_inv_close [inv_intros]: "entry_inv e \<Longrightarrow> entry_inv (fst (entry_close c e))"
  by (cases "close_enter e")
     (use entry_inv_ops(7) [of e] in \<open>auto simp: entry_close_def intro: entry_inv_ops\<close>)

text \<open>A run of acquire, release and end requests on one entry.\<close>

datatype ws_op = WsAcquire | WsRelease | WsMarkEnd

fun ws_apply :: "ws_entry \<Rightarrow> ws_op \<Rightarrow> ws_entry" where
  "ws_apply e WsAcquire = entry_acquire e"
| "ws_apply e WsRelease = entry_release e"
| "ws_apply e WsMarkEnd = entry_mark_end e"

fun ws_run :: "ws_entry \<Rightarrow> ws_op list \<Rightarrow> ws_entry" where
  "ws_run e [] = e"
| "ws_run e (x # xs) = ws_run (ws_apply e x) xs"

definition refs_after :: "ws_op list \<Rightarrow> int" where
  "refs_after xs = int (count_list xs WsAcquire) - int (count_list xs WsRelease)"

lemma ws_run_append: "ws_run e (xs @ ys) = ws_run (ws_run e xs) ys"
  by (induction xs arbitrary: e) auto

lemma ws_apply_ref:
  "we_ref_count (ws_apply e x) =
     we_ref_count e + (case x of WsAcquire \<Rightarrow> 1 | WsRelease \<Rightarrow> -1 | WsMarkEnd \<Rightarrow> 0)"
  by (cases x) (auto simp: entry_defs Let_def)

lemma ws_run_ref: "we_ref_count (ws_run e xs) = we_ref_count e + refs_after xs"
proof (induction xs arbitrary: e)
  case (Cons x xs)
  then show ?case
    by (cases x) (auto simp: entry_defs refs_after_def Let_def)
qed (simp add: refs_after_def)

lemma ws_apply_closed [simp]: "we_closed (ws_apply e x) = we_closed e"
  by (cases x) (auto simp: entry_defs Let_def)

lemma ws_apply_stop:
  "ne_is_set (we_stop_event (ws_apply e x)) \<longleftrightarrow>
     ne_is_set (we_stop_event e) \<or>
     (we_marked_end (ws_apply e x) \<and> we_ref_count (ws_apply e x) \<le> 0 \<and> x \<noteq> WsAcquire)"
  by (cases x) (auto simp: entry_defs Let_def)

lemma ws_apply_marked: "we_marked_end (ws_apply e x) \<longleftrightarrow> we_marked_end e \<or> x = WsMarkEnd"
  by (cases x) (auto simp: entry_defs Let_def)

lemma ws_run_marked: "we_marked_end (ws_run e xs) \<longleftrightarrow> we_marked_end e \<or> WsMarkEnd \<in> set xs"
  by (induction xs arbitrary: e) (auto simp: ws_apply_marked)

lemma ws_run_inv: "entry_inv e \<Longrightarrow> entry_inv (ws_run e xs)"
proof (induction xs arbitrary: e)
  case (Cons x xs)
  then show ?case by (cases x) (auto intro: entry_inv_ops)
qed simp

text \<open>
  The stop is requested at the first moment an end is marked and no reference is held, and
  at no other: before that, every prefix of the run leaves the event unset.
\<close>

lemma ws_run_stop_iff:
  assumes "entry_inv e" and "\<not> ne_is_set (we_stop_event e)" and "\<not> we_marked_end e"
  shows "ne_is_set (we_stop_event (ws_run e xs)) \<longleftrightarrow>
    (\<exists>n \<le> length xs. WsMarkEnd \<in> set (take n xs) \<and> we_ref_count e + refs_after (take n xs) \<le> 0)"
proof (induction xs rule: rev_induct)
  case Nil
  then show ?case using assms by simp
next
  case (snoc x xs)
  let ?e = "ws_run e xs"
  have last: "we_marked_end (ws_apply ?e x) \<and> we_ref_count (ws_apply ?e x) \<le> 0 \<longleftrightarrow>
      WsMarkEnd \<in> set (xs @ [x]) \<and> we_ref_count e + refs_after (xs @ [x]) \<le> 0"
    using ws_run_marked [of e "xs @ [x]"] ws_run_ref [of e "xs @ [x]"] assms(3)
    by (simp add: ws_run_append)
  have inv: "entry_inv ?e" using assms(1) by (rule ws_run_inv)
  have acq: "ne_is_set (we_stop_event ?e)"
    if "x = WsAcquire" "we_marked_end (ws_apply ?e x)" "we_ref_count (ws_apply ?e x) \<le> 0"
    using that inv by (auto simp: entry_inv_def entry_acquire_def)
  have "ne_is_set (we_stop_event (ws_run e (xs @ [x]))) \<longleftrightarrow>
      ne_is_set (we_stop_event ?e) \<or> (we_marked_end (ws_apply ?e x) \<and> we_ref_count (ws_apply ?e x) \<le> 0)"
    using acq by (auto simp: ws_run_append ws_apply_stop)
  also have "\<dots> \<longleftrightarrow> (\<exists>n \<le> length (xs @ [x]). WsMarkEnd \<in> set (take n (xs @ [x])) \<and>
      we_ref_count e + refs_after (take n (xs @ [x])) \<le> 0)"
    unfolding snoc last by (auto simp: le_Suc_eq)
  finally show ?case .
qed

section \<open>The pool\<close>

text \<open>\<open>key_of\<close> is the hexadecimal MD5 digest of the URL.\<close>

type_synonym ws_pool = "(string, ws_entry) pydict"

datatype ws_error = NotInitialized

definition pool_init_websocket ::
  "(string \<Rightarrow> string) \<Rightarrow> ws_pool \<Rightarrow> string \<Rightarrow> string option \<Rightarrow> ws_pool \<times> ws_entry" where
  "pool_init_websocket key_of pool url ping_data =
     (let key = key_of url;
          pool' = (if key \<notin> set (keys pool) then dict_set pool key (new_entry url ping_data) else pool)
      in (pool', dict_get pool' key (new_entry url ping_data)))"

definition get_from_key :: "ws_pool \<Rightarrow> string \<Rightarrow> ws_entry option" where
  "get_from_key pool key = map_of pool key"

definition get_from_url :: "(string \<Rightarrow> string) \<Rightarrow> ws_pool \<Rightarrow> string \<Rightarrow> ws_entry option" where
  "get_from_url key_of pool url = get_from_key pool (key_of url)"

definition pool_set_listener_task ::
  "(string \<Rightarrow> string) \<Rightarrow> ws_pool \<Rightarrow> string \<Rightarrow> task_id \<Rightarrow> ws_error + ws_pool" where
  "pool_set_listener_task key_of pool url t =
     (case get_from_url key_of pool url of
        None \<Rightarrow> Inl NotInitialized
      | Some e \<Rightarrow> Inr (dict_set pool (key_of url) (entry_set_listener_task e t)))"

definition pool_set_websocket ::
  "(string \<Rightarrow> string) \<Rightarrow> ws_pool \<Rightarrow> string \<Rightarrow> nat \<Rightarrow> task_id \<Rightarrow> ws_error + (ws_pool \<times> string)" where
  "pool_set_websocket key_of pool url websocket fresh =
     (let key = key_of url in
      case map_of pool key of
        None \<Rightarrow> Inl NotInitialized
      | Some e \<Rightarrow> Inr (dict_set pool key (entry_set_websocket e websocket fresh), key))"

text \<open>\<open>acquire_from_key\<close>, \<open>release_from_key\<close> and \<open>mark_end_from_key\<close>: an unknown key is ignored.\<close>

definition pool_update :: "(ws_entry \<Rightarrow> ws_entry) \<Rightarrow> ws_pool \<Rightarrow> string \<Rightarrow> ws_pool" where
  "pool_update f pool key =
     (case get_from_key pool key of None \<Rightarrow> pool | Some e \<Rightarrow> dict_set pool key (f e))"

definition acquire_from_key :: "ws_pool \<Rightarrow> string \<Rightarrow> ws_pool" where
  "acquire_from_key = pool_update entry_acquire"

definition release_from_key :: "ws_pool \<Rightarrow> string \<Rightarrow> ws_pool" where
  "release_from_key = pool_update entry_release"

definition mark_end_from_key :: "ws_pool \<Rightarrow> string \<Rightarrow> ws_pool" where
  "mark_end_from_key = pool_update entry_mark_end"

definition acquire_from_url :: "(string \<Rightarrow> string) \<Rightarrow> ws_pool \<Rightarrow> string \<Rightarrow> ws_pool" where
  "acquire_from_url key_of pool url = acquire_from_key pool (key_of url)"

definition release_from_url :: "(string \<Rightarrow> string) \<Rightarrow> ws_pool \<Rightarrow> string \<Rightarrow> ws_pool" where
  "release_from_url key_of pool url = release_from_key pool (key_of url)"

definition mark_end_from_url :: "(string \<Rightarrow> string) \<Rightarrow> ws_pool \<Rightarrow> string \<Rightarrow> ws_pool" where
  "mark_end_from_url key_of pool url = mark_end_from_key pool (key_of url)"

definition pool_remove :: "ws_pool \<Rightarrow> string \<Rightarrow> ws_pool \<times> ws_entry option" where
  "pool_remove pool key = (dict_pop pool key, map_of pool key)"

definition remove_from_url :: "(string \<Rightarrow> string) \<Rightarrow> ws_pool \<Rightarrow> string \<Rightarrow> ws_pool \<times> ws_entry option" where
  "remove_from_url key_of pool url = pool_remove pool (key_of url)"

text \<open>Every entry is closed in pool order and the pool is emptied.\<close>

definition pool_close_all :: "task_id option \<Rightarrow> ws_pool \<Rightarrow> ws_pool \<times> ws_effect list" where
  "pool_close_all current pool = ([], List.maps (\<lambda>(k, e). snd (entry_close current e)) pool)"

definition pool_inv :: "(string \<Rightarrow> string) \<Rightarrow> ws_pool \<Rightarrow> bool" where
  "pool_inv key_of pool \<longleftrightarrow> dict_wf pool \<and> (\<forall>(k, e) \<in> set pool. k = key_of (we_url e) \<and> entry_inv e)"

lemma pool_inv_Nil [simp, inv_intros]: "pool_inv key_of []"
  by (simp add: pool_inv_def)

lemma pool_inv_set [inv_intros]:
  "pool_inv key_of pool \<Longrightarrow> entry_inv e \<Longrightarrow> k = key_of (we_url e) \<Longrightarrow> pool_inv key_of (dict_set pool k e)"
  by (auto simp: pool_inv_def dest!: in_set_dict_setD)

lemma pool_inv_get: "pool_inv key_of pool \<Longrightarrow> map_of pool k = Some e \<Longrightarrow> k = key_of (we_url e) \<and> entry_inv e"
  by (auto simp: pool_inv_def dest!: map_of_SomeD)

lemma we_url_ops [simp]:
  "we_url (entry_set_listener_task e t) = we_url e" "we_url (entry_set_websocket e w t) = we_url e"
  "we_url (entry_acquire e) = we_url e" "we_url (entry_release e) = we_url e"
  "we_url (entry_mark_end e) = we_url e" "we_url (new_entry url ping) = url"
  by (simp_all add: entry_defs new_entry_def Let_def)

lemma pool_inv_ops [inv_intros]:
  assumes "pool_inv key_of pool"
  shows "pool_inv key_of (fst (pool_init_websocket key_of pool url ping))"
    and "pool_set_listener_task key_of pool url t = Inr p1 \<Longrightarrow> pool_inv key_of p1"
    and "pool_set_websocket key_of pool url w t = Inr p2 \<Longrightarrow> pool_inv key_of (fst p2)"
    and "pool_inv key_of (acquire_from_key pool k)"
    and "pool_inv key_of (release_from_key pool k)"
    and "pool_inv key_of (mark_end_from_key pool k)"
    and "pool_inv key_of (fst (pool_remove pool k))"
    and "pool_inv key_of (fst (pool_close_all c pool))"
proof -
  show "pool_inv key_of (fst (pool_init_websocket key_of pool url ping))"
    using assms by (auto simp: pool_init_websocket_def Let_def intro: inv_intros)
  show "pool_set_listener_task key_of pool url t = Inr p1 \<Longrightarrow> pool_inv key_of p1"
    using assms by (auto simp: pool_set_listener_task_def get_from_url_def get_from_key_def
        intro!: pool_inv_set entry_inv_ops dest: pool_inv_get split: option.splits)
  show "pool_set_websocket key_of pool url w t = Inr p2 \<Longrightarrow> pool_inv key_of (fst p2)"
    using assms pool_inv_get [OF assms, of "key_of url"] by (auto simp: pool_set_websocket_def Let_def
        intro!: pool_inv_set entry_inv_ops split: option.splits)
  have upd: "pool_inv key_of (pool_update f pool k)"
    if "\<And>e. entry_inv e \<Longrightarrow> entry_inv (f e)" "\<And>e. we_url (f e) = we_url e" for f
    using assms that by (auto simp: pool_update_def get_from_key_def
        intro!: pool_inv_set dest: pool_inv_get split: option.splits)
  show "pool_inv key_of (acquire_from_key pool k)" "pool_inv key_of (release_from_key pool k)"
    "pool_inv key_of (mark_end_from_key pool k)"
    unfolding acquire_from_key_def release_from_key_def mark_end_from_key_def
    by (rule upd; simp add: entry_inv_ops)+
  show "pool_inv key_of (fst (pool_remove pool k))"
    using assms dict_wf_dict_pop [of pool k]
    by (auto simp: pool_inv_def pool_remove_def) (auto simp: dict_pop_def)
  show "pool_inv key_of (fst (pool_close_all c pool))"
    by (simp add: pool_close_all_def)
qed

end
