(* ===== verification/StateCodec.thy ===== *)
theory StateCodec
  imports ClientHints "HOL-Library.Countable"
begin

text \<open>
  The versioned payload of scheduler and session state (\<open>utils/state_codec.py\<close>).  The JSON text of a
  value and the deflate stream come from the standard library's C code: they are the arguments
  \<open>dumps\<close>, \<open>loads\<close>, \<open>compress\<close> and \<open>inflate\<close>, and the round trip names what it needs of them.
\<close>

datatype codec_error = TooLarge | NotBytes | UnsupportedFormat | UnsupportedEncoding | InvalidCompressed | InvalidJson

definition max_state_bytes :: nat where
  "max_state_bytes = 16 * 1024 * 1024"

definition magic :: bytes where
  "magic = [83, 67, 70, 49]"

definition enc_raw :: nat where
  "enc_raw = 74"

definition enc_zlib :: nat where
  "enc_zlib = 90"

definition encode_state ::
  "(json \<Rightarrow> bytes) \<Rightarrow> (nat \<Rightarrow> bytes \<Rightarrow> bytes) \<Rightarrow> json \<Rightarrow> nat \<Rightarrow> nat \<Rightarrow> codec_error + bytes" where
  "encode_state dumps compress v compression_level max_size =
     (let raw = dumps v
      in if max_size < length raw then Inl TooLarge
         else let compressed = compress compression_level raw
              in if length compressed < length raw then Inr (magic @ [enc_zlib] @ compressed)
                 else Inr (magic @ [enc_raw] @ raw))"

text \<open>
  What one \<open>decompressobj\<close> reports after \<open>decompress(data, limit)\<close>: the output, whether input is left
  unconsumed, what a further \<open>flush(n)\<close> yields, and afterwards \<open>eof\<close> and whether input follows the
  stream.  \<open>None\<close> is the error the library raises.
\<close>

record inflated =
  inf_out :: bytes
  inf_tail :: bool
  inf_flush :: "nat \<Rightarrow> bytes"
  inf_eof :: bool
  inf_unused :: bool

definition decode_state ::
  "(bytes \<Rightarrow> json option) \<Rightarrow> (bytes \<Rightarrow> nat \<Rightarrow> inflated option) \<Rightarrow> bytes \<Rightarrow> nat \<Rightarrow> codec_error + json" where
  "decode_state loads inflate payload max_size =
     (if take 4 payload \<noteq> magic \<or> length payload \<le> length magic then Inl UnsupportedFormat
      else
        let encoding = payload ! 4; data = drop 5 payload;
            finish = (\<lambda>text. case loads text of None \<Rightarrow> Inl InvalidJson | Some v \<Rightarrow> Inr v)
        in if encoding = enc_zlib then
             (case inflate data (max_size + 1) of
                None \<Rightarrow> Inl InvalidCompressed
              | Some d \<Rightarrow>
                 if max_size < length (inf_out d) \<or> inf_tail d then Inl TooLarge
                 else
                   let out = inf_out d @ inf_flush d (max_size + 1 - length (inf_out d))
                   in if max_size < length out then Inl TooLarge
                      else if \<not> inf_eof d \<or> inf_unused d then Inl InvalidCompressed
                      else finish out)
           else if encoding \<noteq> enc_raw then Inl UnsupportedEncoding
           else if max_size < length data then Inl TooLarge
           else finish data)"

text \<open>What the library promises for a stream it made itself and a limit the output fits in.\<close>

definition inflates :: "(nat \<Rightarrow> bytes \<Rightarrow> bytes) \<Rightarrow> (bytes \<Rightarrow> nat \<Rightarrow> inflated option) \<Rightarrow> bool" where
  "inflates compress inflate \<longleftrightarrow>
     (\<forall>level raw limit. length raw < limit \<longrightarrow>
        (\<exists>d. inflate (compress level raw) limit = Some d \<and> inf_out d = raw \<and> \<not> inf_tail d \<and>
             (\<forall>n. inf_flush d n = []) \<and> inf_eof d \<and> \<not> inf_unused d))"

lemma encode_state_magic:
  "encode_state dumps compress v level max_size = Inr payload \<Longrightarrow> take 4 payload = magic"
  by (auto simp: encode_state_def magic_def Let_def split: if_splits)

lemma decode_encode_state:
  assumes "loads (dumps v) = Some v" and "inflates compress inflate"
    and "encode_state dumps compress v level max_size = Inr payload"
  shows "decode_state loads inflate payload max_size = Inr v"
proof -
  let ?raw = "dumps v"
  have le: "length ?raw \<le> max_size"
    using assms(3) by (auto simp: encode_state_def Let_def split: if_splits)
  obtain d where d: "inflate (compress level ?raw) (max_size + 1) = Some d" "inf_out d = ?raw"
    "\<not> inf_tail d" "\<forall>n. inf_flush d n = []" "inf_eof d" "\<not> inf_unused d"
    using assms(2) le unfolding inflates_def by (metis le_imp_less_Suc Suc_eq_plus1)
  from assms(3) consider "payload = magic @ [enc_zlib] @ compress level ?raw" | "payload = magic @ [enc_raw] @ ?raw"
    by (auto simp: encode_state_def Let_def split: if_splits)
  then show ?thesis
    using le d assms(1)
    by cases (auto simp: decode_state_def magic_def enc_raw_def enc_zlib_def Let_def)
qed

text \<open>The stored form never grows: it is at most five bytes longer than the JSON text.\<close>

lemma encode_state_length:
  "encode_state dumps compress v level max_size = Inr payload \<Longrightarrow>
   length payload \<le> length (dumps v) + 5 \<and> length payload \<le> max_size + 5"
  by (auto simp: encode_state_def magic_def Let_def split: if_splits)

lemma encode_state_error_iff:
  "(\<exists>e. encode_state dumps compress v level max_size = Inl e) \<longleftrightarrow> max_size < length (dumps v)"
  by (auto simp: encode_state_def Let_def)

text \<open>Whatever the stream claims, no more than the limit is ever handed to the JSON parser.\<close>

lemma decode_state_bounded:
  assumes "decode_state loads inflate payload max_size = Inr v"
  shows "\<exists>text. loads text = Some v \<and> length text \<le> max_size"
  using assms
  by (auto simp: decode_state_def Let_def split: if_splits option.splits)

section \<open>Sample libraries\<close>

text \<open>Concrete functions with the promised behaviour: one number per JSON value, stored streams.\<close>

instance json :: countable
  by countable_datatype

definition sample_dumps :: "json \<Rightarrow> bytes" where
  "sample_dumps j = [to_nat j]"

definition sample_loads :: "bytes \<Rightarrow> json option" where
  "sample_loads b = (case b of [n] \<Rightarrow> Some (from_nat n) | _ \<Rightarrow> None)"

definition sample_compress :: "nat \<Rightarrow> bytes \<Rightarrow> bytes" where
  "sample_compress level b = b"

definition sample_inflate :: "bytes \<Rightarrow> nat \<Rightarrow> inflated option" where
  "sample_inflate b n = Some \<lparr>inf_out = b, inf_tail = False, inf_flush = (\<lambda>_. []), inf_eof = True, inf_unused = False\<rparr>"

definition sample_b64 :: "bytes \<Rightarrow> string" where
  "sample_b64 b = replicate (to_nat b) CHR ''a''"

definition sample_unb64 :: "string \<Rightarrow> bytes" where
  "sample_unb64 s = from_nat (length s)"

lemma sample_codec [simp]:
  "sample_loads (sample_dumps j) = Some j" "inflates sample_compress sample_inflate"
  "sample_unb64 (sample_b64 b) = b"
  by (simp_all add: sample_loads_def sample_dumps_def inflates_def sample_compress_def sample_inflate_def
      sample_b64_def sample_unb64_def)

lemma sample_encode [simp]: "encode_state sample_dumps sample_compress j level max_state_bytes = Inr (magic @ [enc_raw] @ sample_dumps j)"
  by (simp add: encode_state_def sample_dumps_def sample_compress_def max_state_bytes_def)

end
