(* ===== verification/Requests.thy ===== *)
theory Requests
  imports StateCodec
begin

text \<open>
  Requests (\<open>core/downloader/internet/request.py\<close>): the attribute dictionary their constructors
  build, the header helpers, and the queue format that \<open>to_bytes\<close> writes and \<open>from_bytes\<close> reads.
  An object is its class name and its \<open>__dict__\<close>.  Base64 and the JSON text belong to the standard
  library and are arguments; floats and callables are outside the value type.
\<close>

section \<open>Values\<close>

datatype pyval =
    PNone
  | PBool bool
  | PInt int
  | PStr string
  | PBytes bytes
  | PMsg bytes "nat option"
  | PList "pyval list"
  | PTuple "pyval list"
  | PDict "(string \<times> pyval) list"

fun truthy :: "pyval \<Rightarrow> bool" where
  "truthy PNone = False"
| "truthy (PBool b) = b"
| "truthy (PInt i) = (i \<noteq> 0)"
| "truthy (PStr s) = (s \<noteq> [])"
| "truthy (PBytes b) = (b \<noteq> [])"
| "truthy (PMsg d f) = True"
| "truthy (PList xs) = (xs \<noteq> [])"
| "truthy (PTuple xs) = (xs \<noteq> [])"
| "truthy (PDict d) = (d \<noteq> [])"

definition flag_binary :: nat where
  "flag_binary = 2"

text \<open>\<open>WebSocketMsg.to_dict\<close>: missing or zero flags are written as BINARY.\<close>

definition msg_to_dict :: "(bytes \<Rightarrow> string) \<Rightarrow> bytes \<Rightarrow> nat option \<Rightarrow> pyval" where
  "msg_to_dict b64 d flags =
     PDict [(''__wsmsg__'', PBool True), (''data'', PStr (b64 d)),
            (''flags'', PInt (int (case flags of None \<Rightarrow> flag_binary | Some f \<Rightarrow> if f = 0 then flag_binary else f)))]"

fun encode_data :: "(bytes \<Rightarrow> string) \<Rightarrow> pyval \<Rightarrow> pyval" where
  "encode_data b64 (PBytes d) = PDict [(''__bytes__'', PBool True), (''b64'', PStr (b64 d))]"
| "encode_data b64 (PMsg d f) = msg_to_dict b64 d f"
| "encode_data b64 (PList xs) = PList (map (encode_data b64) xs)"
| "encode_data b64 (PTuple xs) = PTuple (map (encode_data b64) xs)"
| "encode_data b64 (PDict d) = PDict (map (map_prod id (encode_data b64)) d)"
| "encode_data b64 v = v"

text \<open>\<open>json.dumps\<close> accepts what has a JSON form: bytes and messages have none, tuples become arrays.\<close>

fun to_json :: "pyval \<Rightarrow> json option" where
  "to_json PNone = Some JNull"
| "to_json (PBool b) = Some (JBool b)"
| "to_json (PInt i) = Some (JInt i)"
| "to_json (PStr s) = Some (JStr s)"
| "to_json (PBytes d) = None"
| "to_json (PMsg d f) = None"
| "to_json (PList xs) = map_option JList (those (map to_json xs))"
| "to_json (PTuple xs) = map_option JList (those (map to_json xs))"
| "to_json (PDict d) = map_option (\<lambda>vs. JObj (zip (map fst d) vs)) (those (map (to_json \<circ> snd) d))"

fun from_json :: "json \<Rightarrow> pyval" where
  "from_json JNull = PNone"
| "from_json (JBool b) = PBool b"
| "from_json (JInt i) = PInt i"
| "from_json (JStr s) = PStr s"
| "from_json (JList xs) = PList (map from_json xs)"
| "from_json (JObj d) = PDict (map (map_prod id from_json) d)"

fun pstr :: "pyval option \<Rightarrow> string" where
  "pstr (Some (PStr s)) = s"
| "pstr _ = []"

fun pint :: "pyval option \<Rightarrow> nat" where
  "pint (Some (PInt i)) = nat i"
| "pint _ = flag_binary"

definition holds_key :: "(string \<times> pyval) list \<Rightarrow> string \<Rightarrow> bool" where
  "holds_key d k = (case map_of d k of None \<Rightarrow> False | Some v \<Rightarrow> truthy v)"

function decode_data :: "(string \<Rightarrow> bytes) \<Rightarrow> pyval \<Rightarrow> pyval" where
  "decode_data unb64 (PDict d) =
     (if holds_key d ''__bytes__'' then PBytes (unb64 (pstr (map_of d ''b64'')))
      else if holds_key d ''__wsmsg__''
        then PMsg (unb64 (pstr (map_of d ''data''))) (Some (pint (map_of d ''flags'')))
      else PDict (map (\<lambda>p. (fst p, decode_data unb64 (snd p))) d))"
| "decode_data unb64 (PList xs) = PList (map (decode_data unb64) xs)"
| "decode_data unb64 (PTuple xs) = PTuple (map (decode_data unb64) xs)"
| "decode_data unb64 PNone = PNone"
| "decode_data unb64 (PBool b) = PBool b"
| "decode_data unb64 (PInt i) = PInt i"
| "decode_data unb64 (PStr s) = PStr s"
| "decode_data unb64 (PBytes b) = PBytes b"
| "decode_data unb64 (PMsg b f) = PMsg b f"
  by pat_completeness auto

lemma size_snd_less: "p \<in> set d \<Longrightarrow> size (snd p) < Suc (size_list (size_prod (\<lambda>_. 0) size) d)"
proof (induction d)
  case (Cons q d)
  then show ?case by (cases "p = q") (auto simp: size_prod_simp less_Suc_eq intro: less_le_trans)
qed simp

termination decode_data
  by (relation "measure (\<lambda>(u, v). size v)")
     (auto dest: size_snd_less simp: less_Suc_eq_le size_list_estimation')

text \<open>Values a queue brings back as they were: no tuples, no reserved keys, flags that are set.\<close>

fun stable_value :: "pyval \<Rightarrow> bool" where
  "stable_value (PTuple xs) = False"
| "stable_value (PMsg d f) = (case f of None \<Rightarrow> False | Some n \<Rightarrow> n \<noteq> 0)"
| "stable_value (PList xs) = list_all stable_value xs"
| "stable_value (PDict d) = (list_all (stable_value \<circ> snd) d \<and>
     map_of d ''__bytes__'' = None \<and> map_of d ''__wsmsg__'' = None)"
| "stable_value v = True"

lemma those_map_Some: "(\<And>x. x \<in> set xs \<Longrightarrow> f x = Some (g x)) \<Longrightarrow> those (map f xs) = Some (map g xs)"
  by (induction xs) auto

lemma encoded_json:
  "stable_value v \<Longrightarrow> \<exists>j. to_json (encode_data b64 v) = Some j \<and> from_json j = encode_data b64 v"
proof (induction b64 v rule: encode_data.induct)
  case (2 b64 d f)
  then show ?case by (auto simp: msg_to_dict_def)
next
  case (3 b64 xs)
  then have "\<forall>x. \<exists>j. x \<in> set xs \<longrightarrow> to_json (encode_data b64 x) = Some j \<and> from_json j = encode_data b64 x"
    by (auto simp: list_all_iff)
  then obtain j where "\<forall>x. x \<in> set xs \<longrightarrow> to_json (encode_data b64 x) = Some (j x) \<and>
      from_json (j x) = encode_data b64 x" by metis
  then show ?case using those_map_Some [of xs "to_json \<circ> encode_data b64" j] by (auto simp: comp_def)
next
  case (5 b64 d)
  then have "\<forall>x. \<exists>j. x \<in> set d \<longrightarrow> to_json (encode_data b64 (snd x)) = Some j \<and>
      from_json j = encode_data b64 (snd x)"
    by (auto simp: list_all_iff)
  then obtain j where j: "\<forall>x. x \<in> set d \<longrightarrow> to_json (encode_data b64 (snd x)) = Some (j x) \<and>
      from_json (j x) = encode_data b64 (snd x)" by metis
  have "those (map (\<lambda>x. to_json (encode_data b64 (snd x))) d) = Some (map j d)"
    by (rule those_map_Some) (use j in blast)
  then have "those (map (to_json \<circ> snd) (map (map_prod id (encode_data b64)) d)) = Some (map j d)"
    by (simp add: comp_def)
  moreover have "map (map_prod id from_json) (zip (map fst (map (map_prod id (encode_data b64)) d)) (map j d)) =
      map (map_prod id (encode_data b64)) d"
    using j by (induction d) (auto simp: map_prod_def split: prod.splits)
  ultimately show ?case by (simp add: comp_def)
qed auto

lemma map_of_map_prod_None: "map_of (map (map_prod id f) d) k = None \<longleftrightarrow> map_of d k = None"
  by (induction d) auto

lemma decode_encode_data:
  "\<forall>b. unb64 (b64 b) = b \<Longrightarrow> stable_value v \<Longrightarrow> decode_data unb64 (encode_data b64 v) = v"
proof (induction b64 v rule: encode_data.induct)
  case (1 b64' d)
  then show ?case by (simp add: holds_key_def)
next
  case (2 b64' d f)
  then show ?case by (auto simp: msg_to_dict_def holds_key_def split: option.splits)
next
  case (3 b64' xs)
  then show ?case by (simp add: list_all_iff map_idI)
next
  case (5 b64' d)
  have "holds_key (map (map_prod id (encode_data b64')) d) ''__bytes__'' = False"
    "holds_key (map (map_prod id (encode_data b64')) d) ''__wsmsg__'' = False"
    using 5(3) by (simp_all add: holds_key_def map_of_map_prod_None [THEN iffD2])
  moreover have "map (\<lambda>p. (fst p, decode_data unb64 (snd p))) (map (map_prod id (encode_data b64')) d) = d"
    using 5 by (auto simp: list_all_iff intro!: map_idI)
  ultimately show ?case by simp
qed auto

section \<open>Headers\<close>

datatype request_error =
    AttributeError string
  | RequestValueError string
  | UnknownClass string
  | BadPayload
  | NotSerializable

definition header_key :: "(string, string) pydict \<Rightarrow> string \<Rightarrow> string option" where
  "header_key hs key = find (\<lambda>k. lower k = lower key) (keys hs)"

text \<open>\<open>self.headers\<close>: no attribute yet, or \<open>None\<close>, or a mapping.\<close>

definition find_header_key :: "(string, string) pydict option option \<Rightarrow> string \<Rightarrow> request_error + string option" where
  "find_header_key self_headers key =
     (case self_headers of
        None \<Rightarrow> Inl (AttributeError ''headers'')
      | Some None \<Rightarrow> Inr None
      | Some (Some hs) \<Rightarrow> Inr (header_key hs key))"

datatype header_mode = Overwrite | Append | OtherMode

definition set_header ::
  "(string, string) pydict option option \<Rightarrow> (string, string) pydict option \<Rightarrow> string \<Rightarrow> string \<Rightarrow>
   header_mode \<Rightarrow> string \<Rightarrow> request_error + (string, string) pydict" where
  "set_header self_headers headers key val mode sep =
     (let hs = (case headers of None \<Rightarrow> [] | Some h \<Rightarrow> h)
      in case find_header_key self_headers key of
           Inl e \<Rightarrow> Inl e
         | Inr None \<Rightarrow> Inr (dict_set hs key val)
         | Inr (Some real_key) \<Rightarrow>
             (case mode of
                Overwrite \<Rightarrow> Inr (dict_set hs real_key val)
              | Append \<Rightarrow>
                  (let existing = dict_get hs real_key []
                   in Inr (if contains (lower val) (lower existing) then hs
                           else dict_set hs real_key (existing @ sep @ val)))
              | OtherMode \<Rightarrow> Inr hs))"

section \<open>Constructors\<close>

text \<open>Keyword arguments, and the attributes an object ends up with.\<close>

type_synonym args = "(string, pyval) pydict"

definition common_params :: "string list" where
  "common_params =
     [''session_id'', ''url'', ''params'', ''headers'', ''cookies'', ''proxies'', ''timeout'',
      ''max_retry_times'', ''retry_delay'', ''allow_redirects'', ''max_redirects'', ''verify'',
      ''impersonate'', ''ja3'', ''akamai'', ''meta'', ''dont_filter'', ''callback'', ''errback'',
      ''desc_text'', ''no_proxy'', ''stream'', ''http_version'']"

definition join_url_params :: "(pyval \<Rightarrow> string) \<Rightarrow> string \<Rightarrow> pyval \<Rightarrow> string" where
  "join_url_params urlencode url params =
     (if truthy params then url @ ''?'' @ urlencode params else url)"

definition below :: "pyval \<Rightarrow> int \<Rightarrow> bool" where
  "below v n \<longleftrightarrow> (case v of PInt i \<Rightarrow> i < n | _ \<Rightarrow> False)"

text \<open>\<open>meta or {}\<close>\<close>

definition or_empty :: "pyval \<Rightarrow> pyval" where
  "or_empty v = (if truthy v then v else PDict [])"

definition request_attrs :: "(pyval \<Rightarrow> string) \<Rightarrow> args \<Rightarrow> args \<Rightarrow> request_error + args" where
  "request_attrs urlencode a kwargs =
     (if below (dict_get a ''max_retry_times'' PNone) 1
        then Inl (RequestValueError ''max_retry_times must be at least 1'')
      else if below (dict_get a ''retry_delay'' PNone) 0
        then Inl (RequestValueError ''retry_delay cannot be negative'')
      else Inr
        [(''session_id'', dict_get a ''session_id'' (PStr [])),
         (''url'', PStr (join_url_params urlencode (pstr (Some (dict_get a ''url'' (PStr []))))
                          (dict_get a ''params'' PNone))),
         (''headers'', dict_get a ''headers'' PNone), (''cookies'', dict_get a ''cookies'' PNone),
         (''proxies'', dict_get a ''proxies'' PNone), (''timeout'', dict_get a ''timeout'' (PInt 30)),
         (''max_retry_times'', dict_get a ''max_retry_times'' PNone),
         (''retry_delay'', dict_get a ''retry_delay'' PNone),
         (''allow_redirects'', dict_get a ''allow_redirects'' (PBool True)),
         (''max_redirects'', dict_get a ''max_redirects'' (PInt 30)),
         (''verify'', dict_get a ''verify'' PNone), (''impersonate'', dict_get a ''impersonate'' PNone),
         (''ja3'', dict_get a ''ja3'' PNone), (''akamai'', dict_get a ''akamai'' PNone),
         (''meta'', or_empty (dict_get a ''meta'' PNone)),
         (''dont_filter'', dict_get a ''dont_filter'' PNone),
         (''callback'', dict_get a ''callback'' PNone), (''errback'', dict_get a ''errback'' PNone),
         (''desc_text'', dict_get a ''desc_text'' (PStr [])), (''no_proxy'', dict_get a ''no_proxy'' (PBool False)),
         (''stream'', dict_get a ''stream'' (PBool False)), (''http_version'', dict_get a ''http_version'' PNone),
         (''kwargs'', PDict kwargs)])"

text \<open>
  \<open>HttpRequest.__init__\<close>: with a JSON body it calls \<open>set_header\<close>, which reads \<open>self.headers\<close>, before
  the base constructor has set that attribute.  The data is then the JSON text, the argument \<open>jtext\<close>.
\<close>

definition http_init :: "(pyval \<Rightarrow> string) \<Rightarrow> (pyval \<Rightarrow> string) \<Rightarrow> args \<Rightarrow> request_error + args" where
  "http_init urlencode jtext a =
     (let kwargs = filter (\<lambda>p. fst p \<notin> set (common_params @ [''method'', ''data'', ''json''])) a;
          json = dict_get a ''json'' PNone;
          header_step = (if truthy json
             then map_sum id (\<lambda>_. PStr (jtext json))
                    (set_header None None ''Content-Type'' ''application/json'' Append ''; '')
             else Inr (dict_get a ''data'' PNone))
      in case header_step of
           Inl e \<Rightarrow> Inl e
         | Inr data \<Rightarrow>
             (case request_attrs urlencode a kwargs of
                Inl e \<Rightarrow> Inl e
              | Inr attrs \<Rightarrow>
                  Inr ((''method'', PStr (upper (pstr (Some (dict_get a ''method'' (PStr ''GET'')))))) #
                       (''data'', data) # attrs)))"

definition encode_fields :: "string list" where
  "encode_fields = [''headers'', ''data'', ''cookies'', ''proxies'', ''meta'', ''kwargs'']"

section \<open>The queue format\<close>

definition to_dict :: "(bytes \<Rightarrow> string) \<Rightarrow> string list \<Rightarrow> args \<Rightarrow> args" where
  "to_dict b64 enc attrs = map (\<lambda>(k, v). (k, if k \<in> set enc then encode_data b64 v else v)) attrs"

definition request_json :: "(bytes \<Rightarrow> string) \<Rightarrow> string list \<Rightarrow> string \<Rightarrow> args \<Rightarrow> json option" where
  "request_json b64 enc cls attrs = to_json (PDict (dict_set (to_dict b64 enc attrs) ''class'' (PStr cls)))"

definition to_bytes ::
  "(bytes \<Rightarrow> string) \<Rightarrow> (json \<Rightarrow> bytes) \<Rightarrow> (nat \<Rightarrow> bytes \<Rightarrow> bytes) \<Rightarrow> string list \<Rightarrow> string \<Rightarrow> args \<Rightarrow>
   request_error + bytes" where
  "to_bytes b64 dumps compress enc cls attrs =
     (case request_json b64 enc cls attrs of
        None \<Rightarrow> Inl NotSerializable
      | Some j \<Rightarrow>
          (case encode_state dumps compress j 6 max_state_bytes of Inl _ \<Rightarrow> Inl BadPayload | Inr b \<Rightarrow> Inr b))"

text \<open>\<open>_from_dict\<close> with the constructor of the registered class.\<close>

definition from_dict ::
  "(string \<Rightarrow> bytes) \<Rightarrow> string list \<Rightarrow> (args \<Rightarrow> request_error + args) \<Rightarrow> args \<Rightarrow> request_error + args" where
  "from_dict unb64 enc construct d =
     (let kwargs = (case decode_data unb64 (dict_get d ''kwargs'' (PDict [])) of PDict k \<Rightarrow> k | _ \<Rightarrow> []);
          d1 = map (\<lambda>(k, v). (k, if k \<in> set enc then decode_data unb64 v else v)) (dict_pop d ''kwargs'')
      in construct (d1 @ kwargs))"

definition from_bytes ::
  "(string \<Rightarrow> bytes) \<Rightarrow> (bytes \<Rightarrow> json option) \<Rightarrow> (bytes \<Rightarrow> nat \<Rightarrow> inflated option) \<Rightarrow>
   (string \<Rightarrow> (string list \<times> (args \<Rightarrow> request_error + args)) option) \<Rightarrow> bytes \<Rightarrow> request_error + (string \<times> args)" where
  "from_bytes unb64 loads inflate classes b =
     (case decode_state loads inflate b max_state_bytes of
        Inl _ \<Rightarrow> Inl BadPayload
      | Inr j \<Rightarrow>
          (case from_json j of
             PDict d \<Rightarrow>
               (let cls = pstr (map_of d ''class'')
                in case classes cls of
                     None \<Rightarrow> Inl (UnknownClass cls)
                   | Some (enc, construct) \<Rightarrow>
                       (case from_dict unb64 enc construct (dict_pop d ''class'') of
                          Inl e \<Rightarrow> Inl e | Inr attrs \<Rightarrow> Inr (cls, attrs)))
           | _ \<Rightarrow> Inl BadPayload))"

definition http_class ::
  "(pyval \<Rightarrow> string) \<Rightarrow> (pyval \<Rightarrow> string) \<Rightarrow> string \<Rightarrow> (string list \<times> (args \<Rightarrow> request_error + args)) option" where
  "http_class urlencode jtext cls =
     (if cls = ''HttpRequest'' then Some (encode_fields, http_init urlencode jtext) else None)"

section \<open>Round trip\<close>

lemma json_dict:
  assumes "\<forall>p \<in> set d. \<exists>j. to_json (snd p) = Some j \<and> from_json j = snd p"
  shows "\<exists>j. to_json (PDict d) = Some j \<and> from_json j = PDict d"
proof -
  obtain f where f: "\<forall>p \<in> set d. to_json (snd p) = Some (f p) \<and> from_json (f p) = snd p"
    using assms by metis
  have "those (map (to_json \<circ> snd) d) = Some (map f d)"
    using those_map_Some [of d "to_json \<circ> snd" f] f by simp
  moreover have "map (map_prod id from_json) (zip (map fst d) (map f d)) = d"
    using f by (induction d) auto
  ultimately show ?thesis by simp
qed

text \<open>Attribute values that survive the JSON text: plain scalars where nothing is encoded.\<close>

definition scalar_value :: "pyval \<Rightarrow> bool" where
  "scalar_value v \<longleftrightarrow> (case v of PNone \<Rightarrow> True | PBool _ \<Rightarrow> True | PInt _ \<Rightarrow> True | PStr _ \<Rightarrow> True | _ \<Rightarrow> False)"

definition attrs_stable :: "string list \<Rightarrow> args \<Rightarrow> bool" where
  "attrs_stable enc attrs \<longleftrightarrow>
     list_all (\<lambda>(k, v). if k \<in> set enc then stable_value v else scalar_value v) attrs"

lemma scalar_json: "scalar_value v \<Longrightarrow> \<exists>j. to_json v = Some j \<and> from_json j = v"
  by (cases v) (auto simp: scalar_value_def)

lemma dict_get_append:
  "dict_get (xs @ ys) k x = (if k \<in> set (keys xs) then dict_get xs k x else dict_get ys k x)"
  by (induction xs) (auto simp: dict_get_def)

lemma dict_get_filter_out: "\<not> P k \<Longrightarrow> dict_get (filter (\<lambda>p. P (fst p)) d) k x = x"
  by (induction d) (auto simp: dict_get_def)

definition http_kwargs :: "args \<Rightarrow> args" where
  "http_kwargs a = filter (\<lambda>p. fst p \<notin> set (common_params @ [''method'', ''data'', ''json''])) a"

lemma http_init_Inr:
  "http_init urlencode jtext a = Inr attrs \<longleftrightarrow>
     \<not> truthy (dict_get a ''json'' PNone) \<and>
     (\<exists>rest. request_attrs urlencode a (http_kwargs a) = Inr rest \<and>
        attrs = (''method'', PStr (upper (pstr (Some (dict_get a ''method'' (PStr ''GET'')))))) #
                (''data'', dict_get a ''data'' PNone) # rest)"
  by (auto simp: http_init_def Let_def set_header_def find_header_key_def http_kwargs_def split: sum.splits)

lemma http_kwargs_get:
  "k \<in> set (common_params @ [''method'', ''data'', ''json'']) \<Longrightarrow> dict_get (http_kwargs a) k x = x"
  unfolding http_kwargs_def by (rule dict_get_filter_out) simp

lemma or_empty_again [simp]: "or_empty (or_empty v) = or_empty v"
  by (simp add: or_empty_def)

lemma join_url_none [simp]: "join_url_params urlencode url PNone = url"
  by (simp add: join_url_params_def)

lemma dict_get_Cons: "dict_get ((k', v) # d) k x = (if k' = k then v else dict_get d k x)"
  by (simp add: dict_get_def)

lemma request_attrs_again:
  assumes "request_attrs urlencode a kw = Inr attrs"
    and kw: "\<And>k x. k \<in> set common_params \<Longrightarrow> dict_get kw k x = x"
    and pre: "\<And>k ys x. k \<in> set common_params \<Longrightarrow> dict_get (pre @ ys) k x = dict_get ys k x"
  shows "request_attrs urlencode (pre @ dict_pop attrs ''kwargs'' @ kw) kw = Inr attrs"
proof -
  have n1: "\<not> below (dict_get a ''max_retry_times'' PNone) 1" and n2: "\<not> below (dict_get a ''retry_delay'' PNone) 0"
    using assms(1) by (auto simp: request_attrs_def split: if_splits)
  have e: "Inr attrs = request_attrs urlencode a kw" using assms(1) by simp
  have attrs: "attrs = projr (request_attrs urlencode a kw)" using e by (metis sum.sel(2))
  have get: "dict_get (pre @ ys) k x = dict_get ys k x" "dict_get kw k x = x" if "k \<in> set common_params" for k ys x
    using that by (auto simp: pre kw)
  note get' = get [unfolded common_params_def]
  show ?thesis
    unfolding attrs
    by (simp add: request_attrs_def n1 n2 dict_pop_def) (simp add: get' n1 n2 dict_get_Cons)
qed

lemma request_attrs_keys:
  "request_attrs urlencode a kw = Inr attrs \<Longrightarrow>
   keys attrs = filter (\<lambda>k. k \<noteq> ''params'') common_params @ [''kwargs'']"
  by (auto simp: request_attrs_def common_params_def split: if_splits)

lemma http_init_again:
  assumes "http_init urlencode jtext a = Inr attrs"
  shows "http_init urlencode jtext (dict_pop attrs ''kwargs'' @ http_kwargs a) = Inr attrs"
proof -
  let ?kw = "http_kwargs a" and ?m = "PStr (upper (pstr (Some (dict_get a ''method'' (PStr ''GET'')))))"
  let ?dt = "dict_get a ''data'' PNone"
  obtain rest where rest: "request_attrs urlencode a ?kw = Inr rest"
    and attrs: "attrs = (''method'', ?m) # (''data'', ?dt) # rest"
    using assms by (auto simp: http_init_Inr)
  let ?pre = "[(''method'', ?m), (''data'', ?dt)]"
  have split: "dict_pop attrs ''kwargs'' @ ?kw = ?pre @ dict_pop rest ''kwargs'' @ ?kw"
    by (simp add: attrs dict_pop_def)
  have ks: "keys (dict_pop rest ''kwargs'') = filter (\<lambda>k. k \<noteq> ''kwargs'') (keys rest)"
    by (simp add: dict_pop_def filter_map comp_def)
  have pre: "dict_get (?pre @ ys) k x = dict_get ys k x" if "k \<in> set common_params" for k ys x
    using that by (auto simp: common_params_def dict_get_Cons)
  have again: "request_attrs urlencode (?pre @ dict_pop rest ''kwargs'' @ ?kw) ?kw = Inr rest"
    by (rule request_attrs_again [OF rest _ pre]) (simp_all add: http_kwargs_get)
  have kwkw: "http_kwargs (?pre @ dict_pop rest ''kwargs'' @ ?kw) = ?kw"
  proof -
    have 1: "set (keys (dict_pop rest ''kwargs'')) \<subseteq> set common_params"
      unfolding ks request_attrs_keys [OF rest] by auto
    then have 2: "filter (\<lambda>p. fst p \<notin> set (common_params @ [''method'', ''data'', ''json''])) (dict_pop rest ''kwargs'') = []"
      by (auto simp: filter_empty_conv)
    show ?thesis using 2 by (simp add: http_kwargs_def)
  qed
  have "dict_get (dict_pop rest ''kwargs'' @ ?kw) ''json'' PNone = PNone"
  proof -
    have "''json'' \<notin> set (keys (dict_pop rest ''kwargs''))"
      unfolding ks request_attrs_keys [OF rest] by (simp add: common_params_def)
    then show ?thesis using http_kwargs_get [of "''json''" a PNone] by (simp add: dict_get_append del: set_map)
  qed
  then show ?thesis
    unfolding split http_init_Inr kwkw using again attrs
    by (auto simp: dict_get_Cons)
qed

lemma decode_scalar: "scalar_value v \<Longrightarrow> decode_data unb64 v = v"
  by (cases v) (auto simp: scalar_value_def)

text \<open>Attribute dictionaries in the form the constructors build, through the queue and back.\<close>

lemma from_to_bytes:
  assumes "\<forall>b. unb64 (b64 b) = b" and "\<forall>j. loads (dumps j) = Some j" and "inflates compress inflate"
    and "attrs_stable enc attrs" and "''class'' \<notin> set (keys attrs)" and "''kwargs'' \<in> set enc"
    and "map_of attrs ''kwargs'' = Some (PDict kw)" and "dict_wf attrs"
    and "classes cls = Some (enc, construct)"
    and "construct (dict_pop attrs ''kwargs'' @ kw) = Inr attrs"
    and "to_bytes b64 dumps compress enc cls attrs = Inr payload"
  shows "from_bytes unb64 loads inflate classes payload = Inr (cls, attrs)"
proof -
  let ?d = "to_dict b64 enc attrs"
  have keys: "keys ?d = keys attrs" by (simp add: to_dict_def case_prod_unfold comp_def)
  have set: "dict_set ?d ''class'' (PStr cls) = ?d @ [(''class'', PStr cls)]"
    using assms(5) keys by (simp add: dict_set_append_new del: set_map)
  have val: "\<exists>j. to_json (snd p) = Some j \<and> from_json j = snd p" if "p \<in> set (?d @ [(''class'', PStr cls)])" for p
  proof (cases "p \<in> set ?d")
    case True
    then obtain k v where kv: "(k, v) \<in> set attrs" "p = (k, if k \<in> set enc then encode_data b64 v else v)"
      by (auto simp: to_dict_def)
    then have "if k \<in> set enc then stable_value v else scalar_value v"
      using assms(4) unfolding attrs_stable_def list_all_iff by blast
    then show ?thesis using kv(2) encoded_json [of v b64] scalar_json [of v] by (simp split: if_splits)
  qed (use that in simp)
  obtain j where j: "to_json (PDict (dict_set ?d ''class'' (PStr cls))) = Some j"
    "from_json j = PDict (?d @ [(''class'', PStr cls)])"
    using json_dict [of "?d @ [(''class'', PStr cls)]"] val set by auto
  have enc: "encode_state dumps compress j 6 max_state_bytes = Inr payload"
    using assms(11) j(1) by (auto simp: to_bytes_def request_json_def split: sum.splits)
  have dec: "decode_state loads inflate payload max_state_bytes = Inr j"
    using decode_encode_state [of loads dumps j] assms(2,3) enc by blast
  have pop: "dict_pop (?d @ [(''class'', PStr cls)]) ''class'' = ?d"
    using dict_pop_absent [of "''class''" ?d] assms(5) keys by (simp add: dict_pop_def del: set_map)
  have cls: "map_of (?d @ [(''class'', PStr cls)]) ''class'' = Some (PStr cls)"
    using assms(5) keys by (simp add: map_add_def map_of_eq_None_iff [THEN iffD2] split: option.split del: set_map)
      (metis map_of_eq_None_iff option.distinct(1) set_map)
  have kwv: "map_of ?d ''kwargs'' = Some (encode_data b64 (PDict kw))"
    using assms(6,7) by (induction attrs) (auto simp: to_dict_def)
  have stable: "if k \<in> set enc then stable_value v else scalar_value v" if "(k, v) \<in> set attrs" for k v
    using assms(4) that unfolding attrs_stable_def list_all_iff by blast
  have "stable_value (PDict kw)" using stable [of "''kwargs''" "PDict kw"] assms(6,7) map_of_SomeD by force
  then have kwdec: "decode_data unb64 (encode_data b64 (PDict kw)) = PDict kw"
    using decode_encode_data assms(1) by blast
  have "map (\<lambda>(k, v). (k, if k \<in> set enc then decode_data unb64 v else v)) (dict_pop ?d ''kwargs'') =
      dict_pop attrs ''kwargs''"
  proof -
    have "decode_data unb64 (encode_data b64 v) = v" if "(k, v) \<in> set attrs" "k \<in> set enc" for k v
      using stable [OF that(1)] that(2) assms(1) decode_encode_data [of unb64 b64 v] by simp
    then show ?thesis
      by (auto simp: to_dict_def dict_pop_def filter_map comp_def case_prod_unfold intro!: map_idI)
  qed
  then have "from_dict unb64 enc construct ?d = Inr attrs"
    using kwv kwdec assms(10) by (simp add: from_dict_def Let_def dict_get_def del: decode_data.simps encode_data.simps)
  then show ?thesis
    using dec j(2) cls pop assms(9) by (simp add: from_bytes_def Let_def)
qed

lemma http_attrs_shape:
  assumes "http_init urlencode jtext a = Inr attrs"
  shows "''class'' \<notin> set (keys attrs)" and "dict_wf attrs" and "map_of attrs ''kwargs'' = Some (PDict (http_kwargs a))"
proof -
  obtain rest m d where rest: "request_attrs urlencode a (http_kwargs a) = Inr rest"
    and attrs: "attrs = (''method'', m) # (''data'', d) # rest"
    using assms by (auto simp: http_init_Inr)
  note ks = request_attrs_keys [OF rest]
  show "''class'' \<notin> set (keys attrs)" "dict_wf attrs"
    unfolding attrs by (simp_all add: ks common_params_def del: set_map)
  show "map_of attrs ''kwargs'' = Some (PDict (http_kwargs a))"
    using rest unfolding attrs by (auto simp: request_attrs_def split: if_splits)
qed

lemma kwargs_encoded: "''kwargs'' \<in> set encode_fields"
  by (simp add: encode_fields_def)

section \<open>Properties\<close>



text \<open>No HTTP request with a JSON body can be constructed: the constructor looks for the
  Content-Type header on an object that has no \<open>headers\<close> attribute yet.\<close>

theorem http_json_request_fails:
  assumes "truthy (dict_get a ''json'' PNone)"
  shows "http_init urlencode jtext a = Inl (AttributeError ''headers'')"
  using assms by (simp add: http_init_def set_header_def find_header_key_def Let_def)

theorem http_json_request_fails_witness:
  "http_init (\<lambda>_. []) (\<lambda>_. ''{}'') [(''url'', PStr ''http://x''), (''json'', PDict [(''a'', PInt 1)])] =
     Inl (AttributeError ''headers'')"
  by (rule http_json_request_fails) (simp add: dict_get_def)

end
