(* ===== verification/SessionState.thy ===== *)
theory SessionState
  imports Complex_Main WebSockets ClientHints
begin

text \<open>
  What one HTTP session keeps (\<open>core/sessions.py\<close>): the request limiter that spaces the starts of
  its requests, the cookie jar with its export and import, and the wrapper that joins them with the
  Client Hint state and the WebSocket pool.  Times and rates are rational numbers; the event loop's
  clock readings are inputs.
\<close>

section \<open>The request limiter\<close>

datatype session_error = RateError | GroupEmpty string | CookieTypeError string | CookieValueError | StateError

record limiter =
  sl_rate :: "rat option"
  sl_interval :: rat
  sl_next_start :: rat

definition rate_valid :: "rat option \<Rightarrow> bool" where
  "rate_valid rate \<longleftrightarrow> (case rate of None \<Rightarrow> True | Some r \<Rightarrow> 0 < r)"

definition limiter_configure :: "limiter \<Rightarrow> rat option \<Rightarrow> session_error + limiter" where
  "limiter_configure l rate =
     (if \<not> rate_valid rate then Inl RateError
      else Inr (l\<lparr>sl_rate := rate, sl_interval := (case rate of None \<Rightarrow> 0 | Some r \<Rightarrow> 1 / r)\<rparr>))"

definition limiter_init :: "rat option \<Rightarrow> session_error + limiter" where
  "limiter_init rate = limiter_configure \<lparr>sl_rate = None, sl_interval = 0, sl_next_start = 0\<rparr> rate"

text \<open>
  \<open>now\<close> is the clock when the lock is taken and \<open>woken\<close> the clock when the sleep of
  \<open>next_start - now\<close> returns; the second component is the time at which the request starts.
\<close>

definition limiter_wait :: "limiter \<Rightarrow> rat \<Rightarrow> rat \<Rightarrow> limiter \<times> rat" where
  "limiter_wait l now woken =
     (if sl_interval l \<le> 0 then (l, now)
      else let delay = sl_next_start l - now;
               now' = (if 0 < delay then woken else now)
           in (l\<lparr>sl_next_start := max now' (sl_next_start l) + sl_interval l\<rparr>, now'))"

fun limiter_run :: "limiter \<Rightarrow> (rat \<times> rat) list \<Rightarrow> limiter \<times> rat list" where
  "limiter_run l [] = (l, [])"
| "limiter_run l ((now, woken) # rest) =
     (let (l1, start) = limiter_wait l now woken; (l2, starts) = limiter_run l1 rest
      in (l2, start # starts))"

definition limiter_ok :: "limiter \<Rightarrow> bool" where
  "limiter_ok l \<longleftrightarrow> rate_valid (sl_rate l) \<and>
     sl_interval l = (case sl_rate l of None \<Rightarrow> 0 | Some r \<Rightarrow> 1 / r)"

lemma limiter_ok_configure: "limiter_configure l rate = Inr l' \<Longrightarrow> limiter_ok l'"
  by (auto simp: limiter_configure_def limiter_ok_def split: if_splits)

lemma limiter_ok_init: "limiter_init rate = Inr l \<Longrightarrow> limiter_ok l"
  by (simp add: limiter_init_def limiter_ok_configure)

lemma limiter_interval_wait [simp]: "sl_interval (fst (limiter_wait l now woken)) = sl_interval l"
  by (simp add: limiter_wait_def Let_def)

text \<open>
  Sleeps do not return early: the promise of \<open>asyncio.sleep\<close> the spacing rests on, asked of each
  turn of the run that sleeps.
\<close>

fun sleeps_ok :: "limiter \<Rightarrow> (rat \<times> rat) list \<Rightarrow> bool" where
  "sleeps_ok l [] \<longleftrightarrow> True"
| "sleeps_ok l ((now, woken) # rest) \<longleftrightarrow>
     (now < sl_next_start l \<longrightarrow> sl_next_start l \<le> woken) \<and> sleeps_ok (fst (limiter_wait l now woken)) rest"

lemma limiter_wait_start:
  assumes "0 < sl_interval l" and "now < sl_next_start l \<longrightarrow> sl_next_start l \<le> woken"
  shows "sl_next_start l \<le> snd (limiter_wait l now woken)"
    and "sl_next_start (fst (limiter_wait l now woken)) = snd (limiter_wait l now woken) + sl_interval l"
  using assms by (auto simp: limiter_wait_def Let_def max_def)

lemma limiter_run_spaced_from:
  assumes "0 < sl_interval l" and "sleeps_ok l clock" and "j < length clock"
  shows "sl_next_start l + of_nat j * sl_interval l \<le> snd (limiter_run l clock) ! j"
  using assms
proof (induction l clock arbitrary: j rule: limiter_run.induct)
  case (2 l now woken rest)
  obtain l1 start where w: "limiter_wait l now woken = (l1, start)" by fastforce
  have st: "sl_next_start l \<le> start" "sl_next_start l1 = start + sl_interval l"
    and int: "sl_interval l1 = sl_interval l"
    using limiter_wait_start [of l now woken] limiter_interval_wait [of l now woken] 2(2,3) w by auto
  show ?case
  proof (cases j)
    case 0
    then show ?thesis using w st by (simp split: prod.splits)
  next
    case (Suc i)
    have "sl_next_start l1 + of_nat i * sl_interval l1 \<le> snd (limiter_run l1 rest) ! i"
      using 2 w Suc int by (intro "2.IH" [of "(l1, start)" l1 start]) auto
    then show ?thesis using w Suc st int by (auto simp: algebra_simps split: prod.splits)
  qed
qed simp

lemma length_limiter_run [simp]: "length (snd (limiter_run l clock)) = length clock"
  by (induction l clock rule: limiter_run.induct) (auto split: prod.splits)

lemma limiter_run_spaced:
  assumes "0 < sl_interval l" and "sleeps_ok l clock" and "i \<le> j" and "j < length clock"
  shows "snd (limiter_run l clock) ! i + of_nat (j - i) * sl_interval l \<le> snd (limiter_run l clock) ! j"
  using assms
proof (induction l clock arbitrary: i j rule: limiter_run.induct)
  case (2 l now woken rest)
  obtain l1 start where w: "limiter_wait l now woken = (l1, start)" by fastforce
  have st: "sl_next_start l1 = start + sl_interval l" and int: "sl_interval l1 = sl_interval l"
    and sl: "sleeps_ok l1 rest"
    using limiter_wait_start [of l now woken] limiter_interval_wait [of l now woken] 2(2,3) w by auto
  show ?case
  proof (cases i)
    case 0
    show ?thesis
    proof (cases j)
      case (Suc j')
      then show ?thesis
        using limiter_run_spaced_from [of l1 rest j'] 2 w st int sl 0
        by (auto simp: algebra_simps split: prod.splits)
    qed (use 0 in simp)
  next
    case (Suc i')
    then obtain j' where j: "j = Suc j'" using 2 by (cases j) auto
    have "snd (limiter_run l1 rest) ! i' + of_nat (j' - i') * sl_interval l1 \<le> snd (limiter_run l1 rest) ! j'"
      using 2 w Suc j int sl by (intro "2.IH" [of "(l1, start)" l1 start]) auto
    then show ?thesis using w Suc j int by (auto split: prod.splits)
  qed
qed simp

text \<open>Even when a sleep returns early the reserved start time moves on by one interval per turn.\<close>

lemma limiter_run_reserved:
  "0 < sl_interval l \<Longrightarrow>
   sl_next_start l + of_nat (length clock) * sl_interval l \<le> sl_next_start (fst (limiter_run l clock))"
proof (induction l clock rule: limiter_run.induct)
  case (2 l now woken rest)
  obtain l1 start where w: "limiter_wait l now woken = (l1, start)" by fastforce
  have int: "sl_interval l1 = sl_interval l" using limiter_interval_wait [of l now woken] w by simp
  have "sl_next_start l + sl_interval l \<le> sl_next_start l1"
    using w 2(2) by (auto simp: limiter_wait_def Let_def)
  moreover have "sl_next_start l1 + of_nat (length rest) * sl_interval l1
      \<le> sl_next_start (fst (limiter_run l1 rest))"
    using 2 w int by (intro "2.IH" [of "(l1, start)" l1 start]) auto
  ultimately show ?case using w int by (auto simp: algebra_simps split: prod.splits)
qed simp

section \<open>Cookies\<close>

record cookie =
  ck_version :: "int option"
  ck_name :: string
  ck_value :: "string option"
  ck_port :: "string option"
  ck_port_specified :: bool
  ck_domain :: string
  ck_domain_specified :: bool
  ck_domain_initial_dot :: bool
  ck_path :: string
  ck_path_specified :: bool
  ck_secure :: bool
  ck_expires :: "int option"
  ck_discard :: bool
  ck_comment :: "string option"
  ck_comment_url :: "string option"
  ck_rest :: "(string \<times> json) list"
  ck_rfc2109 :: bool

text \<open>
  \<open>http.cookiejar.CookieJar\<close> keeps its cookies in dictionaries nested by domain, path and name and
  iterates over them in that nesting; \<open>set_cookie\<close> creates the levels it needs.
\<close>

type_synonym jar = "(string, (string, (string, cookie) pydict) pydict) pydict"

definition jar_set :: "jar \<Rightarrow> cookie \<Rightarrow> jar" where
  "jar_set j c =
     (let paths = dict_get j (ck_domain c) []; names = dict_get paths (ck_path c) []
      in dict_set j (ck_domain c) (dict_set paths (ck_path c) (dict_set names (ck_name c) c)))"

definition jar_cookies :: "jar \<Rightarrow> cookie list" where
  "jar_cookies j = concat (map (\<lambda>(d, paths). concat (map (\<lambda>(p, names). map snd names) paths)) j)"

definition jar_lookup :: "jar \<Rightarrow> string \<Rightarrow> string \<Rightarrow> string \<Rightarrow> cookie option" where
  "jar_lookup j d p n = map_of (dict_get (dict_get j d []) p []) n"

definition opt_int_json :: "int option \<Rightarrow> json" where
  "opt_int_json i = (case i of None \<Rightarrow> JNull | Some n \<Rightarrow> JInt n)"

definition opt_str_json :: "string option \<Rightarrow> json" where
  "opt_str_json x = (case x of None \<Rightarrow> JNull | Some s \<Rightarrow> JStr s)"

definition cookie_dict :: "cookie \<Rightarrow> (string \<times> json) list" where
  "cookie_dict c =
     [(''version'', opt_int_json (ck_version c)), (''name'', JStr (ck_name c)),
      (''value'', opt_str_json (ck_value c)), (''port'', opt_str_json (ck_port c)),
      (''port_specified'', JBool (ck_port_specified c)), (''domain'', JStr (ck_domain c)),
      (''domain_specified'', JBool (ck_domain_specified c)),
      (''domain_initial_dot'', JBool (ck_domain_initial_dot c)), (''path'', JStr (ck_path c)),
      (''path_specified'', JBool (ck_path_specified c)), (''secure'', JBool (ck_secure c)),
      (''expires'', opt_int_json (ck_expires c)), (''discard'', JBool (ck_discard c)),
      (''comment'', opt_str_json (ck_comment c)), (''comment_url'', opt_str_json (ck_comment_url c)),
      (''rest'', JObj (ck_rest c)), (''rfc2109'', JBool (ck_rfc2109 c))]"

definition export_cookies :: "jar \<Rightarrow> json" where
  "export_cookies j = JList (map (\<lambda>c. JObj (cookie_dict c)) (jar_cookies j))"

text \<open>The kinds of value each field of an exported record has.\<close>

fun as_opt_int :: "json option \<Rightarrow> int option option" where
  "as_opt_int (Some JNull) = Some None"
| "as_opt_int (Some (JInt n)) = Some (Some n)"
| "as_opt_int _ = None"

fun as_opt_str :: "json option \<Rightarrow> string option option" where
  "as_opt_str (Some JNull) = Some None"
| "as_opt_str (Some (JStr s)) = Some (Some s)"
| "as_opt_str _ = None"

fun as_str :: "json option \<Rightarrow> string option" where
  "as_str (Some (JStr s)) = Some s"
| "as_str _ = None"

fun as_bool :: "json option \<Rightarrow> bool option" where
  "as_bool (Some (JBool b)) = Some b"
| "as_bool _ = None"

fun as_obj :: "json option \<Rightarrow> (string \<times> json) list option" where
  "as_obj (Some (JObj o')) = Some o'"
| "as_obj _ = None"

definition cookie_fields :: "string list" where
  "cookie_fields =
     [''version'', ''name'', ''value'', ''port'', ''port_specified'', ''domain'', ''domain_specified'',
      ''domain_initial_dot'', ''path'', ''path_specified'', ''secure'', ''expires'', ''discard'',
      ''comment'', ''comment_url'', ''rest'', ''rfc2109'']"

text \<open>
  \<open>Cookie(**data)\<close>: an unknown or missing argument is an error, a specified port needs a value, and
  the domain is put in lower case.  A value of another kind than the export writes is an error too.
\<close>

definition make_cookie :: "json \<Rightarrow> session_error + cookie" where
  "make_cookie data =
     (case data of
        JObj d \<Rightarrow>
         (if \<not> set (keys d) \<subseteq> set cookie_fields then Inl (CookieTypeError ''unexpected argument'')
          else
           (case (as_opt_int (map_of d ''version''), as_str (map_of d ''name''), as_opt_str (map_of d ''value''),
                  as_opt_str (map_of d ''port''), as_bool (map_of d ''port_specified''),
                  as_str (map_of d ''domain''), as_bool (map_of d ''domain_specified''),
                  as_bool (map_of d ''domain_initial_dot'')) of
              (Some version, Some name, Some val, Some port, Some port_specified, Some domain,
               Some domain_specified, Some domain_initial_dot) \<Rightarrow>
               (case (as_str (map_of d ''path''), as_bool (map_of d ''path_specified''),
                      as_bool (map_of d ''secure''), as_opt_int (map_of d ''expires''),
                      as_bool (map_of d ''discard''), as_opt_str (map_of d ''comment''),
                      as_opt_str (map_of d ''comment_url''), as_obj (map_of d ''rest''),
                      as_bool (map_of d ''rfc2109'')) of
                  (Some path, Some path_specified, Some secure, Some expires, Some discard, Some comment,
                   Some comment_url, Some rest, Some rfc2109) \<Rightarrow>
                    (if port = None \<and> port_specified then Inl CookieValueError
                     else Inr \<lparr>ck_version = version, ck_name = name, ck_value = val, ck_port = port,
                            ck_port_specified = port_specified, ck_domain = lower domain,
                            ck_domain_specified = domain_specified,
                            ck_domain_initial_dot = domain_initial_dot, ck_path = path,
                            ck_path_specified = path_specified, ck_secure = secure, ck_expires = expires,
                            ck_discard = discard, ck_comment = comment, ck_comment_url = comment_url,
                            ck_rest = rest, ck_rfc2109 = rfc2109\<rparr>)
                | _ \<Rightarrow> Inl (CookieTypeError ''missing argument''))
            | _ \<Rightarrow> Inl (CookieTypeError ''missing argument'')))
      | _ \<Rightarrow> Inl (CookieTypeError ''not a mapping''))"

text \<open>
  The import writes into the jar as it goes: on a bad record the jar holds the cookies before it, and
  the second component the error.
\<close>

fun set_cookies :: "jar \<Rightarrow> json list \<Rightarrow> jar \<times> session_error option" where
  "set_cookies j [] = (j, None)"
| "set_cookies j (data # rest) =
     (case make_cookie data of Inl e \<Rightarrow> (j, Some e) | Inr c \<Rightarrow> set_cookies (jar_set j c) rest)"

definition import_cookies :: "jar \<Rightarrow> json \<Rightarrow> bool \<Rightarrow> jar \<times> session_error option" where
  "import_cookies j cookies replace =
     (let j0 = (if replace then [] else j)
      in case cookies of
           JList items \<Rightarrow> set_cookies j0 items
         | _ \<Rightarrow> (j0, Some (CookieTypeError ''not a list'')))"

definition cookie_ok :: "cookie \<Rightarrow> bool" where
  "cookie_ok c \<longleftrightarrow> lower (ck_domain c) = ck_domain c \<and> (ck_port_specified c \<longrightarrow> ck_port c \<noteq> None)"

definition names_ok :: "string \<Rightarrow> string \<Rightarrow> (string, cookie) pydict \<Rightarrow> bool" where
  "names_ok d p names \<longleftrightarrow> dict_wf names \<and>
     (\<forall>n c. (n, c) \<in> set names \<longrightarrow> cookie_ok c \<and> ck_domain c = d \<and> ck_path c = p \<and> ck_name c = n)"

definition paths_ok :: "string \<Rightarrow> (string, (string, cookie) pydict) pydict \<Rightarrow> bool" where
  "paths_ok d paths \<longleftrightarrow> dict_wf paths \<and> (\<forall>p names. (p, names) \<in> set paths \<longrightarrow> names_ok d p names)"

definition jar_ok :: "jar \<Rightarrow> bool" where
  "jar_ok j \<longleftrightarrow> dict_wf j \<and> (\<forall>d paths. (d, paths) \<in> set j \<longrightarrow> paths_ok d paths)"

lemma as_opt_json [simp]:
  "as_opt_int (Some (opt_int_json i)) = Some i" "as_opt_str (Some (opt_str_json x)) = Some x"
  by (auto simp: opt_int_json_def opt_str_json_def split: option.splits)

lemma make_cookie_dict:
  assumes "cookie_ok c"
  shows "make_cookie (JObj (cookie_dict c)) = Inr c"
proof -
  have "set (keys (cookie_dict c)) \<subseteq> set cookie_fields"
    by (simp add: cookie_dict_def cookie_fields_def)
  then show ?thesis
    using assms by (auto simp: make_cookie_def cookie_dict_def cookie_ok_def)
qed

lemma cookie_ok_make: "make_cookie data = Inr c \<Longrightarrow> cookie_ok c"
  by (auto simp: make_cookie_def cookie_ok_def split: json.splits option.splits if_splits)

lemma set_cookies_export:
  "(\<And>c. c \<in> set cs \<Longrightarrow> cookie_ok c) \<Longrightarrow>
   set_cookies j (map (\<lambda>c. JObj (cookie_dict c)) cs) = (foldl jar_set j cs, None)"
  by (induction cs arbitrary: j) (auto simp: make_cookie_dict)

text \<open>Setting a list of cookies one by one: the last cookie with a key wins.\<close>

lemma jar_lookup_set [simp]:
  "jar_lookup (jar_set j c) d p n =
     (if d = ck_domain c \<and> p = ck_path c \<and> n = ck_name c then Some c else jar_lookup j d p n)"
  by (auto simp: jar_lookup_def jar_set_def Let_def)

lemma jar_lookup_foldl:
  "jar_lookup (foldl jar_set j cs) d p n =
     (case find (\<lambda>c. d = ck_domain c \<and> p = ck_path c \<and> n = ck_name c) (rev cs) of
        Some c \<Rightarrow> Some c | None \<Rightarrow> jar_lookup j d p n)"
  by (induction cs rule: rev_induct) auto

lemma in_concat_mapD: "x \<in> set (concat (map f xs)) \<Longrightarrow> \<exists>y \<in> set xs. x \<in> set (f y)"
  by auto

lemma in_jar_cookiesE:
  assumes "c \<in> set (jar_cookies j)"
  obtains d paths p names n where "(d, paths) \<in> set j" "(p, names) \<in> set paths" "(n, c) \<in> set names"
proof -
  from assms obtain dp where dp: "dp \<in> set j"
    and 1: "c \<in> set (concat (map (\<lambda>q. map snd (snd q)) (snd dp)))"
    using in_concat_mapD [of c _ j] unfolding jar_cookies_def case_prod_unfold by blast
  from in_concat_mapD [OF 1] obtain pn where pn: "pn \<in> set (snd dp)" and 2: "c \<in> set (map snd (snd pn))"
    by blast
  from 2 obtain nc where "nc \<in> set (snd pn)" "snd nc = c" by auto
  note dp pn this
  then show ?thesis
    using that [of "fst dp" "snd dp" "fst pn" "snd pn" "fst nc"] by (metis prod.collapse)
qed

lemma in_jar_cookiesI:
  "(d, paths) \<in> set j \<Longrightarrow> (p, names) \<in> set paths \<Longrightarrow> (n, c) \<in> set names \<Longrightarrow> c \<in> set (jar_cookies j)"
  unfolding jar_cookies_def by force

lemma jar_lookup_Some_iff:
  "jar_lookup j d p n = Some c \<longleftrightarrow>
     (\<exists>paths names. map_of j d = Some paths \<and> map_of paths p = Some names \<and> map_of names n = Some c)"
  by (auto simp: jar_lookup_def dict_get_def split: option.splits)

lemma jar_ok_leaf:
  assumes "jar_ok j" "(d, paths) \<in> set j" "(p, names) \<in> set paths" "(n, c) \<in> set names"
  shows "ck_domain c = d" "ck_path c = p" "ck_name c = n" "cookie_ok c"
    "dict_wf j" "dict_wf paths" "dict_wf names"
proof -
  have 1: "paths_ok d paths" "dict_wf j" using assms(1,2) by (auto simp: jar_ok_def)
  then have 2: "names_ok d p names" "dict_wf paths" using assms(3) by (auto simp: paths_ok_def)
  then show "ck_domain c = d" "ck_path c = p" "ck_name c = n" "cookie_ok c" "dict_wf names"
    using assms(4) by (auto simp: names_ok_def)
  show "dict_wf j" "dict_wf paths" by fact+
qed

lemma in_jar_cookies_iff:
  assumes "jar_ok j"
  shows "c \<in> set (jar_cookies j) \<longleftrightarrow> jar_lookup j (ck_domain c) (ck_path c) (ck_name c) = Some c"
proof
  assume "c \<in> set (jar_cookies j)"
  then obtain d paths p names n where l: "(d, paths) \<in> set j" "(p, names) \<in> set paths" "(n, c) \<in> set names"
    by (rule in_jar_cookiesE)
  then show "jar_lookup j (ck_domain c) (ck_path c) (ck_name c) = Some c"
    using jar_ok_leaf [OF assms l] by (auto simp: jar_lookup_Some_iff)
next
  assume "jar_lookup j (ck_domain c) (ck_path c) (ck_name c) = Some c"
  then show "c \<in> set (jar_cookies j)"
    by (auto simp: jar_lookup_Some_iff dest!: map_of_SomeD intro: in_jar_cookiesI)
qed

lemma jar_lookup_key:
  assumes "jar_ok j" and "jar_lookup j d p n = Some c"
  shows "ck_domain c = d" and "ck_path c = p" and "ck_name c = n" and "c \<in> set (jar_cookies j)"
    and "cookie_ok c"
proof -
  from assms(2) obtain paths names where l: "(d, paths) \<in> set j" "(p, names) \<in> set paths" "(n, c) \<in> set names"
    by (auto simp: jar_lookup_Some_iff dest!: map_of_SomeD)
  show "ck_domain c = d" "ck_path c = p" "ck_name c = n" "cookie_ok c"
    using jar_ok_leaf [OF assms(1) l] by auto
  show "c \<in> set (jar_cookies j)" using l by (rule in_jar_cookiesI)
qed

lemma jar_cookies_ok: "jar_ok j \<Longrightarrow> c \<in> set (jar_cookies j) \<Longrightarrow> cookie_ok c"
  using in_jar_cookies_iff jar_lookup_key(5) by metis

lemma find_SomeD: "find P xs = Some x \<Longrightarrow> x \<in> set xs \<and> P x"
  by (induction xs) (auto split: if_splits)

text \<open>An exported jar, imported again, answers every lookup as before and holds nothing else.\<close>

lemma jar_lookup_rebuild:
  assumes "jar_ok j"
  shows "jar_lookup (foldl jar_set [] (jar_cookies j)) d p n = jar_lookup j d p n"
proof (cases "find (\<lambda>c. d = ck_domain c \<and> p = ck_path c \<and> n = ck_name c) (rev (jar_cookies j))")
  case None
  then have "jar_lookup j d p n \<noteq> Some c" for c
    using jar_lookup_key [OF assms, of d p n c] by (auto simp: find_None_iff)
  then have "jar_lookup j d p n = None" by (cases "jar_lookup j d p n") auto
  then show ?thesis using None by (simp add: jar_lookup_foldl) (simp add: jar_lookup_def dict_get_def)
next
  case (Some c)
  then have "c \<in> set (jar_cookies j)" "d = ck_domain c" "p = ck_path c" "n = ck_name c"
    using find_SomeD [OF Some] by auto
  then show ?thesis using Some in_jar_cookies_iff [OF assms, of c] by (simp add: jar_lookup_foldl)
qed

lemma import_export_cookies:
  assumes "jar_ok j"
  shows "\<exists>j'. import_cookies j0 (export_cookies j) True = (j', None) \<and>
    (\<forall>d p n. jar_lookup j' d p n = jar_lookup j d p n)"
  using jar_lookup_rebuild [OF assms] set_cookies_export [of "jar_cookies j" "[]"]
    jar_cookies_ok [OF assms]
  by (simp add: import_cookies_def export_cookies_def)

lemma jar_ok_Nil [simp]: "jar_ok []"
  by (simp add: jar_ok_def)

lemma names_ok_Nil [simp]: "names_ok d p []"
  by (simp add: names_ok_def)

lemma paths_ok_Nil [simp]: "paths_ok d []"
  by (simp add: paths_ok_def)

lemma paths_ok_get: "jar_ok j \<Longrightarrow> paths_ok d (dict_get j d [])"
  using dict_get_cases [of j d "[]"] by (auto simp: jar_ok_def)

lemma names_ok_get: "paths_ok d paths \<Longrightarrow> names_ok d p (dict_get paths p [])"
  using dict_get_cases [of paths p "[]"] by (auto simp: paths_ok_def)

lemma names_ok_set:
  "names_ok (ck_domain c) (ck_path c) names \<Longrightarrow> cookie_ok c \<Longrightarrow>
   names_ok (ck_domain c) (ck_path c) (dict_set names (ck_name c) c)"
  by (auto simp: names_ok_def dest!: in_set_dict_setD)

lemma paths_ok_set: "paths_ok d paths \<Longrightarrow> names_ok d p names \<Longrightarrow> paths_ok d (dict_set paths p names)"
  by (auto simp: paths_ok_def dest!: in_set_dict_setD)

lemma jar_ok_dict_set: "jar_ok j \<Longrightarrow> paths_ok d paths \<Longrightarrow> jar_ok (dict_set j d paths)"
  by (auto simp: jar_ok_def dest!: in_set_dict_setD)

lemma jar_ok_set [inv_intros]: "jar_ok j \<Longrightarrow> cookie_ok c \<Longrightarrow> jar_ok (jar_set j c)"
  unfolding jar_set_def Let_def
  by (intro jar_ok_dict_set paths_ok_set names_ok_set names_ok_get paths_ok_get)

lemma jar_ok_set_cookies [inv_intros]: "jar_ok j \<Longrightarrow> jar_ok (fst (set_cookies j items))"
proof (induction items arbitrary: j)
  case (Cons data items)
  then show ?case
    by (cases "make_cookie data") (auto intro: jar_ok_set cookie_ok_make)
qed simp

lemma jar_ok_import [inv_intros]: "jar_ok j \<Longrightarrow> jar_ok (fst (import_cookies j cookies replace))"
  by (auto simp: import_cookies_def Let_def intro: jar_ok_set_cookies split: json.splits)

section \<open>The wrapper of one session\<close>

record session_settings =
  ss_default_cookies :: "(string, string) pydict"
  ss_requests_per_second :: "rat option"

record wrapper =
  sw_jar :: jar
  sw_hints :: hints_state
  sw_pool :: ws_pool
  sw_limiter :: limiter
  sw_default_cookies :: "(string, string) pydict"

text \<open>
  \<open>mk_cookie name value\<close> is the cookie the HTTP library's jar makes for a plain name and value; it
  belongs to that library and is an argument of the model.
\<close>

definition update_session_cookies ::
  "(string \<Rightarrow> string \<Rightarrow> cookie) \<Rightarrow> wrapper \<Rightarrow> (string, string) pydict \<Rightarrow> wrapper" where
  "update_session_cookies mk_cookie w cookies =
     w\<lparr>sw_jar := foldl (\<lambda>j (ck, val). jar_set j (mk_cookie ck val)) (sw_jar w) cookies\<rparr>"

definition new_wrapper ::
  "(string \<Rightarrow> string \<Rightarrow> cookie) \<Rightarrow> session_settings \<Rightarrow> (string, string) pydict option \<Rightarrow> rat option \<Rightarrow>
   session_error + wrapper" where
  "new_wrapper mk_cookie st cookies rate =
     (case limiter_init rate of
        Inl e \<Rightarrow> Inl e
      | Inr l \<Rightarrow>
         let default_cookies = (case cookies of
               Some (c # cs) \<Rightarrow> c # cs | _ \<Rightarrow> ss_default_cookies st)
         in Inr (update_session_cookies mk_cookie
               \<lparr>sw_jar = [], sw_hints = init_hints, sw_pool = [], sw_limiter = l,
                sw_default_cookies = default_cookies\<rparr> default_cookies))"

definition close_websocket ::
  "(string \<Rightarrow> string) \<Rightarrow> task_id option \<Rightarrow> wrapper \<Rightarrow> string \<Rightarrow> wrapper \<times> ws_effect list" where
  "close_websocket key_of current w identifier =
     (case (case get_from_key (sw_pool w) identifier of
              None \<Rightarrow> get_from_url key_of (sw_pool w) identifier | Some e \<Rightarrow> Some e) of
        None \<Rightarrow> (w, [])
      | Some e \<Rightarrow> (w\<lparr>sw_pool := fst (remove_from_url key_of (sw_pool w) (we_url e))\<rparr>,
                    snd (entry_close current e)))"

definition wrapper_ok :: "(string \<Rightarrow> string) \<Rightarrow> wrapper \<Rightarrow> bool" where
  "wrapper_ok key_of w \<longleftrightarrow> jar_ok (sw_jar w) \<and> hints_inv (sw_hints w) \<and> pool_inv key_of (sw_pool w) \<and>
     limiter_ok (sw_limiter w)"

lemma jar_ok_foldl:
  "jar_ok j \<Longrightarrow> (\<And>k v. cookie_ok (mk k v)) \<Longrightarrow> jar_ok (foldl (\<lambda>j (ck, val). jar_set j (mk ck val)) j cs)"
  by (induction cs arbitrary: j) (auto intro: jar_ok_set)

lemma wrapper_ok_update [inv_intros]:
  "wrapper_ok key_of w \<Longrightarrow> (\<And>k v. cookie_ok (mk k v)) \<Longrightarrow>
   wrapper_ok key_of (update_session_cookies mk w cookies)"
  by (simp add: wrapper_ok_def update_session_cookies_def jar_ok_foldl)

lemma wrapper_ok_new [inv_intros]:
  assumes "new_wrapper mk st cookies rate = Inr w" and "\<And>k v. cookie_ok (mk k v)"
  shows "wrapper_ok key_of w"
proof -
  obtain l dc where l: "limiter_init rate = Inr l"
    and w: "w = update_session_cookies mk \<lparr>sw_jar = [], sw_hints = init_hints, sw_pool = [], sw_limiter = l,
                sw_default_cookies = dc\<rparr> dc"
    using assms(1) by (auto simp: new_wrapper_def Let_def split: sum.splits)
  show ?thesis
    unfolding w using limiter_ok_init [OF l] assms(2)
    by (intro wrapper_ok_update) (auto simp: wrapper_ok_def)
qed

text \<open>After closing a WebSocket by key or by URL its entry is gone and the others are untouched.\<close>

lemma close_websocket_removes:
  assumes "wrapper_ok key_of w" and "map_of (sw_pool w) identifier = Some e \<or>
    map_of (sw_pool w) identifier = None \<and> map_of (sw_pool w) (key_of identifier) = Some e"
  shows "map_of (sw_pool (fst (close_websocket key_of c w identifier))) k =
    (if k = key_of (we_url e) then None else map_of (sw_pool w) k)"
    and "wrapper_ok key_of (fst (close_websocket key_of c w identifier))"
proof -
  have e: "fst (close_websocket key_of c w identifier) =
      w\<lparr>sw_pool := dict_pop (sw_pool w) (key_of (we_url e))\<rparr>"
    using assms(2) by (auto simp: close_websocket_def get_from_key_def get_from_url_def
        remove_from_url_def pool_remove_def)
  show "map_of (sw_pool (fst (close_websocket key_of c w identifier))) k =
    (if k = key_of (we_url e) then None else map_of (sw_pool w) k)"
    unfolding e by simp
  show "wrapper_ok key_of (fst (close_websocket key_of c w identifier))"
    unfolding e using assms(1) pool_inv_ops(7) [of key_of "sw_pool w" "key_of (we_url e)"]
    by (simp add: wrapper_ok_def pool_remove_def)
qed

end
