(* ===== verification/Sessions.thy ===== *)
theory Sessions
  imports SessionState StateCodec
begin

text \<open>
  The session manager (\<open>core/sessions.py\<close>, class \<open>SessionManager\<close>): session ids to wrappers, groups,
  reference counts, end marks, and the queue through which the reaper closes sessions.  The reaper's
  turn is split where the code awaits: \<open>reaper_take\<close> is the synchronous part up to the first await of
  \<open>_safe_close\<close> and \<open>reaper_finish\<close> the \<open>finally\<close> after it, so that every other operation can run in
  between.  \<open>random.choice\<close>, the cookie a name and value make and the unique ids are arguments.
\<close>

section \<open>State\<close>

record session_env =
  se_settings :: session_settings
  se_mk_cookie :: "string \<Rightarrow> string \<Rightarrow> cookie"
  se_choice :: "string list \<Rightarrow> string"

record manager =
  sm_default :: string
  sm_sessions :: "(string, wrapper option) pydict"
  sm_groups :: "(string, string list) pydict"
  sm_ref_counts :: "(string, int) pydict"
  sm_end_flags :: "string set"
  sm_close_queue :: "string list"
  sm_pending :: "string set"
  sm_restored :: "(string \<times> string) set"
  sm_rates :: "(string, rat option) pydict"
  sm_frozen :: bool

definition manager_init :: "string \<Rightarrow> manager" where
  "manager_init default_id =
     \<lparr>sm_default = default_id, sm_sessions = [(default_id, None)], sm_groups = [], sm_ref_counts = [],
      sm_end_flags = {}, sm_close_queue = [], sm_pending = {}, sm_restored = {}, sm_rates = [],
      sm_frozen = False\<rparr>"

definition live_session :: "manager \<Rightarrow> string \<Rightarrow> wrapper option" where
  "live_session m sid = (case map_of (sm_sessions m) sid of None \<Rightarrow> None | Some w \<Rightarrow> w)"

section \<open>Looking up and registering\<close>

text \<open>The id a request's session id stands for: the default session, or a member of a group.\<close>

definition resolve_session_id :: "session_env \<Rightarrow> manager \<Rightarrow> string \<Rightarrow> session_error + string" where
  "resolve_session_id env m session_id =
     (let sid = (if session_id = [] then sm_default m else session_id)
      in case map_of (sm_groups m) sid of
           None \<Rightarrow> Inr sid
         | Some members \<Rightarrow> if members = [] then Inl (GroupEmpty sid) else Inr (se_choice env members))"

definition get_or_create_session ::
  "session_env \<Rightarrow> manager \<Rightarrow> string \<Rightarrow> (string, string) pydict option \<Rightarrow> session_error + (manager \<times> string)" where
  "get_or_create_session env m session_id cookies =
     (case resolve_session_id env m session_id of
        Inl e \<Rightarrow> Inl e
      | Inr sid \<Rightarrow>
         (case live_session m sid of
            Some w \<Rightarrow>
              (case cookies of
                 Some (c # cs) \<Rightarrow>
                   Inr (m\<lparr>sm_sessions := dict_set (sm_sessions m) sid
                          (Some (update_session_cookies (se_mk_cookie env) w (c # cs)))\<rparr>, sid)
               | _ \<Rightarrow> Inr (m, sid))
          | None \<Rightarrow>
              (case new_wrapper (se_mk_cookie env) (se_settings env) cookies
                      (dict_get (sm_rates m) sid (ss_requests_per_second (se_settings env))) of
                 Inl e \<Rightarrow> Inl e
               | Inr w \<Rightarrow> Inr (m\<lparr>sm_sessions := dict_set (sm_sessions m) sid (Some w)\<rparr>, sid))))"

datatype rate_choice = InheritRate | SetRate "rat option"

fun register_members ::
  "session_env \<Rightarrow> rat option \<Rightarrow> manager \<Rightarrow> string list \<Rightarrow> (string \<times> (string, string) pydict) list \<Rightarrow>
   session_error + (manager \<times> string list)" where
  "register_members env rate m session_ids [] = Inr (m, session_ids)"
| "register_members env rate m session_ids ((sid, cookies) # rest) =
     (if sid \<in> set (keys (sm_sessions m)) then register_members env rate m session_ids rest
      else (case new_wrapper (se_mk_cookie env) (se_settings env) (Some cookies) rate of
              Inl e \<Rightarrow> Inl e
            | Inr w \<Rightarrow>
                register_members env rate
                  (m\<lparr>sm_sessions := dict_set (sm_sessions m) sid (Some w),
                     sm_rates := dict_set (sm_rates m) sid rate\<rparr>)
                  (session_ids @ [sid]) rest))"

text \<open>\<open>fresh\<close> is the unique id made when the caller names no group.\<close>

definition register_sessions_batch ::
  "session_env \<Rightarrow> manager \<Rightarrow> (string, (string, string) pydict) pydict \<Rightarrow> string option \<Rightarrow> string \<Rightarrow>
   rate_choice \<Rightarrow> session_error + (manager \<times> string option)" where
  "register_sessions_batch env m user_cookies group_id fresh requests_per_second =
     (if user_cookies = [] then Inr (m, None)
      else
        let gid = (case group_id of Some (c # cs) \<Rightarrow> c # cs | _ \<Rightarrow> fresh);
            rate = (case requests_per_second of
                      InheritRate \<Rightarrow> ss_requests_per_second (se_settings env) | SetRate r \<Rightarrow> r)
        in if \<not> rate_valid rate then Inl RateError
           else (case register_members env rate m [] user_cookies of
                   Inl e \<Rightarrow> Inl e
                 | Inr (m', session_ids) \<Rightarrow>
                     Inr (m'\<lparr>sm_groups := dict_set (sm_groups m') gid session_ids\<rparr>, Some gid)))"

fun configure_targets :: "rat option \<Rightarrow> manager \<Rightarrow> string list \<Rightarrow> session_error + manager" where
  "configure_targets rate m [] = Inr m"
| "configure_targets rate m (target # rest) =
     (let m1 = m\<lparr>sm_rates := dict_set (sm_rates m) target rate\<rparr>
      in case live_session m1 target of
           None \<Rightarrow> configure_targets rate m1 rest
         | Some w \<Rightarrow>
             (case limiter_configure (sw_limiter w) rate of
                Inl e \<Rightarrow> Inl e
              | Inr l \<Rightarrow> configure_targets rate
                  (m1\<lparr>sm_sessions := dict_set (sm_sessions m1) target (Some (w\<lparr>sw_limiter := l\<rparr>))\<rparr>) rest))"

definition configure_rate_limit :: "manager \<Rightarrow> string \<Rightarrow> rat option \<Rightarrow> session_error + manager" where
  "configure_rate_limit m session_id rate =
     (if \<not> rate_valid rate then Inl RateError
      else configure_targets rate m
        (case map_of (sm_groups m) session_id of
           Some members \<Rightarrow> members
         | None \<Rightarrow> [if session_id = [] then sm_default m else session_id]))"

definition freeze :: "manager \<Rightarrow> manager" where
  "freeze m = m\<lparr>sm_frozen := True\<rparr>"

section \<open>References, ends and the close queue\<close>

definition is_default_session :: "manager \<Rightarrow> string \<Rightarrow> bool" where
  "is_default_session m sid \<longleftrightarrow> sid = sm_default m"

definition acquire :: "manager \<Rightarrow> string \<Rightarrow> manager" where
  "acquire m sid =
     (if is_default_session m sid \<or> sid = [] then m
      else m\<lparr>sm_ref_counts := dict_set (sm_ref_counts m) sid (dict_get (sm_ref_counts m) sid 0 + 1)\<rparr>)"

definition enqueue_close :: "manager \<Rightarrow> string \<Rightarrow> manager" where
  "enqueue_close m sid = m\<lparr>sm_close_queue := sm_close_queue m @ [sid], sm_pending := insert sid (sm_pending m)\<rparr>"

definition release :: "manager \<Rightarrow> string \<Rightarrow> manager" where
  "release m sid =
     (if is_default_session m sid \<or> sid = [] then m
      else (case map_of (sm_ref_counts m) sid of
              None \<Rightarrow> m
            | Some n \<Rightarrow>
                let m1 = m\<lparr>sm_ref_counts := dict_set (sm_ref_counts m) sid (n - 1)\<rparr>
                in if sid \<in> sm_end_flags m1 \<and> n - 1 \<le> 0 \<and> sid \<notin> sm_pending m1
                   then enqueue_close m1 sid else m1))"

definition mark_end_single :: "manager \<Rightarrow> string \<Rightarrow> manager" where
  "mark_end_single m sid =
     (let m1 = m\<lparr>sm_end_flags := insert sid (sm_end_flags m)\<rparr>
      in if dict_get (sm_ref_counts m1) sid 0 \<le> 0 \<and> sid \<notin> sm_pending m1
         then enqueue_close m1 sid else m1)"

text \<open>The id leaves the first group that lists it.\<close>

fun leave_group :: "(string, string list) pydict \<Rightarrow> string \<Rightarrow> (string, string list) pydict" where
  "leave_group [] sid = []"
| "leave_group ((g, members) # rest) sid =
     (if sid \<in> set members then (g, remove1 sid members) # rest
      else (g, members) # leave_group rest sid)"

definition mark_end :: "manager \<Rightarrow> string \<Rightarrow> manager" where
  "mark_end m sid =
     (if is_default_session m sid \<or> sid = [] then m
      else (case map_of (sm_groups m) sid of
              Some members \<Rightarrow> foldl mark_end_single m members
            | None \<Rightarrow> mark_end_single (m\<lparr>sm_groups := leave_group (sm_groups m) sid\<rparr>) sid))"

definition close_group_sessions :: "manager \<Rightarrow> string \<Rightarrow> manager" where
  "close_group_sessions m group_id =
     foldl mark_end (m\<lparr>sm_groups := dict_pop (sm_groups m) group_id\<rparr>) (dict_get (sm_groups m) group_id [])"

section \<open>The reaper\<close>

text \<open>
  \<open>_safe_close\<close> up to its first await: the wrapper it takes out is the one whose WebSockets and HTTP
  session it then closes.
\<close>

definition safe_close :: "manager \<Rightarrow> string \<Rightarrow> manager \<times> (string \<times> wrapper) option" where
  "safe_close m sid =
     (if sm_frozen m then (m, None)
      else if is_default_session m sid \<or> sid = [] then (m, None)
      else (m\<lparr>sm_sessions := dict_pop (sm_sessions m) sid\<rparr>, map_option (Pair sid) (live_session m sid)))"

definition reaper_take :: "manager \<Rightarrow> (manager \<times> string \<times> (string \<times> wrapper) option) option" where
  "reaper_take m =
     (case sm_close_queue m of
        [] \<Rightarrow> None
      | sid # rest \<Rightarrow>
          (case safe_close (m\<lparr>sm_close_queue := rest\<rparr>) sid of (m1, taken) \<Rightarrow> Some (m1, sid, taken)))"

definition reaper_finish :: "manager \<Rightarrow> string \<Rightarrow> manager" where
  "reaper_finish m sid = m\<lparr>sm_pending := sm_pending m - {sid}\<rparr>"

text \<open>Closing a wrapper: every WebSocket in pool order, then the HTTP session.\<close>

datatype close_effect = WsClose ws_effect | HttpClose string

definition close_wrapper :: "task_id option \<Rightarrow> string \<times> wrapper \<Rightarrow> wrapper \<times> close_effect list" where
  "close_wrapper current sw =
     (case pool_close_all current (sw_pool (snd sw)) of
        (pool, effects) \<Rightarrow> ((snd sw)\<lparr>sw_pool := pool\<rparr>, map WsClose effects @ [HttpClose (fst sw)]))"

fun safe_close_list :: "manager \<Rightarrow> string list \<Rightarrow> manager \<times> (string \<times> wrapper) list" where
  "safe_close_list m [] = (m, [])"
| "safe_close_list m (sid # rest) =
     (let (m1, taken) = safe_close m sid; (m2, others) = safe_close_list m1 rest
      in (m2, (case taken of None \<Rightarrow> others | Some sw \<Rightarrow> sw # others)))"

text \<open>The reaper task is stopped first; what it was closing is no longer in the dictionary.\<close>

definition close_all :: "manager \<Rightarrow> manager \<times> (string \<times> wrapper) list" where
  "close_all m =
     (case safe_close_list (m\<lparr>sm_frozen := False\<rparr>) (keys (sm_sessions m)) of
        (m1, taken) \<Rightarrow>
          (m1\<lparr>sm_sessions := [], sm_ref_counts := [], sm_end_flags := {}, sm_pending := {}, sm_rates := [],
              sm_close_queue := []\<rparr>, taken))"

section \<open>Cookies and persistence\<close>

definition get_session_cookies ::
  "(jar \<Rightarrow> (string, string) pydict) \<Rightarrow> manager \<Rightarrow> string \<Rightarrow> (string, (string, string) pydict) pydict" where
  "get_session_cookies get_dict m session_id =
     (case map_of (sm_groups m) session_id of
        Some session_ids \<Rightarrow>
          foldl (\<lambda>ret it. case live_session m it of
                   None \<Rightarrow> ret | Some w \<Rightarrow> dict_set ret it (get_dict (sw_jar w))) [] session_ids
      | None \<Rightarrow>
          (case live_session m session_id of
             None \<Rightarrow> [] | Some w \<Rightarrow> [(session_id, get_dict (sw_jar w))]))"

definition state_field :: "string \<Rightarrow> string" where
  "state_field session_id = (if session_id = [] then ''D'' else ''S:'' @ session_id)"

definition wrapper_state :: "wrapper \<Rightarrow> (string \<times> json) list" where
  "wrapper_state w = [(''cookies'', export_cookies (sw_jar w)), (''client_hints'', export_state (sw_hints w))]"

definition session_snapshot :: "manager \<Rightarrow> string \<Rightarrow> json option" where
  "session_snapshot m session_id =
     (case map_of (sm_groups m) session_id of
        Some session_ids \<Rightarrow>
          let members = foldl (\<lambda>ret it. case live_session m it of
                None \<Rightarrow> ret | Some w \<Rightarrow> dict_set ret it (JObj (wrapper_state w))) [] session_ids
          in Some (JObj [(''kind'', JStr ''group''), (''members'', JObj members)])
      | None \<Rightarrow>
          (case live_session m (if session_id = [] then sm_default m else session_id) of
             None \<Rightarrow> None
           | Some w \<Rightarrow> Some (JObj ((''kind'', JStr ''session'') # wrapper_state w))))"

text \<open>The Redis hashes: one map from key and field to the stored payload.\<close>

type_synonym redis_store = "string \<times> string \<Rightarrow> bytes option"

definition persist_session ::
  "(json \<Rightarrow> codec_error + bytes) \<Rightarrow> redis_store \<Rightarrow> manager \<Rightarrow> string \<Rightarrow> string \<Rightarrow>
   codec_error + (redis_store \<times> manager \<times> bool)" where
  "persist_session enc store m state_key session_id =
     (case session_snapshot m session_id of
        None \<Rightarrow> Inr (store, m, False)
      | Some state \<Rightarrow>
          (case enc state of
             Inl e \<Rightarrow> Inl e
           | Inr payload \<Rightarrow>
               let marker = (state_key, state_field session_id)
               in Inr (store(marker \<mapsto> payload), m\<lparr>sm_restored := insert marker (sm_restored m)\<rparr>, True)))"

fun persist_list ::
  "(json \<Rightarrow> codec_error + bytes) \<Rightarrow> redis_store \<Rightarrow> manager \<Rightarrow> string \<Rightarrow> string list \<Rightarrow> int \<Rightarrow>
   codec_error + (redis_store \<times> manager \<times> int)" where
  "persist_list enc store m state_key [] persisted = Inr (store, m, persisted)"
| "persist_list enc store m state_key (sid # rest) persisted =
     (case persist_session enc store m state_key sid of
        Inl e \<Rightarrow> Inl e
      | Inr (store', m', done) \<Rightarrow>
          persist_list enc store' m' state_key rest (persisted + (if done then 1 else 0)))"

text \<open>\<open>persist_all\<close> walks a set: the order is any list of its elements.\<close>

definition logical_ids :: "manager \<Rightarrow> string set" where
  "logical_ids m = insert [] (set (keys (sm_groups m)) \<union> (set (keys (sm_sessions m)) - {sm_default m}))"

text \<open>
  A restore changes the manager as it goes: the second component is the error it stopped at.  A JSON
  value of a kind the snapshots never have is an error where the code would raise on it.
\<close>

definition restore_wrapper ::
  "(json \<Rightarrow> string) \<Rightarrow> manager \<Rightarrow> string \<Rightarrow> json \<Rightarrow> json \<Rightarrow> manager \<times> session_error option" where
  "restore_wrapper repr m sid cookies client_hints =
     (case live_session m sid of
        None \<Rightarrow> (m, Some StateError)
      | Some w \<Rightarrow>
          (case import_cookies (sw_jar w) cookies True of
             (j, err) \<Rightarrow>
               (m\<lparr>sm_sessions := dict_set (sm_sessions m) sid
                   (Some (w\<lparr>sw_jar := j,
                            sw_hints := (if err = None then import_state repr (sw_hints w) client_hints
                                         else sw_hints w)\<rparr>))\<rparr>, err)))"

fun restore_members ::
  "session_env \<Rightarrow> (json \<Rightarrow> string) \<Rightarrow> manager \<Rightarrow> (string \<times> json) list \<Rightarrow> manager \<times> session_error option" where
  "restore_members env repr m [] = (m, None)"
| "restore_members env repr m ((member_id, member_state) # rest) =
     (case get_or_create_session env m member_id None of
        Inl e \<Rightarrow> (m, Some e)
      | Inr (m1, sid) \<Rightarrow>
          (case (case member_state of
                   JObj d \<Rightarrow> restore_wrapper repr m1 sid
                     (dict_get d ''cookies'' (JList [])) (dict_get d ''client_hints'' JNull)
                 | _ \<Rightarrow> restore_wrapper repr m1 sid member_state JNull) of
             (m2, Some e) \<Rightarrow> (m2, Some e)
           | (m2, None) \<Rightarrow> restore_members env repr m2 rest))"

definition restore_state ::
  "session_env \<Rightarrow> (json \<Rightarrow> string) \<Rightarrow> manager \<Rightarrow> string \<Rightarrow> json \<Rightarrow> manager \<times> session_error option" where
  "restore_state env repr m session_id state =
     (case state of
        JObj d \<Rightarrow>
          (if map_of d ''kind'' = None then (m, Some StateError)
           else if map_of d ''kind'' = Some (JStr ''group'') then
             (case map_of d ''members'' of
                Some (JObj members) \<Rightarrow>
                  (case restore_members env repr m members of
                     (m', Some e) \<Rightarrow> (m', Some e)
                   | (m', None) \<Rightarrow>
                       (m'\<lparr>sm_groups := dict_set (sm_groups m') session_id (keys members)\<rparr>, None))
              | _ \<Rightarrow> (m, Some StateError))
           else
             (case get_or_create_session env m session_id None of
                Inl e \<Rightarrow> (m, Some e)
              | Inr (m1, sid) \<Rightarrow>
                  (case map_of d ''cookies'' of
                     None \<Rightarrow> (m1, Some StateError)
                   | Some cookies \<Rightarrow>
                       restore_wrapper repr m1 sid cookies (dict_get d ''client_hints'' JNull))))
      | _ \<Rightarrow> (m, Some StateError))"

text \<open>
  The marker is set before the payload is decoded, so a field is read at most once also when its
  payload is broken.
\<close>

definition restore_session ::
  "session_env \<Rightarrow> (json \<Rightarrow> string) \<Rightarrow> (bytes \<Rightarrow> codec_error + json) \<Rightarrow> redis_store \<Rightarrow> manager \<Rightarrow>
   string \<Rightarrow> string \<Rightarrow> manager \<times> (session_error + bool)" where
  "restore_session env repr dec store m state_key session_id =
     (let marker = (state_key, state_field session_id)
      in if marker \<in> sm_restored m then (m, Inr False)
         else
           let m1 = m\<lparr>sm_restored := insert marker (sm_restored m)\<rparr>
           in case store marker of
                None \<Rightarrow> (m1, Inr False)
              | Some payload \<Rightarrow>
                  (case dec payload of
                     Inl _ \<Rightarrow> (m1, Inl StateError)
                   | Inr state \<Rightarrow>
                       (case restore_state env repr m1 session_id state of
                          (m2, Some e) \<Rightarrow> (m2, Inl e)
                        | (m2, None) \<Rightarrow> (m2, Inr True))))"

section \<open>Invariant\<close>

text \<open>
  \<open>fl\<close> is what the reaper is closing: nothing or one id.  The queue with it has no duplicates and is
  the pending set, and only ended sessions are in it; the default session is always known; reference
  counts are kept for other sessions only; every live wrapper is well formed.
\<close>

definition queue_inv :: "manager \<Rightarrow> string list \<Rightarrow> bool" where
  "queue_inv m fl \<longleftrightarrow> distinct (sm_close_queue m @ fl) \<and> set (sm_close_queue m @ fl) = sm_pending m \<and>
     sm_pending m \<subseteq> sm_end_flags m"

definition refs_inv :: "manager \<Rightarrow> bool" where
  "refs_inv m \<longleftrightarrow> dict_wf (sm_ref_counts m) \<and> map_of (sm_ref_counts m) (sm_default m) = None \<and>
     map_of (sm_ref_counts m) [] = None"

definition sessions_inv :: "(string \<Rightarrow> string) \<Rightarrow> manager \<Rightarrow> bool" where
  "sessions_inv key_of m \<longleftrightarrow> dict_wf (sm_sessions m) \<and> dict_wf (sm_groups m) \<and>
     sm_default m \<in> set (keys (sm_sessions m)) \<and>
     (\<forall>sid w. live_session m sid = Some w \<longrightarrow> wrapper_ok key_of w)"

definition sm_inv :: "(string \<Rightarrow> string) \<Rightarrow> manager \<Rightarrow> string list \<Rightarrow> bool" where
  "sm_inv key_of m fl \<longleftrightarrow> queue_inv m fl \<and> refs_inv m \<and> sessions_inv key_of m"

definition env_ok :: "session_env \<Rightarrow> bool" where
  "env_ok env \<longleftrightarrow> (\<forall>k v. cookie_ok (se_mk_cookie env k v))"

lemmas sm_inv_defs = sm_inv_def queue_inv_def refs_inv_def sessions_inv_def

lemma live_session_update [simp]:
  "live_session (m\<lparr>sm_sessions := dict_set d sid w\<rparr>) sid' =
     (if sid' = sid then w else live_session (m\<lparr>sm_sessions := d\<rparr>) sid')"
  "live_session (m\<lparr>sm_sessions := sm_sessions m\<rparr>) = live_session m"
  by (auto simp: live_session_def fun_eq_iff)

lemma live_session_other [simp]:
  "live_session (m\<lparr>sm_groups := g\<rparr>) = live_session m"
  "live_session (m\<lparr>sm_ref_counts := r\<rparr>) = live_session m"
  "live_session (m\<lparr>sm_end_flags := e\<rparr>) = live_session m"
  "live_session (m\<lparr>sm_close_queue := q\<rparr>) = live_session m"
  "live_session (m\<lparr>sm_pending := p\<rparr>) = live_session m"
  "live_session (m\<lparr>sm_restored := x\<rparr>) = live_session m"
  "live_session (m\<lparr>sm_rates := y\<rparr>) = live_session m"
  "live_session (m\<lparr>sm_frozen := z\<rparr>) = live_session m"
  by (simp_all add: live_session_def fun_eq_iff)

lemma sm_inv_init: "sm_inv key_of (manager_init d) []"
  by (simp add: sm_inv_defs manager_init_def live_session_def)

lemma sm_inv_put:
  assumes "sm_inv key_of m fl" and "wrapper_ok key_of w"
  shows "sm_inv key_of (m\<lparr>sm_sessions := dict_set (sm_sessions m) sid (Some w)\<rparr>) fl"
  using assms set_keys_dict_set [of "sm_sessions m" sid "Some w"]
  by (simp add: sm_inv_defs del: set_map)

lemma sm_inv_live: "sm_inv key_of m fl \<Longrightarrow> live_session m sid = Some w \<Longrightarrow> wrapper_ok key_of w"
  by (auto simp: sm_inv_defs)

lemma sm_inv_other [simp]:
  "sm_inv key_of (m\<lparr>sm_rates := r\<rparr>) fl = sm_inv key_of m fl"
  "sm_inv key_of (m\<lparr>sm_restored := x\<rparr>) fl = sm_inv key_of m fl"
  "sm_inv key_of (m\<lparr>sm_frozen := f\<rparr>) fl = sm_inv key_of m fl"
  by (simp_all add: sm_inv_defs)

lemma sm_inv_groups: "sm_inv key_of m fl \<Longrightarrow> dict_wf g \<Longrightarrow> sm_inv key_of (m\<lparr>sm_groups := g\<rparr>) fl"
  by (simp add: sm_inv_defs del: set_map)

lemma sm_inv_groups_wf: "sm_inv key_of m fl \<Longrightarrow> dict_wf (sm_groups m)"
  by (simp add: sm_inv_defs)

lemma wrapper_ok_new_env:
  "env_ok env \<Longrightarrow> new_wrapper (se_mk_cookie env) st cookies rate = Inr w \<Longrightarrow> wrapper_ok key_of w"
  by (rule wrapper_ok_new) (auto simp: env_ok_def)

lemma wrapper_ok_update_env:
  "env_ok env \<Longrightarrow> wrapper_ok key_of w \<Longrightarrow> wrapper_ok key_of (update_session_cookies (se_mk_cookie env) w cs)"
  by (rule wrapper_ok_update) (auto simp: env_ok_def)

lemma get_or_create_cases:
  assumes "get_or_create_session env m sid cookies = Inr (m', sid')"
  obtains (same) "m' = m" "live_session m sid' \<noteq> None"
  | (put) w where "m' = m\<lparr>sm_sessions := dict_set (sm_sessions m) sid' (Some w)\<rparr>"
      "(\<exists>w0 cs. live_session m sid' = Some w0 \<and> w = update_session_cookies (se_mk_cookie env) w0 cs) \<or>
       live_session m sid' = None \<and> new_wrapper (se_mk_cookie env) (se_settings env) cookies
         (dict_get (sm_rates m) sid' (ss_requests_per_second (se_settings env))) = Inr w"
  using assms that
  by (auto simp: get_or_create_session_def split: sum.splits option.splits list.splits)

lemma get_or_create_resolves:
  "get_or_create_session env m sid cookies = Inr (m', sid') \<Longrightarrow> resolve_session_id env m sid = Inr sid'"
  by (auto simp: get_or_create_session_def split: sum.splits option.splits list.splits)

lemma get_or_create_live:
  "get_or_create_session env m sid cookies = Inr (m', sid') \<Longrightarrow> live_session m' sid' \<noteq> None"
  by (erule get_or_create_cases) auto

lemma sm_inv_get_or_create [inv_intros]:
  assumes "sm_inv key_of m fl" and "env_ok env" and "get_or_create_session env m sid cookies = Inr (m', sid')"
  shows "sm_inv key_of m' fl"
  using assms(3)
proof (cases rule: get_or_create_cases)
  case (put w)
  have "wrapper_ok key_of w"
    using put(2) assms(1,2) by (auto intro: wrapper_ok_update_env wrapper_ok_new_env dest: sm_inv_live)
  then show ?thesis unfolding put(1) by (rule sm_inv_put [OF assms(1)])
qed (simp add: assms)

lemma sm_inv_register_members:
  assumes "sm_inv key_of m fl" and "env_ok env" and "register_members env rate m ids items = Inr (m', ids')"
  shows "sm_inv key_of m' fl"
  using assms
proof (induction env rate m ids items rule: register_members.induct)
  case (2 env rate m ids sid cookies rest)
  show ?case
  proof (cases "sid \<in> set (keys (sm_sessions m))")
    case False
    then obtain w where w: "new_wrapper (se_mk_cookie env) (se_settings env) (Some cookies) rate = Inr w"
      and r: "register_members env rate (m\<lparr>sm_sessions := dict_set (sm_sessions m) sid (Some w),
          sm_rates := dict_set (sm_rates m) sid rate\<rparr>) (ids @ [sid]) rest = Inr (m', ids')"
      using 2(5) by (auto simp del: set_map split: sum.splits)
    have "sm_inv key_of (m\<lparr>sm_sessions := dict_set (sm_sessions m) sid (Some w)\<rparr>) fl"
      using 2(3,4) w by (intro sm_inv_put wrapper_ok_new_env)
    then show ?thesis
      using sm_inv_other(1) [where m = "m\<lparr>sm_sessions := dict_set (sm_sessions m) sid (Some w)\<rparr>"]
      by (intro "2.IH"(2) [OF False w _ 2(4) r]) simp
  qed (use 2 in \<open>auto simp del: set_map\<close>)
qed simp

lemma sm_inv_register [inv_intros]:
  assumes "sm_inv key_of m fl" and "env_ok env"
    and "register_sessions_batch env m uc gid fresh rate = Inr (m', g)"
  shows "sm_inv key_of m' fl"
proof -
  have put: "sm_inv key_of (a\<lparr>sm_groups := dict_set (sm_groups a) k v\<rparr>) fl" if "sm_inv key_of a fl" for a k v
    using that by (intro sm_inv_groups dict_wf_dict_set sm_inv_groups_wf)
  show ?thesis
    using assms sm_inv_register_members [OF assms(1,2)]
    by (auto simp: register_sessions_batch_def Let_def split: if_splits sum.splits intro!: put)
qed

lemma sm_inv_configure_targets:
  "sm_inv key_of m fl \<Longrightarrow> configure_targets rate m targets = Inr m' \<Longrightarrow> sm_inv key_of m' fl"
proof (induction rate m targets rule: configure_targets.induct)
  case (2 rate m target rest)
  let ?m1 = "m\<lparr>sm_rates := dict_set (sm_rates m) target rate\<rparr>"
  have inv: "sm_inv key_of ?m1 fl" using 2(3) by simp
  show ?case
  proof (cases "live_session ?m1 target")
    case None
    then show ?thesis using 2(1) [OF refl None inv] 2(4) by (simp add: Let_def)
  next
    case (Some w)
    then obtain l where l: "limiter_configure (sw_limiter w) rate = Inr l"
      using 2(4) by (auto simp: Let_def split: sum.splits)
    have "wrapper_ok key_of (w\<lparr>sw_limiter := l\<rparr>)"
      using sm_inv_live [OF inv Some] limiter_ok_configure [OF l] by (simp add: wrapper_ok_def)
    then show ?thesis
      using 2(2) [OF refl Some l sm_inv_put [OF inv]] 2(4) Some l by (simp add: Let_def)
  qed
qed simp

lemma sm_inv_configure [inv_intros]:
  "sm_inv key_of m fl \<Longrightarrow> configure_rate_limit m sid rate = Inr m' \<Longrightarrow> sm_inv key_of m' fl"
  by (auto simp: configure_rate_limit_def simp del: configure_targets.simps
      split: if_splits option.splits intro: sm_inv_configure_targets)

lemma sm_inv_acquire [inv_intros]: "sm_inv key_of m fl \<Longrightarrow> sm_inv key_of (acquire m sid) fl"
  by (auto simp: sm_inv_defs acquire_def is_default_session_def simp del: set_map)

lemma sm_inv_enqueue:
  assumes "sm_inv key_of m fl" and "sid \<notin> sm_pending m" and "sid \<in> sm_end_flags m"
  shows "sm_inv key_of (enqueue_close m sid) fl"
proof -
  have "live_session (enqueue_close m sid) = live_session m"
    by (simp add: enqueue_close_def)
  then show ?thesis using assms by (auto simp: sm_inv_defs enqueue_close_def simp del: set_map)
qed

lemma sm_inv_release [inv_intros]:
  assumes "sm_inv key_of m fl"
  shows "sm_inv key_of (release m sid) fl"
proof -
  have "sm_inv key_of (m\<lparr>sm_ref_counts := dict_set (sm_ref_counts m) sid n\<rparr>) fl"
    if "\<not> is_default_session m sid" "sid \<noteq> []" for n
    using assms that by (auto simp: sm_inv_defs is_default_session_def simp del: set_map)
  then show ?thesis
    using assms by (auto simp: release_def Let_def intro!: sm_inv_enqueue split: option.splits)
qed

lemma sm_inv_mark_end_single [inv_intros]:
  assumes "sm_inv key_of m fl"
  shows "sm_inv key_of (mark_end_single m sid) fl"
proof -
  have "sm_inv key_of (m\<lparr>sm_end_flags := insert sid (sm_end_flags m)\<rparr>) fl"
    using assms by (auto simp: sm_inv_defs simp del: set_map)
  then show ?thesis by (auto simp: mark_end_single_def Let_def intro!: sm_inv_enqueue)
qed

lemma keys_leave_group [simp]: "keys (leave_group g sid) = keys g"
  by (induction g sid rule: leave_group.induct) auto

lemma sm_inv_mark_end [inv_intros]:
  assumes "sm_inv key_of m fl"
  shows "sm_inv key_of (mark_end m sid) fl"
proof -
  have fold: "sm_inv key_of (foldl mark_end_single m' members) fl" if "sm_inv key_of m' fl" for m' members
    using that by (induction members arbitrary: m') (auto intro: sm_inv_mark_end_single)
  have "sm_inv key_of (m\<lparr>sm_groups := leave_group (sm_groups m) sid\<rparr>) fl"
    using assms sm_inv_groups_wf [OF assms] by (intro sm_inv_groups) simp_all
  then show ?thesis
    using assms by (auto simp: mark_end_def intro: fold sm_inv_mark_end_single split: option.splits)
qed

lemma sm_inv_close_group [inv_intros]:
  assumes "sm_inv key_of m fl"
  shows "sm_inv key_of (close_group_sessions m gid) fl"
proof -
  have fold: "sm_inv key_of (foldl mark_end m' members) fl" if "sm_inv key_of m' fl" for m' members
    using that by (induction members arbitrary: m') (auto intro: sm_inv_mark_end)
  show ?thesis
    unfolding close_group_sessions_def
    using assms sm_inv_groups_wf [OF assms] by (intro fold sm_inv_groups) simp_all
qed

lemma live_session_pop:
  "live_session (m\<lparr>sm_sessions := dict_pop (sm_sessions m) sid\<rparr>) sid' =
     (if sid' = sid then None else live_session m sid')"
  by (simp add: live_session_def)

lemma sm_inv_safe_close:
  assumes "sm_inv key_of m fl" and "safe_close m sid = (m', taken)"
  shows "sm_inv key_of m' fl"
proof -
  have "sm_inv key_of (m\<lparr>sm_sessions := dict_pop (sm_sessions m) sid\<rparr>) fl" if "sid \<noteq> sm_default m"
    using assms(1) that dict_wf_dict_pop [of "sm_sessions m" sid] set_keys_dict_pop [of "sm_sessions m" sid]
    by (auto simp: sm_inv_defs live_session_pop simp del: set_map split: if_splits)
  then show ?thesis
    using assms by (auto simp: safe_close_def is_default_session_def split: if_splits)
qed

lemma sm_inv_take [inv_intros]:
  assumes "sm_inv key_of m []" and "reaper_take m = Some (m', sid, taken)"
  shows "sm_inv key_of m' [sid]"
proof -
  obtain rest where q: "sm_close_queue m = sid # rest"
    and sc: "safe_close (m\<lparr>sm_close_queue := rest\<rparr>) sid = (m', taken)"
    using assms(2) by (auto simp: reaper_take_def split: list.splits prod.splits)
  have "sm_inv key_of (m\<lparr>sm_close_queue := rest\<rparr>) [sid]"
    using assms(1) q by (auto simp: sm_inv_defs simp del: set_map)
  then show ?thesis using sc by (rule sm_inv_safe_close)
qed

lemma sm_inv_finish [inv_intros]:
  assumes "sm_inv key_of m [sid]"
  shows "sm_inv key_of (reaper_finish m sid) []"
proof -
  have "live_session (reaper_finish m sid) = live_session m" by (simp add: reaper_finish_def)
  then show ?thesis using assms by (auto simp: sm_inv_defs reaper_finish_def simp del: set_map)
qed

section \<open>Restoring keeps the invariant\<close>

lemma sm_inv_restore_wrapper:
  assumes "sm_inv key_of m fl"
  shows "sm_inv key_of (fst (restore_wrapper repr m sid cookies hints)) fl"
proof (cases "live_session m sid")
  case (Some w)
  then have w: "wrapper_ok key_of w" by (rule sm_inv_live [OF assms])
  have "jar_ok (fst (import_cookies (sw_jar w) cookies True))"
    using w by (auto simp: wrapper_ok_def intro: jar_ok_import)
  then show ?thesis
    using w Some by (auto simp: restore_wrapper_def wrapper_ok_def split: prod.splits
        intro!: sm_inv_put [OF assms] hints_inv_import)
qed (simp add: restore_wrapper_def assms)

lemma sm_inv_restore_members:
  "sm_inv key_of m fl \<Longrightarrow> env_ok env \<Longrightarrow> sm_inv key_of (fst (restore_members env repr m items)) fl"
proof (induction items arbitrary: m)
  case (Cons item items)
  obtain mid st where item: "item = (mid, st)" by fastforce
  show ?case
  proof (cases "get_or_create_session env m mid None")
    case (Inr r)
    obtain m1 sid where r: "r = (m1, sid)" by fastforce
    have m1: "sm_inv key_of m1 fl" using sm_inv_get_or_create [OF Cons.prems Inr [unfolded r]] .
    let ?rw = "case st of JObj d \<Rightarrow> restore_wrapper repr m1 sid
                     (dict_get d ''cookies'' (JList [])) (dict_get d ''client_hints'' JNull)
                 | _ \<Rightarrow> restore_wrapper repr m1 sid st JNull"
    have "sm_inv key_of (fst ?rw) fl"
      using sm_inv_restore_wrapper [OF m1] by (simp split: json.split)
    then show ?thesis
      using item Inr r Cons by (simp split: prod.splits option.splits) force
  qed (use item Cons.prems in simp)
qed simp

lemma sm_inv_restore_state:
  assumes "sm_inv key_of m fl" and "env_ok env"
  shows "sm_inv key_of (fst (restore_state env repr m sid st)) fl"
proof (cases st)
  case (JObj d)
  consider (bad) "map_of d ''kind'' = None"
    | (grp) "map_of d ''kind'' = Some (JStr ''group'')"
    | (single) "map_of d ''kind'' \<noteq> None" "map_of d ''kind'' \<noteq> Some (JStr ''group'')"
    by blast
  then show ?thesis
  proof cases
    case grp
    then show ?thesis
      using JObj assms(1) sm_inv_restore_members [OF assms(1,2), of repr]
      by (auto simp: restore_state_def split: option.splits json.splits prod.splits
          intro!: sm_inv_groups dict_wf_dict_set dest: sm_inv_groups_wf) (metis fst_conv sm_inv_groups_wf)+
  next
    case single
    then show ?thesis
      using JObj assms by (auto simp: restore_state_def split: option.splits sum.splits
          intro!: sm_inv_restore_wrapper intro: sm_inv_get_or_create)
  qed (use JObj assms in \<open>simp add: restore_state_def\<close>)
qed (use assms in \<open>simp_all add: restore_state_def\<close>)

lemma sm_inv_restore [inv_intros]:
  assumes "sm_inv key_of m fl" and "env_ok env"
  shows "sm_inv key_of (fst (restore_session env repr dec store m state_key sid)) fl"
proof -
  have "sm_inv key_of (fst (restore_state env repr (m\<lparr>sm_restored := x\<rparr>) sid st)) fl" for x st
    using assms by (intro sm_inv_restore_state) simp_all
  then show ?thesis
    using assms(1) by (auto simp: restore_session_def Let_def split: option.splits sum.splits prod.splits)
      (metis fst_conv)+
qed

lemma sm_inv_persist [inv_intros]:
  "sm_inv key_of m fl \<Longrightarrow> persist_session enc store m state_key sid = Inr (store', m', done) \<Longrightarrow>
   sm_inv key_of m' fl"
  by (auto simp: persist_session_def Let_def split: option.splits sum.splits)

section \<open>Runs\<close>

text \<open>
  A state of a run: the manager, what the reaper is closing, and the sessions closed so far.  Each
  rule is one operation; the reaper's two halves interleave with all others.
\<close>

type_synonym sm_state = "manager \<times> string list \<times> string list"

inductive sm_step :: "session_env \<Rightarrow> sm_state \<Rightarrow> sm_state \<Rightarrow> bool" for env where
  step_get: "get_or_create_session env m sid cookies = Inr (m', sid') \<Longrightarrow>
     sm_step env (m, fl, lg) (m', fl, lg)"
| step_register: "register_sessions_batch env m uc gid fresh rate = Inr (m', g) \<Longrightarrow>
     sm_step env (m, fl, lg) (m', fl, lg)"
| step_configure: "configure_rate_limit m sid rate' = Inr m' \<Longrightarrow> sm_step env (m, fl, lg) (m', fl, lg)"
| step_acquire: "sm_step env (m, fl, lg) (acquire m sid, fl, lg)"
| step_release: "sm_step env (m, fl, lg) (release m sid, fl, lg)"
| step_mark_end: "sm_step env (m, fl, lg) (mark_end m sid, fl, lg)"
| step_close_group: "sm_step env (m, fl, lg) (close_group_sessions m gid', fl, lg)"
| step_freeze: "sm_step env (m, fl, lg) (freeze m, fl, lg)"
| step_restore: "sm_step env (m, fl, lg) (fst (restore_session env repr dec store m state_key sid), fl, lg)"
| step_persist: "persist_session enc store m state_key sid = Inr (store', m', done') \<Longrightarrow>
     sm_step env (m, fl, lg) (m', fl, lg)"
| step_take: "reaper_take m = Some (m', sid, taken) \<Longrightarrow>
     sm_step env (m, [], lg) (m', [sid], lg @ (case taken of None \<Rightarrow> [] | Some sw \<Rightarrow> [fst sw]))"
| step_finish: "sm_step env (m, [sid], lg) (reaper_finish m sid, [], lg)"

inductive_cases sm_stepE: "sm_step env s t"

lemma sm_step_inv:
  assumes "sm_step env (m, fl, lg) (m', fl', lg')" and "env_ok env" and "sm_inv key_of m fl"
  shows "sm_inv key_of m' fl'"
  using assms(1)
proof (cases rule: sm_step.cases)
  case step_freeze
  then show ?thesis using assms(3) by (simp add: freeze_def)
qed (use assms(2,3) in \<open>auto intro: inv_intros\<close>)

lemma sm_default_queue [simp]:
  "sm_default (enqueue_close m sid) = sm_default m" "sm_default (mark_end_single m sid) = sm_default m"
  by (simp_all add: enqueue_close_def mark_end_single_def Let_def)

lemma sm_default_fold_single [simp]: "sm_default (foldl mark_end_single m sids) = sm_default m"
  by (induction sids arbitrary: m) simp_all

lemma sm_default_mark_end [simp]: "sm_default (mark_end m sid) = sm_default m"
  by (simp add: mark_end_def split: option.splits)

lemma sm_default_fold_end [simp]: "sm_default (foldl mark_end m sids) = sm_default m"
  by (induction sids arbitrary: m) simp_all

lemma sm_default_restore_wrapper [simp]:
  "sm_default (fst (restore_wrapper repr m sid cookies hints)) = sm_default m"
  by (simp add: restore_wrapper_def split: option.splits prod.splits)

lemma sm_default_get: "get_or_create_session env m sid cookies = Inr (m', sid') \<Longrightarrow> sm_default m' = sm_default m"
  by (erule get_or_create_cases) auto

lemma sm_default_register_members:
  "register_members env rate m ids items = Inr (m', ids') \<Longrightarrow> sm_default m' = sm_default m"
  by (induction env rate m ids items rule: register_members.induct)
     (auto simp del: set_map split: if_splits sum.splits)

lemma sm_default_configure_targets:
  "configure_targets rate m targets = Inr m' \<Longrightarrow> sm_default m' = sm_default m"
  by (induction rate m targets rule: configure_targets.induct)
     (auto simp: Let_def split: option.splits sum.splits)

lemma sm_default_restore_members [simp]:
  "sm_default (fst (restore_members env repr m items)) = sm_default m"
proof (induction items arbitrary: m)
  case (Cons item items)
  obtain mid st where item: "item = (mid, st)" by fastforce
  show ?case
  proof (cases "get_or_create_session env m mid None")
    case (Inr r)
    obtain m1 sid where r: "r = (m1, sid)" by fastforce
    let ?rw = "case st of JObj d \<Rightarrow> restore_wrapper repr m1 sid
                     (dict_get d ''cookies'' (JList [])) (dict_get d ''client_hints'' JNull)
                 | _ \<Rightarrow> restore_wrapper repr m1 sid st JNull"
    have "sm_default (fst ?rw) = sm_default m"
      using sm_default_get [OF Inr [unfolded r]] by (simp split: json.split)
    then show ?thesis
      using item Inr r Cons by (simp split: prod.splits option.splits) force
  qed (use item in simp)
qed simp

lemma sm_default_restore_state [simp]: "sm_default (fst (restore_state env repr m sid j)) = sm_default m"
proof -
  have "sm_default m' = sm_default m" if "restore_members env repr m items = (m', e)" for items m' e
    using sm_default_restore_members [of env repr m items] that by simp
  then show ?thesis
    by (auto simp: restore_state_def dest: sm_default_get split: json.splits option.splits sum.splits prod.splits)
qed

lemma sm_default_restore [simp]:
  "sm_default (fst (restore_session env repr dec store m state_key sid)) = sm_default m"
proof -
  have fst_result: "fst (case p of (m2, None) \<Rightarrow> (m2, Inr True) | (m2, Some e) \<Rightarrow> (m2, Inl e)) = fst p"
    for p :: "manager \<times> session_error option"
    by (simp split: prod.split option.split)
  show ?thesis
    by (simp add: restore_session_def Let_def fst_result split: option.split sum.split)
qed

lemma safe_close_taken:
  "safe_close m sid = (m', taken) \<Longrightarrow>
   sm_default m' = sm_default m \<and>
   (\<forall>sw. taken = Some sw \<longrightarrow> fst sw = sid \<and> live_session m sid = Some (snd sw) \<and> sid \<noteq> sm_default m \<and> \<not> sm_frozen m)"
  by (auto simp: safe_close_def is_default_session_def split: if_splits)

lemma sm_step_default:
  assumes "sm_step env (m, fl, lg) (m', fl', lg')"
  shows "sm_default m' = sm_default m"
  using assms
proof (cases rule: sm_step.cases)
  case (step_take sid taken)
  then show ?thesis
    by (auto simp: reaper_take_def dest!: safe_close_taken split: list.splits prod.splits)
qed (auto simp: register_sessions_batch_def configure_rate_limit_def acquire_def release_def freeze_def
    close_group_sessions_def persist_session_def reaper_finish_def Let_def
    dest: sm_default_get sm_default_register_members sm_default_configure_targets
    split: if_splits sum.splits option.splits)

lemma sm_step_log:
  assumes "sm_step env (m, fl, lg) (m', fl', lg')"
  shows "lg' = lg \<or> (\<exists>sid. lg' = lg @ [sid] \<and> fl' = [sid] \<and> sid \<noteq> sm_default m \<and>
     live_session m sid \<noteq> None \<and> \<not> sm_frozen m)"
  using assms
proof (cases rule: sm_step.cases)
  case (step_take sid taken)
  then show ?thesis
    by (auto simp: reaper_take_def dest!: safe_close_taken split: list.splits prod.splits option.splits)
qed auto

section \<open>Who is queued, and what the reaper does\<close>

text \<open>What the two flagging operations add to the queue is ended and not referenced.\<close>

definition newly_idle :: "manager \<Rightarrow> manager \<Rightarrow> bool" where
  "newly_idle m m' \<longleftrightarrow> sm_end_flags m \<subseteq> sm_end_flags m' \<and>
     (\<forall>sid \<in> set (sm_close_queue m') - set (sm_close_queue m).
        sid \<in> sm_end_flags m' \<and> dict_get (sm_ref_counts m') sid 0 \<le> 0)"

lemma newly_idle_refl [simp]: "newly_idle m m"
  by (simp add: newly_idle_def)

lemma newly_idle_same:
  "sm_close_queue m' = sm_close_queue m \<Longrightarrow> sm_end_flags m' = sm_end_flags m \<Longrightarrow> newly_idle m m'"
  by (simp add: newly_idle_def)

lemma newly_idle_trans:
  "newly_idle m m1 \<Longrightarrow> newly_idle m1 m2 \<Longrightarrow> sm_ref_counts m2 = sm_ref_counts m1 \<Longrightarrow> newly_idle m m2"
  unfolding newly_idle_def by auto

lemma sm_ref_counts_end [simp]:
  "sm_ref_counts (mark_end_single m sid) = sm_ref_counts m"
  "sm_ref_counts (foldl mark_end_single m sids) = sm_ref_counts m"
proof -
  show one: "sm_ref_counts (mark_end_single m sid) = sm_ref_counts m" for m sid
    by (simp add: mark_end_single_def enqueue_close_def Let_def)
  show "sm_ref_counts (foldl mark_end_single m sids) = sm_ref_counts m"
    by (induction sids arbitrary: m) (simp_all add: one)
qed

lemma sm_ref_counts_mark_end [simp]: "sm_ref_counts (mark_end m sid) = sm_ref_counts m"
  by (simp add: mark_end_def split: option.split)

lemma newly_idle_release: "newly_idle m (release m sid)"
  by (auto simp: newly_idle_def release_def enqueue_close_def Let_def dict_get_def split: option.splits)

lemma newly_idle_single: "newly_idle m (mark_end_single m sid)"
  by (auto simp: newly_idle_def mark_end_single_def enqueue_close_def Let_def)

lemma newly_idle_fold_single: "newly_idle m (foldl mark_end_single m sids)"
proof (induction sids arbitrary: m)
  case (Cons sid sids)
  then show ?case using newly_idle_trans [OF newly_idle_single [of m sid] Cons.IH] by simp
qed simp

lemma newly_idle_mark_end: "newly_idle m (mark_end m sid)"
proof -
  have "newly_idle m (mark_end_single (m\<lparr>sm_groups := g\<rparr>) sid)" for g
    using newly_idle_single [of "m\<lparr>sm_groups := g\<rparr>" sid] by (simp add: newly_idle_def)
  then show ?thesis
    by (auto simp: mark_end_def newly_idle_fold_single split: option.split)
qed

lemma newly_idle_close_group: "newly_idle m (close_group_sessions m gid)"
proof -
  have fold: "newly_idle m' (foldl mark_end m' sids) \<and> sm_ref_counts (foldl mark_end m' sids) = sm_ref_counts m'"
    for m' sids
  proof (induction sids arbitrary: m')
    case (Cons sid sids)
    then show ?case using newly_idle_trans [OF newly_idle_mark_end [of m' sid]] by simp
  qed simp
  then show ?thesis
    unfolding close_group_sessions_def
    using fold [of "m\<lparr>sm_groups := dict_pop (sm_groups m) gid\<rparr>" "dict_get (sm_groups m) gid []"]
    by (simp add: newly_idle_def)
qed

lemma register_members_queue:
  "register_members env rate m ids items = Inr (m', ids') \<Longrightarrow>
   sm_close_queue m' = sm_close_queue m \<and> sm_end_flags m' = sm_end_flags m"
  by (induction env rate m ids items rule: register_members.induct)
     (auto simp del: set_map split: if_splits sum.splits)

lemma configure_targets_queue:
  "configure_targets rate m targets = Inr m' \<Longrightarrow>
   sm_close_queue m' = sm_close_queue m \<and> sm_end_flags m' = sm_end_flags m"
  by (induction rate m targets rule: configure_targets.induct)
     (auto simp: Let_def split: option.splits sum.splits)

lemma get_or_create_queue:
  "get_or_create_session env m sid cookies = Inr (m', sid') \<Longrightarrow>
   sm_close_queue m' = sm_close_queue m \<and> sm_end_flags m' = sm_end_flags m"
  by (erule get_or_create_cases) auto

lemma restore_wrapper_queue [simp]:
  "sm_close_queue (fst (restore_wrapper repr m sid cookies hints)) = sm_close_queue m"
  "sm_end_flags (fst (restore_wrapper repr m sid cookies hints)) = sm_end_flags m"
  by (simp_all add: restore_wrapper_def split: option.splits prod.splits)

lemma restore_members_queue:
  "restore_members env repr m items = (m', e) \<Longrightarrow>
   sm_close_queue m' = sm_close_queue m \<and> sm_end_flags m' = sm_end_flags m"
proof (induction items arbitrary: m)
  case (Cons item items)
  obtain mid st where item: "item = (mid, st)" by fastforce
  show ?case
  proof (cases "get_or_create_session env m mid None")
    case (Inr r)
    obtain m1 sid where r: "r = (m1, sid)" by fastforce
    let ?rw = "case st of JObj d \<Rightarrow> restore_wrapper repr m1 sid
                     (dict_get d ''cookies'' (JList [])) (dict_get d ''client_hints'' JNull)
                 | _ \<Rightarrow> restore_wrapper repr m1 sid st JNull"
    have "sm_close_queue (fst ?rw) = sm_close_queue m" "sm_end_flags (fst ?rw) = sm_end_flags m"
      using get_or_create_queue [OF Inr [unfolded r]] by (simp_all split: json.split)
    then show ?thesis
      using item Inr r Cons by (force split: prod.splits option.splits)
  qed (use item Cons.prems in simp)
qed simp

lemma restore_wrapper_queueD:
  "restore_wrapper repr m sid cookies hints = (m', e) \<Longrightarrow>
   sm_close_queue m' = sm_close_queue m \<and> sm_end_flags m' = sm_end_flags m"
  using restore_wrapper_queue [of repr m sid cookies hints] by simp

lemma restore_state_queue:
  "restore_state env repr m sid j = (m', e) \<Longrightarrow>
   sm_close_queue m' = sm_close_queue m \<and> sm_end_flags m' = sm_end_flags m"
proof (cases j)
  case (JObj d)
  assume r: "restore_state env repr m sid j = (m', e)"
  consider (bad) "map_of d ''kind'' = None"
    | (grp) "map_of d ''kind'' = Some (JStr ''group'')"
    | (single) "map_of d ''kind'' \<noteq> None" "map_of d ''kind'' \<noteq> Some (JStr ''group'')"
    by blast
  then show ?thesis
  proof cases
    case grp
    then show ?thesis
      using r JObj by (auto simp: restore_state_def dest: restore_members_queue
          split: option.splits json.splits prod.splits)
  next
    case single
    show ?thesis
    proof (cases "get_or_create_session env m sid None")
      case (Inr q)
      then obtain m1 sid' where q: "get_or_create_session env m sid None = Inr (m1, sid')" by (cases q) auto
      show ?thesis
        using r JObj single q get_or_create_queue [OF q] restore_wrapper_queueD [of repr m1 sid' _ _ m' e]
        by (auto simp: restore_state_def split: option.splits)
    qed (use r JObj single in \<open>auto simp: restore_state_def\<close>)
  qed (use r JObj in \<open>simp add: restore_state_def\<close>)
qed (simp_all add: restore_state_def)

lemma restore_session_queue:
  "sm_close_queue (fst (restore_session env repr dec store m state_key sid)) = sm_close_queue m"
  "sm_end_flags (fst (restore_session env repr dec store m state_key sid)) = sm_end_flags m"
  by (auto simp: restore_session_def Let_def dest: restore_state_queue
      split: option.splits sum.splits prod.splits)

lemma sm_step_newly_idle:
  assumes "sm_step env (m, fl, lg) (m', fl', lg')"
  shows "newly_idle m m'"
  using assms
proof (cases rule: sm_step.cases)
  case (step_take sid taken)
  then show ?thesis
    by (auto simp: newly_idle_def reaper_take_def safe_close_def split: list.splits prod.splits if_splits)
next
  case (step_register uc gid fresh rate g)
  then show ?thesis
    by (auto simp: register_sessions_batch_def Let_def intro!: newly_idle_same dest: register_members_queue
        split: if_splits sum.splits)
next
  case (step_restore repr dec store state_key sid)
  then show ?thesis by (simp add: newly_idle_same restore_session_queue)
qed (auto simp: configure_rate_limit_def acquire_def freeze_def persist_session_def reaper_finish_def Let_def
    intro: newly_idle_release newly_idle_mark_end newly_idle_close_group newly_idle_same
    dest: get_or_create_queue configure_targets_queue
    split: if_splits sum.splits option.splits)

end
