(* ===== verification/SessionLifecycle.thy ===== *)
theory SessionLifecycle
  imports Sessions
begin

text \<open>
  What the session manager promises over its life: the reaper empties the queue and closes each
  queued session once, the final close takes every session but the default one, a snapshot restores
  into another manager, and the properties of the manager's runs.
\<close>

section \<open>Draining the queue\<close>

fun reap :: "manager \<Rightarrow> nat \<Rightarrow> manager \<times> (string \<times> wrapper) list" where
  "reap m 0 = (m, [])"
| "reap m (Suc n) =
     (case reaper_take m of
        None \<Rightarrow> (m, [])
      | Some (m1, sid, taken) \<Rightarrow>
          (case reap (reaper_finish m1 sid) n of
             (m2, others) \<Rightarrow> (m2, (case taken of None \<Rightarrow> others | Some sw \<Rightarrow> sw # others))))"

definition closable :: "manager \<Rightarrow> string \<Rightarrow> bool" where
  "closable m sid \<longleftrightarrow> sid \<noteq> sm_default m \<and> sid \<noteq> [] \<and> live_session m sid \<noteq> None"

definition closed_of :: "manager \<Rightarrow> string list \<Rightarrow> (string \<times> wrapper) list" where
  "closed_of m sids = map (\<lambda>sid. (sid, the (live_session m sid))) (filter (closable m) sids)"

lemma closed_of_cong:
  "sm_default m' = sm_default m \<Longrightarrow> (\<And>sid. sid \<in> set sids \<Longrightarrow> live_session m' sid = live_session m sid) \<Longrightarrow>
   closed_of m' sids = closed_of m sids"
  unfolding closed_of_def closable_def by (induction sids) auto

lemma safe_close_live:
  assumes "\<not> sm_frozen m" and "safe_close m sid = (m', taken)"
  shows "live_session m' x = (if x = sid \<and> sid \<noteq> sm_default m \<and> sid \<noteq> [] then None else live_session m x)"
    and "sm_default m' = sm_default m" and "\<not> sm_frozen m'"
    and "taken = (if closable m sid then Some (sid, the (live_session m sid)) else None)"
    and "sm_close_queue m' = sm_close_queue m" and "sm_pending m' = sm_pending m"
    and "sm_ref_counts m' = sm_ref_counts m" and "sm_end_flags m' = sm_end_flags m"
  using assms
  by (auto simp: safe_close_def is_default_session_def closable_def live_session_pop split: if_splits)

lemma reap_drains:
  assumes "sm_inv key_of m []" and "\<not> sm_frozen m" and "reap m (length (sm_close_queue m)) = (m', clog)"
  shows "sm_close_queue m' = [] \<and> sm_pending m' = {} \<and> sm_inv key_of m' [] \<and>
    clog = closed_of m (sm_close_queue m) \<and> sm_ref_counts m' = sm_ref_counts m \<and>
    (\<forall>x. live_session m' x =
       (if x \<in> set (sm_close_queue m) \<and> x \<noteq> sm_default m \<and> x \<noteq> [] then None else live_session m x))"
  using assms
proof (induction "length (sm_close_queue m)" arbitrary: m clog)
  case 0
  then show ?case by (auto simp: closed_of_def sm_inv_def queue_inv_def)
next
  case (Suc n)
  then obtain sid rest where q: "sm_close_queue m = sid # rest" by (cases "sm_close_queue m") auto
  obtain m1 taken where sc: "safe_close (m\<lparr>sm_close_queue := rest\<rparr>) sid = (m1, taken)" by fastforce
  have take: "reaper_take m = Some (m1, sid, taken)" using q sc by (simp add: reaper_take_def)
  define m2 where "m2 = reaper_finish m1 sid"
  obtain clog' where r: "reap m2 n = (m', clog')" and clog: "clog = (case taken of None \<Rightarrow> clog' | Some sw \<Rightarrow> sw # clog')"
    using Suc(2,5) take q unfolding m2_def by (auto split: prod.splits)
  have inv2: "sm_inv key_of m2 []"
    unfolding m2_def using sm_inv_finish [OF sm_inv_take [OF Suc(3) take]] .
  have fr: "\<not> sm_frozen (m\<lparr>sm_close_queue := rest\<rparr>)" using Suc(4) by simp
  note live = safe_close_live [OF fr sc]
  have q2: "sm_close_queue m2 = rest" "\<not> sm_frozen m2" "sm_default m2 = sm_default m"
    "sm_ref_counts m2 = sm_ref_counts m"
    using live by (simp_all add: m2_def reaper_finish_def)
  have live2: "live_session m2 x = (if x = sid \<and> sid \<noteq> sm_default m \<and> sid \<noteq> [] then None else live_session m x)" for x
    using live(1) [of x] by (simp add: m2_def reaper_finish_def)
  have n: "n = length (sm_close_queue m2)" using Suc(2) q q2 by simp
  have IH: "sm_close_queue m' = [] \<and> sm_pending m' = {} \<and> sm_inv key_of m' [] \<and>
    clog' = closed_of m2 rest \<and> sm_ref_counts m' = sm_ref_counts m2 \<and>
    (\<forall>x. live_session m' x = (if x \<in> set rest \<and> x \<noteq> sm_default m \<and> x \<noteq> [] then None else live_session m2 x))"
    using Suc(1) [OF n inv2 q2(2)] r n q2 by simp
  have "sid \<notin> set rest" using Suc(3) q by (auto simp: sm_inv_def queue_inv_def)
  then have "closed_of m2 rest = closed_of m rest"
    using q2 live2 by (intro closed_of_cong) auto
  moreover have "taken = (if closable m sid then Some (sid, the (live_session m sid)) else None)"
    using live(4) by (simp add: closable_def)
  ultimately have "clog = closed_of m (sid # rest)"
    using IH clog by (simp add: closed_of_def)
  then show ?case using IH q q2 live2 by auto
qed

section \<open>The final close\<close>

lemma safe_close_list_result:
  assumes "\<not> sm_frozen m" and "distinct sids" and "safe_close_list m sids = (m', clog)"
  shows "clog = closed_of m sids"
  using assms
proof (induction sids arbitrary: m clog)
  case (Cons sid sids)
  obtain m1 taken where sc: "safe_close m sid = (m1, taken)" by fastforce
  obtain clog' where r: "safe_close_list m1 sids = (m', clog')"
    and clog: "clog = (case taken of None \<Rightarrow> clog' | Some sw \<Rightarrow> sw # clog')"
    using Cons.prems(3) sc by (auto split: prod.splits)
  note live = safe_close_live [OF Cons.prems(1) sc]
  have "clog' = closed_of m1 sids" using Cons.IH [OF live(3) _ r] Cons.prems(2) by simp
  also have "\<dots> = closed_of m sids"
    using live(1,2) Cons.prems(2) by (intro closed_of_cong) auto
  finally show ?case using clog live(4) by (simp add: closed_of_def)
qed (simp add: closed_of_def)

lemma close_all_closes:
  assumes "dict_wf (sm_sessions m)" and "close_all m = (m', clog)"
  shows "clog = closed_of m (keys (sm_sessions m))" and "sm_sessions m' = []" and "sm_close_queue m' = []"
    and "sm_pending m' = {}" and "sm_ref_counts m' = []" and "sm_end_flags m' = {}"
proof -
  obtain m1 clog1 where s: "safe_close_list (m\<lparr>sm_frozen := False\<rparr>) (keys (sm_sessions m)) = (m1, clog1)"
    by fastforce
  have "clog1 = closed_of (m\<lparr>sm_frozen := False\<rparr>) (keys (sm_sessions m))"
    using s assms(1) by (intro safe_close_list_result) simp_all
  also have "\<dots> = closed_of m (keys (sm_sessions m))" by (rule closed_of_cong) simp_all
  finally show "clog = closed_of m (keys (sm_sessions m))" "sm_sessions m' = []" "sm_close_queue m' = []"
    "sm_pending m' = {}" "sm_ref_counts m' = []" "sm_end_flags m' = {}"
    using assms(2) s by (auto simp: close_all_def)
qed

section \<open>Snapshots\<close>

text \<open>A persisted single session, restored by a manager that has not read the field yet.\<close>

lemma restore_wrapper_snapshot:
  assumes "wrapper_ok key_of w" and "live_session m sid = Some w0"
    and "restore_wrapper repr m sid (export_cookies (sw_jar w)) (export_state (sw_hints w)) = (m', err)"
  shows "err = None" and "\<exists>w'. live_session m' sid = Some w' \<and>
    (\<forall>d p n. jar_lookup (sw_jar w') d p n = jar_lookup (sw_jar w) d p n) \<and>
    hs_origins (sw_hints w') = hs_origins (sw_hints w)"
proof -
  have jar: "jar_ok (sw_jar w)" and hints: "hints_inv (sw_hints w)"
    using assms(1) by (simp_all add: wrapper_ok_def)
  obtain j where j: "import_cookies (sw_jar w0) (export_cookies (sw_jar w)) True = (j, None)"
    "\<forall>d p n. jar_lookup j d p n = jar_lookup (sw_jar w) d p n"
    using import_export_cookies [OF jar] by blast
  show "err = None" using assms(2,3) j by (simp add: restore_wrapper_def)
  show "\<exists>w'. live_session m' sid = Some w' \<and>
    (\<forall>d p n. jar_lookup (sw_jar w') d p n = jar_lookup (sw_jar w) d p n) \<and>
    hs_origins (sw_hints w') = hs_origins (sw_hints w)"
    using assms(2,3) j import_export [OF hints] by (auto simp: restore_wrapper_def)
qed

lemma restore_session_snapshot:
  assumes "wrapper_ok key_of w" and "map_of (sm_groups m) (if sid = [] then sm_default m else sid) = None"
    and "rate_valid (dict_get (sm_rates m) (if sid = [] then sm_default m else sid)
           (ss_requests_per_second (se_settings env)))"
    and "restore_state env repr m sid (JObj ((''kind'', JStr ''session'') # wrapper_state w)) = (m', err)"
  shows "err = None" and "sm_restored m' = sm_restored m"
    and "\<exists>w'. live_session m' (if sid = [] then sm_default m else sid) = Some w' \<and>
    (\<forall>d p n. jar_lookup (sw_jar w') d p n = jar_lookup (sw_jar w) d p n) \<and>
    hs_origins (sw_hints w') = hs_origins (sw_hints w)"
proof -
  let ?sid = "if sid = [] then sm_default m else sid"
  have res: "resolve_session_id env m sid = Inr ?sid" using assms(2) by (simp add: resolve_session_id_def Let_def)
  obtain l where l: "limiter_init (dict_get (sm_rates m) ?sid (ss_requests_per_second (se_settings env))) = Inr l"
    using assms(3) by (simp add: limiter_init_def limiter_configure_def)
  obtain m1 where m1: "get_or_create_session env m sid None = Inr (m1, ?sid)"
    using res l by (cases "live_session m ?sid") (auto simp: get_or_create_session_def new_wrapper_def Let_def)
  obtain w0 where w0: "live_session m1 ?sid = Some w0" using get_or_create_live [OF m1] by blast
  have "restore_wrapper repr m1 ?sid (export_cookies (sw_jar w)) (export_state (sw_hints w)) = (m', err)"
    using assms(4) m1 by (simp add: restore_state_def wrapper_state_def dict_get_def)
  note rw = this
  show "sm_restored m' = sm_restored m"
    using rw w0 m1 by (auto simp: restore_wrapper_def split: prod.splits elim!: get_or_create_cases)
  from restore_wrapper_snapshot [OF assms(1) w0 rw]
  show "err = None" "\<exists>w'. live_session m' ?sid = Some w' \<and>
    (\<forall>d p n. jar_lookup (sw_jar w') d p n = jar_lookup (sw_jar w) d p n) \<and>
    hs_origins (sw_hints w') = hs_origins (sw_hints w)" by simp_all
qed

section \<open>Sample values\<close>

text \<open>A cookie as the jar makes it for a plain name and value, and an environment built on it.\<close>

definition plain_cookie :: "string \<Rightarrow> string \<Rightarrow> cookie" where
  "plain_cookie name val =
     \<lparr>ck_version = Some 0, ck_name = name, ck_value = Some val, ck_port = None, ck_port_specified = False,
      ck_domain = [], ck_domain_specified = False, ck_domain_initial_dot = False, ck_path = ''/'',
      ck_path_specified = True, ck_secure = False, ck_expires = None, ck_discard = True,
      ck_comment = None, ck_comment_url = None, ck_rest = [], ck_rfc2109 = False\<rparr>"

definition sample_env :: session_env where
  "sample_env = \<lparr>se_settings = \<lparr>ss_default_cookies = [], ss_requests_per_second = Some 2\<rparr>,
     se_mk_cookie = plain_cookie, se_choice = hd\<rparr>"

definition sample_wrapper :: wrapper where
  "sample_wrapper = \<lparr>sw_jar = [], sw_hints = init_hints, sw_pool = [],
     sw_limiter = \<lparr>sl_rate = Some 2, sl_interval = 1 / 2, sl_next_start = 0\<rparr>, sw_default_cookies = []\<rparr>"

definition sample_manager :: manager where
  "sample_manager = (manager_init ''d'')\<lparr>sm_sessions := [(''d'', Some sample_wrapper), (''s'', Some sample_wrapper)]\<rparr>"

lemma env_ok_sample: "env_ok sample_env"
  by (simp add: env_ok_def sample_env_def plain_cookie_def cookie_ok_def lower_def)

lemma wrapper_ok_sample: "wrapper_ok key_of sample_wrapper"
  by (simp add: wrapper_ok_def sample_wrapper_def limiter_ok_def rate_valid_def)

lemma live_sample: "live_session sample_manager ''s'' = Some sample_wrapper"
  by (simp add: live_session_def sample_manager_def manager_init_def)

lemma sm_inv_sample: "sm_inv key_of sample_manager []"
  by (auto simp: sm_inv_defs sample_manager_def manager_init_def live_session_def wrapper_ok_sample
      split: if_splits)

section \<open>Properties\<close>

lemma session_runs_inv:
  assumes "(sm_step env)\<^sup>*\<^sup>* (manager_init d, [], []) s" and "env_ok env"
  shows "sm_inv key_of (fst s) (fst (snd s)) \<and> sm_default (fst s) = d \<and> d \<notin> set (snd (snd s))"
  using assms(1)
proof (induction rule: rtranclp_induct)
  case base
  then show ?case by (simp add: sm_inv_init) (simp add: manager_init_def)
next
  case (step s t)
  obtain m fl lg m' fl' lg' where st: "s = (m, fl, lg)" "t = (m', fl', lg')" by (cases s; cases t) auto
  then show ?case
    using step.hyps(2) step.IH assms(2) sm_step_inv sm_step_default [of env m fl lg m' fl' lg']
      sm_step_log [of env m fl lg m' fl' lg']
    by fastforce
qed

text \<open>C1.  In every state a run of the manager reaches, with the reaper interleaved anywhere, the
  close queue and what the reaper holds are exactly the pending ids, without duplicates and all
  marked ended; counts are never kept for the default session; every live session's jar, hints,
  limiter and WebSocket pool are well formed; and the default session has never been closed.\<close>

theorem session_runs_safe:
  assumes "env_ok env" and "(sm_step env)\<^sup>*\<^sup>* (manager_init d, [], []) (m, fl, lg)"
  shows "sm_inv key_of m fl \<and> sm_default m = d \<and> d \<notin> set lg"
  using session_runs_inv [OF assms(2,1)] by simp

theorem session_runs_safe_witness:
  "sm_inv id (mark_end (acquire (manager_init ''d'') ''s'') ''s'') [] \<and>
   sm_default (mark_end (acquire (manager_init ''d'') ''s'') ''s'') = ''d'' \<and> ''d'' \<notin> set ([] :: string list)"
proof (rule session_runs_safe [OF env_ok_sample])
  show "(sm_step sample_env)\<^sup>*\<^sup>* (manager_init ''d'', [], [])
      (mark_end (acquire (manager_init ''d'') ''s'') ''s'', [], [])"
    by (rule rtranclp.rtrancl_into_rtrancl [OF r_into_rtranclp])
       (rule step_acquire step_mark_end)+
qed

text \<open>An operation puts a session into the close queue only when, after it, the session is marked
  ended and its reference count is not positive.\<close>

theorem session_queued_only_idle:
  assumes "sm_step env (m, fl, lg) (m', fl', lg')"
    and "sid \<in> set (sm_close_queue m')" and "sid \<notin> set (sm_close_queue m)"
  shows "sid \<in> sm_end_flags m' \<and> dict_get (sm_ref_counts m') sid 0 \<le> 0"
  using sm_step_newly_idle [OF assms(1)] assms(2,3) by (simp add: newly_idle_def)

theorem session_queued_only_idle_witness:
  "''s'' \<in> sm_end_flags (mark_end sample_manager ''s'') \<and>
   dict_get (sm_ref_counts (mark_end sample_manager ''s'')) ''s'' 0 \<le> 0"
  by (rule session_queued_only_idle [OF step_mark_end [of sample_env sample_manager "[]" "[]" "''s''"]])
     (simp_all add: mark_end_def mark_end_single_def enqueue_close_def sample_manager_def manager_init_def
        is_default_session_def Let_def dict_get_def)



text \<open>The final close closes every live session other than the default one once, in dictionary
  order, and forgets all of them; the default session's HTTP session and WebSockets are dropped
  without being closed.\<close>

theorem close_all_spares_default:
  assumes "sm_inv key_of m fl" and "close_all m = (m', clog)"
  shows "map fst clog = filter (\<lambda>sid. sid \<noteq> sm_default m \<and> sid \<noteq> [] \<and> live_session m sid \<noteq> None)
      (keys (sm_sessions m)) \<and> sm_sessions m' = [] \<and> sm_close_queue m' = [] \<and> sm_ref_counts m' = []"
proof -
  have "dict_wf (sm_sessions m)" using assms(1) by (simp add: sm_inv_defs)
  from close_all_closes [OF this assms(2)] show ?thesis
    by (simp add: closed_of_def closable_def [abs_def] comp_def)
qed

theorem close_all_spares_default_witness:
  "map fst (snd (close_all sample_manager)) = [''s''] \<and> live_session sample_manager ''d'' \<noteq> None"
proof -
  obtain m' clog where c: "close_all sample_manager = (m', clog)" by fastforce
  show ?thesis
    using close_all_spares_default [OF sm_inv_sample [of id] c] c
    by (simp add: sample_manager_def manager_init_def live_session_def)
qed

text \<open>C3.  A session persisted by one manager and restored by another that has not read the field
  yet comes back with the same cookie for every domain, path and name and the same Client Hint
  state, through the versioned payload; a second restore reads nothing.\<close>

theorem session_persist_restore:
  assumes "loads (dumps (JObj ((''kind'', JStr ''session'') # wrapper_state w))) =
      Some (JObj ((''kind'', JStr ''session'') # wrapper_state w))"
    and "inflates compress inflate"
    and "live_session m (if sid = [] then sm_default m else sid) = Some w" and "wrapper_ok key_of w"
    and "map_of (sm_groups m) sid = None"
    and "persist_session (\<lambda>v. encode_state dumps compress v 6 max_state_bytes) store m key sid =
      Inr (store', m1, True)"
    and "(key, state_field sid) \<notin> sm_restored m2"
    and "map_of (sm_groups m2) (if sid = [] then sm_default m2 else sid) = None"
    and "rate_valid (dict_get (sm_rates m2) (if sid = [] then sm_default m2 else sid)
           (ss_requests_per_second (se_settings env)))"
    and "restore_session env repr (\<lambda>p. decode_state loads inflate p max_state_bytes) store' m2 key sid = (m3, r)"
  shows "r = Inr True \<and> (key, state_field sid) \<in> sm_restored m3 \<and>
    (\<exists>w'. live_session m3 (if sid = [] then sm_default m2 else sid) = Some w' \<and>
      (\<forall>d p n. jar_lookup (sw_jar w') d p n = jar_lookup (sw_jar w) d p n) \<and>
      hs_origins (sw_hints w') = hs_origins (sw_hints w))"
proof -
  let ?st = "JObj ((''kind'', JStr ''session'') # wrapper_state w)"
  let ?m2 = "m2\<lparr>sm_restored := insert (key, state_field sid) (sm_restored m2)\<rparr>"
  have snap: "session_snapshot m sid = Some ?st"
    using assms(3,5) by (auto simp: session_snapshot_def)
  obtain payload where enc: "encode_state dumps compress ?st 6 max_state_bytes = Inr payload"
    and store: "store' (key, state_field sid) = Some payload"
    using assms(6) snap by (auto simp: persist_session_def Let_def split: sum.splits)
  have dec: "decode_state loads inflate payload max_state_bytes = Inr ?st"
    using decode_encode_state [of loads dumps ?st] assms(1,2) enc by blast
  obtain m' err where rs: "restore_state env repr ?m2 sid ?st = (m', err)" by fastforce
  have "err = None" "sm_restored m' = sm_restored ?m2"
    "\<exists>w'. live_session m' (if sid = [] then sm_default m2 else sid) = Some w' \<and>
      (\<forall>d p n. jar_lookup (sw_jar w') d p n = jar_lookup (sw_jar w) d p n) \<and>
      hs_origins (sw_hints w') = hs_origins (sw_hints w)"
    using restore_session_snapshot [OF assms(4) _ _ rs] assms(8,9) by (simp_all cong: if_cong)
  then show ?thesis
    using assms(7,10) store dec rs by (auto simp: restore_session_def Let_def)
qed

text \<open>The witness stores JSON text as itself: one number per value suffices for the one value stored.\<close>

theorem session_persist_restore_witness:
  "\<exists>m3. restore_session sample_env (\<lambda>_. []) (\<lambda>p. decode_state
       (\<lambda>b. if b = [1] then Some (JObj ((''kind'', JStr ''session'') # wrapper_state sample_wrapper)) else None)
       (\<lambda>b n. Some \<lparr>inf_out = b, inf_tail = False, inf_flush = (\<lambda>_. []), inf_eof = True, inf_unused = False\<rparr>)
       p max_state_bytes)
     (\<lambda>k. if k = (''key'', ''S:s'') then Some (magic @ [enc_raw] @ [1]) else None)
     (manager_init ''e'') ''key'' ''s'' = (m3, Inr True) \<and> live_session m3 ''s'' \<noteq> None"
proof -
  let ?j = "JObj ((''kind'', JStr ''session'') # wrapper_state sample_wrapper)"
  let ?dumps = "\<lambda>v. [1] :: bytes" and ?loads = "\<lambda>b :: bytes. if b = [1] then Some ?j else None"
  let ?inflate = "\<lambda>b n :: nat. Some \<lparr>inf_out = b, inf_tail = False, inf_flush = (\<lambda>_ :: nat. []),
    inf_eof = True, inf_unused = False\<rparr>" and ?compress = "\<lambda>(l :: nat) b :: bytes. b"
  let ?store = "\<lambda>k. if k = (''key'', ''S:s'') then Some (magic @ [enc_raw] @ [1]) else None"
  obtain m3 r where r: "restore_session sample_env (\<lambda>_. []) (\<lambda>p. decode_state ?loads ?inflate p max_state_bytes)
      ?store (manager_init ''e'') ''key'' ''s'' = (m3, r)" by fastforce
  have p: "persist_session (\<lambda>v. encode_state ?dumps ?compress v 6 max_state_bytes) (\<lambda>_. None) sample_manager
      ''key'' ''s'' = Inr (?store, sample_manager\<lparr>sm_restored := {(''key'', ''S:s'')}\<rparr>, True)"
    using live_sample
    by (auto simp: persist_session_def session_snapshot_def state_field_def encode_state_def Let_def
        max_state_bytes_def sample_manager_def manager_init_def fun_eq_iff)
  have "r = Inr True \<and> (''key'', state_field ''s'') \<in> sm_restored m3 \<and>
    (\<exists>w'. live_session m3 (if ''s'' = [] then sm_default (manager_init ''e'') else ''s'') = Some w' \<and>
      (\<forall>d p n. jar_lookup (sw_jar w') d p n = jar_lookup (sw_jar sample_wrapper) d p n) \<and>
      hs_origins (sw_hints w') = hs_origins (sw_hints sample_wrapper))"
    by (rule session_persist_restore [OF _ _ _ wrapper_ok_sample [of id] _ p _ _ _ r])
       (simp_all add: live_sample inflates_def sample_manager_def manager_init_def sample_env_def
          rate_valid_def dict_get_def live_session_def)
  then show ?thesis using r by auto
qed

text \<open>The reference count is not looked at again once a session is queued: a request that
  acquires it between the end mark and the reaper's turn holds a session that is being closed.\<close>

theorem reaper_closes_session_in_use:
  assumes "live_session m s = Some w" and "s \<noteq> sm_default m" and "s \<noteq> []" and "map_of (sm_groups m) s = None"
    and "map_of (sm_ref_counts m) s = None" and "sm_close_queue m = []" and "sm_pending m = {}" and "\<not> sm_frozen m"
  shows "\<exists>m'. reaper_take (acquire (mark_end m s) s) = Some (m', s, Some (s, w)) \<and>
    dict_get (sm_ref_counts m') s 0 = 1"
  using assms
  by (auto simp: reaper_take_def acquire_def mark_end_def mark_end_single_def enqueue_close_def safe_close_def
      is_default_session_def Let_def dict_get_def live_session_def)

theorem reaper_closes_session_in_use_witness:
  "\<exists>m'. reaper_take (acquire (mark_end sample_manager ''s'') ''s'') = Some (m', ''s'', Some (''s'', sample_wrapper)) \<and>
    dict_get (sm_ref_counts m') ''s'' 0 = 1"
  by (rule reaper_closes_session_in_use [OF live_sample]) (simp_all add: sample_manager_def manager_init_def)

end
