(* ===== verification/MediaRange.thy ===== *)
theory MediaRange
  imports Requests
begin

text \<open>
  Sequential range downloads (\<open>core/sessions.py\<close>, \<open>_request_retryer\<close>, \<open>_media_part_request\<close> and
  \<open>media_req\<close>).  The answer to the n-th range request, after its retries, is the argument \<open>serve n
  headers\<close>; a loop that a server can keep going for ever takes fuel, and the theorems say when it is
  enough.
\<close>

section \<open>Retries\<close>

datatype 'r attempt = Answered 'r | Retryable string | Fatal string

text \<open>
  \<open>stop_after_attempt\<close> with \<open>reraise\<close>: attempt \<open>k\<close> is the last when \<open>k\<close> is not below the limit.  The
  first component counts the attempts made.
\<close>

function with_retries :: "nat \<Rightarrow> (nat \<Rightarrow> 'r attempt) \<Rightarrow> nat \<Rightarrow> nat \<times> (string + 'r)" where
  "with_retries limit run k =
     (case run k of
        Answered r \<Rightarrow> (k, Inr r)
      | Fatal e \<Rightarrow> (k, Inl e)
      | Retryable e \<Rightarrow> if limit \<le> k then (k, Inl e) else with_retries limit run (k + 1))"
  by pat_completeness auto
termination
  by (relation "measure (\<lambda>(limit, run, k). limit - k)") auto

declare with_retries.simps [simp del]

definition retry_limit :: "nat option \<Rightarrow> nat \<Rightarrow> nat" where
  "retry_limit max_retry_times max_req_times =
     (case max_retry_times of None \<Rightarrow> max_req_times | Some n \<Rightarrow> if n = 0 then max_req_times else n)"

definition request_with_retries :: "nat option \<Rightarrow> nat \<Rightarrow> (nat \<Rightarrow> 'r attempt) \<Rightarrow> nat \<times> (string + 'r)" where
  "request_with_retries max_retry_times max_req_times run =
     with_retries (retry_limit max_retry_times max_req_times) run 1"

lemma with_retries_count: "k \<le> fst (with_retries limit run k) \<and> fst (with_retries limit run k) \<le> max k limit"
proof (induction limit run k rule: with_retries.induct)
  case (1 limit run k)
  show ?case
  proof (cases "run k")
    case (Retryable e)
    then show ?thesis using 1 [OF Retryable] by (subst (1 2) with_retries.simps) auto
  qed (subst (1 2) with_retries.simps, simp)+
qed

lemma with_retries_result:
  "snd (with_retries limit run k) = (case run (fst (with_retries limit run k)) of
     Answered r \<Rightarrow> Inr r | Fatal e \<Rightarrow> Inl e | Retryable e \<Rightarrow> Inl e)"
proof (induction limit run k rule: with_retries.induct)
  case (1 limit run k)
  show ?case
  proof (cases "run k")
    case (Retryable e)
    then show ?thesis using 1 [OF Retryable] by (subst (1 2) with_retries.simps) auto
  qed (subst (1 2) with_retries.simps, simp)+
qed

lemma with_retries_skips:
  "k \<le> j \<Longrightarrow> j < fst (with_retries limit run k) \<Longrightarrow> \<exists>e. run j = Retryable e"
proof (induction limit run k rule: with_retries.induct)
  case (1 limit run k)
  show ?case
  proof (cases "run k")
    case (Retryable e)
    show ?thesis
    proof (cases "j = k")
      case False
      then show ?thesis
        using 1 Retryable by (subst (asm) with_retries.simps) (auto split: if_splits)
    qed (use Retryable in simp)
  qed (use 1(2,3) in \<open>subst (asm) with_retries.simps, simp\<close>)+
qed

section \<open>Content-Range\<close>

definition strip_prefix_ci :: "string \<Rightarrow> string \<Rightarrow> string option" where
  "strip_prefix_ci p s = (if lower (take (length p) s) = lower p then Some (drop (length p) s) else None)"

text \<open>\<open>bytes \*/([0-9]+)\<close>\<close>

definition parse_unsatisfied :: "string \<Rightarrow> nat option" where
  "parse_unsatisfied s =
     (case strip_prefix_ci ''bytes */'' s of None \<Rightarrow> None | Some r \<Rightarrow> parse_nat r)"

text \<open>\<open>bytes ([0-9]+)-([0-9]+)/(\*|[0-9]+)\<close>\<close>

definition parse_content_range :: "string \<Rightarrow> (nat \<times> nat \<times> nat option) option" where
  "parse_content_range s =
     (case strip_prefix_ci ''bytes '' s of
        None \<Rightarrow> None
      | Some r \<Rightarrow>
         (case (parse_nat (takeWhile is_digit r), dropWhile is_digit r) of
            (Some a, c # r1) \<Rightarrow>
              (if c \<noteq> CHR ''-'' then None
               else (case (parse_nat (takeWhile is_digit r1), dropWhile is_digit r1) of
                       (Some b, c' # r2) \<Rightarrow>
                         (if c' \<noteq> CHR ''/'' then None
                          else if r2 = ''*'' then Some (a, b, None)
                          else (case parse_nat r2 of None \<Rightarrow> None | Some t \<Rightarrow> Some (a, b, Some t)))
                     | _ \<Rightarrow> None))
          | _ \<Rightarrow> None))"

definition content_range_text :: "nat \<Rightarrow> nat \<Rightarrow> nat \<Rightarrow> string" where
  "content_range_text a b t = ''bytes '' @ str_nat a @ ''-'' @ str_nat b @ ''/'' @ str_nat t"

lemma not_digit_sep [simp]: "\<not> is_digit CHR ''-''" "\<not> is_digit CHR ''/''" "\<not> is_digit CHR ''*''"
  by (simp_all add: is_digit_def)

lemma str_nat_not_star: "str_nat t \<noteq> ''*''"
  using str_nat_digits [of t] by auto

lemma parse_content_range_text [simp]: "parse_content_range (content_range_text a b t) = Some (a, b, Some t)"
proof -
  have p: "strip_prefix_ci ''bytes '' (content_range_text a b t) =
      Some (str_nat a @ CHR ''-'' # (str_nat b @ CHR ''/'' # str_nat t))"
    by (simp add: strip_prefix_ci_def content_range_text_def)
  show ?thesis
    unfolding parse_content_range_def p
    by (simp add: takeWhile_str_nat str_nat_not_star)
qed

lemma parse_unsatisfied_text [simp]: "parse_unsatisfied (''bytes */'' @ str_nat n) = Some n"
  by (simp add: parse_unsatisfied_def strip_prefix_ci_def)

section \<open>The download loop\<close>

type_synonym headers = "(string, string) pydict"

record response =
  re_status :: nat
  re_content_range :: "string option"
  re_content :: bytes

record media_request =
  mr_headers :: headers
  mr_part :: nat
  mr_media_size :: nat
  mr_max :: "nat option"

datatype media_error =
    UnsatisfiedMismatch | TotalChanged | EmptyMismatch | DeclaredMismatch | ExceedsMax
  | UnexpectedStatus nat | BadContentRange | RangeMismatch | BodyMismatch | BadTotal | TransportFailed string

record media_state =
  ms_data :: bytes
  ms_total :: "nat option"
  ms_response :: "response option"
  ms_media_size :: nat
  ms_calls :: nat

datatype media_turn =
    Continue media_state
  | Break media_state
  | Return response nat
  | Raise media_error

text \<open>\<open>MediaRequest.__init__\<close> accepts these values only.\<close>

definition media_request_ok :: "media_request \<Rightarrow> bool" where
  "media_request_ok q \<longleftrightarrow> 0 < mr_part q \<and>
     (case mr_max q of None \<Rightarrow> True | Some m \<Rightarrow> 0 < m \<and> mr_media_size q \<le> m)"

definition range_key :: "media_request \<Rightarrow> string" where
  "range_key q = (case header_key (mr_headers q) ''Range'' of
     Some k \<Rightarrow> if k = [] then ''Range'' else k | None \<Rightarrow> ''Range'')"

definition range_text :: "nat \<Rightarrow> nat \<Rightarrow> string" where
  "range_text a b = ''bytes='' @ str_nat a @ ''-'' @ str_nat b"

definition range_headers :: "media_request \<Rightarrow> nat \<Rightarrow> nat \<Rightarrow> headers" where
  "range_headers q a b = dict_set (mr_headers q) (range_key q) (range_text a b)"

definition plain_headers :: "headers \<Rightarrow> headers" where
  "plain_headers hs = filter (\<lambda>p. lower (fst p) \<noteq> ''range'') hs"

definition part_end :: "media_request \<Rightarrow> media_state \<Rightarrow> nat" where
  "part_end q s =
     (let e = length (ms_data s) + mr_part q - 1
      in case ms_total s of None \<Rightarrow> e | Some t \<Rightarrow> min e (t - 1))"

definition over_max :: "media_request \<Rightarrow> nat \<Rightarrow> bool" where
  "over_max q n \<longleftrightarrow> (case mr_max q of None \<Rightarrow> False | Some m \<Rightarrow> m < n)"

type_synonym server = "nat \<Rightarrow> headers \<Rightarrow> string + response"

text \<open>Status 416: the size is known to be what has been downloaded, or the download failed.\<close>

definition unsatisfied_turn :: "server \<Rightarrow> media_request \<Rightarrow> headers \<Rightarrow> media_state \<Rightarrow> response \<Rightarrow> media_turn" where
  "unsatisfied_turn serve q hs s r =
     (case parse_unsatisfied (case re_content_range r of None \<Rightarrow> [] | Some x \<Rightarrow> x) of
        None \<Rightarrow> Raise UnsatisfiedMismatch
      | Some n \<Rightarrow>
          (if n \<noteq> length (ms_data s) then Raise UnsatisfiedMismatch
           else if (case ms_total s of None \<Rightarrow> False | Some t \<Rightarrow> t \<noteq> n) then Raise TotalChanged
           else if ms_response s = None then
             (case serve (ms_calls s) (plain_headers hs) of
                Inl e \<Rightarrow> Raise (TransportFailed e)
              | Inr r' \<Rightarrow>
                  if re_status r' \<noteq> 200 \<or> re_content r' \<noteq> [] then Raise EmptyMismatch
                  else Return r' n)
           else Break (s\<lparr>ms_media_size := n\<rparr>)))"

definition whole_turn :: "media_request \<Rightarrow> media_state \<Rightarrow> response \<Rightarrow> media_turn" where
  "whole_turn q s r =
     (if (case ms_total s of None \<Rightarrow> False | Some t \<Rightarrow> length (re_content r) \<noteq> t) then Raise DeclaredMismatch
      else if over_max q (length (re_content r)) then Raise ExceedsMax
      else Return r (length (re_content r)))"

text \<open>The range a partial answer reports; a known size lets the header be left out.\<close>

definition reported_range :: "media_request \<Rightarrow> media_state \<Rightarrow> response \<Rightarrow> (nat \<times> nat \<times> nat option) option" where
  "reported_range q s r =
     (case (re_content_range r, ms_total s) of
        (None, Some t) \<Rightarrow> Some (length (ms_data s), part_end q s, Some t)
      | (None, None) \<Rightarrow> parse_content_range []
      | (Some x, _) \<Rightarrow> parse_content_range x)"

definition partial_turn :: "media_request \<Rightarrow> media_state \<Rightarrow> response \<Rightarrow> media_turn" where
  "partial_turn q s r =
     (case reported_range q s r of
        None \<Rightarrow> Raise BadContentRange
      | Some (start, end', reported) \<Rightarrow>
          (if start \<noteq> length (ms_data s) \<or> end' < start \<or> part_end q s < end' then Raise RangeMismatch
           else if length (re_content r) \<noteq> end' - start + 1 then Raise BodyMismatch
           else if (case reported of None \<Rightarrow> False | Some t \<Rightarrow> t \<le> end') then Raise BadTotal
           else if (case (reported, ms_total s) of
                      (Some t, Some t') \<Rightarrow> ms_data s \<noteq> [] \<and> t \<noteq> t' | _ \<Rightarrow> False) then Raise TotalChanged
           else
             let total = (case reported of None \<Rightarrow> ms_total s | Some t \<Rightarrow> Some t)
             in if over_max q (max (case total of None \<Rightarrow> 0 | Some t \<Rightarrow> t) (end' + 1)) then Raise ExceedsMax
                else Continue (s\<lparr>ms_total := total,
                       ms_media_size := (case total of None \<Rightarrow> ms_media_size s | Some t \<Rightarrow> t),
                       ms_data := ms_data s @ re_content r, ms_response := Some r\<rparr>)))"

definition media_turn :: "server \<Rightarrow> media_request \<Rightarrow> media_state \<Rightarrow> media_turn" where
  "media_turn serve q s =
     (let hs = range_headers q (length (ms_data s)) (part_end q s)
      in case serve (ms_calls s) hs of
           Inl e \<Rightarrow> Raise (TransportFailed e)
         | Inr r \<Rightarrow>
             let s1 = s\<lparr>ms_calls := ms_calls s + 1\<rparr>
             in if re_status r = 416 then unsatisfied_turn serve q hs s1 r
                else if re_status r = 200 then whole_turn q s1 r
                else if re_status r \<noteq> 206 then Raise (UnexpectedStatus (re_status r))
                else partial_turn q s1 r)"

text \<open>
  \<open>stopped n\<close>: whether the stop event is set when turn \<open>n\<close> begins.  The result carries the
  response and the size left in \<open>request.media_size\<close>.
\<close>

datatype media_result =
    NoFuel
  | Cancelled
  | Failed media_error
  | Finished "response option" nat

definition media_finish :: "media_state \<Rightarrow> media_result" where
  "media_finish s = Finished (map_option (\<lambda>r. r\<lparr>re_content := ms_data s\<rparr>) (ms_response s)) (ms_media_size s)"

fun media_loop :: "nat \<Rightarrow> server \<Rightarrow> (nat \<Rightarrow> bool) \<Rightarrow> media_request \<Rightarrow> nat \<Rightarrow> media_state \<Rightarrow> media_result" where
  "media_loop 0 serve stopped q n s = NoFuel"
| "media_loop (Suc fuel) serve stopped q n s =
     (if (case ms_total s of None \<Rightarrow> True | Some t \<Rightarrow> length (ms_data s) < t) then
        (if stopped n then Cancelled
         else (case media_turn serve q s of
                 Continue s' \<Rightarrow> media_loop fuel serve stopped q (n + 1) s'
               | Break s' \<Rightarrow> media_finish s'
               | Return r m \<Rightarrow> Finished (Some r) m
               | Raise e \<Rightarrow> Failed e))
      else media_finish s)"

definition media_start :: "media_request \<Rightarrow> media_state" where
  "media_start q =
     \<lparr>ms_data = [], ms_total = (if mr_media_size q = 0 then None else Some (mr_media_size q)),
      ms_response = None, ms_media_size = mr_media_size q, ms_calls = 0\<rparr>"

definition media_req :: "nat \<Rightarrow> server \<Rightarrow> (nat \<Rightarrow> bool) \<Rightarrow> media_request \<Rightarrow> media_result" where
  "media_req fuel serve stopped q = media_loop fuel serve stopped q 0 (media_start q)"

section \<open>Whatever the server answers\<close>

text \<open>
  A known size is positive, at least what has been downloaded, and what the request records; nothing
  beyond the maximum is kept; a response is held once a part has arrived.
\<close>

definition media_inv :: "media_request \<Rightarrow> media_state \<Rightarrow> bool" where
  "media_inv q s \<longleftrightarrow>
     (case ms_total s of None \<Rightarrow> True
      | Some t \<Rightarrow> 0 < t \<and> length (ms_data s) \<le> t \<and> ms_media_size s = t) \<and>
     (case mr_max q of None \<Rightarrow> True | Some m \<Rightarrow> length (ms_data s) \<le> m) \<and>
     (ms_response s = None \<longleftrightarrow> ms_data s = [])"

lemma media_inv_start: "media_inv q (media_start q)"
  by (auto simp: media_inv_def media_start_def split: option.splits)

lemma media_inv_calls [simp]: "media_inv q (s\<lparr>ms_calls := n\<rparr>) = media_inv q s"
  by (auto simp: media_inv_def split: option.splits)

lemma part_end_bounds:
  "0 < mr_part q \<Longrightarrow> ms_total s = Some t \<Longrightarrow> 0 < t \<Longrightarrow> part_end q s < t"
  by (auto simp: part_end_def Let_def)

lemma partial_turn_grows:
  assumes "media_request_ok q" and "media_inv q s" and "partial_turn q s r = Continue s'"
  shows "media_inv q s'" and "length (ms_data s) < length (ms_data s')"
proof -
  obtain start e rep where rr: "reported_range q s r = Some (start, e, rep)"
    using assms(3) by (auto simp: partial_turn_def split: option.splits)
  define total where "total = (case rep of None \<Rightarrow> ms_total s | Some t \<Rightarrow> Some t)"
  have g: "start = length (ms_data s)" "start \<le> e" "e \<le> part_end q s" "length (re_content r) = e - start + 1"
    "\<not> (case rep of None \<Rightarrow> False | Some t \<Rightarrow> t \<le> e)"
    "\<not> over_max q (max (case total of None \<Rightarrow> 0 | Some t \<Rightarrow> t) (e + 1))"
    and s': "s' = s\<lparr>ms_total := total,
                       ms_media_size := (case total of None \<Rightarrow> ms_media_size s | Some t \<Rightarrow> t),
                       ms_data := ms_data s @ re_content r, ms_response := Some r\<rparr>"
    using assms(3) rr unfolding partial_turn_def total_def Let_def
    by (simp_all split: if_splits)
  have len: "length (ms_data s @ re_content r) = e + 1" using g by simp
  have tot: "0 < t \<and> e + 1 \<le> t" if t: "total = Some t" for t
  proof (cases rep)
    case None
    then have st: "ms_total s = Some t" using t by (simp add: total_def)
    then have "0 < t" using assms(2) by (simp add: media_inv_def)
    then show ?thesis
      using part_end_bounds [of q s t] st assms(1) g(3) by (simp add: media_request_ok_def)
  next
    case (Some t')
    then show ?thesis using t g(5) by (simp add: total_def)
  qed
  show "media_inv q s'"
    using tot len g(6) unfolding media_inv_def s'
    by (auto simp: over_max_def simp del: length_append split: option.splits)
  show "length (ms_data s) < length (ms_data s')" using g by (simp add: s')
qed

lemma media_turn_continue:
  assumes "media_request_ok q" and "media_inv q s" and "media_turn serve q s = Continue s'"
  shows "media_inv q s' \<and> length (ms_data s) < length (ms_data s')"
proof -
  let ?s1 = "s\<lparr>ms_calls := ms_calls s + 1\<rparr>"
  obtain r where "partial_turn q ?s1 r = Continue s'"
    using assms(3) by (auto simp: media_turn_def unsatisfied_turn_def whole_turn_def Let_def
        split: sum.splits if_splits option.splits)
  then show ?thesis using partial_turn_grows [of q ?s1 r s'] assms(1,2) by simp
qed

definition within_max :: "media_request \<Rightarrow> nat \<Rightarrow> bool" where
  "within_max q n \<longleftrightarrow> \<not> over_max q n"

lemma media_turn_return:
  assumes "media_inv q s" and "media_turn serve q s = Return r m"
  shows "length (re_content r) = m \<and> within_max q m"
  using assms
  by (auto simp: media_turn_def unsatisfied_turn_def whole_turn_def partial_turn_def Let_def media_inv_def
      within_max_def over_max_def split: sum.splits if_splits option.splits)

lemma media_turn_break:
  assumes "media_inv q s" and "media_turn serve q s = Break s'"
  shows "\<exists>r. ms_response s' = Some r \<and> length (ms_data s') = ms_media_size s' \<and> within_max q (ms_media_size s')"
  using assms
  by (auto simp: media_turn_def unsatisfied_turn_def whole_turn_def partial_turn_def Let_def media_inv_def
      within_max_def over_max_def split: sum.splits if_splits option.splits)

lemma media_loop_result:
  "media_request_ok q \<Longrightarrow> media_inv q s \<Longrightarrow> media_loop fuel serve stopped q n s = Finished ro m \<Longrightarrow>
   \<exists>r. ro = Some r \<and> length (re_content r) = m \<and> within_max q m"
proof (induction fuel serve stopped q n s rule: media_loop.induct)
  case (2 fuel serve stopped q n s)
  show ?case
  proof (cases "case ms_total s of None \<Rightarrow> True | Some t \<Rightarrow> length (ms_data s) < t")
    case False
    then obtain t where "ms_total s = Some t" "length (ms_data s) = t" "0 < t" "ms_media_size s = t"
      using 2(3) by (auto simp: media_inv_def split: option.splits)
    then show ?thesis
      using 2(3,4) False
      by (auto simp: media_finish_def media_inv_def within_max_def over_max_def split: option.splits)
  next
    case True
    then have ns: "\<not> stopped n" using 2(4) by (auto split: if_splits)
    show ?thesis
    proof (cases "media_turn serve q s")
      case (Continue s')
      then show ?thesis
        using 2(1) [OF True ns Continue 2(2)] media_turn_continue [OF 2(2,3) Continue] 2(4) True ns by simp
    next
      case (Break s')
      then show ?thesis
        using media_turn_break [OF 2(3) Break] 2(4) True ns by (auto simp: media_finish_def)
    next
      case (Return r m')
      then show ?thesis using media_turn_return [OF 2(3) Return] 2(4) True ns by auto
    qed (use 2(4) True ns in auto)
  qed
qed simp

lemma media_loop_ends:
  "media_request_ok q \<Longrightarrow> media_inv q s \<Longrightarrow> mr_max q = Some m \<Longrightarrow> m + 2 \<le> fuel + length (ms_data s) \<Longrightarrow>
   media_loop fuel serve stopped q n s \<noteq> NoFuel"
proof (induction fuel serve stopped q n s rule: media_loop.induct)
  case (1 serve stopped q n s)
  then show ?case by (simp add: media_inv_def)
next
  case (2 fuel serve stopped q n s)
  have "media_loop fuel serve stopped q (n + 1) s' \<noteq> NoFuel"
    if "(case ms_total s of None \<Rightarrow> True | Some t \<Rightarrow> length (ms_data s) < t)" "\<not> stopped n"
      "media_turn serve q s = Continue s'" for s'
    using 2(1) [OF that 2(2)] media_turn_continue [OF 2(2,3) that(3)] 2(4,5) by auto
  then show ?case by (auto simp: media_finish_def split: media_turn.splits)
qed

section \<open>A server that holds the resource\<close>

definition range_reply :: "bytes \<Rightarrow> nat \<Rightarrow> nat \<Rightarrow> response" where
  "range_reply R a b =
     (if a < length R
      then let e = min b (length R - 1)
           in \<lparr>re_status = 206, re_content_range = Some (content_range_text a e (length R)),
               re_content = take (e + 1 - a) (drop a R)\<rparr>
      else \<lparr>re_status = 416, re_content_range = Some (''bytes */'' @ str_nat (length R)), re_content = []\<rparr>)"

definition holds_resource :: "server \<Rightarrow> media_request \<Rightarrow> bytes \<Rightarrow> bool" where
  "holds_resource serve q R \<longleftrightarrow>
     (\<forall>n hs a b. map_of hs (range_key q) = Some (range_text a b) \<longrightarrow> a \<le> b \<longrightarrow> serve n hs = Inr (range_reply R a b)) \<and>
     (\<forall>n hs. header_key hs ''Range'' = None \<longrightarrow>
        serve n hs = Inr \<lparr>re_status = 200, re_content_range = None, re_content = R\<rparr>)"

lemma lower_Range: "lower ''Range'' = ''range''"
  by code_simp

lemma find_plain_headers: "header_key (plain_headers hs) ''Range'' = None"
  by (auto simp: header_key_def plain_headers_def find_None_iff lower_Range)

definition honest_state :: "media_request \<Rightarrow> bytes \<Rightarrow> media_state \<Rightarrow> bool" where
  "honest_state q R s \<longleftrightarrow> length (ms_data s) \<le> length R \<and> ms_data s = take (length (ms_data s)) R \<and>
     (ms_total s = Some (length R) \<and> R \<noteq> [] \<or> ms_total s = None \<and> ms_data s = []) \<and>
     (ms_total s = None \<or> ms_media_size s = length R) \<and> (ms_response s = None \<longleftrightarrow> ms_data s = [])"

lemma partial_turn_accept:
  assumes "reported_range q s r = Some (length (ms_data s), e, Some t)" and "length (ms_data s) \<le> e"
    and "e \<le> part_end q s" and "length (re_content r) = e - length (ms_data s) + 1" and "e < t"
    and "ms_data s = [] \<or> ms_total s = None \<or> ms_total s = Some t" and "\<not> over_max q (max t (e + 1))"
  shows "partial_turn q s r = Continue (s\<lparr>ms_total := Some t, ms_media_size := t,
      ms_data := ms_data s @ re_content r, ms_response := Some r\<rparr>)"
  using assms by (auto simp: partial_turn_def Let_def split: option.split)

lemma media_turn_honest:
  assumes "media_request_ok q" and "holds_resource serve q R" and "honest_state q R s"
    and "length (ms_data s) < length R" and "within_max q (length R)"
  shows "\<exists>s'. media_turn serve q s = Continue s' \<and> honest_state q R s' \<and>
    length (ms_data s) < length (ms_data s') \<and> ms_total s' = Some (length R)"
proof -
  let ?a = "length (ms_data s)" and ?b = "part_end q s" and ?s1 = "s\<lparr>ms_calls := ms_calls s + 1\<rparr>"
  let ?e = "min ?b (length R - 1)"
  have ab: "?a \<le> ?b"
    using assms(1,3,4) by (auto simp: part_end_def Let_def honest_state_def media_request_ok_def split: option.splits)
  have serve: "serve n (range_headers q ?a ?b) = Inr (range_reply R ?a ?b)" for n
    using assms(2) ab by (simp add: holds_resource_def range_headers_def)
  have len: "?e + 1 \<le> length R" using assms(4) by linarith
  have part: "length (take (?e + 1 - ?a) (drop ?a R)) = ?e - ?a + 1"
    using ab assms(4) len by (auto simp: min_def)
  have b1: "part_end q ?s1 = ?b" by (simp add: part_end_def)
  have max: "\<not> over_max q (max (length R) (?e + 1))"
    using assms(5) len by (simp add: within_max_def max_def)
  have turn: "media_turn serve q s = partial_turn q ?s1 (range_reply R ?a ?b)"
    using assms(4) by (simp add: media_turn_def Let_def serve range_reply_def)
  have rep: "reported_range q ?s1 (range_reply R ?a ?b) = Some (?a, ?e, Some (length R))"
    using assms(4) by (simp add: reported_range_def range_reply_def Let_def)
  have cont: "re_content (range_reply R ?a ?b) = take (?e + 1 - ?a) (drop ?a R)"
    using assms(4) by (simp add: range_reply_def Let_def)
  let ?s' = "?s1\<lparr>ms_total := Some (length R), ms_media_size := length R,
      ms_data := ms_data s @ take (?e + 1 - ?a) (drop ?a R), ms_response := Some (range_reply R ?a ?b)\<rparr>"
  have "partial_turn q ?s1 (range_reply R ?a ?b) = Continue (?s1\<lparr>ms_total := Some (length R),
      ms_media_size := length R, ms_data := ms_data ?s1 @ re_content (range_reply R ?a ?b),
      ms_response := Some (range_reply R ?a ?b)\<rparr>)"
  proof (rule partial_turn_accept)
    show "reported_range q ?s1 (range_reply R ?a ?b) = Some (length (ms_data ?s1), ?e, Some (length R))"
      using rep by simp
    show "length (ms_data ?s1) \<le> ?e" using ab assms(4) by simp
    show "length (re_content (range_reply R ?a ?b)) = ?e - length (ms_data ?s1) + 1"
      unfolding cont using part by simp
    show "?e < length R" using len by simp
    show "ms_data ?s1 = [] \<or> ms_total ?s1 = None \<or> ms_total ?s1 = Some (length R)"
      using assms(3) by (auto simp: honest_state_def)
  qed (use b1 max in simp_all)
  then have "partial_turn q ?s1 (range_reply R ?a ?b) = Continue ?s'" unfolding cont by simp
  moreover have "honest_state q R ?s'"
  proof -
    have d: "ms_data s = take ?a R" using assms(3) by (simp add: honest_state_def)
    have "?a \<le> ?e + 1" using ab assms(4) by linarith
    then have "take (?e + 1) R = take ?a R @ take (?e + 1 - ?a) (drop ?a R)"
      using take_add [of ?a "?e + 1 - ?a" R] by simp
    then have "ms_data s @ take (?e + 1 - ?a) (drop ?a R) = take (?e + 1) R" using d by metis
    moreover have "R \<noteq> []" "length (take (?e + 1) R) = ?e + 1" using assms(4) len by auto
    ultimately show ?thesis using len unfolding honest_state_def by auto
  qed
  moreover have "?a < length (ms_data ?s')" using part by simp
  moreover have "ms_total ?s' = Some (length R)" by simp
  ultimately show ?thesis using turn by metis
qed

lemma media_loop_honest:
  assumes "media_request_ok q" and "holds_resource serve q R" and "within_max q (length R)"
  shows "honest_state q R s \<Longrightarrow> R \<noteq> [] \<Longrightarrow> length R + 1 \<le> fuel + length (ms_data s) \<Longrightarrow>
    \<exists>r. media_loop fuel serve (\<lambda>_. False) q n s = Finished (Some r) (length R) \<and> re_content r = R"
proof (induction fuel arbitrary: n s)
  case 0
  then show ?case by (auto simp: honest_state_def)
next
  case (Suc fuel)
  show ?case
  proof (cases "length (ms_data s) < length R")
    case True
    obtain s' where s': "media_turn serve q s = Continue s'" "honest_state q R s'"
      "length (ms_data s) < length (ms_data s')"
      using media_turn_honest [OF assms(1,2) Suc.prems(1) True assms(3)] by auto
    have "\<exists>r. media_loop fuel serve (\<lambda>_. False) q (n + 1) s' = Finished (Some r) (length R) \<and> re_content r = R"
      using Suc.IH [OF s'(2) Suc.prems(2)] Suc.prems(3) s'(3) by simp
    moreover have "case ms_total s of None \<Rightarrow> True | Some t \<Rightarrow> length (ms_data s) < t"
      using Suc.prems(1) True by (auto simp: honest_state_def)
    ultimately show ?thesis using s'(1) by simp
  next
    case False
    then have d: "ms_data s = R" "ms_total s = Some (length R)" "ms_media_size s = length R" "ms_response s \<noteq> None"
      using Suc.prems(1,2) by (auto simp: honest_state_def)
    then show ?thesis by (auto simp: media_finish_def)
  qed
qed

lemma media_req_honest:
  assumes "media_request_ok q" and "holds_resource serve q R" and "within_max q (length R)"
    and "mr_media_size q = 0 \<or> mr_media_size q = length R" and "length R + 2 \<le> fuel"
  shows "\<exists>r. media_req fuel serve (\<lambda>_. False) q = Finished (Some r) (length R) \<and> re_content r = R"
proof (cases "R = []")
  case False
  have "honest_state q R (media_start q)"
    using assms(4) False by (auto simp: honest_state_def media_start_def)
  then show ?thesis
    unfolding media_req_def using media_loop_honest [OF assms(1-3) _ False, of "media_start q" fuel 0] assms(5)
    by simp
next
  case True
  obtain f where f: "fuel = Suc f" using assms(5) by (cases fuel) auto
  have "0 < mr_part q" using assms(1) by (simp add: media_request_ok_def)
  then have r416: "serve n (range_headers q 0 (part_end q (media_start q))) = Inr (range_reply [] 0 (part_end q (media_start q)))" for n
    using assms(2) True by (simp add: holds_resource_def range_headers_def)
  have plain: "serve n (plain_headers hs) = Inr \<lparr>re_status = 200, re_content_range = None, re_content = []\<rparr>" for n hs
    using assms(2) True find_plain_headers by (simp add: holds_resource_def)
  have s0: "ms_data (media_start q) = []" "ms_response (media_start q) = None" "ms_total (media_start q) = None"
    using assms(4) True by (simp_all add: media_start_def)
  have "parse_unsatisfied (''bytes */'' @ str_nat 0) = Some 0" by (rule parse_unsatisfied_text)
  then have "media_turn serve q (media_start q) = Return \<lparr>re_status = 200, re_content_range = None, re_content = []\<rparr> 0"
    using r416 plain s0 by (simp add: media_turn_def Let_def range_reply_def unsatisfied_turn_def)
  then show ?thesis using f s0 True by (simp add: media_req_def)
qed

section \<open>Properties\<close>

text \<open>A server that reads the range it is asked for, and serves one resource.\<close>

definition file_server :: "media_request \<Rightarrow> bytes \<Rightarrow> server" where
  "file_server q R n hs =
     (case map_of hs (range_key q) of
        None \<Rightarrow> Inr \<lparr>re_status = 200, re_content_range = None, re_content = R\<rparr>
      | Some txt \<Rightarrow>
         (case parse_content_range (''bytes '' @ drop 6 txt @ ''/0'') of
            Some (a, b, _) \<Rightarrow> Inr (range_reply R a b) | None \<Rightarrow> Inl ''bad range''))"

text \<open>C5.  Whatever a server answers, in whatever order, a finished media download holds exactly the
  number of bytes it records as the media size, and never more than \<open>max_media_size\<close>.\<close>

theorem media_download_consistent:
  assumes "media_request_ok q" and "media_req fuel serve stopped q = Finished ro m"
  shows "\<exists>r. ro = Some r \<and> length (re_content r) = m \<and> within_max q m"
  using media_loop_result [OF assms(1) media_inv_start] assms(2) by (simp add: media_req_def)

text \<open>C6.  With a maximum of \<open>m\<close> bytes no server can keep the download going for more than \<open>m + 2\<close> turns.\<close>

theorem media_download_ends:
  assumes "media_request_ok q" and "mr_max q = Some m" and "m + 2 \<le> fuel"
  shows "media_req fuel serve stopped q \<noteq> NoFuel"
  using media_loop_ends [OF assms(1) media_inv_start assms(2)] assms(3) by (simp add: media_req_def)

text \<open>C4.  From a server that answers each range with the bytes it holds, the download returns the
  resource, also when it is empty or its size was not declared.\<close>

theorem media_download_correct:
  assumes "media_request_ok q" and "holds_resource serve q R" and "within_max q (length R)"
    and "mr_media_size q = 0 \<or> mr_media_size q = length R" and "length R + 2 \<le> fuel"
  shows "\<exists>r. media_req fuel serve (\<lambda>_. False) q = Finished (Some r) (length R) \<and> re_content r = R"
  using assms by (rule media_req_honest)

text \<open>A request is attempted at least once and at most as often as its retry limit allows, every
  attempt before the last failed with a retryable error, and the result is that of the last attempt.\<close>

theorem retries_bounded:
  "fst (request_with_retries mt mq run) \<le> max 1 (retry_limit mt mq) \<and> 1 \<le> fst (request_with_retries mt mq run) \<and>
   (\<nexists>j. 1 \<le> j \<and> j < fst (request_with_retries mt mq run) \<and> \<not> (\<exists>e. run j = Retryable e)) \<and>
   snd (request_with_retries mt mq run) = (case run (fst (request_with_retries mt mq run)) of
     Answered r \<Rightarrow> Inr r | Fatal e \<Rightarrow> Inl e | Retryable e \<Rightarrow> Inl e)"
  using with_retries_count [of 1 "retry_limit mt mq" run] with_retries_skips [of 1 _ "retry_limit mt mq" run]
    with_retries_result [of "retry_limit mt mq" run 1]
  unfolding request_with_retries_def by blast

definition sample_media :: media_request where
  "sample_media = \<lparr>mr_headers = [(''range'', ''x'')], mr_part = 2, mr_media_size = 0, mr_max = Some 9\<rparr>"

lemma sample_media_ok: "media_request_ok sample_media"
  by (simp add: media_request_ok_def sample_media_def)

lemma sample_range_key: "range_key sample_media = ''range''"
  by (simp add: range_key_def header_key_def sample_media_def lower_Range) code_simp

lemma file_server_holds: "holds_resource (file_server sample_media R) sample_media R"
proof -
  have t: "''bytes '' @ drop 6 (range_text a b) @ ''/0'' = content_range_text a b 0" for a b
    by (simp add: range_text_def content_range_text_def str_nat_def nat_digits.simps [of 0] digit_char_def)
       (code_simp?)
  then have p: "parse_content_range (''bytes '' @ drop 6 (range_text a b) @ ''/0'') = Some (a, b, Some 0)" for a b
    by (simp only: parse_content_range_text)
  have "header_key hs ''Range'' = None \<Longrightarrow> map_of hs ''range'' = None" for hs
    using lower_idem [of "''Range''"] unfolding lower_Range
    by (auto simp: header_key_def find_None_iff lower_Range map_of_eq_None_iff)
  then show ?thesis
    using p by (auto simp: holds_resource_def file_server_def sample_range_key simp del: append_Cons)
qed

theorem media_download_consistent_witness:
  "\<exists>ro. media_req 9 (file_server sample_media [1, 2, 3]) (\<lambda>_. False) sample_media = Finished ro 3 \<and>
     (\<exists>r. ro = Some r \<and> length (re_content r) = 3 \<and> within_max sample_media 3)"
proof -
  obtain r where r: "media_req 9 (file_server sample_media [1, 2, 3]) (\<lambda>_. False) sample_media = Finished (Some r) 3"
    using media_req_honest [OF sample_media_ok file_server_holds, of "[1, 2, 3]" 9]
    by (auto simp: within_max_def over_max_def sample_media_def)
  then show ?thesis using media_download_consistent [OF sample_media_ok r] by auto
qed

theorem media_download_ends_witness:
  "media_req 11 (\<lambda>_ _. Inr \<lparr>re_status = 206, re_content_range = Some ''bytes 0-0/*'', re_content = [7]\<rparr>) (\<lambda>_. False)
     sample_media \<noteq> NoFuel"
proof (rule media_download_ends [OF sample_media_ok])
  show "mr_max sample_media = Some 9" by (simp add: sample_media_def)
qed simp

theorem media_download_correct_witness:
  "\<exists>r. media_req 5 (file_server sample_media [1, 2, 3]) (\<lambda>_. False) sample_media = Finished (Some r) 3 \<and>
     re_content r = [1, 2, 3]"
proof -
  have "within_max sample_media (length [1, 2, 3 :: nat])" "mr_media_size sample_media = 0"
    by (simp_all add: within_max_def over_max_def sample_media_def)
  then show ?thesis
    using media_download_correct [OF sample_media_ok file_server_holds, of "[1, 2, 3]" 5]
    by (simp add: numeral_3_eq_3)
qed

end
