(* ===== verification/TaskManager.thy ===== *)
theory TaskManager
  imports PyStrings
begin

text \<open>
  The task manager (\<open>core/tasks.py\<close>): the counts of running tasks by name and by owning object, the
  events that say when all of them, or those of one object, are done, and the waits on them.  A task
  is its name and its object; how it ended and whether it ran at all are inputs of the steps.
\<close>

section \<open>State and operations\<close>

type_synonym task_key = "string \<times> nat option"

record task_manager =
  tm_stop :: bool
  tm_active :: int
  tm_names :: "(string, int) pydict"
  tm_objects :: "(nat, int) pydict"
  tm_idle :: "(nat, bool) pydict"
  tm_activity :: "(nat, bool) pydict"
  tm_done :: bool
  tm_error :: bool

definition tm_init :: "bool \<Rightarrow> task_manager" where
  "tm_init is_distributed =
     \<lparr>tm_stop = False, tm_active = (if is_distributed then 1 else 0), tm_names = [], tm_objects = [],
      tm_idle = [], tm_activity = [], tm_done = True, tm_error = False\<rparr>"

definition task_begin :: "task_manager \<Rightarrow> task_key \<Rightarrow> task_manager" where
  "task_begin m t =
     (let m1 = m\<lparr>tm_active := tm_active m + 1, tm_names := count_up (tm_names m) (fst t), tm_done := False\<rparr>
      in case snd t of
           None \<Rightarrow> m1
         | Some obj \<Rightarrow> m1\<lparr>tm_objects := count_up (tm_objects m1) obj,
                         tm_idle := dict_set (tm_idle m1) obj False,
                         tm_activity := dict_set (tm_activity m1) obj True\<rparr>)"

definition task_end :: "task_manager \<Rightarrow> task_key \<Rightarrow> task_manager" where
  "task_end m t =
     (let m1 = m\<lparr>tm_active := tm_active m - 1, tm_names := count_down (tm_names m) (fst t),
                 tm_done := tm_done m \<or> tm_active m - 1 \<le> 0\<rparr>
      in case snd t of
           None \<Rightarrow> m1
         | Some obj \<Rightarrow> m1\<lparr>tm_objects := count_down (tm_objects m1) obj,
                         tm_idle := (if dict_get (tm_objects m1) obj 1 - 1 \<le> 0
                                     then dict_set (tm_idle m1) obj True else tm_idle m1),
                         tm_activity := dict_set (tm_activity m1) obj True\<rparr>)"

text \<open>
  \<open>create\<close>: nothing after a stop; a task the loop refuses is unregistered again.  The second
  component says whether a task runs.
\<close>

definition task_create :: "task_manager \<Rightarrow> task_key \<Rightarrow> bool \<Rightarrow> task_manager \<times> bool" where
  "task_create m t loop_accepts =
     (if tm_stop m then (m, False)
      else if loop_accepts then (task_begin m t, True)
      else (task_end (task_begin m t) t, False))"

text \<open>How the body of a task ended; an error sets the error event before the accounting.\<close>

datatype task_outcome = TaskDone | TaskCancelled | TaskInterrupted | TaskFailed

definition task_finish :: "task_manager \<Rightarrow> task_key \<Rightarrow> task_outcome \<Rightarrow> task_manager" where
  "task_finish m t oc =
     task_end (if oc = TaskInterrupted \<or> oc = TaskFailed then m\<lparr>tm_error := True\<rparr> else m) t"

section \<open>Queries and waits\<close>

definition has_active_tasks_except :: "task_manager \<Rightarrow> string \<Rightarrow> bool" where
  "has_active_tasks_except m prefix \<longleftrightarrow>
     (\<exists>(name, n) \<in> set (tm_names m). 0 < n \<and> \<not> starts_with prefix name)"

definition obj_scope :: "nat \<Rightarrow> string" where
  "obj_scope obj = ''['' @ str_nat obj @ '']''"

definition has_active_tasks_for_obj :: "task_manager \<Rightarrow> nat \<Rightarrow> string list \<Rightarrow> bool" where
  "has_active_tasks_for_obj m obj exclude_prefixes \<longleftrightarrow>
     (\<exists>(name, n) \<in> set (tm_names m). 0 < n \<and> contains (obj_scope obj) name \<and>
        \<not> (\<exists>p \<in> set exclude_prefixes. starts_with p name))"

definition count_active_tasks_for_obj :: "task_manager \<Rightarrow> nat \<Rightarrow> string list \<Rightarrow> int" where
  "count_active_tasks_for_obj m obj prefixes =
     sum_list (map snd (filter (\<lambda>(name, n). 0 < n \<and> contains (obj_scope obj) name \<and>
        (prefixes = [] \<or> (\<exists>p \<in> set prefixes. starts_with p name))) (tm_names m)))"

text \<open>
  One turn of a wait: \<open>None\<close> when it returns, otherwise the manager with the event the caller then
  waits on.
\<close>

definition object_idle_turn :: "task_manager \<Rightarrow> nat \<Rightarrow> task_manager option" where
  "object_idle_turn m obj =
     (if count_of (tm_objects m) obj \<le> 0 then None
      else Some (m\<lparr>tm_idle := dict_setdefault (tm_idle m) obj False\<rparr>))"

definition object_quiescent_turn :: "task_manager \<Rightarrow> nat \<Rightarrow> string list \<Rightarrow> task_manager option" where
  "object_quiescent_turn m obj exclude_prefixes =
     (if \<not> has_active_tasks_for_obj m obj exclude_prefixes then None
      else Some (m\<lparr>tm_activity := dict_set (tm_activity m) obj False\<rparr>))"

definition task_count_turn :: "task_manager \<Rightarrow> nat \<Rightarrow> string list \<Rightarrow> int \<Rightarrow> task_manager option" where
  "task_count_turn m obj prefixes limit =
     (let n = sum_list (map snd (filter (\<lambda>(name, n). 0 < n \<and> contains (obj_scope obj) name \<and>
                (\<exists>p \<in> set prefixes. starts_with p name)) (tm_names m)))
      in if n < limit then None
         else Some (m\<lparr>tm_activity := dict_set (tm_activity m) obj False\<rparr>))"

text \<open>\<open>wait_until_stopped\<close> returns once one of the two events is set; an error wins.\<close>

definition stopped_reason :: "task_manager \<Rightarrow> string option" where
  "stopped_reason m =
     (if tm_error m then Some ''error'' else if tm_done m then Some ''tasks_done'' else None)"

section \<open>Runs\<close>

text \<open>
  A run keeps the tasks that still have to do their accounting and those that never will: a task
  cancelled while it waits for the global lock, or before its first step, does not reach the
  \<open>finally\<close> that does it.
\<close>

type_synonym tm_state = "task_manager \<times> task_key multiset \<times> task_key multiset"

inductive tm_step :: "tm_state \<Rightarrow> tm_state \<Rightarrow> bool" where
  tm_create: "task_create m t True = (m', True) \<Longrightarrow> tm_step (m, run, lost) (m', add_mset t run, lost)"
| tm_refused: "task_create m t ok = (m', False) \<Longrightarrow> tm_step (m, run, lost) (m', run, lost)"
| tm_finish: "tm_step (m, add_mset t run, lost) (task_finish m t oc, run, lost)"
| tm_lost: "tm_step (m, add_mset t run, lost) (m, run, add_mset t lost)"
| tm_wait_idle: "object_idle_turn m obj = Some m' \<Longrightarrow> tm_step (m, run, lost) (m', run, lost)"
| tm_wait_quiet: "object_quiescent_turn m obj ex = Some m' \<Longrightarrow> tm_step (m, run, lost) (m', run, lost)"
| tm_wait_count: "task_count_turn m obj ps limit = Some m' \<Longrightarrow> tm_step (m, run, lost) (m', run, lost)"
| tm_stop: "tm_step (m, run, lost) (m\<lparr>tm_stop := True\<rparr>, run, lost)"

inductive_cases tm_stepE: "tm_step s t"

definition by_name :: "task_key multiset \<Rightarrow> string \<Rightarrow> int" where
  "by_name A n = int (size (filter_mset (\<lambda>t. fst t = n) A))"

definition by_object :: "task_key multiset \<Rightarrow> nat \<Rightarrow> int" where
  "by_object A obj = int (size (filter_mset (\<lambda>t. snd t = Some obj) A))"

lemma by_name_simps [simp]:
  "by_name {#} n = 0" "by_name (add_mset t A) n = by_name A n + (if fst t = n then 1 else 0)" "0 \<le> by_name A n"
  by (simp_all add: by_name_def)

lemma by_object_simps [simp]:
  "by_object {#} k = 0" "by_object (add_mset t A) k = by_object A k + (if snd t = Some k then 1 else 0)"
  "0 \<le> by_object A k"
  by (simp_all add: by_object_def)

lemma counts_positive [simp]: "0 < 1 + by_name A n" "0 < 1 + by_object A k"
  using by_name_simps(3) [of A n] by_object_simps(3) [of A k] by linarith+

lemma one_plus_by_object [simp]: "by_object A k + 1 \<noteq> 0"
  using by_object_simps(3) [of A k] by linarith

text \<open>\<open>A\<close> are the tasks begun and not accounted for, \<open>base\<close> is one in a distributed run.\<close>

definition tm_inv :: "int \<Rightarrow> task_manager \<Rightarrow> task_key multiset \<Rightarrow> bool" where
  "tm_inv base m A \<longleftrightarrow>
     tm_active m = base + int (size A) \<and>
     counts_ok (tm_names m) \<and> (\<forall>n. count_of (tm_names m) n = by_name A n) \<and>
     counts_ok (tm_objects m) \<and> (\<forall>obj. count_of (tm_objects m) obj = by_object A obj) \<and>
     (\<forall>obj b. map_of (tm_idle m) obj = Some b \<longrightarrow> (b \<longleftrightarrow> by_object A obj = 0)) \<and>
     (\<forall>obj. 0 < by_object A obj \<longrightarrow> map_of (tm_idle m) obj \<noteq> None) \<and>
     (base = 0 \<longrightarrow> (tm_done m \<longleftrightarrow> A = {#}))"

lemma tm_inv_init: "tm_inv (if d then 1 else 0) (tm_init d) {#}"
  by (simp add: tm_inv_def tm_init_def)

lemma tm_inv_begin [inv_intros]:
  assumes "tm_inv base m A"
  shows "tm_inv base (task_begin m t) (add_mset t A)"
proof (cases t)
  case (Pair name obj)
  show ?thesis
    using assms unfolding Pair
    by (cases obj) (auto simp: tm_inv_def task_begin_def Let_def intro: counts_ok_up)
qed

lemma tm_inv_end [inv_intros]:
  assumes "tm_inv base m (add_mset t A)"
  shows "tm_inv base (task_end m t) A"
proof (cases t)
  case (Pair name obj)
  have n: "0 < count_of (tm_names m) name" and nok: "counts_ok (tm_names m)"
    using assms by (simp_all add: tm_inv_def Pair add.commute)
  note names = count_of_down [OF nok n]
  show ?thesis
  proof (cases obj)
    case None
    then show ?thesis
      using assms names nok unfolding Pair
      by (auto simp: tm_inv_def task_end_def Let_def intro: counts_ok_down)
  next
    case (Some k)
    have o: "0 < count_of (tm_objects m) k" and ook: "counts_ok (tm_objects m)"
      using assms by (simp_all add: tm_inv_def Pair Some add.commute)
    then have g: "dict_get (tm_objects m) k 1 = count_of (tm_objects m) k"
      by (auto simp: count_of_def dict_get_def split: option.splits)
    have c: "count_of (tm_objects m) k = by_object A k + 1"
      using assms by (simp add: tm_inv_def Pair Some)
    have idle: "map_of (tm_idle (task_end m t)) =
        (if by_object A k = 0 then (map_of (tm_idle m))(k \<mapsto> True) else map_of (tm_idle m))"
    proof -
      have "by_object A k \<le> 0 \<longleftrightarrow> by_object A k = 0" using by_object_simps(3) [of A k] by linarith
      then show ?thesis using g c by (simp add: task_end_def Let_def Pair Some)
    qed
    have raw: "\<forall>j b. map_of (tm_idle m) j = Some b \<longrightarrow> (b \<longleftrightarrow> by_object (add_mset t A) j = 0)"
      "\<forall>j. 0 < by_object (add_mset t A) j \<longrightarrow> map_of (tm_idle m) j \<noteq> None"
      using assms unfolding tm_inv_def by blast+
    have old: "map_of (tm_idle m) j = Some b \<Longrightarrow> b = (by_object A j + (if j = k then 1 else 0) = 0)"
      "0 < by_object A j \<Longrightarrow> map_of (tm_idle m) j \<noteq> None" for j b
      using raw(1) [rule_format, of j b] raw(2) [rule_format, of j] by (simp_all add: Pair Some eq_commute [of k])
    have "map_of (tm_idle (task_end m t)) j = Some b \<Longrightarrow> b = (by_object A j = 0)" for j b
      using old(1) [of j b] unfolding idle by (auto split: if_splits)
    moreover have "0 < by_object A j \<Longrightarrow> map_of (tm_idle (task_end m t)) j \<noteq> None" for j
      using old(2) [of j] unfolding idle by auto
    moreover have "counts_ok (tm_objects (task_end m t))" "count_of (tm_objects (task_end m t)) j = by_object A j" for j
      using count_of_down [OF ook o, of j] ook assms
      by (auto simp: task_end_def Let_def Pair Some tm_inv_def intro: counts_ok_down)
    moreover have "counts_ok (tm_names (task_end m t))" "count_of (tm_names (task_end m t)) j = by_name A j" for j
      using names [of j] nok assms
      by (auto simp: task_end_def Let_def Pair Some tm_inv_def intro: counts_ok_down)
    moreover have "tm_active (task_end m t) = base + int (size A)" "base = 0 \<longrightarrow> (tm_done (task_end m t) \<longleftrightarrow> A = {#})"
      using assms by (auto simp: task_end_def Let_def Pair Some tm_inv_def)
    ultimately show ?thesis unfolding tm_inv_def by blast
  qed
qed

lemma tm_inv_flags [simp]:
  "tm_inv base (m\<lparr>tm_error := e\<rparr>) A = tm_inv base m A" "tm_inv base (m\<lparr>tm_stop := s\<rparr>) A = tm_inv base m A"
  "tm_inv base (m\<lparr>tm_activity := a\<rparr>) A = tm_inv base m A"
  by (simp_all add: tm_inv_def)

lemma tm_inv_finish: "tm_inv base m (add_mset t A) \<Longrightarrow> tm_inv base (task_finish m t oc) A"
  by (simp add: task_finish_def tm_inv_end)

lemma tm_inv_idle_turn:
  assumes "tm_inv base m A" and "object_idle_turn m obj = Some m'"
  shows "m' = m"
proof -
  have "0 < by_object A obj" using assms by (auto simp: object_idle_turn_def tm_inv_def split: if_splits)
  then have "map_of (tm_idle m) obj \<noteq> None" using assms(1) unfolding tm_inv_def by blast
  then show ?thesis
    using assms(2) by (auto simp: object_idle_turn_def dict_setdefault_def split: if_splits option.splits)
qed

lemma tm_step_inv:
  assumes "tm_step (m, run, lost) (m', run', lost')" and "tm_inv base m (run + lost)"
  shows "tm_inv base m' (run' + lost')"
  using assms(1)
proof (cases rule: tm_step.cases)
  case (tm_create t)
  then show ?thesis
    using assms(2) tm_inv_begin [of base m "run + lost" t] by (auto simp: task_create_def split: if_splits)
next
  case (tm_refused t ok)
  then show ?thesis
    using assms(2) tm_inv_end [OF tm_inv_begin [of base m "run + lost" t]]
    by (auto simp: task_create_def split: if_splits)
next
  case (tm_finish t oc)
  then show ?thesis using assms(2) tm_inv_finish by simp
next
  case (tm_wait_idle obj)
  then show ?thesis using assms(2) tm_inv_idle_turn [of base m "run + lost" obj m'] by simp
qed (use assms(2) in \<open>auto simp: object_quiescent_turn_def task_count_turn_def Let_def split: if_splits\<close>)

lemma tm_runs_inv:
  assumes "tm_step\<^sup>*\<^sup>* (tm_init d, {#}, {#}) s"
  shows "tm_inv (if d then 1 else 0) (fst s) (fst (snd s) + snd (snd s))"
  using assms
proof (induction rule: rtranclp_induct)
  case base
  then show ?case using tm_inv_init by simp
next
  case (step s t)
  then show ?case using tm_step_inv by (cases s; cases t) fastforce
qed

section \<open>Counting by name\<close>

text \<open>A sum over the name counts is the number of running tasks whose name qualifies.\<close>

definition by_pred :: "task_key multiset \<Rightarrow> (string \<Rightarrow> bool) \<Rightarrow> int" where
  "by_pred A P = int (size (filter_mset (\<lambda>t. P (fst t)) A))"

lemma by_pred_split:
  "by_pred A (\<lambda>n. P n \<and> n \<in> insert k K) = by_pred A (\<lambda>n. P n \<and> n \<in> K) + (if P k \<and> k \<notin> K then by_name A k else 0)"
  by (induction A) (auto simp: by_pred_def by_name_def)

lemma sum_counts:
  assumes "dict_wf d" and "\<forall>(n, c) \<in> set d. c = by_name A n"
  shows "sum_list (map snd (filter (\<lambda>(n, c). 0 < c \<and> P n) d)) = by_pred A (\<lambda>n. P n \<and> n \<in> set (keys d))"
  using assms
proof (induction d)
  case (Cons p d)
  obtain n c where p: "p = (n, c)" by fastforce
  have c: "c = by_name A n" and nd: "n \<notin> set (keys d)" using Cons.prems p by auto
  have "0 < c \<or> c = 0" using by_name_simps(3) [of A n] c by linarith
  then have "sum_list (map snd (filter (\<lambda>(n, c). 0 < c \<and> P n) (p # d))) =
      (if P n then by_name A n else 0) + sum_list (map snd (filter (\<lambda>(n, c). 0 < c \<and> P n) d))"
    using c p by auto
  also have "\<dots> = by_pred A (\<lambda>x. P x \<and> x \<in> insert n (set (keys d)))"
    using Cons nd by (simp add: by_pred_split [of A P n] del: set_map insert_iff)
  finally show ?case using p by (simp del: set_map)
qed (simp add: by_pred_def)

lemma by_pred_all:
  assumes "\<And>t. t \<in># A \<Longrightarrow> fst t \<in> K"
  shows "by_pred A (\<lambda>n. P n \<and> n \<in> K) = by_pred A P"
proof -
  have "filter_mset (\<lambda>t. P (fst t) \<and> fst t \<in> K) A = filter_mset (\<lambda>t. P (fst t)) A"
    using assms by (intro filter_mset_cong) auto
  then show ?thesis by (simp add: by_pred_def)
qed

lemma by_name_pos: "t \<in># A \<Longrightarrow> 0 < by_name A (fst t)"
  by (induction A) auto

lemma names_sum:
  assumes "tm_inv base m A"
  shows "sum_list (map snd (filter (\<lambda>(n, c). 0 < c \<and> P n) (tm_names m))) = by_pred A P"
proof -
  have ok: "counts_ok (tm_names m)" and c: "\<forall>n. count_of (tm_names m) n = by_name A n"
    using assms by (simp_all add: tm_inv_def)
  have wf: "dict_wf (tm_names m)" using ok by (simp add: counts_ok_def)
  have "\<forall>(n, v) \<in> set (tm_names m). v = by_name A n"
  proof safe
    fix n v assume "(n, v) \<in> set (tm_names m)"
    then have "map_of (tm_names m) n = Some v" using wf by (rule map_of_is_SomeI [rotated])
    then show "v = by_name A n" using c by (auto simp: count_of_def dict_get_def dest: spec [of _ n])
  qed
  moreover have "fst t \<in> set (keys (tm_names m))" if "t \<in># A" for t
    using by_name_pos [OF that] c map_of_count_None [OF ok, of "fst t"]
    by (metis map_of_eq_None_iff less_irrefl set_map)
  ultimately show ?thesis
    using sum_counts [OF wf, of A P] by_pred_all [of A "set (keys (tm_names m))" P] by simp
qed

lemma tm_step_lost: "tm_step (m, run, lost) (m', run', lost') \<Longrightarrow> lost \<subseteq># lost'"
  by (auto elim: tm_step.cases)

section \<open>Properties\<close>



text \<open>The task counts a wait looks at are the numbers of running tasks of that object whose name
  has one of the prefixes, so waiting for the count to fall below a limit waits for the tasks.\<close>

theorem task_counts_exact:
  assumes "tm_step\<^sup>*\<^sup>* (tm_init d, {#}, {#}) (m, run, lost)"
  shows "count_active_tasks_for_obj m obj prefixes =
    by_pred (run + lost) (\<lambda>n. contains (obj_scope obj) n \<and> (prefixes = [] \<or> (\<exists>p \<in> set prefixes. starts_with p n))) \<and>
   (task_count_turn m obj prefixes limit = None \<longleftrightarrow>
    by_pred (run + lost) (\<lambda>n. contains (obj_scope obj) n \<and> (\<exists>p \<in> set prefixes. starts_with p n)) < limit)"
  using names_sum [OF tm_runs_inv [OF assms]]
  by (simp add: count_active_tasks_for_obj_def task_count_turn_def Let_def)

theorem task_counts_exact_witness:
  "count_active_tasks_for_obj (task_begin (tm_init False) (''f[1]'', Some 1)) 1 [] = 1"
proof -
  let ?m = "task_begin (tm_init False) (''f[1]'', Some 1)"
  have "tm_step (tm_init False, {#}, {#}) (?m, {#(''f[1]'', Some 1)#}, {#})"
    by (rule tm_create) (simp add: task_create_def tm_init_def)
  then have "tm_step\<^sup>*\<^sup>* (tm_init False, {#}, {#}) (?m, {#(''f[1]'', Some 1)#}, {#})" by (rule r_into_rtranclp)
  moreover have "char_of (49 :: nat) = CHR ''1''" by code_simp
  ultimately show ?thesis
    using task_counts_exact [of False ?m "{#(''f[1]'', Some 1)#}" "{#}" 1 "[]" 0]
    by (simp add: by_pred_def obj_scope_def str_nat_def nat_digits.simps [of "Suc 0"] digit_char_def)
qed

text \<open>A task cancelled before it reaches its accounting (waiting for the global lock, or never
  started) is never counted out: from then on the done event is never set again.\<close>

theorem lost_task_blocks_done:
  assumes "tm_step\<^sup>*\<^sup>* (tm_init False, {#}, {#}) (m, run, add_mset t lost)"
    and "tm_step\<^sup>*\<^sup>* (m, run, add_mset t lost) (m', run', lost')"
  shows "\<not> tm_done m' \<and> 0 < count_of (tm_names m') (fst t)"
proof -
  have sub: "add_mset t lost \<subseteq># snd (snd s)" if "tm_step\<^sup>*\<^sup>* (m, run, add_mset t lost) s" for s
    using that
  proof (induction rule: rtranclp_induct)
    case (step s1 s2)
    then show ?case using tm_step_lost by (cases s1; cases s2) (auto intro: subset_mset.order_trans)
  qed simp
  have "add_mset t lost \<subseteq># lost'" using sub [OF assms(2)] by simp
  then have "t \<in># run' + lost'" by (meson mset_subset_eqD union_iff union_single_eq_member add_mset_add_single)
  then show ?thesis
    using tm_runs_inv [OF rtranclp_trans [OF assms]] by_name_pos [of t "run' + lost'"]
    by (auto simp: tm_inv_def)
qed

theorem lost_task_blocks_done_witness:
  "\<not> tm_done (task_begin (tm_init False) (''f'', None)) \<and>
   0 < count_of (tm_names (task_begin (tm_init False) (''f'', None))) ''f''"
proof -
  let ?m = "task_begin (tm_init False) (''f'', None)"
  have "tm_step (tm_init False, {#}, {#}) (?m, {#(''f'', None)#}, {#})"
    by (rule tm_create) (simp add: task_create_def tm_init_def)
  moreover have "tm_step (?m, {#(''f'', None)#}, {#}) (?m, {#}, {#(''f'', None)#})"
    by (rule tm_lost)
  ultimately have "tm_step\<^sup>*\<^sup>* (tm_init False, {#}, {#}) (?m, {#}, {#(''f'', None)#})"
    by (meson r_into_rtranclp rtranclp_trans)
  from lost_task_blocks_done [OF this, of ?m "{#}" "{#(''f'', None)#}"] show ?thesis by simp
qed

end
