(* ===== verification/JumpHash.thy ===== *)
theory JumpHash
  imports Prelude "HOL-Library.Word"
begin

unbundle bit_operations_syntax

text \<open>
  Jump consistent hashing (\<open>utils/algorithm.py\<close>, \<open>get_node\<close>): 64-bit arithmetic as the code masks
  it.  The first eight bytes of the MD5 digest are an argument.  The code's true division of two
  integers is taken as the exact integer quotient: for a quotient below \<open>2^20\<close> the correctly
  rounded float has the same integer part, since the exact one is at least \<open>2^-31\<close> below the next
  integer; a larger quotient ends the loop either way, as long as there are at most \<open>2^20\<close> nodes.
\<close>

type_synonym key64 = "64 word"

definition jump_multiplier :: key64 where
  "jump_multiplier = 2862933555777941757"

definition next_key :: "key64 \<Rightarrow> key64" where
  "next_key key = key * jump_multiplier + 1"

definition next_candidate :: "nat \<Rightarrow> key64 \<Rightarrow> nat" where
  "next_candidate bucket key = ((bucket + 1) * 2 ^ 31) div (unat (drop_bit 33 key) + 1)"

lemma unat_drop_bit_bound: "unat (drop_bit 33 (key :: key64)) + 1 \<le> 2 ^ 31"
proof -
  have "unat key < 2 ^ 64" using unsigned_less [of key] by simp
  then have "unat key div 2 ^ 33 < 2 ^ 31" by (simp add: div_less_iff_less_mult)
  moreover have "unat (drop_bit 33 key) = unat key div 2 ^ 33" by (metis drop_bit_eq_div unat_drop_bit_eq)
  ultimately show ?thesis by linarith
qed

lemma next_candidate_greater: "bucket < next_candidate bucket key"
proof -
  have "(bucket + 1) * (unat (drop_bit 33 key) + 1) \<le> (bucket + 1) * 2 ^ 31"
    using unat_drop_bit_bound [of key] by (intro mult_le_mono2) simp
  then have "bucket + 1 \<le> next_candidate bucket key"
    unfolding next_candidate_def
    by (metis Suc_eq_plus1 div_le_mono nonzero_mult_div_cancel_right old.nat.distinct(1))
  then show ?thesis by simp
qed

text \<open>The loop; every turn raises the candidate, so it ends.\<close>

function jump_loop :: "nat \<Rightarrow> nat \<Rightarrow> nat \<Rightarrow> key64 \<Rightarrow> nat" where
  "jump_loop n bucket candidate key =
     (if candidate < n then jump_loop n candidate (next_candidate candidate (next_key key)) (next_key key)
      else bucket)"
  by pat_completeness auto
termination
  by (relation "measure (\<lambda>(n, bucket, candidate, key). n - candidate)")
     (use next_candidate_greater in \<open>auto intro: diff_less_mono2\<close>)

declare jump_loop.simps [simp del]

datatype node_error = NoNodes

definition get_node :: "string list \<Rightarrow> key64 \<Rightarrow> node_error + string" where
  "get_node nodes key = (if nodes = [] then Inl NoNodes else Inr (nodes ! jump_loop (length nodes) 0 0 key))"

lemma jump_loop_less: "bucket < n \<Longrightarrow> jump_loop n bucket candidate key < n"
  by (induction n bucket candidate key rule: jump_loop.induct) (subst jump_loop.simps, simp)

text \<open>One more bucket: the loop ends in the same bucket or in the new one.\<close>

lemma jump_loop_Suc:
  "jump_loop (Suc n) bucket candidate key = jump_loop n bucket candidate key \<or>
   jump_loop (Suc n) bucket candidate key = n"
proof (induction n bucket candidate key rule: jump_loop.induct)
  case (1 n bucket candidate key)
  show ?case
  proof (cases "candidate < n")
    case True
    then show ?thesis using 1 by (subst (1 2 3) jump_loop.simps) simp
  next
    case False
    show ?thesis
    proof (cases "candidate = n")
      case True
      have "\<not> next_candidate n (next_key key) < Suc n" using next_candidate_greater [of n "next_key key"] by simp
      then have "jump_loop (Suc n) n (next_candidate n (next_key key)) (next_key key) = n"
        by (subst jump_loop.simps) simp
      then show ?thesis using True by (subst (3) jump_loop.simps) simp
    next
      case False
      then show ?thesis using \<open>\<not> candidate < n\<close> by (subst (1 2) jump_loop.simps) simp
    qed
  qed
qed

lemma get_node_in: "nodes \<noteq> [] \<Longrightarrow> \<exists>node \<in> set nodes. get_node nodes key = Inr node"
  using jump_loop_less [of 0 "length nodes" 0 key] by (simp add: get_node_def)

text \<open>C22.  Every fingerprint is sent to one of the nodes, and growing the cluster by a node moves a
  fingerprint to the new node or leaves it where it was.\<close>

theorem get_node_consistent:
  assumes "nodes \<noteq> []"
  shows "\<exists>node \<in> set nodes. get_node nodes key = Inr node \<and>
    (get_node (nodes @ [fresh]) key = Inr node \<or> get_node (nodes @ [fresh]) key = Inr fresh)"
proof -
  let ?n = "length nodes"
  have less: "jump_loop ?n 0 0 key < ?n" using assms by (simp add: jump_loop_less)
  have "get_node (nodes @ [fresh]) key = Inr (nodes ! jump_loop ?n 0 0 key) \<or>
      get_node (nodes @ [fresh]) key = Inr fresh"
    using jump_loop_Suc [of ?n 0 0 key] less by (auto simp: get_node_def nth_append)
  then show ?thesis using assms less by (auto simp: get_node_def)
qed

theorem get_node_consistent_witness:
  "\<exists>node \<in> set [''a'', ''b'']. get_node [''a'', ''b''] 7 = Inr node \<and>
    (get_node ([''a'', ''b''] @ [''c'']) 7 = Inr node \<or> get_node ([''a'', ''b''] @ [''c'']) 7 = Inr ''c'')"
  by (rule get_node_consistent) simp

end
