(* ===== verification/BloomFilter.thy ===== *)
theory BloomFilter
  imports Prelude "HOL-Library.Word"
begin

unbundle bit_operations_syntax

text \<open>
  The portable Bloom filters: \<open>platform/bloom.py\<close> (two XXH3 hashes combined per probe) and the
  template fallback \<open>cpy/cpy_resources/bloom/fallback.py\<close> (FNV-1a with a seed per probe).  A bitmap
  is a list of bytes, as the code's bytearray.  The XXH3 hash belongs to a package, and the float
  expression for the best number of probes to the C library: both are arguments.
\<close>

section \<open>Bitmaps\<close>

type_synonym bitmap = "8 word list"

definition bitmap_set :: "bitmap \<Rightarrow> nat \<Rightarrow> bitmap" where
  "bitmap_set bits index = bits[index div 8 := (bits ! (index div 8)) OR push_bit (index mod 8) 1]"

definition bitmap_get :: "bitmap \<Rightarrow> nat \<Rightarrow> bool" where
  "bitmap_get bits index \<longleftrightarrow> drop_bit (index mod 8) (bits ! (index div 8)) AND 1 \<noteq> 0"

lemma bitmap_get_bit: "bitmap_get bits index \<longleftrightarrow> bit (bits ! (index div 8)) (index mod 8)"
  by (simp add: bitmap_get_def and_one_eq bit_iff_odd_drop_bit odd_iff_mod_2_eq_one)

lemma length_bitmap_set [simp]: "length (bitmap_set bits index) = length bits"
  by (simp add: bitmap_set_def)

lemma bitmap_get_set:
  assumes "index < 8 * length bits"
  shows "bitmap_get (bitmap_set bits index) j \<longleftrightarrow> j = index \<or> bitmap_get bits j"
proof (cases "j div 8 = index div 8")
  case True
  have "index div 8 < length bits" using assms by (simp add: less_mult_imp_div_less mult.commute)
  moreover have "j mod 8 = index mod 8 \<longleftrightarrow> j = index" using True by (metis div_mult_mod_eq)
  moreover have "j mod 8 < 8" by simp
  ultimately show ?thesis
    using True by (auto simp: bitmap_get_bit bitmap_set_def bit_or_iff bit_exp_iff)
next
  case False
  then have "j \<noteq> index" by auto
  then show ?thesis using False by (simp add: bitmap_get_bit bitmap_set_def)
qed

lemma length_foldl_set [simp]: "length (foldl bitmap_set bits is) = length bits"
  by (induction "is" arbitrary: bits) simp_all

lemma bitmap_get_foldl:
  "\<forall>i \<in> set is. i < 8 * length bits \<Longrightarrow>
   bitmap_get (foldl bitmap_set bits is) j \<longleftrightarrow> j \<in> set is \<or> bitmap_get bits j"
  by (induction "is" arbitrary: bits) (auto simp: bitmap_get_set)

section \<open>The XXH3 filter\<close>

datatype bloom_error = BadSize | BadExpected | BadHashCount

definition hash_count :: "(nat \<Rightarrow> nat \<Rightarrow> int) \<Rightarrow> int \<Rightarrow> int \<Rightarrow> int \<Rightarrow> bloom_error + nat" where
  "hash_count optimal size' expected configured =
     (if size' \<le> 0 then Inl BadSize
      else if expected \<le> 0 then Inl BadExpected
      else if configured < 0 then Inl BadHashCount
      else if configured \<noteq> 0 then Inr (nat configured)
      else Inr (nat (max 1 (optimal (nat size') (nat expected)))))"

definition km_indices :: "(nat \<Rightarrow> bytes \<Rightarrow> nat) \<Rightarrow> bytes \<Rightarrow> nat \<Rightarrow> nat \<Rightarrow> nat list" where
  "km_indices xxh3 raw size' n =
     (let hash_one = xxh3 0 raw mod size'; hash_two = xxh3 32 raw mod size'
      in map (\<lambda>index. if index = 0 then hash_one else (hash_one + index * hash_two) mod size') [0..<n])"

record bloom =
  bl_size :: nat
  bl_expected :: nat
  bl_hash_count :: nat
  bl_bits :: bitmap
  bl_inserted :: nat

definition bloom_create :: "(nat \<Rightarrow> nat \<Rightarrow> int) \<Rightarrow> int \<Rightarrow> int \<Rightarrow> int \<Rightarrow> bloom_error + bloom" where
  "bloom_create optimal size' expected configured =
     (let aligned = ((size' + 7) div 8) * 8
      in case hash_count optimal aligned expected configured of
           Inl e \<Rightarrow> Inl e
         | Inr n \<Rightarrow> Inr \<lparr>bl_size = nat aligned, bl_expected = nat expected, bl_hash_count = n,
                          bl_bits = replicate (nat aligned div 8) 0, bl_inserted = 0\<rparr>)"

definition bloom_indices :: "(nat \<Rightarrow> bytes \<Rightarrow> nat) \<Rightarrow> bloom \<Rightarrow> bytes \<Rightarrow> nat list" where
  "bloom_indices xxh3 f data = km_indices xxh3 data (bl_size f) (bl_hash_count f)"

definition bloom_add :: "(nat \<Rightarrow> bytes \<Rightarrow> nat) \<Rightarrow> bloom \<Rightarrow> bytes \<Rightarrow> bloom" where
  "bloom_add xxh3 f data =
     f\<lparr>bl_bits := foldl bitmap_set (bl_bits f) (bloom_indices xxh3 f data), bl_inserted := bl_inserted f + 1\<rparr>"

definition bloom_exists :: "(nat \<Rightarrow> bytes \<Rightarrow> nat) \<Rightarrow> bloom \<Rightarrow> bytes \<Rightarrow> bool" where
  "bloom_exists xxh3 f data \<longleftrightarrow> list_all (bitmap_get (bl_bits f)) (bloom_indices xxh3 f data)"

definition bloom_clear :: "bloom \<Rightarrow> bloom" where
  "bloom_clear f = f\<lparr>bl_bits := replicate (bl_size f div 8) 0, bl_inserted := 0\<rparr>"

definition bloom_free :: "bloom \<Rightarrow> bloom" where
  "bloom_free f = f\<lparr>bl_bits := [], bl_inserted := 0\<rparr>"

text \<open>A usable filter: a byte-aligned positive size that is that of the bitmap, and a probe.\<close>

definition bloom_ok :: "bloom \<Rightarrow> bool" where
  "bloom_ok f \<longleftrightarrow> 0 < bl_size f \<and> bl_size f = 8 * length (bl_bits f) \<and> 0 < bl_hash_count f"

lemma bloom_ok_create [inv_intros]: "bloom_create optimal size' expected configured = Inr f \<Longrightarrow> bloom_ok f"
proof -
  have "nat (q * 8) = 8 * nat q" if "0 < q" for q :: int using that by (simp add: nat_mult_distrib)
  then have "nat (q * 8) = 8 * (nat (q * 8) div 8)" if "0 < q" for q :: int using that by simp
  then show "bloom_create optimal size' expected configured = Inr f \<Longrightarrow> bloom_ok f"
    by (auto simp: bloom_create_def hash_count_def bloom_ok_def Let_def split: sum.splits if_splits)
qed

lemma km_indices_bound: "0 < size' \<Longrightarrow> i \<in> set (km_indices xxh3 raw size' n) \<Longrightarrow> i < size'"
  by (auto simp: km_indices_def Let_def)

lemma length_km_indices [simp]: "length (km_indices xxh3 raw size' n) = n"
  by (simp add: km_indices_def Let_def)

lemma bloom_indices_bound: "bloom_ok f \<Longrightarrow> \<forall>i \<in> set (bloom_indices xxh3 f data). i < 8 * length (bl_bits f)"
  using km_indices_bound by (auto simp: bloom_ok_def bloom_indices_def)

lemma bloom_ok_ops [inv_intros]:
  "bloom_ok f \<Longrightarrow> bloom_ok (bloom_add xxh3 f data)" "bloom_ok f \<Longrightarrow> bloom_ok (bloom_clear f)"
  by (auto simp: bloom_ok_def bloom_add_def bloom_clear_def)

lemma bloom_indices_add [simp]: "bloom_indices xxh3 (bloom_add xxh3 f data) = bloom_indices xxh3 f"
  by (simp add: bloom_indices_def bloom_add_def fun_eq_iff)

lemma bloom_bits_add:
  "bloom_ok f \<Longrightarrow> bitmap_get (bl_bits (bloom_add xxh3 f data)) j \<longleftrightarrow>
     j \<in> set (bloom_indices xxh3 f data) \<or> bitmap_get (bl_bits f) j"
  by (simp add: bloom_add_def bitmap_get_foldl bloom_indices_bound)

lemma bloom_add_exists: "bloom_ok f \<Longrightarrow> bloom_exists xxh3 (bloom_add xxh3 f data) data"
  by (simp add: bloom_exists_def bloom_bits_add list_all_iff)

lemma bloom_add_keeps: "bloom_ok f \<Longrightarrow> bloom_exists xxh3 f x \<Longrightarrow> bloom_exists xxh3 (bloom_add xxh3 f data) x"
  by (simp add: bloom_exists_def bloom_bits_add list_all_iff)

lemma bloom_clear_exists: "bloom_ok f \<Longrightarrow> \<not> bloom_exists xxh3 (bloom_clear f) x"
proof -
  assume ok: "bloom_ok f"
  have idx: "bloom_indices xxh3 (bloom_clear f) x = bloom_indices xxh3 f x"
    by (simp add: bloom_indices_def bloom_clear_def)
  obtain i "is" where i: "bloom_indices xxh3 f x = i # is"
    using ok by (cases "bloom_indices xxh3 f x") (auto simp: bloom_ok_def bloom_indices_def dest: arg_cong [of _ _ length])
  then have "i < 8 * length (bl_bits f)" using bloom_indices_bound [OF ok, of xxh3 x] by simp
  then have "i div 8 < bl_size f div 8" using ok by (auto simp: bloom_ok_def)
  then have "\<not> bitmap_get (bl_bits (bloom_clear f)) i" by (simp add: bloom_clear_def bitmap_get_bit)
  then show ?thesis using i by (simp add: bloom_exists_def idx)
qed

section \<open>The FNV-1a fallback\<close>

definition fnv1a_hash :: "bytes \<Rightarrow> nat \<Rightarrow> 32 word" where
  "fnv1a_hash data seed =
     foldl (\<lambda>h b. (h XOR word_of_nat b) * 16777619) (2166136261 XOR word_of_nat seed) data"

definition fnv_indices :: "bytes \<Rightarrow> nat \<Rightarrow> nat \<Rightarrow> nat list" where
  "fnv_indices data size' n = map (\<lambda>i. unat (fnv1a_hash data i) mod size') [0..<n]"

record fnv_bloom =
  fb_size :: nat
  fb_hash_count :: nat
  fb_bits :: bitmap
  fb_inserted :: nat

definition fnv_create :: "(nat \<Rightarrow> nat \<Rightarrow> int) \<Rightarrow> nat \<Rightarrow> nat \<Rightarrow> nat \<Rightarrow> fnv_bloom" where
  "fnv_create optimal size' expected configured =
     \<lparr>fb_size = size', fb_hash_count = (if configured = 0 then nat (max 1 (optimal size' expected)) else configured),
      fb_bits = replicate ((size' + 7) div 8) 0, fb_inserted = 0\<rparr>"

definition fnv_add :: "fnv_bloom \<Rightarrow> bytes \<Rightarrow> fnv_bloom" where
  "fnv_add f data =
     f\<lparr>fb_bits := foldl bitmap_set (fb_bits f) (fnv_indices data (fb_size f) (fb_hash_count f)),
       fb_inserted := fb_inserted f + 1\<rparr>"

definition fnv_exists :: "fnv_bloom \<Rightarrow> bytes \<Rightarrow> bool" where
  "fnv_exists f data \<longleftrightarrow> list_all (bitmap_get (fb_bits f)) (fnv_indices data (fb_size f) (fb_hash_count f))"

definition fnv_clear :: "fnv_bloom \<Rightarrow> fnv_bloom" where
  "fnv_clear f = f\<lparr>fb_bits := replicate (length (fb_bits f)) 0, fb_inserted := 0\<rparr>"

definition fnv_ok :: "fnv_bloom \<Rightarrow> bool" where
  "fnv_ok f \<longleftrightarrow> 0 < fb_size f \<and> length (fb_bits f) = (fb_size f + 7) div 8"

lemma fnv_ok_ops [inv_intros]:
  "0 < size' \<Longrightarrow> fnv_ok (fnv_create optimal size' expected configured)"
  "fnv_ok f \<Longrightarrow> fnv_ok (fnv_add f data)" "fnv_ok f \<Longrightarrow> fnv_ok (fnv_clear f)"
  by (simp_all add: fnv_ok_def fnv_create_def fnv_add_def fnv_clear_def)

lemma fnv_indices_bound:
  assumes "fnv_ok f"
  shows "\<forall>i \<in> set (fnv_indices data (fb_size f) n). i < 8 * length (fb_bits f)"
proof -
  have le: "fb_size f \<le> 8 * length (fb_bits f)" using assms unfolding fnv_ok_def by linarith
  have "unat h mod fb_size f < 8 * length (fb_bits f)" for h :: "32 word"
    using assms le by (meson fnv_ok_def less_le_trans mod_less_divisor)
  then show ?thesis by (auto simp: fnv_indices_def)
qed

lemma fnv_bits_add:
  "fnv_ok f \<Longrightarrow> bitmap_get (fb_bits (fnv_add f data)) j \<longleftrightarrow>
     j \<in> set (fnv_indices data (fb_size f) (fb_hash_count f)) \<or> bitmap_get (fb_bits f) j"
  by (simp add: fnv_add_def bitmap_get_foldl fnv_indices_bound)

lemma fnv_add_exists: "fnv_ok f \<Longrightarrow> fnv_exists (fnv_add f data) data"
  using fnv_bits_add [of f data] by (auto simp: fnv_exists_def list_all_iff fnv_add_def)

lemma fnv_add_keeps: "fnv_ok f \<Longrightarrow> fnv_exists f x \<Longrightarrow> fnv_exists (fnv_add f data) x"
  using fnv_bits_add [of f data] by (auto simp: fnv_exists_def list_all_iff fnv_add_def)

section \<open>One interface\<close>

text \<open>
  What deduplication asks of a Bloom filter (\<open>BloomFilterProtocol\<close>): what was added is found, and
  adding forgets nothing.  Both backends provide it.
\<close>

locale bloom_backend =
  fixes ok :: "'f \<Rightarrow> bool" and add :: "'f \<Rightarrow> bytes \<Rightarrow> 'f" and found :: "'f \<Rightarrow> bytes \<Rightarrow> bool"
  assumes ok_add: "ok f \<Longrightarrow> ok (add f x)"
    and found_add: "ok f \<Longrightarrow> found (add f x) x"
    and found_keep: "ok f \<Longrightarrow> found f y \<Longrightarrow> found (add f x) y"
begin

lemma ok_adds: "ok f \<Longrightarrow> ok (foldl add f xs)"
  by (induction xs arbitrary: f) (auto intro: ok_add)

lemma found_keeps: "ok f \<Longrightarrow> found f y \<Longrightarrow> found (foldl add f xs) y"
  by (induction xs arbitrary: f) (auto intro: ok_add found_keep)

lemma no_false_negative: "ok f \<Longrightarrow> x \<in> set xs \<Longrightarrow> found (foldl add f xs) x"
  by (induction xs arbitrary: f) (auto intro: ok_add found_add found_keeps)

end

interpretation xxh_bloom: bloom_backend bloom_ok "bloom_add xxh3" "bloom_exists xxh3" for xxh3
  by unfold_locales (auto intro: bloom_ok_ops bloom_add_exists bloom_add_keeps)

interpretation fnv: bloom_backend fnv_ok fnv_add fnv_exists
  by unfold_locales (auto intro: fnv_ok_ops fnv_add_exists fnv_add_keeps)

section \<open>Properties\<close>

text \<open>A filter that could be created finds every value added to it since, whatever the hash and
  the sizes; every probe stays inside the bitmap; and a cleared filter finds nothing.\<close>

theorem bloom_no_false_negative:
  assumes "bloom_create optimal size' expected configured = Inr f" and "x \<in> set xs"
  shows "bloom_exists xxh3 (foldl (bloom_add xxh3) f xs) x \<and>
    list_all (\<lambda>i. i < 8 * length (bl_bits f)) (bloom_indices xxh3 f x) \<and>
    \<not> bloom_exists xxh3 (bloom_clear (foldl (bloom_add xxh3) f xs)) x"
  using xxh_bloom.no_false_negative [of f x xs xxh3] bloom_ok_create [OF assms(1)] assms(2)
    bloom_indices_bound [of f xxh3 x] bloom_clear_exists xxh_bloom.ok_adds [of f xxh3 xs]
  by (simp add: list_all_iff)

theorem bloom_no_false_negative_witness:
  "\<exists>f. bloom_create (\<lambda>_ _. 3) 100 10 0 = Inr f \<and> bl_hash_count f = 3 \<and> bl_size f = 104 \<and>
     bloom_exists (\<lambda>s b. s + sum_list b) (foldl (bloom_add (\<lambda>s b. s + sum_list b)) f [[1], [2, 3]]) [1]"
proof -
  obtain f where f: "bloom_create (\<lambda>_ _. 3) 100 10 0 = Inr f" "bl_hash_count f = 3" "bl_size f = 104"
    by (simp add: bloom_create_def hash_count_def)
  then show ?thesis using bloom_no_false_negative [OF f(1), of "[1]" "[[1], [2, 3]]"] by auto
qed

text \<open>The same for the FNV-1a fallback, for a positive size.\<close>

theorem fnv_no_false_negative:
  assumes "0 < size'" and "x \<in> set xs"
  shows "fnv_exists (foldl fnv_add (fnv_create optimal size' expected configured) xs) x"
  using fnv.no_false_negative [OF fnv_ok_ops(1) [OF assms(1)] assms(2)] .

theorem fnv_no_false_negative_witness:
  "fnv_exists (foldl fnv_add (fnv_create (\<lambda>_ _. 2) 10 3 0) [[1], [2]]) [2]"
  by (rule fnv_no_false_negative) simp_all

end
