(* ===== verification/DupeFilter.thy ===== *)
theory DupeFilter
  imports Requests BloomFilter JumpHash "HOL-Library.List_Lexorder" "HOL-Library.Product_Lexorder"
    "HOL-Library.Char_ord"
begin

text \<open>
  Request deduplication: the fingerprint (\<open>dupefilter/fingerprint.py\<close>, \<open>base.py\<close>), the in-memory and
  Bloom filters (\<open>base.py\<close>), the Redis filters with the Lua scripts they run (\<open>redis.py\<close>,
  \<open>repo/redis.py\<close>), and the routing of the Redis keys (\<open>routing.py\<close>).  SHA-1, \<open>urllib\<close> and the
  Redis commands are arguments; what the Redis filters need of the commands is a named predicate.
\<close>

section \<open>Fingerprints\<close>

record url_lib =
  ul_query :: "string \<Rightarrow> string"
  ul_parse :: "string \<Rightarrow> (string \<times> string) list"
  ul_encode :: "(string \<times> string) list \<Rightarrow> string"
  ul_replace :: "string \<Rightarrow> string \<Rightarrow> string"

definition canonical_request_url :: "url_lib \<Rightarrow> string \<Rightarrow> string" where
  "canonical_request_url lib url =
     (if ul_query lib url = [] then url
      else ul_replace lib url (ul_encode lib (sort (ul_parse lib (ul_query lib url)))))"

definition latin1 :: "string \<Rightarrow> bytes" where
  "latin1 s = map of_char s"

text \<open>The parts of a request the fingerprint reads; a body is bytes, a dictionary, or anything else.\<close>

datatype body = BodyBytes bytes | BodyDict json | BodyOther pyval

datatype fp_kind = FpHttp string body | FpWebSocket "bytes list" | FpBase

record fp_request =
  fr_url :: string
  fr_headers :: "(string, string) pydict option"
  fr_kind :: fp_kind
  fr_dont_filter :: bool

fun header_subset :: "(string, string) pydict option \<Rightarrow> (string, string) pydict \<Rightarrow> string list \<Rightarrow> (string, string) pydict" where
  "header_subset hs acc [] = acc"
| "header_subset hs acc (k # ks) =
     (case hs of
        None \<Rightarrow> header_subset hs acc ks
      | Some h \<Rightarrow>
          (case header_key h k of
             None \<Rightarrow> header_subset hs acc ks
           | Some real \<Rightarrow>
               if real = [] then header_subset hs acc ks
               else header_subset hs (dict_set acc (lower real) (dict_get h real [])) ks))"

text \<open>\<open>dumps\<close> is \<open>json.dumps\<close> with sorted keys and compact separators.\<close>

definition build_fingerprint_bytes ::
  "url_lib \<Rightarrow> (json \<Rightarrow> string) \<Rightarrow> fp_request \<Rightarrow> string list \<Rightarrow> string option \<Rightarrow> bytes list \<Rightarrow> bytes" where
  "build_fingerprint_bytes lib dumps r include_headers verb body_parts =
     latin1 (canonical_request_url lib (fr_url r) @ ''|'' @
             dumps (str_dict_json (header_subset (fr_headers r) [] include_headers))) @
     (case verb of None \<Rightarrow> [] | Some m \<Rightarrow> latin1 (m @ ''|'')) @ concat body_parts"

definition create_bytes :: "url_lib \<Rightarrow> (json \<Rightarrow> string) \<Rightarrow> string list \<Rightarrow> fp_request \<Rightarrow> bytes" where
  "create_bytes lib dumps include_headers r =
     (case fr_kind r of
        FpHttp verb data \<Rightarrow>
          build_fingerprint_bytes lib dumps r include_headers (Some verb)
            (case data of BodyBytes b \<Rightarrow> [b] | BodyDict j \<Rightarrow> [latin1 (dumps j)] | BodyOther _ \<Rightarrow> [])
      | FpWebSocket msgs \<Rightarrow> build_fingerprint_bytes lib dumps r include_headers None msgs
      | FpBase \<Rightarrow> build_fingerprint_bytes lib dumps r include_headers None [])"

lemma canonical_url_cong:
  assumes "ul_query lib u \<noteq> []" "ul_query lib v \<noteq> []"
    and "mset (ul_parse lib (ul_query lib u)) = mset (ul_parse lib (ul_query lib v))"
    and "ul_replace lib u = ul_replace lib v"
  shows "canonical_request_url lib u = canonical_request_url lib v"
proof -
  have "sort (ul_parse lib (ul_query lib u)) = sort (ul_parse lib (ul_query lib v))"
    using assms(3) by (intro properties_for_sort) simp_all
  then show ?thesis using assms by (simp add: canonical_request_url_def)
qed

section \<open>Filters in memory\<close>

text \<open>A filter over fingerprints: what is seen, and what has been sent.\<close>

record memory_filter =
  mf_new :: "string set"
  mf_sent :: "string set"

definition memory_init :: memory_filter where
  "memory_init = \<lparr>mf_new = {}, mf_sent = {}\<rparr>"

definition memory_seen :: "memory_filter \<Rightarrow> string \<Rightarrow> bool \<times> memory_filter" where
  "memory_seen s fp =
     (if fp \<in> mf_new s then (True, s)
      else let s' = s\<lparr>mf_new := insert fp (mf_new s)\<rparr> in (fp \<in> mf_sent s', s'))"

definition memory_mark :: "memory_filter \<Rightarrow> string \<Rightarrow> memory_filter" where
  "memory_mark s fp = s\<lparr>mf_sent := insert fp (mf_sent s)\<rparr>"

record bloom_filter =
  bf_new :: bloom
  bf_sent :: bloom

definition bloom_seen :: "(nat \<Rightarrow> bytes \<Rightarrow> nat) \<Rightarrow> bloom_filter \<Rightarrow> bytes \<Rightarrow> bool \<times> bloom_filter" where
  "bloom_seen xxh3 s fp =
     (if bloom_exists xxh3 (bf_new s) fp then (True, s)
      else let s' = s\<lparr>bf_new := bloom_add xxh3 (bf_new s) fp\<rparr> in (bloom_exists xxh3 (bf_sent s') fp, s'))"

definition bloom_mark :: "(nat \<Rightarrow> bytes \<Rightarrow> nat) \<Rightarrow> bloom_filter \<Rightarrow> bytes \<Rightarrow> bloom_filter" where
  "bloom_mark xxh3 s fp = s\<lparr>bf_sent := bloom_add xxh3 (bf_sent s) fp\<rparr>"

section \<open>Filters in Redis\<close>

text \<open>
  The commands a script can call on a store: \<open>SADD\<close> with its reply, \<open>SREM\<close>, \<open>GETBIT\<close> and
  \<open>SETBIT\<close>; \<open>is_member\<close> is what a set key holds.
\<close>

record 's redis_ops =
  ro_sadd :: "'s \<Rightarrow> string \<Rightarrow> string \<Rightarrow> nat \<times> 's"
  ro_srem :: "'s \<Rightarrow> string \<Rightarrow> string \<Rightarrow> 's"
  ro_getbit :: "'s \<Rightarrow> string \<Rightarrow> nat \<Rightarrow> bool"
  ro_setbit :: "'s \<Rightarrow> string \<Rightarrow> nat \<Rightarrow> 's"
  ro_member :: "'s \<Rightarrow> string \<Rightarrow> string \<Rightarrow> bool"

text \<open>The script of \<open>do_filter\<close>; the result 1 means the fingerprint is new.\<close>

definition do_filter :: "'s redis_ops \<Rightarrow> 's \<Rightarrow> string \<Rightarrow> string \<Rightarrow> string \<Rightarrow> nat \<times> 's" where
  "do_filter ops s fingerprint key_new_seen key_is_req =
     (case ro_sadd ops s key_new_seen fingerprint of
        (added, s1) \<Rightarrow>
          (if added = 1 then
             (case ro_sadd ops s1 key_is_req fingerprint of
                (added2, s2) \<Rightarrow>
                  (if added2 = 1 then (1, ro_srem ops s2 key_is_req fingerprint) else (0, s2)))
           else (0, s1)))"

text \<open>A probe loop of \<open>do_bloom_filter\<close>: it stops at the first clear bit; no index leaves the flag.\<close>

fun probe :: "(nat \<Rightarrow> bool) \<Rightarrow> nat \<Rightarrow> nat list \<Rightarrow> nat" where
  "probe getbit is_new [] = is_new"
| "probe getbit is_new (i # is) = (if \<not> getbit i then 1 else probe getbit 0 is)"

definition do_bloom_filter :: "'s redis_ops \<Rightarrow> 's \<Rightarrow> string \<Rightarrow> string \<Rightarrow> nat list \<Rightarrow> nat \<times> 's" where
  "do_bloom_filter ops s key_new_seen key_is_req index_list =
     (let n1 = probe (ro_getbit ops s key_new_seen) 1 index_list;
          n2 = (if n1 = 1 then probe (ro_getbit ops s key_is_req) n1 index_list else n1);
          s' = (if n2 = 1 then foldl (\<lambda>t i. ro_setbit ops t key_new_seen i) s index_list else s)
      in (n2, s'))"

definition redis_seen :: "'s redis_ops \<Rightarrow> string \<Rightarrow> string \<Rightarrow> 's \<Rightarrow> string \<Rightarrow> bool \<times> 's" where
  "redis_seen ops knew ksent s fp = (case do_filter ops s fp knew ksent of (n, s') \<Rightarrow> (n = 0, s'))"

definition redis_mark :: "'s redis_ops \<Rightarrow> string \<Rightarrow> 's \<Rightarrow> string \<Rightarrow> 's" where
  "redis_mark ops ksent s fp = snd (ro_sadd ops s ksent fp)"

definition redis_bloom_seen :: "'s redis_ops \<Rightarrow> string \<Rightarrow> string \<Rightarrow> 's \<Rightarrow> nat list \<Rightarrow> bool \<times> 's" where
  "redis_bloom_seen ops knew ksent s idx = (case do_bloom_filter ops s knew ksent idx of (n, s') \<Rightarrow> (n = 0, s'))"

definition redis_bloom_mark :: "'s redis_ops \<Rightarrow> string \<Rightarrow> 's \<Rightarrow> nat list \<Rightarrow> 's" where
  "redis_bloom_mark ops ksent s idx = foldl (\<lambda>t i. ro_setbit ops t ksent i) s idx"

text \<open>What Redis documents of these commands.\<close>

definition redis_sets_ok :: "'s redis_ops \<Rightarrow> bool" where
  "redis_sets_ok ops \<longleftrightarrow>
     (\<forall>s k v. fst (ro_sadd ops s k v) = (if ro_member ops s k v then 0 else 1)) \<and>
     (\<forall>s k v k' v'. ro_member ops (snd (ro_sadd ops s k v)) k' v' \<longleftrightarrow> ro_member ops s k' v' \<or> k' = k \<and> v' = v) \<and>
     (\<forall>s k v k' v'. ro_member ops (ro_srem ops s k v) k' v' \<longleftrightarrow> ro_member ops s k' v' \<and> \<not> (k' = k \<and> v' = v))"

definition redis_bits_ok :: "'s redis_ops \<Rightarrow> bool" where
  "redis_bits_ok ops \<longleftrightarrow>
     (\<forall>s k i k' j. ro_getbit ops (ro_setbit ops s k i) k' j \<longleftrightarrow> ro_getbit ops s k' j \<or> k' = k \<and> j = i)"

text \<open>The whole filter step of the Redis classes: requests marked \<open>dont_filter\<close> bypass it.\<close>

definition redis_request_seen ::
  "'s redis_ops \<Rightarrow> (string \<Rightarrow> string \<times> string) \<Rightarrow> (fp_request \<Rightarrow> string) \<Rightarrow> 's \<Rightarrow> fp_request \<Rightarrow> bool \<times> 's" where
  "redis_request_seen ops keys_for fp s r =
     (if fr_dont_filter r then (False, s)
      else redis_seen ops (fst (keys_for (fp r))) (snd (keys_for (fp r))) s (fp r))"

definition redis_request_mark ::
  "'s redis_ops \<Rightarrow> (string \<Rightarrow> string \<times> string) \<Rightarrow> (fp_request \<Rightarrow> string) \<Rightarrow> 's \<Rightarrow> fp_request \<Rightarrow> 's" where
  "redis_request_mark ops keys_for fp s r =
     (if fr_dont_filter r then s else redis_mark ops (snd (keys_for (fp r))) s (fp r))"

section \<open>Key routing\<close>

record key_router =
  kr_base_new :: string
  kr_base_sent :: string
  kr_mode :: string
  kr_nodes :: "string list"

definition key_router_init :: "string \<Rightarrow> string \<Rightarrow> string \<Rightarrow> string list \<Rightarrow> string \<Rightarrow> string \<Rightarrow> key_router" where
  "key_router_init base_new_seen base_sent_seen redis_mode cluster_nodes namespace algorithm =
     (let parts = filter (\<lambda>v. v \<noteq> []) [namespace, algorithm];
          suffix = (if parts \<noteq> [] then '':'' @ join '':'' parts else [])
      in \<lparr>kr_base_new = base_new_seen @ suffix, kr_base_sent = base_sent_seen @ suffix,
          kr_mode = redis_mode, kr_nodes = cluster_nodes\<rparr>)"

definition is_cluster :: "key_router \<Rightarrow> bool" where
  "is_cluster r \<longleftrightarrow> kr_mode r = ''cluster'' \<and> kr_nodes r \<noteq> []"

definition cluster_hash_tag :: "key_router \<Rightarrow> string \<Rightarrow> string" where
  "cluster_hash_tag r node = ''scrapy-cffi-dedup:'' @ kr_base_new r @ '':'' @ node"

definition node_keys :: "key_router \<Rightarrow> string \<Rightarrow> string \<times> string" where
  "node_keys r node =
     (kr_base_new r @ '':{'' @ cluster_hash_tag r node @ ''}'',
      kr_base_sent r @ '':{'' @ cluster_hash_tag r node @ ''}'')"

text \<open>\<open>digest\<close> is the first eight bytes of the fingerprint's MD5 digest, as a 64-bit word.\<close>

definition for_fingerprint :: "(string \<Rightarrow> key64) \<Rightarrow> key_router \<Rightarrow> string \<Rightarrow> string \<times> string" where
  "for_fingerprint digest r fp =
     (if is_cluster r then
        (case get_node (kr_nodes r) (digest fp) of
           Inl _ \<Rightarrow> (kr_base_new r, kr_base_sent r) | Inr node \<Rightarrow> node_keys r node)
      else (kr_base_new r, kr_base_sent r))"

definition cleanup_keys :: "key_router \<Rightarrow> string list" where
  "cleanup_keys r =
     (if is_cluster r then List.maps (\<lambda>node. [fst (node_keys r node), snd (node_keys r node)]) (kr_nodes r)
      else [kr_base_new r, kr_base_sent r])"

text \<open>The part of a key Redis Cluster hashes: between the first \<open>{\<close> and the first \<open>}\<close> after it,
  unless that is empty or one is missing.\<close>

definition hash_part :: "string \<Rightarrow> string" where
  "hash_part key =
     (let rest = dropWhile (\<lambda>c. c \<noteq> CHR ''{'') key;
          tag = takeWhile (\<lambda>c. c \<noteq> CHR ''}'') (tl rest)
      in if rest = [] \<or> tag = [] \<or> CHR ''}'' \<notin> set (tl rest) then key else tag)"

section \<open>The interface\<close>

text \<open>
  What the scheduler relies on: a fingerprint once checked or marked as sent is known, stays known,
  and a known fingerprint is reported as seen.  \<open>known\<close> is the provider's own notion.
\<close>

datatype 'f df_op = Check 'f | Sent 'f

fun df_run :: "('s \<Rightarrow> 'f \<Rightarrow> bool \<times> 's) \<Rightarrow> ('s \<Rightarrow> 'f \<Rightarrow> 's) \<Rightarrow> 's \<Rightarrow> 'f df_op list \<Rightarrow> 'f list \<times> 's" where
  "df_run seen mark s [] = ([], s)"
| "df_run seen mark s (Check f # ops) =
     (case seen s f of
        (is_seen, s1) \<Rightarrow>
          (case df_run seen mark s1 ops of (adm, s2) \<Rightarrow> ((if is_seen then adm else f # adm), s2)))"
| "df_run seen mark s (Sent f # ops) = df_run seen mark (mark s f) ops"

locale dupefilter =
  fixes good :: "'s \<Rightarrow> bool"
    and seen :: "'s \<Rightarrow> 'f \<Rightarrow> bool \<times> 's"
    and mark :: "'s \<Rightarrow> 'f \<Rightarrow> 's"
    and known :: "'s \<Rightarrow> 'f \<Rightarrow> bool"
  assumes good_seen: "good s \<Longrightarrow> good (snd (seen s f))"
    and good_mark: "good s \<Longrightarrow> good (mark s f)"
    and known_seen: "good s \<Longrightarrow> known s f \<Longrightarrow> fst (seen s f)"
    and seen_known: "good s \<Longrightarrow> known (snd (seen s f)) f"
    and seen_keeps: "good s \<Longrightarrow> known s g \<Longrightarrow> known (snd (seen s f)) g"
    and mark_known: "good s \<Longrightarrow> known (mark s f) f"
    and mark_keeps: "good s \<Longrightarrow> known s g \<Longrightarrow> known (mark s f) g"
begin

lemma known_not_admitted: "good s \<Longrightarrow> known s f \<Longrightarrow> f \<notin> set (fst (df_run seen mark s ops))"
proof (induction ops arbitrary: s)
  case (Cons op ops)
  show ?case
  proof (cases op)
    case (Check g)
    obtain is_seen s1 where r: "seen s g = (is_seen, s1)" by fastforce
    have "f \<notin> set (fst (df_run seen mark s1 ops))"
      using Cons.IH [of s1] good_seen [OF Cons.prems(1), of g] seen_keeps [OF Cons.prems, of g] r by simp
    moreover have "g = f \<Longrightarrow> is_seen" using known_seen [OF Cons.prems] r by simp
    ultimately show ?thesis using Check r by (auto split: prod.split)
  next
    case (Sent g)
    then show ?thesis using Cons.IH [OF good_mark [OF Cons.prems(1)] mark_keeps [OF Cons.prems]] by simp
  qed
qed simp

lemma admitted_once: "good s \<Longrightarrow> distinct (fst (df_run seen mark s ops))"
proof (induction ops arbitrary: s)
  case (Cons op ops)
  show ?case
  proof (cases op)
    case (Check f)
    obtain is_seen s1 where r: "seen s f = (is_seen, s1)" by fastforce
    have g: "good s1" using good_seen [OF Cons.prems, of f] r by simp
    have "f \<notin> set (fst (df_run seen mark s1 ops))"
      using known_not_admitted [OF g] seen_known [OF Cons.prems, of f] r by simp
    then show ?thesis using Check r Cons.IH [OF g] by (auto split: prod.split)
  next
    case (Sent f)
    then show ?thesis using Cons.IH [OF good_mark [OF Cons.prems]] by simp
  qed
qed simp

lemma sent_not_admitted: "good s \<Longrightarrow> f \<notin> set (fst (df_run seen mark (mark s f) ops))"
  by (rule known_not_admitted) (simp_all add: good_mark mark_known)

end

text \<open>An exact filter knows nothing else: the first check of an unknown fingerprint admits it.\<close>

locale exact_dupefilter = dupefilter +
  assumes seen_exact: "good s \<Longrightarrow> fst (seen s f) \<longleftrightarrow> known s f"
    and seen_only: "good s \<Longrightarrow> known (snd (seen s f)) g \<Longrightarrow> known s g \<or> g = f"
    and mark_only: "good s \<Longrightarrow> known (mark s f) g \<Longrightarrow> known s g \<or> g = f"
begin

lemma first_admitted:
  "good s \<Longrightarrow> \<not> known s f \<Longrightarrow> Sent f \<notin> set (takeWhile (\<lambda>x. x \<noteq> Check f) ops) \<Longrightarrow> Check f \<in> set ops \<Longrightarrow>
   f \<in> set (fst (df_run seen mark s ops))"
proof (induction ops arbitrary: s)
  case (Cons op ops)
  show ?case
  proof (cases op)
    case (Check g)
    obtain is_seen s1 where r: "seen s g = (is_seen, s1)" by fastforce
    have g: "good s1" using good_seen [OF Cons.prems(1), of g] r by simp
    show ?thesis
    proof (cases "g = f")
      case True
      then have "\<not> is_seen" using seen_exact [OF Cons.prems(1), of f] Cons.prems(2) r by simp
      then show ?thesis using True Check r by (auto split: prod.split)
    next
      case False
      then have "\<not> known s1 f" using seen_only [OF Cons.prems(1), of g f] Cons.prems(2) r by auto
      then have "f \<in> set (fst (df_run seen mark s1 ops))"
        using Cons.IH [OF g] Cons.prems(3,4) False Check by auto
      then show ?thesis using Check r by (auto split: prod.split)
    qed
  next
    case (Sent g)
    then have "g \<noteq> f" using Cons.prems(3) by auto
    then have "\<not> known (mark s g) f" using mark_only [OF Cons.prems(1)] Cons.prems(2) by blast
    then show ?thesis using Cons.IH [OF good_mark [OF Cons.prems(1)]] Cons.prems(3,4) Sent by auto
  qed
qed simp

end

section \<open>The providers\<close>

definition memory_known :: "memory_filter \<Rightarrow> string \<Rightarrow> bool" where
  "memory_known s fp \<longleftrightarrow> fp \<in> mf_new s \<union> mf_sent s"

interpretation memory_df: exact_dupefilter "\<lambda>_. True" memory_seen memory_mark memory_known
  by unfold_locales (auto simp: memory_seen_def memory_mark_def memory_known_def Let_def split: if_splits)

definition bloom_good :: "bloom_filter \<Rightarrow> bool" where
  "bloom_good s \<longleftrightarrow> bloom_ok (bf_new s) \<and> bloom_ok (bf_sent s)"

definition bloom_known :: "(nat \<Rightarrow> bytes \<Rightarrow> nat) \<Rightarrow> bloom_filter \<Rightarrow> bytes \<Rightarrow> bool" where
  "bloom_known xxh3 s fp \<longleftrightarrow> bloom_exists xxh3 (bf_new s) fp \<or> bloom_exists xxh3 (bf_sent s) fp"

interpretation bloom_df: dupefilter bloom_good "bloom_seen xxh3" "bloom_mark xxh3" "bloom_known xxh3" for xxh3
  by unfold_locales
    (auto simp: bloom_seen_def bloom_mark_def bloom_known_def bloom_good_def Let_def
      intro: xxh_bloom.ok_add xxh_bloom.found_add xxh_bloom.found_keep)

text \<open>The Redis set filter is exact for every store whose commands behave as documented.\<close>

definition redis_known :: "'s redis_ops \<Rightarrow> string \<Rightarrow> string \<Rightarrow> 's \<Rightarrow> string \<Rightarrow> bool" where
  "redis_known ops knew ksent s fp \<longleftrightarrow> ro_member ops s knew fp \<or> ro_member ops s ksent fp"

lemma redis_sets_okD:
  assumes "redis_sets_ok ops"
  shows "fst (ro_sadd ops s k v) = (if ro_member ops s k v then 0 else 1)"
    and "ro_member ops (snd (ro_sadd ops s k v)) k' v' \<longleftrightarrow> ro_member ops s k' v' \<or> k' = k \<and> v' = v"
    and "ro_member ops (ro_srem ops s k v) k' v' \<longleftrightarrow> ro_member ops s k' v' \<and> \<not> (k' = k \<and> v' = v)"
proof -
  note laws = assms [unfolded redis_sets_ok_def]
  show "fst (ro_sadd ops s k v) = (if ro_member ops s k v then 0 else 1)"
    by (rule laws [THEN conjunct1, rule_format])
  show "ro_member ops (snd (ro_sadd ops s k v)) k' v' \<longleftrightarrow> ro_member ops s k' v' \<or> k' = k \<and> v' = v"
    by (rule laws [THEN conjunct2, THEN conjunct1, rule_format])
  show "ro_member ops (ro_srem ops s k v) k' v' \<longleftrightarrow> ro_member ops s k' v' \<and> \<not> (k' = k \<and> v' = v)"
    by (rule laws [THEN conjunct2, THEN conjunct2, rule_format])
qed

lemma do_filter_result:
  assumes "redis_sets_ok ops" and "knew \<noteq> ksent" and "do_filter ops s fp knew ksent = (n, s')"
  shows "n = (if redis_known ops knew ksent s fp then 0 else 1)"
    and "ro_member ops s' k v \<longleftrightarrow> ro_member ops s k v \<or> k = knew \<and> v = fp"
proof -
  obtain a s1 where a: "ro_sadd ops s knew fp = (a, s1)" by fastforce
  obtain b s2 where b: "ro_sadd ops s1 ksent fp = (b, s2)" by fastforce
  note laws = redis_sets_okD [OF assms(1)]
  note l3 = laws(3)
  have s1: "a = (if ro_member ops s knew fp then 0 else 1)"
    "ro_member ops s1 k' v' \<longleftrightarrow> ro_member ops s k' v' \<or> k' = knew \<and> v' = fp" for k' v'
    using laws(1) [of s knew fp] laws(2) [of s knew fp k' v'] unfolding a by simp_all
  have s2: "b = (if ro_member ops s1 ksent fp then 0 else 1)"
    "ro_member ops s2 k' v' \<longleftrightarrow> ro_member ops s1 k' v' \<or> k' = ksent \<and> v' = fp" for k' v'
    using laws(1) [of s1 ksent fp] laws(2) [of s1 ksent fp k' v'] unfolding b by simp_all
  have "n = (if redis_known ops knew ksent s fp then 0 else 1) \<and>
      (ro_member ops s' k v \<longleftrightarrow> ro_member ops s k v \<or> k = knew \<and> v = fp)"
  proof (cases "ro_member ops s knew fp")
    case True
    then have "n = 0" "s' = s1" using assms(3) a s1(1) by (simp_all add: do_filter_def)
    then show ?thesis using True s1(2) by (simp add: redis_known_def)
  next
    case new: False
    show ?thesis
    proof (cases "ro_member ops s ksent fp")
      case True
      then have m: "ro_member ops s1 ksent fp" by (simp add: s1(2))
      then have "n = 0" "s' = s2" using new assms(3) a b s1(1) s2(1) by (simp_all add: do_filter_def)
      then show ?thesis using True m s1(2) s2(2) by (auto simp: redis_known_def)
    next
      case False
      then have m: "\<not> ro_member ops s1 ksent fp" using assms(2) by (simp add: s1(2))
      then have "n = 1" "s' = ro_srem ops s2 ksent fp"
        using new assms(3) a b s1(1) s2(1) by (simp_all add: do_filter_def)
      then show ?thesis using new False assms(2) s1(2) s2(2) l3 by (auto simp: redis_known_def)
    qed
  qed
  then show "n = (if redis_known ops knew ksent s fp then 0 else 1)"
    "ro_member ops s' k v \<longleftrightarrow> ro_member ops s k v \<or> k = knew \<and> v = fp" by blast+
qed

lemma redis_exact:
  assumes "redis_sets_ok ops" and "knew \<noteq> ksent"
  shows "exact_dupefilter (\<lambda>_. True) (redis_seen ops knew ksent) (redis_mark ops ksent) (redis_known ops knew ksent)"
proof -
  have f: "fst (redis_seen ops knew ksent s fp) \<longleftrightarrow> redis_known ops knew ksent s fp"
    "ro_member ops (snd (redis_seen ops knew ksent s fp)) k v \<longleftrightarrow> ro_member ops s k v \<or> k = knew \<and> v = fp"
    for s fp k v
    using do_filter_result [OF assms, of s fp]
    by (cases "do_filter ops s fp knew ksent"; auto simp: redis_seen_def split: if_splits)+
  have m: "ro_member ops (redis_mark ops ksent s fp) k v \<longleftrightarrow> ro_member ops s k v \<or> k = ksent \<and> v = fp" for s fp k v
    unfolding redis_mark_def by (rule redis_sets_okD(2) [OF assms(1)])
  show ?thesis
    by unfold_locales (auto simp: f m redis_known_def)
qed

text \<open>The bitmap filter: known are the fingerprints all of whose bits are set in one of the bitmaps.\<close>

definition all_bits :: "'s redis_ops \<Rightarrow> 's \<Rightarrow> string \<Rightarrow> nat list \<Rightarrow> bool" where
  "all_bits ops s k idx \<longleftrightarrow> list_all (ro_getbit ops s k) idx"

lemma probe_result: "idx \<noteq> [] \<Longrightarrow> probe g n idx = (if list_all g idx then 0 else 1)"
proof (induction idx arbitrary: n)
  case (Cons i "is")
  then show ?case by (cases "is = []") auto
qed simp

lemma setbits_get:
  assumes "redis_bits_ok ops"
  shows "ro_getbit ops (foldl (\<lambda>t i. ro_setbit ops t k i) s idx) k' j \<longleftrightarrow>
    ro_getbit ops s k' j \<or> k' = k \<and> j \<in> set idx"
proof (induction idx arbitrary: s)
  case (Cons i "is")
  have "ro_getbit ops (ro_setbit ops s k i) k' j \<longleftrightarrow> ro_getbit ops s k' j \<or> k' = k \<and> j = i"
    by (rule assms [unfolded redis_bits_ok_def, rule_format])
  then show ?case using Cons [of "ro_setbit ops s k i"] by auto
qed simp

lemma redis_bloom_dupefilter:
  assumes "redis_bits_ok ops" and "\<And>f. idx f \<noteq> []"
  shows "dupefilter (\<lambda>_. True) (\<lambda>s f. redis_bloom_seen ops knew ksent s (idx f))
    (\<lambda>s f. redis_bloom_mark ops ksent s (idx f))
    (\<lambda>s f. all_bits ops s knew (idx f) \<or> all_bits ops s ksent (idx f))"
proof -
  have seen: "redis_bloom_seen ops knew ksent s (idx f) =
      (if all_bits ops s knew (idx f) \<or> all_bits ops s ksent (idx f) then (True, s)
       else (False, foldl (\<lambda>t i. ro_setbit ops t knew i) s (idx f)))" for s f
    using assms(2) [of f] by (simp add: redis_bloom_seen_def do_bloom_filter_def probe_result all_bits_def Let_def)
  have keep: "all_bits ops s k' (idx g) \<Longrightarrow> all_bits ops (foldl (\<lambda>t i. ro_setbit ops t k i) s (idx f)) k' (idx g)"
    and own: "all_bits ops (foldl (\<lambda>t i. ro_setbit ops t k i) s (idx f)) k (idx f)" for s k k' f g
    by (auto simp: all_bits_def list_all_iff setbits_get [OF assms(1)])
  show ?thesis
    by unfold_locales (auto simp: seen redis_bloom_mark_def intro: keep own split: if_splits)
qed

section \<open>Sample stores\<close>

text \<open>A store in memory with the documented commands: set members and bits.\<close>

definition sample_redis :: "((string \<times> string) set \<times> (string \<times> nat) set) redis_ops" where
  "sample_redis =
     \<lparr>ro_sadd = (\<lambda>s k v. (if (k, v) \<in> fst s then 0 else 1, (insert (k, v) (fst s), snd s))),
      ro_srem = (\<lambda>s k v. (fst s - {(k, v)}, snd s)),
      ro_getbit = (\<lambda>s k i. (k, i) \<in> snd s),
      ro_setbit = (\<lambda>s k i. (fst s, insert (k, i) (snd s))),
      ro_member = (\<lambda>s k v. (k, v) \<in> fst s)\<rparr>"

lemma sample_redis_ok: "redis_sets_ok sample_redis" "redis_bits_ok sample_redis"
  by (auto simp: redis_sets_ok_def redis_bits_ok_def sample_redis_def)

section \<open>Properties\<close>

text \<open>The in-memory filter admits a fingerprint at most once in any sequence of checks and sent
  marks, and does admit it at its first check when it was not marked as sent before.\<close>

theorem memory_filter_exact:
  "distinct (fst (df_run memory_seen memory_mark memory_init ops)) \<and>
   (Check fp \<notin> set ops \<or> Sent fp \<in> set (takeWhile (\<lambda>x. x \<noteq> Check fp) ops) \<or>
    fp \<in> set (fst (df_run memory_seen memory_mark memory_init ops)))"
  using memory_df.admitted_once [of memory_init ops] memory_df.first_admitted [of memory_init fp ops]
  by (auto simp: memory_known_def memory_init_def)

theorem memory_filter_exact_witness:
  "distinct (fst (df_run memory_seen memory_mark memory_init [Check ''a'', Sent ''a'', Check ''a''])) \<and>
   ''a'' \<in> set (fst (df_run memory_seen memory_mark memory_init [Check ''a'', Sent ''a'', Check ''a'']))"
  using memory_filter_exact [of "[Check ''a'', Sent ''a'', Check ''a'']" "''a''"] by simp





text \<open>In a cluster the two keys of a fingerprint carry the same hash tag, so they live in one slot
  (for key names and nodes without braces), and the cleanup deletes the keys of every fingerprint.\<close>

theorem cluster_keys_share_slot:
  assumes "is_cluster r"
    and "\<forall>c \<in> {CHR ''{'', CHR ''}''}. c \<notin> set (kr_base_new r) \<union> set (kr_base_sent r) \<union> (\<Union>n \<in> set (kr_nodes r). set n)"
  shows "hash_part (fst (for_fingerprint digest r fp)) = hash_part (snd (for_fingerprint digest r fp)) \<and>
    {fst (for_fingerprint digest r fp), snd (for_fingerprint digest r fp)} \<subseteq> set (cleanup_keys r)"
proof -
  have "kr_nodes r \<noteq> []" using assms(1) by (simp add: is_cluster_def)
  from get_node_in [OF this, of "digest fp"] obtain node where node: "node \<in> set (kr_nodes r)"
    "get_node (kr_nodes r) (digest fp) = Inr node" by blast
  let ?tag = "cluster_hash_tag r node"
  have clean: "CHR ''{'' \<notin> set (kr_base_new r)" "CHR ''{'' \<notin> set (kr_base_sent r)" "CHR ''}'' \<notin> set ?tag" "?tag \<noteq> []"
    using assms(2) node(1) by (auto simp: cluster_hash_tag_def)
  have part: "hash_part (base @ '':{'' @ ?tag @ ''}'') = ?tag" if "CHR ''{'' \<notin> set base" for base
  proof -
    have "dropWhile (\<lambda>c. c \<noteq> CHR ''{'') (base @ '':{'' @ ?tag @ ''}'') = ''{'' @ ?tag @ ''}''"
      using that by (induction base) auto
    moreover have "takeWhile (\<lambda>c. c \<noteq> CHR ''}'') (?tag @ ''}'') = ?tag"
      using clean(3) by (induction ?tag) (auto simp: takeWhile_append)
    ultimately show ?thesis using clean(4) by (simp add: hash_part_def Let_def)
  qed
  have "for_fingerprint digest r fp = node_keys r node"
    using assms(1) node(2) by (simp add: for_fingerprint_def)
  then show ?thesis
    using part [OF clean(1)] part [OF clean(2)] node(1) assms(1)
    by (auto simp: node_keys_def cleanup_keys_def)
qed

definition sample_router :: key_router where
  "sample_router = key_router_init ''new'' ''sent'' ''cluster'' [''n1'', ''n2''] ''spider'' []"

theorem cluster_keys_share_slot_witness:
  "hash_part (fst (for_fingerprint (\<lambda>_. 7) sample_router ''fp'')) =
   hash_part (snd (for_fingerprint (\<lambda>_. 7) sample_router ''fp''))"
  using cluster_keys_share_slot [of sample_router "\<lambda>_. 7" "''fp''"]
  by (simp add: sample_router_def key_router_init_def is_cluster_def Let_def)

text \<open>Two requests whose bodies are neither bytes nor a dictionary, a text body among them, have
  the same fingerprint whatever the bodies are.\<close>

theorem text_body_not_in_fingerprint:
  "create_bytes lib dumps ih (r\<lparr>fr_kind := FpHttp verb (BodyOther v1)\<rparr>) =
   create_bytes lib dumps ih (r\<lparr>fr_kind := FpHttp verb (BodyOther v2)\<rparr>)"
  by (simp add: create_bytes_def build_fingerprint_bytes_def)

text \<open>Reordering the query parameters of a URL does not change the fingerprint.\<close>

theorem fingerprint_query_order:
  assumes "ul_query lib u \<noteq> []" and "ul_query lib v \<noteq> []" and "ul_replace lib u = ul_replace lib v"
    and "mset (ul_parse lib (ul_query lib u)) = mset (ul_parse lib (ul_query lib v))"
  shows "create_bytes lib dumps ih (r\<lparr>fr_url := u\<rparr>) = create_bytes lib dumps ih (r\<lparr>fr_url := v\<rparr>)"
  using canonical_url_cong [OF assms(1,2,4,3)]
  by (simp add: create_bytes_def build_fingerprint_bytes_def split: fp_kind.split)

definition sample_urls :: url_lib where
  "sample_urls = \<lparr>ul_query = (\<lambda>u. tl (dropWhile (\<lambda>c. c \<noteq> CHR ''?'') u)),
     ul_parse = (\<lambda>q. map (\<lambda>p. (p, [])) (split_on CHR ''&'' q)),
     ul_encode = (\<lambda>ps. join ''&'' (map fst ps)),
     ul_replace = (\<lambda>u q. takeWhile (\<lambda>c. c \<noteq> CHR ''?'') u @ ''?'' @ q)\<rparr>"

theorem fingerprint_query_order_witness:
  "create_bytes sample_urls (\<lambda>_. ''{}'') [] \<lparr>fr_url = ''/p?b&a'', fr_headers = None, fr_kind = FpBase, fr_dont_filter = False\<rparr> =
   create_bytes sample_urls (\<lambda>_. ''{}'') [] \<lparr>fr_url = ''/p?a&b'', fr_headers = None, fr_kind = FpBase, fr_dont_filter = False\<rparr>"
  using fingerprint_query_order [of sample_urls "''/p?b&a''" "''/p?a&b''" "\<lambda>_. ''{}''" "[]"
      "\<lparr>fr_url = [], fr_headers = None, fr_kind = FpBase, fr_dont_filter = False\<rparr>"]
  by (simp add: sample_urls_def)

end
