(* ===== verification/KafkaOffsets.thy ===== *)
theory KafkaOffsets
  imports Prelude
begin

text \<open>
  Kafka deliveries and their acknowledgement (\<open>infra/kafka/client.py\<close>, \<open>dequeue_request\<close> and
  \<open>ack_request\<close>): per topic, group and part a queue of leased offsets with a completion flag;
  an acknowledgement commits the offset after the longest completed prefix.  The vendor's consumer
  is an input: the record it returned, and the commit it is asked for.
\<close>

section \<open>State and operations\<close>

type_synonym partition_key = "string \<times> string \<times> nat"

record kafka_client =
  kc_consumers :: "(string \<times> string) set"
  kc_pending :: "(partition_key, (nat \<times> bool) list) pydict"

definition kafka_init :: kafka_client where
  "kafka_init = \<lparr>kc_consumers = {}, kc_pending = []\<rparr>"

record kafka_record =
  kr_topic :: string
  kr_group :: string
  kr_partition :: nat
  kr_offset :: nat

text \<open>\<open>got\<close>: the record \<open>getone\<close> returned within the timeout.\<close>

definition dequeue_request ::
  "kafka_client \<Rightarrow> string \<Rightarrow> string \<Rightarrow> (nat \<times> nat) option \<Rightarrow> kafka_client \<times> kafka_record option" where
  "dequeue_request c topic grp got =
     (let c1 = c\<lparr>kc_consumers := insert (topic, grp) (kc_consumers c)\<rparr>
      in case got of
           None \<Rightarrow> (c1, None)
         | Some (part, offset) \<Rightarrow>
             let key = (topic, grp, part)
             in (c1\<lparr>kc_pending := dict_set (kc_pending c1) key (dict_get (kc_pending c1) key [] @ [(offset, False)])\<rparr>,
                 Some \<lparr>kr_topic = topic, kr_group = grp, kr_partition = part, kr_offset = offset\<rparr>))"

text \<open>The first entry with the offset is marked; none when there is no such entry.\<close>

fun mark_entry :: "(nat \<times> bool) list \<Rightarrow> nat \<Rightarrow> (nat \<times> bool) list option" where
  "mark_entry [] offset = None"
| "mark_entry ((o', b) # es) offset =
     (if o' = offset then Some ((o', True) # es) else map_option (Cons (o', b)) (mark_entry es offset))"

fun pop_completed :: "nat option \<Rightarrow> (nat \<times> bool) list \<Rightarrow> nat option \<times> (nat \<times> bool) list" where
  "pop_completed commit_offset [] = (commit_offset, [])"
| "pop_completed commit_offset ((o', b) # es) =
     (if b then pop_completed (Some (o' + 1)) es else (commit_offset, (o', b) # es))"

text \<open>The reply, and the offset handed to the consumer's commit.\<close>

definition ack_request ::
  "kafka_client \<Rightarrow> string \<Rightarrow> string \<Rightarrow> nat \<Rightarrow> nat \<Rightarrow> kafka_client \<times> bool \<times> nat option" where
  "ack_request c topic grp part offset =
     (let key = (topic, grp, part)
      in if (topic, grp) \<notin> kc_consumers c then (c, False, None)
         else
           (case map_of (kc_pending c) key of
              None \<Rightarrow> (c, False, None)
            | Some pending \<Rightarrow>
                (case mark_entry pending offset of
                   None \<Rightarrow> (c, False, None)
                 | Some marked \<Rightarrow>
                     (case pop_completed None marked of
                        (commit, rest) \<Rightarrow>
                          (c\<lparr>kc_pending := (if rest = [] then dict_pop (kc_pending c) key
                                            else dict_set (kc_pending c) key rest)\<rparr>, True, commit)))))"

text \<open>Deleting topics drops their consumers and leases; closing drops all.\<close>

definition delete_topics :: "kafka_client \<Rightarrow> string list \<Rightarrow> kafka_client" where
  "delete_topics c topics =
     (if \<exists>k \<in> kc_consumers c. fst k \<in> set topics then
        \<lparr>kc_consumers = {k \<in> kc_consumers c. fst k \<notin> set topics},
         kc_pending = filter (\<lambda>p. fst (fst p) \<notin> set topics) (kc_pending c)\<rparr>
      else c)"

definition close_transport :: "kafka_client \<Rightarrow> kafka_client" where
  "close_transport c = \<lparr>kc_consumers = {}, kc_pending = []\<rparr>"

section \<open>The specification\<close>

text \<open>
  One partition abstractly: the offsets leased so far, in lease order, and those acknowledged.  What
  may be committed is the offset after the longest acknowledged prefix.
\<close>

record lease_log =
  ll_leased :: "nat list"
  ll_acked :: "nat set"

definition acked_prefix :: "lease_log \<Rightarrow> nat list" where
  "acked_prefix l = takeWhile (\<lambda>x. x \<in> ll_acked l) (ll_leased l)"

definition commit_of :: "nat list \<Rightarrow> nat option" where
  "commit_of xs = (if xs = [] then None else Some (last xs + 1))"

definition lease_ok :: "lease_log \<Rightarrow> (nat \<times> bool) list \<Rightarrow> bool" where
  "lease_ok l pending \<longleftrightarrow> sorted_wrt (<) (ll_leased l) \<and> ll_acked l \<subseteq> set (ll_leased l) \<and>
     pending = map (\<lambda>x. (x, x \<in> ll_acked l)) (dropWhile (\<lambda>x. x \<in> ll_acked l) (ll_leased l))"

lemma distinct_leased: "sorted_wrt (<) (xs :: nat list) \<Longrightarrow> distinct xs"
  by (induction xs) auto

lemma mark_entry_map:
  "distinct xs \<Longrightarrow> offset \<in> set xs \<Longrightarrow>
   mark_entry (map (\<lambda>x. (x, P x)) xs) offset = Some (map (\<lambda>x. (x, P x \<or> x = offset)) xs)"
  by (induction xs) (auto intro!: map_cong)

lemma mark_entry_None: "offset \<notin> set xs \<Longrightarrow> mark_entry (map (\<lambda>x. (x, P x)) xs) offset = None"
  by (induction xs) auto

lemma pop_completed_map:
  "pop_completed acc (map (\<lambda>x. (x, P x)) xs) =
     (if takeWhile P xs = [] then acc else Some (last (takeWhile P xs) + 1),
      map (\<lambda>x. (x, P x)) (dropWhile P xs))"
  by (induction xs arbitrary: acc) auto

lemma dropWhile_dropWhile_insert:
  "dropWhile (\<lambda>x. x \<in> A \<or> x = a) (dropWhile (\<lambda>x. x \<in> A) xs) = dropWhile (\<lambda>x. x \<in> insert a A) xs"
  by (induction xs) (auto simp: disj_commute)

lemma dropWhile_snoc: "a \<notin> A \<Longrightarrow> dropWhile (\<lambda>x. x \<in> A) (xs @ [a]) = dropWhile (\<lambda>x. x \<in> A) xs @ [a]"
  by (induction xs) auto

text \<open>A lease extends the log; an acknowledgement commits the grown prefix.\<close>

lemma lease_ok_lease:
  assumes "lease_ok l pending" and "\<forall>x \<in> set (ll_leased l). x < offset"
  shows "lease_ok (l\<lparr>ll_leased := ll_leased l @ [offset]\<rparr>) (pending @ [(offset, False)])"
proof -
  have na: "offset \<notin> ll_acked l" using assms by (force simp: lease_ok_def)
  have "dropWhile (\<lambda>x. x \<in> ll_acked l) (ll_leased l @ [offset]) =
      dropWhile (\<lambda>x. x \<in> ll_acked l) (ll_leased l) @ [offset]"
    using na by (rule dropWhile_snoc)
  moreover have "sorted_wrt (<) (ll_leased l @ [offset])"
    using assms by (simp add: lease_ok_def sorted_wrt_append)
  moreover have "ll_acked l \<subseteq> set (ll_leased l @ [offset])" using assms(1) by (auto simp: lease_ok_def)
  moreover have "pending = map (\<lambda>x. (x, x \<in> ll_acked l)) (dropWhile (\<lambda>x. x \<in> ll_acked l) (ll_leased l))"
    using assms(1) by (simp add: lease_ok_def)
  ultimately show ?thesis using na by (simp add: lease_ok_def)
qed

lemma lease_ok_ack:
  assumes ok: "lease_ok l pending" and leased: "offset \<in> set (ll_leased l)"
    and open': "offset \<notin> set (acked_prefix l)"
  defines "l' \<equiv> l\<lparr>ll_acked := insert offset (ll_acked l)\<rparr>"
  shows "\<exists>marked. mark_entry pending offset = Some marked \<and> lease_ok l' (snd (pop_completed None marked)) \<and>
    fst (pop_completed None marked) =
      (if acked_prefix l' = acked_prefix l then None else commit_of (acked_prefix l'))"
proof -
  let ?A = "ll_acked l" and ?xs = "ll_leased l"
  let ?d = "dropWhile (\<lambda>x. x \<in> ?A) ?xs" and ?P = "\<lambda>x. x \<in> ?A \<or> x = offset"
  have sorted: "sorted_wrt (<) ?xs" and pend: "pending = map (\<lambda>x. (x, x \<in> ?A)) ?d"
    using ok by (simp_all add: lease_ok_def)
  have split: "?xs = acked_prefix l @ ?d" by (simp add: acked_prefix_def)
  have in_d: "offset \<in> set ?d" using leased open' split by (metis Un_iff set_append)
  have "distinct ?d" using distinct_leased [OF sorted] distinct_dropWhile by blast
  then have mark: "mark_entry pending offset = Some (map (\<lambda>x. (x, ?P x)) ?d)"
    unfolding pend using in_d by (rule mark_entry_map)
  have pop: "pop_completed None (map (\<lambda>x. (x, ?P x)) ?d) =
      (if takeWhile ?P ?d = [] then None else Some (last (takeWhile ?P ?d) + 1),
       map (\<lambda>x. (x, ?P x)) (dropWhile ?P ?d))"
    by (rule pop_completed_map)
  have P: "(\<lambda>x. x \<in> insert offset ?A) = ?P" by auto
  have prefix: "acked_prefix l' = acked_prefix l @ takeWhile ?P ?d"
  proof -
    have "acked_prefix l' = takeWhile ?P ?xs" using P by (simp add: acked_prefix_def l'_def)
    also have "\<dots> = takeWhile ?P (acked_prefix l @ ?d)" using split by simp
    also have "\<dots> = acked_prefix l @ takeWhile ?P ?d"
      by (rule takeWhile_append2) (auto simp: acked_prefix_def dest: set_takeWhileD)
    finally show ?thesis .
  qed
  have ok': "lease_ok l' (map (\<lambda>x. (x, ?P x)) (dropWhile ?P ?d))"
  proof -
    have d: "dropWhile ?P ?d = dropWhile ?P ?xs" using dropWhile_dropWhile_insert [of ?A offset ?xs] P by simp
    have "ll_acked l' \<subseteq> set ?xs" using ok leased by (auto simp: lease_ok_def l'_def)
    then show ?thesis using sorted d P by (auto simp: lease_ok_def l'_def)
  qed
  show ?thesis
    using mark pop prefix ok' by (auto simp: commit_of_def)
qed

section \<open>Runs\<close>

type_synonym kafka_state = "kafka_client \<times> (partition_key \<Rightarrow> lease_log)"

definition empty_log :: lease_log where
  "empty_log = \<lparr>ll_leased = [], ll_acked = {}\<rparr>"

text \<open>The vendor delivers the offsets of a partition in increasing order; a message is acknowledged once.\<close>

inductive kafka_step :: "kafka_state \<Rightarrow> kafka_state \<Rightarrow> bool" where
  k_lease: "\<forall>x \<in> set (ll_leased (logs (topic, grp, part))). x < offset \<Longrightarrow>
     dequeue_request c topic grp (Some (part, offset)) = (c', r) \<Longrightarrow>
     kafka_step (c, logs)
       (c', logs((topic, grp, part) := (logs (topic, grp, part))
          \<lparr>ll_leased := ll_leased (logs (topic, grp, part)) @ [offset]\<rparr>))"
| k_timeout: "dequeue_request c topic grp None = (c', r) \<Longrightarrow> kafka_step (c, logs) (c', logs)"
| k_ack: "offset \<in> set (ll_leased (logs (topic, grp, part))) \<Longrightarrow> offset \<notin> ll_acked (logs (topic, grp, part)) \<Longrightarrow>
     ack_request c topic grp part offset = (c', r) \<Longrightarrow>
     kafka_step (c, logs)
       (c', logs((topic, grp, part) := (logs (topic, grp, part))
          \<lparr>ll_acked := insert offset (ll_acked (logs (topic, grp, part)))\<rparr>))"

inductive_cases kafka_stepE: "kafka_step s t"

definition kafka_inv :: "kafka_state \<Rightarrow> bool" where
  "kafka_inv s \<longleftrightarrow> dict_wf (kc_pending (fst s)) \<and>
     (\<forall>k. lease_ok (snd s k) (dict_get (kc_pending (fst s)) k [])) \<and>
     (\<forall>topic grp part. ll_leased (snd s (topic, grp, part)) \<noteq> [] \<longrightarrow> (topic, grp) \<in> kc_consumers (fst s))"

lemma kafka_inv_init: "kafka_inv (kafka_init, \<lambda>_. empty_log)"
  by (simp add: kafka_inv_def kafka_init_def empty_log_def lease_ok_def dict_get_def)

lemma acked_prefix_acked: "set (acked_prefix l) \<subseteq> ll_acked l"
  by (auto simp: acked_prefix_def dest: set_takeWhileD)

lemma ack_request_result:
  assumes "kafka_inv (c, logs)" and "offset \<in> set (ll_leased (logs (topic, grp, part)))"
    and "offset \<notin> ll_acked (logs (topic, grp, part))"
    and "ack_request c topic grp part offset = (c', replied, commit)"
  defines "l \<equiv> logs (topic, grp, part)" and
    "l' \<equiv> (logs (topic, grp, part))\<lparr>ll_acked := insert offset (ll_acked (logs (topic, grp, part)))\<rparr>"
  shows "replied" and "commit = (if acked_prefix l' = acked_prefix l then None else commit_of (acked_prefix l'))"
    and "kafka_inv (c', logs((topic, grp, part) := l'))"
proof -
  let ?k = "(topic, grp, part)"
  have ok: "lease_ok (logs ?k) (dict_get (kc_pending c) ?k [])" and wf: "dict_wf (kc_pending c)"
    using assms(1) by (simp_all add: kafka_inv_def)
  have cons: "(topic, grp) \<in> kc_consumers c" using assms(1,2) unfolding kafka_inv_def
    by (metis empty_iff fst_conv list.set(1) snd_conv)
  have "offset \<notin> set (acked_prefix (logs ?k))" using acked_prefix_acked assms(3) by blast
  from lease_ok_ack [OF ok assms(2) this] obtain marked where
    mark: "mark_entry (dict_get (kc_pending c) ?k []) offset = Some marked"
    and lok: "lease_ok l' (snd (pop_completed None marked))"
    and com: "fst (pop_completed None marked) =
      (if acked_prefix l' = acked_prefix l then None else commit_of (acked_prefix l'))"
    unfolding l_def l'_def by blast
  obtain pending where p: "map_of (kc_pending c) ?k = Some pending"
    using mark by (cases "map_of (kc_pending c) ?k") (auto simp: dict_get_def)
  then have mark': "mark_entry pending offset = Some marked" using mark by (simp add: dict_get_def)
  obtain commit' rest where pc: "pop_completed None marked = (commit', rest)" by fastforce
  have c': "c' = c\<lparr>kc_pending := (if rest = [] then dict_pop (kc_pending c) ?k else dict_set (kc_pending c) ?k rest)\<rparr>"
    and "replied" and "commit = commit'"
    using assms(4) cons p mark' pc by (auto simp: ack_request_def Let_def split: if_splits)
  then show "replied" "commit = (if acked_prefix l' = acked_prefix l then None else commit_of (acked_prefix l'))"
    using com pc by simp_all
  have get: "dict_get (kc_pending c') k [] = (if k = ?k then rest else dict_get (kc_pending c) k [])" for k
    unfolding c' by simp
  have wf': "dict_wf (kc_pending c')" unfolding c' using wf by simp
  have leased: "ll_leased ((logs(?k := l')) k) = ll_leased (logs k)" for k by (simp add: l'_def)
  have same: "kc_consumers c' = kc_consumers c" unfolding c' by simp
  have old: "lease_ok (logs k) (dict_get (kc_pending c) k [])" for k
    using assms(1) unfolding kafka_inv_def fst_conv snd_conv by blast
  have cons': "(t, g) \<in> kc_consumers c" if "ll_leased (logs (t, g, p)) \<noteq> []" for t g p
    using assms(1) that unfolding kafka_inv_def fst_conv snd_conv by blast
  show "kafka_inv (c', logs(?k := l'))"
    unfolding kafka_inv_def fst_conv snd_conv leased same
  proof (intro conjI allI impI)
    fix k show "lease_ok ((logs(?k := l')) k) (dict_get (kc_pending c') k [])"
      using old [of k] lok pc by (simp add: get)
  qed (use wf' cons' in blast)+
qed

lemma kafka_step_inv:
  assumes "kafka_step s t" and "kafka_inv s"
  shows "kafka_inv t"
  using assms(1)
proof (cases rule: kafka_step.cases)
  case (k_lease logs topic grp part offset c c' r)
  let ?k = "(topic, grp, part)"
  have c': "c' = c\<lparr>kc_consumers := insert (topic, grp) (kc_consumers c),
      kc_pending := dict_set (kc_pending c) ?k (dict_get (kc_pending c) ?k [] @ [(offset, False)])\<rparr>"
    using k_lease(4) by (simp add: dequeue_request_def Let_def)
  have "lease_ok (logs ?k) (dict_get (kc_pending c) ?k [])" using assms(2) k_lease(1) by (simp add: kafka_inv_def)
  from lease_ok_lease [OF this k_lease(3)] show ?thesis
    using assms(2) k_lease(1,2) by (simp add: kafka_inv_def c') blast
next
  case (k_timeout c topic grp c' r logs)
  then have "c' = c\<lparr>kc_consumers := insert (topic, grp) (kc_consumers c)\<rparr>"
    by (simp add: dequeue_request_def)
  then show ?thesis using assms(2) k_timeout(1,2) by (simp add: kafka_inv_def)
next
  case (k_ack offset logs topic grp part c c' r)
  obtain replied commit where "r = (replied, commit)" by fastforce
  then show ?thesis
    using ack_request_result(3) [of c logs offset topic grp part c' replied commit] assms(2) k_ack by simp
qed

lemma kafka_runs_inv: "kafka_step\<^sup>*\<^sup>* (kafka_init, \<lambda>_. empty_log) s \<Longrightarrow> kafka_inv s"
  by (induction rule: rtranclp_induct) (auto intro: kafka_inv_init kafka_step_inv)

lemma commit_covers:
  assumes "sorted_wrt (<) (ll_leased l)" and "commit_of (acked_prefix l) = Some n" and "x \<in> set (ll_leased l)" and "x < n"
  shows "x \<in> ll_acked l"
proof -
  have ne: "acked_prefix l \<noteq> []" and n: "n = last (acked_prefix l) + 1"
    using assms(2) by (auto simp: commit_of_def split: if_splits)
  have split: "ll_leased l = acked_prefix l @ dropWhile (\<lambda>x. x \<in> ll_acked l) (ll_leased l)"
    by (simp add: acked_prefix_def)
  have "x \<in> set (acked_prefix l)"
  proof (rule ccontr)
    assume "x \<notin> set (acked_prefix l)"
    then have "x \<in> set (dropWhile (\<lambda>x. x \<in> ll_acked l) (ll_leased l))" using assms(3) split by (metis Un_iff set_append)
    moreover have "last (acked_prefix l) \<in> set (acked_prefix l)" using ne by simp
    moreover have "sorted_wrt (<) (acked_prefix l @ dropWhile (\<lambda>x. x \<in> ll_acked l) (ll_leased l))"
      using assms(1) split by simp
    ultimately have "last (acked_prefix l) < x" by (auto simp: sorted_wrt_append)
    then show False using assms(4) n by simp
  qed
  then show ?thesis using acked_prefix_acked by blast
qed

section \<open>Properties\<close>



end
