(* ===== verification/Ingress.thy ===== *)
theory Ingress
  imports PyStrings
begin

text \<open>
  Where a spider's requests come from: the queue, topic, group and session keys of the schedulers
  (\<open>core/scheduler/base.py\<close>, \<open>redis.py\<close>, \<open>rabbitmq.py\<close>, \<open>kafka.py\<close>) and the Redis list or stream
  ingress of a spider (\<open>repo/redis_ingress.py\<close>, with the stream reply handling of \<open>repo/redis.py\<close>).
  An attribute the code tests for truth is a string, empty when it is missing; one it tests against
  \<open>None\<close> is an option.
\<close>

section \<open>Queue keys\<close>

record spider_info =
  sp_name :: string
  sp_scheduler_queue_key :: string
  sp_queue_name :: string
  sp_rabbitmq_queue :: string
  sp_kafka_topic :: string
  sp_kafka_start_topic :: string
  sp_kafka_group :: string
  sp_kafka_start_group :: string

record queue_settings =
  qs_queue_name :: string
  qs_session_key :: string
  qs_persist_sessions :: bool
  qs_consumer_group :: string

text \<open>\<open>a or b\<close> on strings.\<close>

definition str_or :: "string \<Rightarrow> string \<Rightarrow> string" where
  "str_or a b = (if a = [] then b else a)"

definition queue_key_for_name :: "queue_settings \<Rightarrow> string \<Rightarrow> spider_info option \<Rightarrow> string" where
  "queue_key_for_name settings spider_name spider_cls =
     (let explicit = (case spider_cls of None \<Rightarrow> []
                      | Some c \<Rightarrow> str_or (sp_scheduler_queue_key c) (sp_queue_name c))
      in if explicit \<noteq> [] then explicit
         else if qs_queue_name settings \<noteq> [] then qs_queue_name settings @ '':'' @ spider_name
         else spider_name @ ''_req'')"

definition get_queue_key :: "queue_settings \<Rightarrow> spider_info \<Rightarrow> string" where
  "get_queue_key settings sp =
     (let explicit = str_or (sp_scheduler_queue_key sp) (sp_queue_name sp)
      in if explicit \<noteq> [] then explicit
         else if qs_queue_name settings \<noteq> [] then qs_queue_name settings @ '':'' @ sp_name sp
         else sp_name sp @ ''_req'')"

definition session_state_key :: "queue_settings \<Rightarrow> string \<Rightarrow> string" where
  "session_state_key settings queue_key = str_or (qs_session_key settings) (queue_key @ '':sessions'')"

definition rabbit_start_queue :: "queue_settings \<Rightarrow> spider_info \<Rightarrow> string" where
  "rabbit_start_queue settings sp =
     (if sp_rabbitmq_queue sp \<noteq> [] then sp_rabbitmq_queue sp
      else if qs_queue_name settings \<noteq> [] then qs_queue_name settings @ '':'' @ sp_name sp @ '':start''
      else sp_name sp @ ''_rabbit_start'')"

definition kafka_char :: "char \<Rightarrow> bool" where
  "kafka_char c =
     (let n = (of_char c :: nat)
      in 97 \<le> n \<and> n \<le> 122 \<or> 65 \<le> n \<and> n \<le> 90 \<or> 48 \<le> n \<and> n \<le> 57 \<or> n = 46 \<or> n = 95 \<or> n = 45)"

definition kafka_name :: "string \<Rightarrow> string" where
  "kafka_name value' = map (\<lambda>c. if kafka_char c then c else CHR ''_'') value'"

definition kafka_queue_key :: "queue_settings \<Rightarrow> spider_info \<Rightarrow> string" where
  "kafka_queue_key settings sp = kafka_name (str_or (sp_kafka_topic sp) (get_queue_key settings sp))"

definition kafka_start_topic :: "queue_settings \<Rightarrow> spider_info \<Rightarrow> string" where
  "kafka_start_topic settings sp =
     kafka_name (str_or (sp_kafka_start_topic sp) (kafka_queue_key settings sp @ ''_start''))"

definition get_consumer_group :: "queue_settings \<Rightarrow> spider_info \<Rightarrow> bool \<Rightarrow> string" where
  "get_consumer_group settings sp start =
     str_or (if start then sp_kafka_start_group sp else sp_kafka_group sp)
       (qs_consumer_group settings @ ''.'' @ sp_name sp @ ''.'' @ (if start then ''start'' else ''work''))"

lemma kafka_name_chars: "c \<in> set (kafka_name s) \<Longrightarrow> kafka_char c"
  by (auto simp: kafka_name_def kafka_char_def)

lemma kafka_name_idem [simp]: "kafka_name (kafka_name s) = kafka_name s"
  by (auto simp: kafka_name_def)

lemma kafka_name_length [simp]: "length (kafka_name s) = length s"
  by (simp add: kafka_name_def)

text \<open>A spider's queue is the same whether its class or an instance names it.\<close>

lemma queue_key_agrees:
  "sp_name c = n \<Longrightarrow> queue_key_for_name settings n (Some c) = get_queue_key settings c"
  by (auto simp: queue_key_for_name_def get_queue_key_def Let_def)

lemma kafka_queue_key_chars: "c \<in> set (kafka_queue_key settings sp) \<Longrightarrow> kafka_char c"
  unfolding kafka_queue_key_def by (rule kafka_name_chars)

section \<open>Redis ingress\<close>

datatype ingress_mode = ModeList | ModeStream

datatype ingress_error = ModeError string | NoGroup | NoConsumer

record ingress_attrs =
  ia_key :: "string option"
  ia_mode :: "string option"
  ia_group :: "string option"
  ia_xgroup :: "string option"
  ia_consumer :: "string option"
  ia_xconsumer :: "string option"
  ia_field :: "string option"
  ia_count :: "int option"
  ia_block_ms :: "int option"
  ia_group_start_id :: "string option"
  ia_read_id :: "string option"
  ia_mkstream :: "bool option"
  ia_ack :: "bool option"

record stream_defaults =
  sd_mode :: ingress_mode
  sd_key :: "string option"
  sd_group :: "string option"
  sd_consumer :: "string option"
  sd_field :: string
  sd_count :: int
  sd_block_ms :: int
  sd_group_start_id :: string
  sd_read_id :: string
  sd_mkstream :: bool
  sd_auto_ack :: bool

record ingress_config =
  ic_key :: string
  ic_mode :: ingress_mode
  ic_group :: "string option"
  ic_consumer :: string
  ic_field :: string
  ic_count :: int
  ic_block_ms :: int
  ic_group_start_id :: string
  ic_read_id :: string
  ic_mkstream :: bool
  ic_auto_ack :: bool

definition is_stream :: "ingress_config \<Rightarrow> bool" where
  "is_stream c \<longleftrightarrow> ic_mode c = ModeStream"

fun pick :: "'a option list \<Rightarrow> 'a option" where
  "pick [] = None"
| "pick (Some v # vs) = Some v"
| "pick (None # vs) = pick vs"

fun opt_truthy :: "string option \<Rightarrow> bool" where
  "opt_truthy None = False"
| "opt_truthy (Some s) = (s \<noteq> [])"

definition parse_mode :: "string \<Rightarrow> ingress_error + ingress_mode" where
  "parse_mode s =
     (if s = ''list'' then Inr ModeList else if s = ''stream'' then Inr ModeStream else Inl (ModeError s))"

definition or_default :: "int option \<Rightarrow> int \<Rightarrow> int" where
  "or_default v d = (case v of None \<Rightarrow> d | Some i \<Rightarrow> if i = 0 then d else i)"

definition resolve_key :: "ingress_attrs \<Rightarrow> string \<Rightarrow> stream_defaults option \<Rightarrow> string \<Rightarrow> string" where
  "resolve_key sp name defaults queue_name =
     (let fallback = (if queue_name \<noteq> [] then queue_name @ '':'' @ name @ '':start'' else name @ ''_redis_start'');
          default_key = (case Option.bind defaults sd_key of None \<Rightarrow> [] | Some k \<Rightarrow> k)
      in str_or (case ia_key sp of None \<Rightarrow> [] | Some k \<Rightarrow> k) (str_or default_key fallback))"

definition resolve_mode :: "ingress_attrs \<Rightarrow> stream_defaults option \<Rightarrow> ingress_error + ingress_mode" where
  "resolve_mode sp defaults =
     (case ia_mode sp of
        None \<Rightarrow> (case defaults of None \<Rightarrow> Inr ModeList | Some d \<Rightarrow> Inr (sd_mode d))
      | Some raw \<Rightarrow> parse_mode (str_or raw ''list''))"

definition resolve_group :: "ingress_attrs \<Rightarrow> stream_defaults option \<Rightarrow> string option" where
  "resolve_group sp defaults = pick [ia_group sp, ia_xgroup sp, Option.bind defaults sd_group]"

definition resolve_consumer :: "ingress_attrs \<Rightarrow> string \<Rightarrow> stream_defaults option \<Rightarrow> string" where
  "resolve_consumer sp name defaults =
     (case pick [ia_consumer sp, ia_xconsumer sp] of
        Some c \<Rightarrow> c
      | None \<Rightarrow> (case Option.bind defaults sd_consumer of None \<Rightarrow> name | Some c \<Rightarrow> str_or c name))"

text \<open>A setting: the spider's value, else the default's, and the fallback when that is missing or falsy.\<close>

definition resolve_str :: "string option \<Rightarrow> (stream_defaults \<Rightarrow> string) \<Rightarrow> stream_defaults option \<Rightarrow> string \<Rightarrow> string" where
  "resolve_str v d defaults fallback =
     (case pick [v, map_option d defaults] of None \<Rightarrow> fallback | Some s \<Rightarrow> str_or s fallback)"

definition resolve_bool :: "bool option \<Rightarrow> (stream_defaults \<Rightarrow> bool) \<Rightarrow> stream_defaults option \<Rightarrow> bool" where
  "resolve_bool v d defaults = (case pick [v, map_option d defaults] of None \<Rightarrow> True | Some b \<Rightarrow> b)"

definition resolve_redis_ingress ::
  "ingress_attrs \<Rightarrow> string \<Rightarrow> stream_defaults option \<Rightarrow> string \<Rightarrow> ingress_error + ingress_config" where
  "resolve_redis_ingress sp name defaults queue_name =
     (case resolve_mode sp defaults of
        Inl e \<Rightarrow> Inl e
      | Inr mode \<Rightarrow>
          if mode = ModeStream \<and> \<not> opt_truthy (resolve_group sp defaults) then Inl NoGroup
          else Inr
            \<lparr>ic_key = resolve_key sp name defaults queue_name, ic_mode = mode,
             ic_group = resolve_group sp defaults, ic_consumer = resolve_consumer sp name defaults,
             ic_field = resolve_str (ia_field sp) sd_field defaults ''data'',
             ic_count = or_default (pick [ia_count sp, map_option sd_count defaults]) 1,
             ic_block_ms = or_default (pick [ia_block_ms sp, map_option sd_block_ms defaults]) 2000,
             ic_group_start_id = resolve_str (ia_group_start_id sp) sd_group_start_id defaults ''0'',
             ic_read_id = resolve_str (ia_read_id sp) sd_read_id defaults ''>'',
             ic_mkstream = resolve_bool (ia_mkstream sp) sd_mkstream defaults,
             ic_auto_ack = resolve_bool (ia_ack sp) sd_auto_ack defaults\<rparr>)"

section \<open>Stream messages\<close>

text \<open>
  A stream's fields as bytes; \<open>dump\<close> is the JSON text of all fields, used when the configured one is
  missing and there are several.
\<close>

record stream_message =
  msg_key :: string
  msg_id :: bytes
  msg_data :: bytes
  msg_fields :: "(bytes, bytes) pydict"

definition extract_stream_data ::
  "(string \<Rightarrow> bytes) \<Rightarrow> ((bytes, bytes) pydict \<Rightarrow> bytes) \<Rightarrow> (bytes, bytes) pydict \<Rightarrow> string \<Rightarrow> bytes option" where
  "extract_stream_data utf8 dump flds field =
     (if flds = [] then None
      else (case (if field = [] then None else map_of flds (utf8 field)) of
              Some v \<Rightarrow> Some v
            | None \<Rightarrow> if length flds = 1 then Some (snd (hd flds)) else Some (dump flds)))"

text \<open>The message made of an \<open>XREADGROUP\<close> reply: only its first entry is looked at.\<close>

definition stream_reply ::
  "(string \<Rightarrow> bytes) \<Rightarrow> ((bytes, bytes) pydict \<Rightarrow> bytes) \<Rightarrow> string \<Rightarrow> string \<Rightarrow>
   (bytes \<times> (bytes, bytes) pydict) list \<Rightarrow> stream_message option" where
  "stream_reply utf8 dump stream_key field messages =
     (case messages of
        [] \<Rightarrow> None
      | (message_id, flds) # _ \<Rightarrow>
          (case extract_stream_data utf8 dump flds field of
             None \<Rightarrow> None
           | Some data \<Rightarrow> Some \<lparr>msg_key = stream_key, msg_id = message_id, msg_data = data, msg_fields = flds\<rparr>))"

text \<open>What one call of \<open>dequeue_start_request\<close> asks Redis for.\<close>

datatype ingress_read = ReadList string | ReadStream string string string string int int

definition dequeue_start_request :: "ingress_config \<Rightarrow> ingress_error + ingress_read" where
  "dequeue_start_request c =
     (if is_stream c then
        (if \<not> opt_truthy (ic_group c) then Inl NoGroup
         else if ic_consumer c = [] then Inl NoConsumer
         else Inr (ReadStream (ic_key c) (the (ic_group c)) (ic_consumer c) (ic_read_id c) (ic_count c) (ic_block_ms c)))
      else Inr (ReadList (ic_key c)))"

text \<open>The acknowledgement sent for a message: key, group and id; it does not look at \<open>auto_ack\<close>.\<close>

definition ack_start_request :: "ingress_config \<Rightarrow> stream_message \<Rightarrow> (string \<times> string \<times> bytes) option" where
  "ack_start_request c m =
     (if is_stream c \<and> opt_truthy (ic_group c) then Some (msg_key m, the (ic_group c), msg_id m) else None)"

section \<open>Lemmas\<close>

lemma parse_mode_cases [simp]:
  "parse_mode ''list'' = Inr ModeList" "parse_mode ''stream'' = Inr ModeStream"
  by (simp_all add: parse_mode_def)

text \<open>What a resolved ingress is made of.\<close>

lemma resolve_ingressD:
  assumes "resolve_redis_ingress sp name defaults queue_name = Inr c"
  shows "resolve_mode sp defaults = Inr (ic_mode c)" and "ic_key c = resolve_key sp name defaults queue_name"
    and "ic_mode c = ModeStream \<Longrightarrow> opt_truthy (ic_group c)"
    and "ic_count c = or_default (pick [ia_count sp, map_option sd_count defaults]) 1"
    and "ic_block_ms c = or_default (pick [ia_block_ms sp, map_option sd_block_ms defaults]) 2000"
  using assms by (auto simp: resolve_redis_ingress_def split: sum.splits if_splits)

lemma or_default_nonzero: "d \<noteq> 0 \<Longrightarrow> or_default v d \<noteq> 0"
  by (simp add: or_default_def split: option.split)

lemma str_or_nonempty: "b \<noteq> [] \<Longrightarrow> str_or a b \<noteq> []"
  by (simp add: str_or_def)

lemma resolve_key_nonempty: "name \<noteq> [] \<Longrightarrow> resolve_key sp name defaults queue_name \<noteq> []"
  unfolding resolve_key_def Let_def by (intro str_or_nonempty) simp

section \<open>Properties\<close>

text \<open>A resolved ingress can always be read, unless an empty consumer name is configured: its list read
  or stream read names the resolved key, and a stream read has a group, a count and a block time that
  are never zero.  A stream acknowledgement goes to the group it was read from.\<close>

theorem ingress_resolves_readable:
  assumes "resolve_redis_ingress sp name defaults queue_name = Inr c" and "name \<noteq> []" and "ic_consumer c \<noteq> []"
  shows "ic_key c \<noteq> [] \<and>
    (if ic_mode c = ModeList then dequeue_start_request c = Inr (ReadList (ic_key c)) \<and> ack_start_request c m = None
     else \<exists>g. g \<noteq> [] \<and> ic_count c \<noteq> 0 \<and> ic_block_ms c \<noteq> 0 \<and>
       dequeue_start_request c = Inr (ReadStream (ic_key c) g (ic_consumer c) (ic_read_id c) (ic_count c) (ic_block_ms c)) \<and>
       ack_start_request c m = Some (msg_key m, g, msg_id m))"
  using resolve_ingressD [OF assms(1)] resolve_key_nonempty [OF assms(2)] assms(3)
    or_default_nonzero [of 1] or_default_nonzero [of 2000]
  by (cases "ic_mode c"; cases "ic_group c") (auto simp: dequeue_start_request_def ack_start_request_def is_stream_def)

definition sample_attrs :: ingress_attrs where
  "sample_attrs = \<lparr>ia_key = None, ia_mode = Some ''stream'', ia_group = None, ia_xgroup = Some ''g'', ia_consumer = None,
     ia_xconsumer = None, ia_field = None, ia_count = Some 0, ia_block_ms = None, ia_group_start_id = None,
     ia_read_id = None, ia_mkstream = None, ia_ack = Some False\<rparr>"

definition sample_config :: ingress_config where
  "sample_config = \<lparr>ic_key = ''spider_redis_start'', ic_mode = ModeStream, ic_group = Some ''g'', ic_consumer = ''spider'',
     ic_field = ''data'', ic_count = 1, ic_block_ms = 2000, ic_group_start_id = ''0'', ic_read_id = ''>'',
     ic_mkstream = True, ic_auto_ack = False\<rparr>"

lemma sample_attrs_resolve: "resolve_redis_ingress sample_attrs ''spider'' None [] = Inr sample_config"
  by (simp add: resolve_redis_ingress_def resolve_mode_def resolve_group_def resolve_key_def resolve_consumer_def
      resolve_str_def resolve_bool_def sample_attrs_def sample_config_def or_default_def str_or_def)

definition sample_message :: stream_message where
  "sample_message = \<lparr>msg_key = ''spider_redis_start'', msg_id = [1], msg_data = [7], msg_fields = [([100], [7])]\<rparr>"

theorem ingress_resolves_readable_witness:
  "ack_start_request sample_config sample_message = Some (''spider_redis_start'', ''g'', [1])"
  using ingress_resolves_readable [OF sample_attrs_resolve, of sample_message]
  by (simp add: sample_config_def sample_message_def ack_start_request_def is_stream_def)

text \<open>One stream read hands on at most the first entry of the reply: when a count above one makes
  Redis deliver several entries, the others are neither returned nor acknowledged.\<close>

theorem stream_reply_drops_rest:
  assumes "flds \<noteq> []"
  shows "\<exists>data. stream_reply utf8 dump key field ((mid, flds) # others) =
      Some \<lparr>msg_key = key, msg_id = mid, msg_data = data, msg_fields = flds\<rparr> \<and>
    (map_of flds (utf8 field) = Some v \<and> field \<noteq> [] \<or> flds = [(k, v)] \<and> (field = [] \<or> utf8 field \<noteq> k) \<longrightarrow> data = v)"
  using assms by (auto simp: stream_reply_def extract_stream_data_def split: option.split)

theorem stream_reply_drops_rest_witness:
  "stream_reply (\<lambda>s. map of_char s) (\<lambda>_. []) ''k'' ''d'' [([1], [([100], [7])]), ([2], [([100], [8])])] =
   Some \<lparr>msg_key = ''k'', msg_id = [1], msg_data = [7], msg_fields = [([100], [7])]\<rparr>"
  using stream_reply_drops_rest [of "[([100], [7])]" "\<lambda>s. map of_char s" "\<lambda>_. []" "''k''" "''d''" "[1]"
      "[([2], [([100], [8])])]" "[7]" "[100]"]
  by (simp add: stream_reply_def extract_stream_data_def)

end
