(* ===== verification/MemoryScheduler.thy ===== *)
theory MemoryScheduler
  imports Sessions DupeFilter Ingress
begin

text \<open>
  The in-memory scheduler (\<open>core/scheduler/base.py\<close>, class \<open>Scheduler\<close>) over the in-memory filter and
  the session manager, with the signals of \<open>core/scheduler/_signals.py\<close>.  A request is the object's
  id with what the schedulers read of it; its fingerprint is the one of \<open>DupeFilter\<close>.
\<close>

section \<open>State\<close>

record sched_request =
  rq_id :: nat
  rq_fp :: string
  rq_session :: string
  rq_dont_filter :: bool
  rq_start_url :: bool

datatype sched_error =
    QueueKeyError string
  | BrokerError
  | EncodeError
  | DecodeError
  | PersistError codec_error
  | RestoreError session_error
  | IngressFault ingress_error

datatype drop_reason = Filtered | InsertError

datatype sched_signal = RequestScheduled sched_request | RequestDropped sched_request drop_reason

record memory_sched =
  ms_settings :: queue_settings
  ms_queues :: "(string, sched_request list) pydict"
  ms_filter :: memory_filter
  ms_sessions :: manager
  ms_signals :: "sched_signal list"

text \<open>\<open>_queue_map\<close>: one queue for each key of the spiders, a class for each as far as given.\<close>

fun queue_map :: "queue_settings \<Rightarrow> string list \<Rightarrow> spider_info list \<Rightarrow> (string, sched_request list) pydict \<Rightarrow>
    (string, sched_request list) pydict" where
  "queue_map settings [] classes acc = acc"
| "queue_map settings (n # ns) classes acc =
     queue_map settings ns (tl classes)
       (dict_setdefault acc (queue_key_for_name settings n (case classes of [] \<Rightarrow> None | c # _ \<Rightarrow> Some c)) [])"

definition memory_sched_init :: "queue_settings \<Rightarrow> string list \<Rightarrow> spider_info list \<Rightarrow> manager \<Rightarrow> memory_sched" where
  "memory_sched_init settings names classes m =
     \<lparr>ms_settings = settings, ms_queues = queue_map settings names classes [], ms_filter = memory_init,
      ms_sessions = m, ms_signals = []\<rparr>"

section \<open>Operations\<close>

definition memory_enqueue :: "memory_sched \<Rightarrow> spider_info \<Rightarrow> sched_request \<Rightarrow> memory_sched \<times> (sched_error + bool)" where
  "memory_enqueue s sp r =
     (let qk = get_queue_key (ms_settings s) sp
      in case map_of (ms_queues s) qk of
           None \<Rightarrow> (s, Inl (QueueKeyError qk))
         | Some q \<Rightarrow>
             (s\<lparr>ms_queues := dict_set (ms_queues s) qk (q @ [r]),
                ms_signals := ms_signals s @ [RequestScheduled r]\<rparr>, Inr True))"

definition memory_put :: "memory_sched \<Rightarrow> spider_info \<Rightarrow> sched_request \<Rightarrow> memory_sched \<times> (sched_error + bool)" where
  "memory_put s sp r =
     (if rq_dont_filter r then memory_enqueue s sp r
      else
        (case memory_seen (ms_filter s) (rq_fp r) of
           (is_seen, f) \<Rightarrow>
             let s1 = s\<lparr>ms_filter := f\<rparr>
             in if \<not> is_seen then memory_enqueue s1 sp r
                else (s1\<lparr>ms_sessions := release (ms_sessions s1) (rq_session r),
                         ms_signals := ms_signals s1 @ [RequestDropped r Filtered]\<rparr>, Inr False)))"

definition memory_put_is_req :: "memory_sched \<Rightarrow> sched_request \<Rightarrow> memory_sched" where
  "memory_put_is_req s r =
     (if rq_dont_filter r then s else s\<lparr>ms_filter := memory_mark (ms_filter s) (rq_fp r)\<rparr>)"

text \<open>\<open>None\<close>: the queue is empty and the caller waits.\<close>

definition memory_get :: "memory_sched \<Rightarrow> spider_info \<Rightarrow> memory_sched \<times> (sched_error + sched_request option)" where
  "memory_get s sp =
     (let qk = get_queue_key (ms_settings s) sp
      in case map_of (ms_queues s) qk of
           None \<Rightarrow> (s, Inl (QueueKeyError qk))
         | Some [] \<Rightarrow> (s, Inr None)
         | Some (r # q) \<Rightarrow> (s\<lparr>ms_queues := dict_set (ms_queues s) qk q\<rparr>, Inr (Some r)))"

definition memory_empty :: "memory_sched \<Rightarrow> spider_info \<Rightarrow> sched_error + bool" where
  "memory_empty s sp =
     (let qk = get_queue_key (ms_settings s) sp
      in case map_of (ms_queues s) qk of None \<Rightarrow> Inl (QueueKeyError qk) | Some q \<Rightarrow> Inr (q = []))"

section \<open>Runs\<close>

datatype memory_op = MPut spider_info sched_request | MGet spider_info | MSent sched_request

text \<open>A run with its accepted requests and the requests handed out, in order.\<close>

fun memory_step :: "memory_sched \<Rightarrow> memory_op \<Rightarrow> memory_sched \<times> sched_request list \<times> sched_request list" where
  "memory_step s (MPut sp r) =
     (case memory_put s sp r of (s', res) \<Rightarrow> (s', (if res = Inr True then [r] else []), []))"
| "memory_step s (MGet sp) =
     (case memory_get s sp of (s', res) \<Rightarrow> (s', [], (case res of Inr (Some r) \<Rightarrow> [r] | _ \<Rightarrow> [])))"
| "memory_step s (MSent r) = (memory_put_is_req s r, [], [])"

fun memory_run :: "memory_sched \<Rightarrow> memory_op list \<Rightarrow> memory_sched \<times> sched_request list \<times> sched_request list" where
  "memory_run s [] = (s, [], [])"
| "memory_run s (op # ops) =
     (case memory_step s op of
        (s1, acc1, got1) \<Rightarrow> (case memory_run s1 ops of (s2, acc2, got2) \<Rightarrow> (s2, acc1 @ acc2, got1 @ got2)))"

definition queued :: "memory_sched \<Rightarrow> sched_request multiset" where
  "queued s = mset (concat (map snd (ms_queues s)))"

text \<open>The calls a run makes on the filter.\<close>

fun filter_op :: "memory_op \<Rightarrow> string df_op list" where
  "filter_op (MPut sp r) = (if rq_dont_filter r then [] else [Check (rq_fp r)])"
| "filter_op (MGet sp) = []"
| "filter_op (MSent r) = (if rq_dont_filter r then [] else [Sent (rq_fp r)])"

abbreviation filtered_fps :: "sched_request list \<Rightarrow> string list" where
  "filtered_fps rs \<equiv> map rq_fp (filter (\<lambda>r. \<not> rq_dont_filter r) rs)"

section \<open>Lemmas\<close>

lemma mset_dict_set:
  "dict_wf d \<Longrightarrow> map_of d k = Some old \<Longrightarrow>
   mset (concat (map snd (dict_set d k new))) + mset old = mset (concat (map snd d)) + mset new"
  by (induction d k new rule: dict_set.induct) (auto split: if_splits)

lemma queue_map_wf [simp]: "dict_wf acc \<Longrightarrow> dict_wf (queue_map settings ns classes acc)"
  by (induction settings ns classes acc rule: queue_map.induct) (simp_all add: dict_wf_setdefault)

lemma queue_map_empty: "\<forall>q \<in> snd ` set acc. q = [] \<Longrightarrow> \<forall>q \<in> snd ` set (queue_map settings ns classes acc). q = []"
proof (induction settings ns classes acc rule: queue_map.induct)
  case (2 settings n ns classes acc)
  show ?case unfolding queue_map.simps
    by (rule "2.IH") (use "2.prems" in \<open>auto simp: dict_setdefault_def split: option.splits\<close>)
qed simp

lemma memory_sched_init_wf: "dict_wf (ms_queues (memory_sched_init settings names classes m))"
  by (simp add: memory_sched_init_def)

lemma memory_sched_init_queued: "queued (memory_sched_init settings names classes m) = {#}"
proof -
  have "concat (map snd (queue_map settings names classes [])) = []"
    using queue_map_empty [of "[]" settings names classes] by (auto simp: concat_eq_Nil_conv)
  then show ?thesis by (simp add: queued_def memory_sched_init_def)
qed

lemma memory_enqueue_cases:
  obtains (missing) qk where "memory_enqueue s sp r = (s, Inl (QueueKeyError qk))"
      "map_of (ms_queues s) (get_queue_key (ms_settings s) sp) = None"
  | (added) q where "map_of (ms_queues s) (get_queue_key (ms_settings s) sp) = Some q"
      "memory_enqueue s sp r =
        (s\<lparr>ms_queues := dict_set (ms_queues s) (get_queue_key (ms_settings s) sp) (q @ [r]),
           ms_signals := ms_signals s @ [RequestScheduled r]\<rparr>, Inr True)"
  by (cases "map_of (ms_queues s) (get_queue_key (ms_settings s) sp)") (auto simp: memory_enqueue_def Let_def)

lemma dict_set_keys: "map_of d k = Some v \<Longrightarrow> keys (dict_set d k w) = keys d"
  by (induction d k w rule: dict_set.induct) (auto split: if_splits)

lemma memory_enqueue_effect:
  assumes "memory_enqueue s sp r = (s', res)" and "dict_wf (ms_queues s)"
  shows "dict_wf (ms_queues s')" and "queued s' = queued s + (if res = Inr True then {#r#} else {#})"
    and "ms_filter s' = ms_filter s" and "ms_sessions s' = ms_sessions s" and "keys (ms_queues s') = keys (ms_queues s)"
    and "ms_settings s' = ms_settings s" and "res \<noteq> Inr False"
    and "res = Inr True \<longleftrightarrow> get_queue_key (ms_settings s) sp \<in> set (keys (ms_queues s))"
proof -
  have in_keys: "map_of d k = Some v \<Longrightarrow> k \<in> set (keys d)" for d :: "(string \<times> sched_request list) list" and k v
    by (force dest: map_of_SomeD)
  have all: "dict_wf (ms_queues s') \<and> queued s' = queued s + (if res = Inr True then {#r#} else {#}) \<and>
    ms_filter s' = ms_filter s \<and> ms_sessions s' = ms_sessions s \<and> keys (ms_queues s') = keys (ms_queues s) \<and>
    ms_settings s' = ms_settings s \<and> res \<noteq> Inr False \<and>
    (res = Inr True \<longleftrightarrow> get_queue_key (ms_settings s) sp \<in> set (keys (ms_queues s)))"
  proof (cases rule: memory_enqueue_cases [of s sp r])
    case (missing qk)
    then show ?thesis using assms by (auto simp: map_of_eq_None_iff)
  next
    case (added q)
    have "queued s' + mset q = queued s + mset (q @ [r])"
      using mset_dict_set [OF assms(2) added(1), of "q @ [r]"] added(2) assms(1) by (auto simp: queued_def)
    then have "queued s' = queued s + {#r#}" by simp
    then show ?thesis using added assms dict_set_keys [OF added(1)] in_keys [OF added(1)] by auto
  qed
  show "dict_wf (ms_queues s')" and "queued s' = queued s + (if res = Inr True then {#r#} else {#})"
    and "ms_filter s' = ms_filter s" and "ms_sessions s' = ms_sessions s" and "keys (ms_queues s') = keys (ms_queues s)"
    and "ms_settings s' = ms_settings s" and "res \<noteq> Inr False"
    and "res = Inr True \<longleftrightarrow> get_queue_key (ms_settings s) sp \<in> set (keys (ms_queues s))"
    using all by blast+
qed

definition dropped_of :: "sched_signal list \<Rightarrow> sched_request list" where
  "dropped_of sigs = concat (map (\<lambda>g. case g of RequestDropped r w \<Rightarrow> [r] | RequestScheduled r \<Rightarrow> []) sigs)"

definition scheduled_of :: "sched_signal list \<Rightarrow> sched_request list" where
  "scheduled_of sigs = concat (map (\<lambda>g. case g of RequestScheduled r \<Rightarrow> [r] | RequestDropped r w \<Rightarrow> []) sigs)"

lemma signal_lists [simp]:
  "dropped_of [] = []" "scheduled_of [] = []"
  "dropped_of (xs @ ys) = dropped_of xs @ dropped_of ys" "scheduled_of (xs @ ys) = scheduled_of xs @ scheduled_of ys"
  "dropped_of [RequestScheduled r] = []" "scheduled_of [RequestScheduled r] = [r]"
  "dropped_of [RequestDropped r w] = [r]" "scheduled_of [RequestDropped r w] = []"
  by (simp_all add: dropped_of_def scheduled_of_def)

lemma memory_enqueue_signals:
  "memory_enqueue s sp r = (s', res) \<Longrightarrow>
   ms_signals s' = ms_signals s @ (if res = Inr True then [RequestScheduled r] else [])"
  by (cases rule: memory_enqueue_cases [of s sp r]) auto

text \<open>One put: the filter is asked unless the request bypasses it, and a refused request gives its
  session reference back.\<close>

lemma memory_put_effect:
  assumes "memory_put s sp r = (s', res)" and "dict_wf (ms_queues s)"
    and "get_queue_key (ms_settings s) sp \<in> set (keys (ms_queues s))"
  defines "seen \<equiv> \<not> rq_dont_filter r \<and> fst (memory_seen (ms_filter s) (rq_fp r))"
  shows "res = Inr (\<not> seen)" and "queued s' = queued s + (if seen then {#} else {#r#})"
    and "dict_wf (ms_queues s')" and "keys (ms_queues s') = keys (ms_queues s)" and "ms_settings s' = ms_settings s"
    and "ms_filter s' = (if rq_dont_filter r then ms_filter s else snd (memory_seen (ms_filter s) (rq_fp r)))"
    and "ms_sessions s' = (if seen then release (ms_sessions s) (rq_session r) else ms_sessions s)"
    and "ms_signals s' = ms_signals s @ [if seen then RequestDropped r Filtered else RequestScheduled r]"
proof -
  have *: "res = Inr True \<and> queued s' = queued t + {#r#} \<and> dict_wf (ms_queues s') \<and> keys (ms_queues s') = keys (ms_queues t) \<and>
      ms_settings s' = ms_settings t \<and> ms_filter s' = ms_filter t \<and> ms_sessions s' = ms_sessions t \<and>
      ms_signals s' = ms_signals t @ [RequestScheduled r]"
    if "memory_enqueue t sp r = (s', res)" "ms_settings t = ms_settings s" "ms_queues t = ms_queues s" for t
  proof -
    have wf: "dict_wf (ms_queues t)" and key: "get_queue_key (ms_settings t) sp \<in> set (keys (ms_queues t))"
      using assms(2,3) that by simp_all
    have t: "res = Inr True" using memory_enqueue_effect(8) [OF that(1) wf] key by blast
    show ?thesis
      using memory_enqueue_effect(1-6) [OF that(1) wf] memory_enqueue_signals [OF that(1)] t by simp
  qed
  obtain is_seen f where f: "memory_seen (ms_filter s) (rq_fp r) = (is_seen, f)" by fastforce
  let ?t = "s\<lparr>ms_filter := f\<rparr>"
  have q: "queued ?t = queued s" by (simp add: queued_def)
  consider (bypass) "rq_dont_filter r" | (dup) "\<not> rq_dont_filter r" "is_seen" | (new) "\<not> rq_dont_filter r" "\<not> is_seen" by blast
  then have "res = Inr (\<not> seen) \<and> queued s' = queued s + (if seen then {#} else {#r#}) \<and> dict_wf (ms_queues s') \<and>
    keys (ms_queues s') = keys (ms_queues s) \<and> ms_settings s' = ms_settings s \<and>
    ms_filter s' = (if rq_dont_filter r then ms_filter s else snd (memory_seen (ms_filter s) (rq_fp r))) \<and>
    ms_sessions s' = (if seen then release (ms_sessions s) (rq_session r) else ms_sessions s) \<and>
    ms_signals s' = ms_signals s @ [if seen then RequestDropped r Filtered else RequestScheduled r]"
  proof cases
    case bypass
    then show ?thesis using * [of s] assms(1,2) by (simp add: memory_put_def seen_def)
  next
    case dup
    then have "s' = ?t\<lparr>ms_sessions := release (ms_sessions ?t) (rq_session r),
        ms_signals := ms_signals ?t @ [RequestDropped r Filtered]\<rparr>" "res = Inr False"
      using assms(1) f by (simp_all add: memory_put_def Let_def)
    then show ?thesis using dup f assms(2) by (simp add: seen_def queued_def)
  next
    case new
    then show ?thesis using * [of ?t] assms(1,2) f q by (simp add: memory_put_def Let_def seen_def)
  qed
  then show "res = Inr (\<not> seen)" and "queued s' = queued s + (if seen then {#} else {#r#})"
    and "dict_wf (ms_queues s')" and "keys (ms_queues s') = keys (ms_queues s)" and "ms_settings s' = ms_settings s"
    and "ms_filter s' = (if rq_dont_filter r then ms_filter s else snd (memory_seen (ms_filter s) (rq_fp r)))"
    and "ms_sessions s' = (if seen then release (ms_sessions s) (rq_session r) else ms_sessions s)"
    and "ms_signals s' = ms_signals s @ [if seen then RequestDropped r Filtered else RequestScheduled r]"
    by blast+
qed

lemma memory_get_effect:
  assumes "memory_get s sp = (s', res)" and "dict_wf (ms_queues s)"
  shows "dict_wf (ms_queues s')" and "keys (ms_queues s') = keys (ms_queues s)" and "ms_settings s' = ms_settings s"
    and "ms_filter s' = ms_filter s" and "ms_sessions s' = ms_sessions s" and "ms_signals s' = ms_signals s"
    and "queued s = queued s' + mset (case res of Inr (Some r) \<Rightarrow> [r] | _ \<Rightarrow> [])"
proof -
  let ?k = "get_queue_key (ms_settings s) sp"
  have all: "dict_wf (ms_queues s') \<and> keys (ms_queues s') = keys (ms_queues s) \<and> ms_settings s' = ms_settings s \<and>
    ms_filter s' = ms_filter s \<and> ms_sessions s' = ms_sessions s \<and> ms_signals s' = ms_signals s \<and>
    queued s = queued s' + mset (case res of Inr (Some r) \<Rightarrow> [r] | _ \<Rightarrow> [])"
  proof (cases "map_of (ms_queues s) ?k")
    case None
    then show ?thesis using assms by (auto simp: memory_get_def Let_def)
  next
    case (Some q)
    note k = dict_set_keys [OF Some]
    show ?thesis
    proof (cases q)
      case Nil
      then show ?thesis using assms Some by (auto simp: memory_get_def Let_def)
    next
      case (Cons r rest)
      have "queued s' + mset q = queued s + mset rest"
        using mset_dict_set [OF assms(2) Some, of rest] assms(1) Some Cons
        by (auto simp: memory_get_def Let_def queued_def)
      then show ?thesis using assms Some Cons k by (auto simp: memory_get_def Let_def)
    qed
  qed
  show "dict_wf (ms_queues s')" and "keys (ms_queues s') = keys (ms_queues s)" and "ms_settings s' = ms_settings s"
    and "ms_filter s' = ms_filter s" and "ms_sessions s' = ms_sessions s" and "ms_signals s' = ms_signals s"
    and "queued s = queued s' + mset (case res of Inr (Some r) \<Rightarrow> [r] | _ \<Rightarrow> [])"
    using all by blast+
qed

section \<open>Runs\<close>

fun op_spider :: "memory_op \<Rightarrow> spider_info option" where
  "op_spider (MPut sp r) = Some sp"
| "op_spider _ = None"

definition ops_known :: "memory_sched \<Rightarrow> memory_op list \<Rightarrow> bool" where
  "ops_known s ops \<longleftrightarrow>
     list_all (\<lambda>op. case op_spider op of None \<Rightarrow> True
                | Some sp \<Rightarrow> get_queue_key (ms_settings s) sp \<in> set (keys (ms_queues s))) ops"

lemma df_run_append:
  "df_run seen mark s (xs @ ys) =
     (case df_run seen mark s xs of (adm, s1) \<Rightarrow> (case df_run seen mark s1 ys of (adm2, s2) \<Rightarrow> (adm @ adm2, s2)))"
proof (induction xs arbitrary: s)
  case (Cons x xs)
  show ?case by (cases x) (auto simp: Cons.IH split: prod.splits)
qed (simp split: prod.splits)

lemma memory_step_effect:
  assumes "memory_step s op = (s1, acc, got)" and "dict_wf (ms_queues s)" and "ops_known s [op]"
  shows "dict_wf (ms_queues s1) \<and> keys (ms_queues s1) = keys (ms_queues s) \<and> ms_settings s1 = ms_settings s"
    and "queued s + mset acc = queued s1 + mset got"
    and "df_run memory_seen memory_mark (ms_filter s) (filter_op op) = (filtered_fps acc, ms_filter s1)"
    and "\<exists>drops. scheduled_of (ms_signals s1) = scheduled_of (ms_signals s) @ acc \<and>
      dropped_of (ms_signals s1) = dropped_of (ms_signals s) @ drops \<and>
      ms_sessions s1 = foldl release (ms_sessions s) (map rq_session drops)"
proof -
  have "(dict_wf (ms_queues s1) \<and> keys (ms_queues s1) = keys (ms_queues s) \<and> ms_settings s1 = ms_settings s) \<and>
    queued s + mset acc = queued s1 + mset got \<and>
    df_run memory_seen memory_mark (ms_filter s) (filter_op op) = (filtered_fps acc, ms_filter s1) \<and>
    (\<exists>drops. scheduled_of (ms_signals s1) = scheduled_of (ms_signals s) @ acc \<and>
      dropped_of (ms_signals s1) = dropped_of (ms_signals s) @ drops \<and>
      ms_sessions s1 = foldl release (ms_sessions s) (map rq_session drops))"
  proof (cases op)
    case (MPut sp r)
    obtain res where put: "memory_put s sp r = (s1, res)" and acc: "acc = (if res = Inr True then [r] else [])" "got = []"
      using assms(1) MPut by (cases "memory_put s sp r") auto
    have key: "get_queue_key (ms_settings s) sp \<in> set (keys (ms_queues s))" using assms(3) MPut by (simp add: ops_known_def)
    note e = memory_put_effect [OF put assms(2) key]
    let ?seen = "\<not> rq_dont_filter r \<and> fst (memory_seen (ms_filter s) (rq_fp r))"
    have "df_run memory_seen memory_mark (ms_filter s) (filter_op op) = (filtered_fps acc, ms_filter s1)"
      using e(1,6) MPut acc by (cases "memory_seen (ms_filter s) (rq_fp r)") auto
    moreover have "\<exists>drops. scheduled_of (ms_signals s1) = scheduled_of (ms_signals s) @ acc \<and>
      dropped_of (ms_signals s1) = dropped_of (ms_signals s) @ drops \<and>
      ms_sessions s1 = foldl release (ms_sessions s) (map rq_session drops)"
    proof (cases ?seen)
      case True
      then show ?thesis using e(1,7,8) acc by (intro exI [of _ "[r]"]) simp
    next
      case False
      then show ?thesis using e(1,7,8) acc by (intro exI [of _ "[]"]) simp
    qed
    moreover have "queued s + mset acc = queued s1 + mset got" using e(1,2) acc by auto
    ultimately show ?thesis using e(3,4,5) by blast
  next
    case (MGet sp)
    obtain res where get: "memory_get s sp = (s1, res)" and "acc = []"
      and got: "got = (case res of Inr (Some r) \<Rightarrow> [r] | _ \<Rightarrow> [])"
      using assms(1) MGet by (cases "memory_get s sp") auto
    then show ?thesis using memory_get_effect [OF get assms(2)] MGet
      by (intro conjI exI [of _ "[]"]) simp_all
  next
    case (MSent r)
    then show ?thesis using assms by (auto simp: memory_put_is_req_def queued_def intro: exI [of _ "[]"])
  qed
  then show "dict_wf (ms_queues s1) \<and> keys (ms_queues s1) = keys (ms_queues s) \<and> ms_settings s1 = ms_settings s"
    and "queued s + mset acc = queued s1 + mset got"
    and "df_run memory_seen memory_mark (ms_filter s) (filter_op op) = (filtered_fps acc, ms_filter s1)"
    and "\<exists>drops. scheduled_of (ms_signals s1) = scheduled_of (ms_signals s) @ acc \<and>
      dropped_of (ms_signals s1) = dropped_of (ms_signals s) @ drops \<and>
      ms_sessions s1 = foldl release (ms_sessions s) (map rq_session drops)"
    by blast+
qed

lemma ops_known_Cons: "ops_known s (op # ops) \<longleftrightarrow> ops_known s [op] \<and> ops_known s ops"
  by (simp add: ops_known_def)

lemma ops_known_cong:
  "keys (ms_queues t) = keys (ms_queues s) \<Longrightarrow> ms_settings t = ms_settings s \<Longrightarrow> ops_known t ops = ops_known s ops"
  by (simp only: ops_known_def)

lemma memory_run_effect:
  assumes "memory_run s ops = (s', acc, got)" and "dict_wf (ms_queues s)" and "ops_known s ops"
  shows "queued s + mset acc = queued s' + mset got \<and>
    df_run memory_seen memory_mark (ms_filter s) (concat (map filter_op ops)) = (filtered_fps acc, ms_filter s') \<and>
    (\<exists>drops. scheduled_of (ms_signals s') = scheduled_of (ms_signals s) @ acc \<and>
      dropped_of (ms_signals s') = dropped_of (ms_signals s) @ drops \<and>
      ms_sessions s' = foldl release (ms_sessions s) (map rq_session drops))"
  using assms
proof (induction ops arbitrary: s acc got)
  case Nil
  then show ?case by (auto intro: exI [of _ "[]"])
next
  case (Cons op ops)
  obtain s1 acc1 got1 where st: "memory_step s op = (s1, acc1, got1)" by (metis prod_cases3)
  obtain acc2 got2 where run: "memory_run s1 ops = (s', acc2, got2)" and acc: "acc = acc1 @ acc2" "got = got1 @ got2"
    using Cons.prems(1) st by (auto split: prod.splits)
  have kn: "ops_known s [op]" "ops_known s ops" using Cons.prems(3) by (simp_all add: ops_known_Cons [of s op ops])
  note e = memory_step_effect [OF st Cons.prems(2) kn(1)]
  have IH: "queued s1 + mset acc2 = queued s' + mset got2"
    "df_run memory_seen memory_mark (ms_filter s1) (concat (map filter_op ops)) = (filtered_fps acc2, ms_filter s')"
    "\<exists>drops. scheduled_of (ms_signals s') = scheduled_of (ms_signals s1) @ acc2 \<and>
      dropped_of (ms_signals s') = dropped_of (ms_signals s1) @ drops \<and>
      ms_sessions s' = foldl release (ms_sessions s1) (map rq_session drops)"
    using Cons.IH [OF run] e(1) kn(2) ops_known_cong [of s1 s ops] by blast+
  have "queued s + mset acc1 + mset acc2 = queued s' + mset got1 + mset got2"
    using e(2) IH(1) by (metis add.commute add.left_commute)
  moreover have "df_run memory_seen memory_mark (ms_filter s) (filter_op op @ concat (map filter_op ops)) =
      (filtered_fps (acc1 @ acc2), ms_filter s')"
    unfolding df_run_append e(3) by (simp add: IH(2))
  moreover have "\<exists>drops. scheduled_of (ms_signals s') = scheduled_of (ms_signals s) @ acc1 @ acc2 \<and>
      dropped_of (ms_signals s') = dropped_of (ms_signals s) @ drops \<and>
      ms_sessions s' = foldl release (ms_sessions s) (map rq_session drops)"
    using e(4) IH(3) by (metis append.assoc foldl_append map_append)
  ultimately show ?case by (simp add: acc add.assoc)
qed

section \<open>Properties\<close>

text \<open>C8.  From a fresh in-memory scheduler, over any sequence of puts, gets and sent marks on queues it
  knows: every accepted request is handed out or still queued, once; no fingerprint is accepted twice
  among the requests that do not bypass the filter; the scheduled signals are the accepted requests,
  in order; and the session manager has seen exactly one release for each request that was dropped.\<close>

theorem memory_scheduler_conserves:
  assumes "s = memory_sched_init settings names classes m" and "ops_known s ops"
    and "memory_run s ops = (s', acc, got)"
  shows "mset acc = queued s' + mset got \<and> distinct (filtered_fps acc) \<and> scheduled_of (ms_signals s') = acc \<and>
    ms_sessions s' = foldl release m (map rq_session (dropped_of (ms_signals s')))"
proof -
  have wf: "dict_wf (ms_queues s)" and q: "queued s = {#}"
    using memory_sched_init_wf memory_sched_init_queued assms(1) by simp_all
  have init: "ms_signals s = []" "ms_sessions s = m" by (simp_all add: assms(1) memory_sched_init_def)
  note e = memory_run_effect [OF assms(3) wf assms(2)]
  have "distinct (fst (df_run memory_seen memory_mark (ms_filter s) (concat (map filter_op ops))))"
    by (rule memory_df.admitted_once) simp
  then show ?thesis using e q init by auto
qed

definition sample_spider :: spider_info where
  "sample_spider = \<lparr>sp_name = ''s'', sp_scheduler_queue_key = [], sp_queue_name = [], sp_rabbitmq_queue = [],
     sp_kafka_topic = [], sp_kafka_start_topic = [], sp_kafka_group = [], sp_kafka_start_group = []\<rparr>"

definition sample_queue_settings :: queue_settings where
  "sample_queue_settings = \<lparr>qs_queue_name = [], qs_session_key = [], qs_persist_sessions = False, qs_consumer_group = ''g''\<rparr>"

definition sample_request :: "nat \<Rightarrow> string \<Rightarrow> sched_request" where
  "sample_request i fp = \<lparr>rq_id = i, rq_fp = fp, rq_session = ''u'', rq_dont_filter = False, rq_start_url = False\<rparr>"

theorem memory_scheduler_conserves_witness:
  "\<exists>s' acc. memory_run (memory_sched_init sample_queue_settings [''s''] [] (manager_init ''d''))
      [MPut sample_spider (sample_request 1 ''a''), MPut sample_spider (sample_request 2 ''a''), MGet sample_spider] =
      (s', acc, [sample_request 1 ''a'']) \<and> mset acc = queued s' + {#sample_request 1 ''a''#}"
proof -
  let ?s = "memory_sched_init sample_queue_settings [''s''] [] (manager_init ''d'')"
  let ?ops = "[MPut sample_spider (sample_request 1 ''a''), MPut sample_spider (sample_request 2 ''a''), MGet sample_spider]"
  note defs = memory_sched_init_def sample_queue_settings_def sample_spider_def sample_request_def dict_setdefault_def
    queue_key_for_name_def get_queue_key_def str_or_def Let_def
  obtain s' acc got where run: "memory_run ?s ?ops = (s', acc, got)" by (metis prod_cases3)
  have known: "ops_known ?s ?ops" by (simp add: ops_known_def defs)
  have got: "got = [sample_request 1 ''a'']"
    using run by (auto simp: defs memory_put_def memory_enqueue_def memory_get_def memory_seen_def memory_init_def)
  from memory_scheduler_conserves [OF refl known run] run got show ?thesis by auto
qed

end
