(* ===== verification/LeaseScheduler.thy ===== *)
theory LeaseScheduler
  imports MemoryScheduler SessionLifecycle
begin

text \<open>
  The Redis and RabbitMQ schedulers (\<open>core/scheduler/redis.py\<close>, \<open>rabbitmq.py\<close>): a request popped from
  the broker is leased until it is completed, and unfinished leases go back to the broker at
  shutdown.  The brokers are external: pushes, pops, stream commands and the configured filter are
  arguments over a world \<open>'w\<close>, each returning an error or a value; \<open>transport_ok\<close> says what is needed.
\<close>

section \<open>Environment and state\<close>

datatype start_message = RawStart bytes | StreamStart stream_message

record 'w sched_env =
  en_settings :: queue_settings
  en_attrs :: ingress_attrs
  en_defaults :: "stream_defaults option"
  en_session :: session_env
  en_repr :: "json \<Rightarrow> string"
  en_enc :: "json \<Rightarrow> codec_error + bytes"
  en_dec :: "bytes \<Rightarrow> codec_error + json"
  en_encode :: "sched_request \<Rightarrow> bytes option"
  en_decode :: "bytes \<Rightarrow> nat \<Rightarrow> sched_request option"
  en_push :: "'w \<Rightarrow> string \<Rightarrow> bytes \<Rightarrow> 'w \<times> (sched_error + bool)"
  en_pop :: "'w \<Rightarrow> string \<Rightarrow> 'w \<times> (sched_error + bytes option)"
  en_rpush :: "'w \<Rightarrow> string \<Rightarrow> bytes \<Rightarrow> 'w \<times> (sched_error + bool)"
  en_xadd :: "'w \<Rightarrow> string \<Rightarrow> (bytes, bytes) pydict \<Rightarrow> 'w \<times> (sched_error + unit)"
  en_xack :: "'w \<Rightarrow> string \<times> string \<times> bytes \<Rightarrow> 'w \<times> (sched_error + unit)"
  en_seen :: "'w \<Rightarrow> sched_request \<Rightarrow> 'w \<times> (sched_error + bool)"
  en_delete :: "'w \<Rightarrow> string \<Rightarrow> 'w \<times> (sched_error + nat)"
  en_items :: "'w \<Rightarrow> string \<Rightarrow> bytes list"

record 'w lease_sched =
  ls_world :: 'w
  ls_store :: redis_store
  ls_sessions :: manager
  ls_inflight :: "(nat, sched_request) pydict"
  ls_start :: "(nat, start_message) pydict"
  ls_signals :: "sched_signal list"

text \<open>A step that may raise: the state it leaves, and an error or a value.\<close>

type_synonym ('s, 'a) attempt = "'s \<times> (sched_error + 'a)"

definition and_then :: "('s, 'a) attempt \<Rightarrow> ('s \<Rightarrow> 'a \<Rightarrow> ('s, 'b) attempt) \<Rightarrow> ('s, 'b) attempt" where
  "and_then m f = (case m of (s, Inl e) \<Rightarrow> (s, Inl e) | (s, Inr x) \<Rightarrow> f s x)"

definition on_world :: "'w lease_sched \<Rightarrow> ('w \<Rightarrow> 'w \<times> (sched_error + 'a)) \<Rightarrow> ('w lease_sched, 'a) attempt" where
  "on_world s f = (case f (ls_world s) of (w, r) \<Rightarrow> (s\<lparr>ls_world := w\<rparr>, r))"

section \<open>Operations\<close>

definition lease_queue_key :: "'w sched_env \<Rightarrow> spider_info \<Rightarrow> string" where
  "lease_queue_key env sp = get_queue_key (en_settings env) sp"

definition request_to_bytes ::
  "'w sched_env \<Rightarrow> spider_info \<Rightarrow> 'w lease_sched \<Rightarrow> sched_request \<Rightarrow> ('w lease_sched, bytes) attempt" where
  "request_to_bytes env sp s r =
     and_then
       (if qs_persist_sessions (en_settings env) then
          (case persist_session (en_enc env) (ls_store s) (ls_sessions s)
                  (session_state_key (en_settings env) (lease_queue_key env sp)) (rq_session r) of
             Inl e \<Rightarrow> (s, Inl (PersistError e))
           | Inr (store, m, done) \<Rightarrow> (s\<lparr>ls_store := store, ls_sessions := m\<rparr>, Inr ()))
        else (s, Inr ()))
       (\<lambda>s _. case en_encode env r of None \<Rightarrow> (s, Inl EncodeError) | Some b \<Rightarrow> (s, Inr b))"

definition resolve_ingress :: "'w sched_env \<Rightarrow> spider_info \<Rightarrow> ingress_error + ingress_config" where
  "resolve_ingress env sp =
     resolve_redis_ingress (en_attrs env) (sp_name sp) (en_defaults env) (qs_queue_name (en_settings env))"

definition ack_start_req ::
  "'w sched_env \<Rightarrow> spider_info \<Rightarrow> 'w lease_sched \<Rightarrow> stream_message \<Rightarrow> ('w lease_sched, unit) attempt" where
  "ack_start_req env sp s message =
     (case resolve_ingress env sp of
        Inl e \<Rightarrow> (s, Inl (IngressFault e))
      | Inr ingress \<Rightarrow>
          (case ack_start_request ingress message of
             None \<Rightarrow> (s, Inr ())
           | Some a \<Rightarrow> on_world s (\<lambda>w. en_xack env w a)))"

definition attach_start_req :: "'w lease_sched \<Rightarrow> nat \<Rightarrow> start_message \<Rightarrow> 'w lease_sched" where
  "attach_start_req s i message = s\<lparr>ls_start := dict_set (ls_start s) i message\<rparr>"

definition complete_start_request ::
  "'w sched_env \<Rightarrow> spider_info \<Rightarrow> 'w lease_sched \<Rightarrow> sched_request \<Rightarrow> ('w lease_sched, unit) attempt" where
  "complete_start_request env sp s r =
     (let s1 = s\<lparr>ls_start := dict_pop (ls_start s) (rq_id r)\<rparr>
      in case map_of (ls_start s) (rq_id r) of
           Some (StreamStart message) \<Rightarrow> ack_start_req env sp s1 message
         | _ \<Rightarrow> (s1, Inr ()))"

text \<open>The insertion both branches of \<open>put\<close> share; \<open>push\<close> is the broker's.\<close>

definition lease_insert ::
  "'w sched_env \<Rightarrow> spider_info \<Rightarrow> 'w lease_sched \<Rightarrow> sched_request \<Rightarrow> ('w lease_sched, bool) attempt" where
  "lease_insert env sp s r =
     and_then (request_to_bytes env sp s r) (\<lambda>s request_bytes.
     and_then (on_world s (\<lambda>w. en_push env w (lease_queue_key env sp) request_bytes)) (\<lambda>s res.
       if res then
         and_then (complete_start_request env sp s r) (\<lambda>s _.
           (s\<lparr>ls_signals := ls_signals s @ [RequestScheduled r]\<rparr>, Inr True))
       else
         (s\<lparr>ls_sessions := release (ls_sessions s) (rq_session r),
            ls_signals := ls_signals s @ [RequestDropped r InsertError]\<rparr>, Inr False)))"

definition lease_put ::
  "'w sched_env \<Rightarrow> spider_info \<Rightarrow> 'w lease_sched \<Rightarrow> sched_request \<Rightarrow> ('w lease_sched, bool) attempt" where
  "lease_put env sp s r =
     (if rq_dont_filter r \<or> rq_start_url r then lease_insert env sp s r
      else
        and_then (on_world s (\<lambda>w. en_seen env w r)) (\<lambda>s is_seen.
          if is_seen then
            (s\<lparr>ls_sessions := release (ls_sessions s) (rq_session r),
               ls_signals := ls_signals s @ [RequestDropped r Filtered]\<rparr>, Inr False)
          else lease_insert env sp s r))"

text \<open>\<open>oid\<close> is the id of the object that decoding makes; \<open>None\<close>: the broker had nothing.\<close>

definition lease_get ::
  "'w sched_env \<Rightarrow> spider_info \<Rightarrow> nat \<Rightarrow> 'w lease_sched \<Rightarrow> ('w lease_sched, sched_request option) attempt" where
  "lease_get env sp oid s =
     and_then (on_world s (\<lambda>w. en_pop env w (lease_queue_key env sp))) (\<lambda>s popped.
       case popped of
         None \<Rightarrow> (s, Inr None)
       | Some request_bytes \<Rightarrow>
           (case en_decode env request_bytes oid of
              None \<Rightarrow> (s, Inl DecodeError)
            | Some r \<Rightarrow>
                and_then
                  (if qs_persist_sessions (en_settings env) then
                     (case restore_session (en_session env) (en_repr env) (en_dec env) (ls_store s) (ls_sessions s)
                             (session_state_key (en_settings env) (lease_queue_key env sp)) (rq_session r) of
                        (m, Inl e) \<Rightarrow> (s\<lparr>ls_sessions := m\<rparr>, Inl (RestoreError e))
                      | (m, Inr restored) \<Rightarrow> (s\<lparr>ls_sessions := m\<rparr>, Inr ()))
                   else (s, Inr ()))
                  (\<lambda>s _. (s\<lparr>ls_inflight := dict_set (ls_inflight s) (rq_id r) r\<rparr>, Inr (Some r)))))"

definition lease_complete :: "'w lease_sched \<Rightarrow> nat \<Rightarrow> 'w lease_sched" where
  "lease_complete s i = s\<lparr>ls_inflight := dict_pop (ls_inflight s) i\<rparr>"

text \<open>The first loop of \<open>requeue_inflight\<close>, over a copy of the leases; it counts what went back.\<close>

fun requeue_leases ::
  "'w sched_env \<Rightarrow> spider_info \<Rightarrow> 'w lease_sched \<Rightarrow> (nat \<times> sched_request) list \<Rightarrow> nat \<Rightarrow> ('w lease_sched, nat) attempt" where
  "requeue_leases env sp s [] requeued = (s, Inr requeued)"
| "requeue_leases env sp s ((request_id, r) # rest) requeued =
     and_then (request_to_bytes env sp s r) (\<lambda>s request_bytes.
     and_then (on_world s (\<lambda>w. en_push env w (lease_queue_key env sp) request_bytes)) (\<lambda>s ok.
       if ok then
         requeue_leases env sp (s\<lparr>ls_inflight := dict_pop (ls_inflight s) request_id\<rparr>) rest (requeued + 1)
       else requeue_leases env sp s rest requeued))"

text \<open>Redis: a stream message is added again and acknowledged, a raw one pushed; both then leave.\<close>

fun redis_requeue_starts ::
  "'w sched_env \<Rightarrow> spider_info \<Rightarrow> ingress_config \<Rightarrow> 'w lease_sched \<Rightarrow> (nat \<times> start_message) list \<Rightarrow> nat \<Rightarrow>
   ('w lease_sched, nat) attempt" where
  "redis_requeue_starts env sp ingress s [] requeued = (s, Inr requeued)"
| "redis_requeue_starts env sp ingress s ((request_id, message) # rest) requeued =
     and_then
       (case message of
          StreamStart m \<Rightarrow>
            and_then (on_world s (\<lambda>w. en_xadd env w (msg_key m) (msg_fields m))) (\<lambda>s _. ack_start_req env sp s m)
        | RawStart b \<Rightarrow>
            and_then (on_world s (\<lambda>w. en_rpush env w (ic_key ingress) b)) (\<lambda>s _. (s, Inr ())))
       (\<lambda>s _. redis_requeue_starts env sp ingress (s\<lparr>ls_start := dict_pop (ls_start s) request_id\<rparr>) rest (requeued + 1))"

definition redis_requeue_inflight ::
  "'w sched_env \<Rightarrow> spider_info \<Rightarrow> 'w lease_sched \<Rightarrow> ('w lease_sched, nat) attempt" where
  "redis_requeue_inflight env sp s =
     and_then (requeue_leases env sp s (ls_inflight s) 0) (\<lambda>s requeued.
       if ls_start s = [] then (s, Inr requeued)
       else (case resolve_ingress env sp of
               Inl e \<Rightarrow> (s, Inl (IngressFault e))
             | Inr ingress \<Rightarrow> redis_requeue_starts env sp ingress s (ls_start s) requeued))"

text \<open>RabbitMQ: a start message stays when the broker does not take it.\<close>

fun rabbit_requeue_starts ::
  "'w sched_env \<Rightarrow> spider_info \<Rightarrow> 'w lease_sched \<Rightarrow> (nat \<times> bytes) list \<Rightarrow> nat \<Rightarrow> ('w lease_sched, nat) attempt" where
  "rabbit_requeue_starts env sp s [] requeued = (s, Inr requeued)"
| "rabbit_requeue_starts env sp s ((request_id, message) # rest) requeued =
     and_then (on_world s (\<lambda>w. en_push env w (rabbit_start_queue (en_settings env) sp) message)) (\<lambda>s ok.
       if ok then rabbit_requeue_starts env sp (s\<lparr>ls_start := dict_pop (ls_start s) request_id\<rparr>) rest (requeued + 1)
       else rabbit_requeue_starts env sp s rest requeued)"

definition raw_starts :: "'w lease_sched \<Rightarrow> (nat \<times> bytes) list" where
  "raw_starts s = concat (map (\<lambda>(i, m). case m of RawStart b \<Rightarrow> [(i, b)] | StreamStart _ \<Rightarrow> []) (ls_start s))"

definition rabbit_requeue_inflight ::
  "'w sched_env \<Rightarrow> spider_info \<Rightarrow> 'w lease_sched \<Rightarrow> ('w lease_sched, nat) attempt" where
  "rabbit_requeue_inflight env sp s =
     and_then (requeue_leases env sp s (ls_inflight s) 0) (\<lambda>s requeued.
       rabbit_requeue_starts env sp s (raw_starts s) requeued)"

text \<open>\<open>cleanup_redis_state\<close>: the transient keys, deleted in sorted order.\<close>

definition cleanup_state_keys :: "'w sched_env \<Rightarrow> spider_info \<Rightarrow> string list \<Rightarrow> string set" where
  "cleanup_state_keys env sp filter_keys =
     (case ia_key (en_attrs env) of Some (c # cs) \<Rightarrow> {c # cs} | _ \<Rightarrow> {}) \<union>
     {lease_queue_key env sp, session_state_key (en_settings env) (lease_queue_key env sp)} \<union> set filter_keys"

fun delete_keys :: "'w sched_env \<Rightarrow> 'w lease_sched \<Rightarrow> string list \<Rightarrow> nat \<Rightarrow> ('w lease_sched, nat) attempt" where
  "delete_keys env s [] deleted = (s, Inr deleted)"
| "delete_keys env s (k # ks) deleted =
     and_then (on_world s (\<lambda>w. en_delete env w k)) (\<lambda>s n. delete_keys env s ks (deleted + n))"

definition cleanup_redis_state ::
  "'w sched_env \<Rightarrow> spider_info \<Rightarrow> 'w lease_sched \<Rightarrow> string list \<Rightarrow> ('w lease_sched, nat) attempt" where
  "cleanup_redis_state env sp s filter_keys =
     delete_keys env s (sorted_list_of_set (cleanup_state_keys env sp filter_keys)) 0"

section \<open>What the brokers promise\<close>

text \<open>
  A push that succeeds appends to its queue, one that is refused changes nothing, and one that raises
  may have done either; a pop takes the head, and one that raises may have taken it; the stream
  commands and the filter leave the request queue alone.  An encoded request decodes to one that
  encodes the same.
\<close>

definition push_ok :: "('w \<Rightarrow> string \<Rightarrow> bytes list) \<Rightarrow> ('w \<Rightarrow> string \<Rightarrow> bytes \<Rightarrow> 'w \<times> (sched_error + bool)) \<Rightarrow> bool" where
  "push_ok items push \<longleftrightarrow>
     (\<forall>w k b w' res. push w k b = (w', res) \<longrightarrow>
        (\<forall>k'. k' \<noteq> k \<longrightarrow> items w' k' = items w k') \<and>
        (items w' k = items w k @ [b] \<or> res \<noteq> Inr True \<and> items w' k = items w k))"

definition pop_ok :: "('w \<Rightarrow> string \<Rightarrow> bytes list) \<Rightarrow> ('w \<Rightarrow> string \<Rightarrow> 'w \<times> (sched_error + bytes option)) \<Rightarrow> bool" where
  "pop_ok items pop \<longleftrightarrow>
     (\<forall>w k w' res. pop w k = (w', res) \<longrightarrow>
        (case res of Inr (Some b) \<Rightarrow> items w k = b # items w' k
         | Inr None \<Rightarrow> items w' k = items w k
         | Inl e \<Rightarrow> items w' k = items w k \<or> items w' k = tl (items w k)))"

definition transport_ok :: "'w sched_env \<Rightarrow> string \<Rightarrow> bool" where
  "transport_ok env qk \<longleftrightarrow>
     push_ok (en_items env) (en_push env) \<and> push_ok (en_items env) (en_rpush env) \<and> pop_ok (en_items env) (en_pop env) \<and>
     (\<forall>w k f. en_items env (fst (en_xadd env w k f)) qk = en_items env w qk) \<and>
     (\<forall>w a. en_items env (fst (en_xack env w a)) qk = en_items env w qk) \<and>
     (\<forall>w r. en_items env (fst (en_seen env w r)) qk = en_items env w qk)"

definition codec_ok :: "'w sched_env \<Rightarrow> bool" where
  "codec_ok env \<longleftrightarrow>
     (\<forall>r b oid. en_encode env r = Some b \<longrightarrow>
        (\<exists>r'. en_decode env b oid = Some r' \<and> rq_id r' = oid \<and> en_encode env r' = Some b))"

definition env_fits :: "'w sched_env \<Rightarrow> spider_info \<Rightarrow> bool" where
  "env_fits env sp \<longleftrightarrow> transport_ok env (lease_queue_key env sp) \<and> codec_ok env \<and>
     rabbit_start_queue (en_settings env) sp \<noteq> lease_queue_key env sp \<and>
     (case resolve_ingress env sp of Inl _ \<Rightarrow> True | Inr c \<Rightarrow> ic_key c \<noteq> lease_queue_key env sp)"

section \<open>What is held\<close>

definition queue_items :: "'w sched_env \<Rightarrow> spider_info \<Rightarrow> 'w lease_sched \<Rightarrow> bytes list" where
  "queue_items env sp s = en_items env (ls_world s) (lease_queue_key env sp)"

definition payload :: "'w sched_env \<Rightarrow> sched_request \<Rightarrow> bytes" where
  "payload env r = the (en_encode env r)"

text \<open>The payloads the scheduler answers for: queued ones and leased ones.\<close>

definition held :: "'w sched_env \<Rightarrow> spider_info \<Rightarrow> 'w lease_sched \<Rightarrow> bytes multiset" where
  "held env sp s = mset (queue_items env sp s) + mset (map (payload env \<circ> snd) (ls_inflight s))"

definition lease_inv :: "'w sched_env \<Rightarrow> spider_info \<Rightarrow> 'w lease_sched \<Rightarrow> bool" where
  "lease_inv env sp s \<longleftrightarrow> dict_wf (ls_inflight s) \<and> (\<forall>p \<in> set (ls_inflight s). rq_id (snd p) = fst p \<and> en_encode env (snd p) \<noteq> None) \<and>
     (\<forall>b \<in> set (queue_items env sp s). \<exists>r. en_encode env r = Some b)"

lemma and_then_Inr:
  "and_then m f = (s', Inr y) \<longleftrightarrow> (\<exists>s x. m = (s, Inr x) \<and> f s x = (s', Inr y))"
  by (cases m; cases "snd m") (auto simp: and_then_def)

lemma and_then_cases:
  assumes "and_then m f = (s', res)"
  obtains (raised) e where "m = (s', Inl e)" "res = Inl e"
  | (went_on) s x where "m = (s, Inr x)" "f s x = (s', res)"
  using assms by (cases m; cases "snd m") (auto simp: and_then_def)

lemma on_world_effect:
  assumes "on_world s f = (s', res)"
  obtains w where "f (ls_world s) = (w, res)" "s' = s\<lparr>ls_world := w\<rparr>"
  using assms by (cases "f (ls_world s)") (auto simp: on_world_def)

lemma transport_okD:
  assumes "transport_ok env qk"
  shows "push_ok (en_items env) (en_push env)" "push_ok (en_items env) (en_rpush env)" "pop_ok (en_items env) (en_pop env)"
    "en_items env (fst (en_xadd env w k f)) qk = en_items env w qk"
    "en_items env (fst (en_xack env w a)) qk = en_items env w qk"
    "en_items env (fst (en_seen env w r)) qk = en_items env w qk"
  using assms unfolding transport_ok_def by blast+

text \<open>The steps that touch neither the queue nor the leases.\<close>

definition frames :: "'w sched_env \<Rightarrow> spider_info \<Rightarrow> 'w lease_sched \<Rightarrow> 'w lease_sched \<Rightarrow> bool" where
  "frames env sp s s' \<longleftrightarrow> queue_items env sp s' = queue_items env sp s \<and> ls_inflight s' = ls_inflight s"

lemma frames_refl [simp]: "frames env sp s s"
  by (simp add: frames_def)

lemma frames_trans: "frames env sp s t \<Longrightarrow> frames env sp t u \<Longrightarrow> frames env sp s u"
  by (simp add: frames_def)

lemma frames_updates [simp]:
  "frames env sp s (t\<lparr>ls_sessions := m\<rparr>) = frames env sp s t" "frames env sp s (t\<lparr>ls_signals := g\<rparr>) = frames env sp s t"
  "frames env sp s (t\<lparr>ls_start := d\<rparr>) = frames env sp s t" "frames env sp s (t\<lparr>ls_store := h\<rparr>) = frames env sp s t"
  by (simp_all add: frames_def queue_items_def)

lemma frames_held: "frames env sp s s' \<Longrightarrow> held env sp s' = held env sp s \<and> (lease_inv env sp s \<longrightarrow> lease_inv env sp s')"
  by (simp add: frames_def held_def lease_inv_def)

lemma request_to_bytes_effect:
  assumes "request_to_bytes env sp s r = (s', res)"
  shows "frames env sp s s'" and "res = Inr b \<Longrightarrow> en_encode env r = Some b"
  using assms
  by (auto simp: request_to_bytes_def frames_def queue_items_def and_then_def split: if_splits sum.splits option.splits prod.splits)

lemma ack_start_req_frames:
  assumes "transport_ok env (lease_queue_key env sp)" and "ack_start_req env sp s m = (s', res)"
  shows "frames env sp s s'"
proof (cases "resolve_ingress env sp")
  case (Inr c)
  have x: "en_items env (fst (en_xack env w a)) (lease_queue_key env sp) = en_items env w (lease_queue_key env sp)" for w a
    by (rule transport_okD(5) [OF assms(1)])
  show ?thesis
  proof (cases "ack_start_request c m")
    case (Some a)
    then show ?thesis using assms(2) Inr x [of "ls_world s" a]
      by (auto simp: ack_start_req_def on_world_def frames_def queue_items_def split: prod.splits)
  qed (use assms(2) Inr in \<open>simp add: ack_start_req_def\<close>)
qed (use assms(2) in \<open>simp add: ack_start_req_def\<close>)

lemma complete_start_frames:
  assumes "transport_ok env (lease_queue_key env sp)" and "complete_start_request env sp s r = (s', res)"
  shows "frames env sp s s'"
  using assms ack_start_req_frames [OF assms(1), of "s\<lparr>ls_start := dict_pop (ls_start s) (rq_id r)\<rparr>"]
  by (auto simp: complete_start_request_def Let_def frames_def queue_items_def split: option.splits start_message.splits)

text \<open>A push to the request queue, and one elsewhere.\<close>

lemma push_effect:
  assumes "push_ok (en_items env) push" and "on_world s (\<lambda>w. push w k b) = (s', res)"
  shows "ls_inflight s' = ls_inflight s"
    and "k = lease_queue_key env sp \<Longrightarrow>
      queue_items env sp s' = queue_items env sp s @ [b] \<or> res \<noteq> Inr True \<and> queue_items env sp s' = queue_items env sp s"
    and "k \<noteq> lease_queue_key env sp \<Longrightarrow> frames env sp s s'"
proof -
  obtain w where w: "push (ls_world s) k b = (w, res)" "s' = s\<lparr>ls_world := w\<rparr>"
    using on_world_effect [OF assms(2)] by blast
  note law = assms(1) [unfolded push_ok_def, rule_format, OF w(1)]
  show "ls_inflight s' = ls_inflight s" by (simp add: w(2))
  show "k = lease_queue_key env sp \<Longrightarrow>
      queue_items env sp s' = queue_items env sp s @ [b] \<or> res \<noteq> Inr True \<and> queue_items env sp s' = queue_items env sp s"
    using law by (simp add: queue_items_def w(2))
  show "k \<noteq> lease_queue_key env sp \<Longrightarrow> frames env sp s s'"
    using law by (simp add: queue_items_def frames_def w(2))
qed

text \<open>What a put does: the leases stay, and the payload is appended unless the put failed.\<close>

definition put_effect :: "'w sched_env \<Rightarrow> spider_info \<Rightarrow> sched_request \<Rightarrow> 'w lease_sched \<Rightarrow> 'w lease_sched \<Rightarrow> (sched_error + bool) \<Rightarrow> bool" where
  "put_effect env sp r s s' res \<longleftrightarrow> ls_inflight s' = ls_inflight s \<and>
     (queue_items env sp s' = queue_items env sp s @ [payload env r] \<and> en_encode env r \<noteq> None \<or>
      res \<noteq> Inr True \<and> queue_items env sp s' = queue_items env sp s)"

lemma put_effect_frames: "frames env sp s s' \<Longrightarrow> res \<noteq> Inr True \<Longrightarrow> put_effect env sp r s s' res"
  by (simp add: put_effect_def frames_def)

lemma put_effect_trans: "frames env sp s t \<Longrightarrow> put_effect env sp r t s' res \<Longrightarrow> put_effect env sp r s s' res"
  by (simp add: put_effect_def frames_def)

lemma lease_insert_effect:
  assumes tr: "transport_ok env (lease_queue_key env sp)" and "lease_insert env sp s r = (s', res)"
  shows "put_effect env sp r s s' res"
  using assms(2) unfolding lease_insert_def
proof (cases rule: and_then_cases)
  case (raised e)
  then show ?thesis using request_to_bytes_effect(1) put_effect_frames by fastforce
next
  case (went_on t b)
  have t: "frames env sp s t" and b: "en_encode env r = Some b"
    using request_to_bytes_effect [OF went_on(1)] by simp_all
  have "put_effect env sp r t s' res"
    using went_on(2)
  proof (cases rule: and_then_cases)
    case (raised e)
    then show ?thesis using push_effect(1) [OF transport_okD(1) [OF tr] raised(1)]
        push_effect(2) [OF transport_okD(1) [OF tr] raised(1), of sp] b
      by (auto simp: put_effect_def payload_def)
  next
    case push: (went_on u ok)
    note p = push_effect(1) [OF transport_okD(1) [OF tr] push(1)] push_effect(2) [OF transport_okD(1) [OF tr] push(1), of sp]
    show ?thesis
    proof (cases ok)
      case True
      have u: "put_effect env sp r t u (Inr True)" using p True b by (simp add: put_effect_def payload_def)
      have "frames env sp u s'"
        using push(2) unfolding if_P [OF True]
        by (cases rule: and_then_cases) (auto dest: complete_start_frames [OF tr])
      then show ?thesis using u by (auto simp: put_effect_def frames_def)
    next
      case False
      then show ?thesis using push(2) p b by (auto simp: put_effect_def payload_def queue_items_def)
    qed
  qed
  then show ?thesis by (rule put_effect_trans [OF t])
qed

lemma lease_put_effect:
  assumes tr: "transport_ok env (lease_queue_key env sp)" and "lease_put env sp s r = (s', res)"
  shows "put_effect env sp r s s' res"
proof (cases "rq_dont_filter r \<or> rq_start_url r")
  case True
  then show ?thesis using assms(2) lease_insert_effect [OF tr] by (simp add: lease_put_def)
next
  case False
  have seen: "frames env sp s t" if "on_world s (\<lambda>w. en_seen env w r) = (t, x)" for t x
    using that transport_okD(6) [OF tr, of "ls_world s" r]
    by (auto simp: on_world_def frames_def queue_items_def split: prod.splits)
  show ?thesis
    using assms(2) unfolding lease_put_def if_not_P [OF False]
  proof (cases rule: and_then_cases)
    case (raised e)
    then show ?thesis using seen put_effect_frames by fastforce
  next
    case (went_on t is_seen)
    note t = seen [OF went_on(1)]
    show ?thesis
    proof (cases is_seen)
      case True
      then show ?thesis using went_on(2) t by (auto intro: put_effect_frames)
    next
      case False
      then show ?thesis using went_on(2) lease_insert_effect [OF tr] put_effect_trans [OF t] by simp
    qed
  qed
qed

lemma put_effect_held:
  assumes "put_effect env sp r s s' res" and "lease_inv env sp s"
  shows "lease_inv env sp s'" and "res = Inr True \<Longrightarrow> held env sp s' = held env sp s + {#payload env r#}"
    and "held env sp s \<subseteq># held env sp s'"
proof -
  consider (app) "queue_items env sp s' = queue_items env sp s @ [payload env r]" "en_encode env r \<noteq> None"
    | (same) "res \<noteq> Inr True" "queue_items env sp s' = queue_items env sp s"
    using assms(1) by (auto simp: put_effect_def)
  moreover have "ls_inflight s' = ls_inflight s" using assms(1) by (simp add: put_effect_def)
  ultimately show "lease_inv env sp s'" and "res = Inr True \<Longrightarrow> held env sp s' = held env sp s + {#payload env r#}"
    and "held env sp s \<subseteq># held env sp s'"
    using assms(2) by (cases; auto simp: lease_inv_def held_def payload_def)+
qed

section \<open>Leases\<close>

lemma mset_values_pop:
  "dict_wf d \<Longrightarrow> map_of d k = Some v \<Longrightarrow> mset (map f d) = mset (map f (dict_pop d k)) + {#f (k, v)#}"
proof (induction d)
  case (Cons p d)
  show ?case
  proof (cases "fst p = k")
    case True
    then have "dict_pop d k = d" using Cons.prems(1) by (intro dict_pop_absent) (auto simp: image_iff)
    then show ?thesis using True Cons.prems(2) by (cases p) (simp add: dict_pop_def)
  next
    case False
    then show ?thesis using Cons by (cases p) (simp add: dict_pop_def)
  qed
qed simp

lemma held_pop:
  assumes "lease_inv env sp s" and "map_of (ls_inflight s) i = Some r"
  shows "held env sp s = held env sp (lease_complete s i) + {#payload env r#}" and "lease_inv env sp (lease_complete s i)"
proof -
  have wf: "dict_wf (ls_inflight s)" using assms(1) by (simp add: lease_inv_def)
  show "held env sp s = held env sp (lease_complete s i) + {#payload env r#}"
    using mset_values_pop [OF wf assms(2), of "payload env \<circ> snd"]
    by (simp add: held_def lease_complete_def queue_items_def)
  show "lease_inv env sp (lease_complete s i)"
    using assms(1) dict_wf_dict_pop [OF wf, of i]
    by (auto simp: lease_inv_def lease_complete_def queue_items_def dict_pop_def)
qed

lemma lease_complete_absent:
  "map_of (ls_inflight s) i = None \<Longrightarrow> lease_complete s i = s"
  by (simp add: lease_complete_def dict_pop_absent map_of_eq_None_iff)

text \<open>A pop and the lease made of it; the id is that of a new object, so it is not leased yet.\<close>

lemma pop_effect:
  assumes "transport_ok env (lease_queue_key env sp)"
    and "on_world s (\<lambda>w. en_pop env w (lease_queue_key env sp)) = (s', res)"
  shows "ls_inflight s' = ls_inflight s"
    and "res = Inr (Some b) \<Longrightarrow> queue_items env sp s = b # queue_items env sp s'"
    and "res = Inr None \<Longrightarrow> queue_items env sp s' = queue_items env sp s"
    and "res = Inl e \<Longrightarrow> queue_items env sp s' = queue_items env sp s \<or> queue_items env sp s' = tl (queue_items env sp s)"
proof -
  obtain w where w: "en_pop env (ls_world s) (lease_queue_key env sp) = (w, res)" "s' = s\<lparr>ls_world := w\<rparr>"
    using on_world_effect [OF assms(2)] by blast
  note law = transport_okD(3) [OF assms(1), unfolded pop_ok_def, rule_format, OF w(1)]
  show "ls_inflight s' = ls_inflight s" by (simp add: w(2))
  show "res = Inr (Some b) \<Longrightarrow> queue_items env sp s = b # queue_items env sp s'"
    and "res = Inr None \<Longrightarrow> queue_items env sp s' = queue_items env sp s"
    and "res = Inl e \<Longrightarrow> queue_items env sp s' = queue_items env sp s \<or> queue_items env sp s' = tl (queue_items env sp s)"
    using law by (simp_all add: queue_items_def w(2))
qed

definition restore_step :: "'w sched_env \<Rightarrow> spider_info \<Rightarrow> 'w lease_sched \<Rightarrow> sched_request \<Rightarrow> ('w lease_sched, unit) attempt" where
  "restore_step env sp s r =
     (if qs_persist_sessions (en_settings env) then
        (case restore_session (en_session env) (en_repr env) (en_dec env) (ls_store s) (ls_sessions s)
                (session_state_key (en_settings env) (lease_queue_key env sp)) (rq_session r) of
           (m, Inl e) \<Rightarrow> (s\<lparr>ls_sessions := m\<rparr>, Inl (RestoreError e))
         | (m, Inr restored) \<Rightarrow> (s\<lparr>ls_sessions := m\<rparr>, Inr ()))
      else (s, Inr ()))"

lemma restore_step_frames: "restore_step env sp s r = (s', res) \<Longrightarrow> frames env sp s s'"
  by (auto simp: restore_step_def split: if_splits prod.splits sum.splits)

lemma lease_get_alt:
  "lease_get env sp oid s =
     and_then (on_world s (\<lambda>w. en_pop env w (lease_queue_key env sp))) (\<lambda>s popped.
       case popped of
         None \<Rightarrow> (s, Inr None)
       | Some request_bytes \<Rightarrow>
           (case en_decode env request_bytes oid of
              None \<Rightarrow> (s, Inl DecodeError)
            | Some r \<Rightarrow> and_then (restore_step env sp s r)
                (\<lambda>s _. (s\<lparr>ls_inflight := dict_set (ls_inflight s) (rq_id r) r\<rparr>, Inr (Some r)))))"
  unfolding lease_get_def restore_step_def ..

lemma lease_get_effect:
  assumes fits: "env_fits env sp" and inv: "lease_inv env sp s" and fresh: "oid \<notin> set (keys (ls_inflight s))"
    and get: "lease_get env sp oid s = (s', res)"
  shows "lease_inv env sp s'" and "res = Inr x \<Longrightarrow> held env sp s' = held env sp s"
    and "held env sp s' \<subseteq># held env sp s"
proof -
  have tr: "transport_ok env (lease_queue_key env sp)" and cod: "codec_ok env" using fits by (simp_all add: env_fits_def)
  have "lease_inv env sp s' \<and> ((\<exists>x. res = Inr x) \<longrightarrow> held env sp s' = held env sp s) \<and> held env sp s' \<subseteq># held env sp s"
    using get unfolding lease_get_alt
  proof (cases rule: and_then_cases)
    case (raised e)
    have tl: "set (tl xs) \<subseteq> set xs" "mset (tl xs) \<subseteq># mset xs" for xs :: "bytes list" by (cases xs; auto)+
    have "ls_inflight s' = ls_inflight s"
      and q: "queue_items env sp s' = queue_items env sp s \<or> queue_items env sp s' = tl (queue_items env sp s)"
      using pop_effect(1,4) [OF tr raised(1)] by simp_all
    then show ?thesis using raised(2) inv tl [of "queue_items env sp s"]
      by (auto simp: lease_inv_def held_def subset_iff)
  next
    case (went_on t popped)
    note p = pop_effect(1-3) [OF tr went_on(1)]
    show ?thesis
    proof (cases popped)
      case None
      then have "s' = t" using went_on(2) by simp
      moreover have "frames env sp s t" using p None by (simp add: frames_def)
      ultimately show ?thesis using frames_held inv by fastforce
    next
      case (Some b)
      have q: "queue_items env sp s = b # queue_items env sp t" using p(2) Some by blast
      then obtain r0 where r0: "en_encode env r0 = Some b" using inv by (auto simp: lease_inv_def)
      obtain r where r: "en_decode env b oid = Some r" "rq_id r = oid" "en_encode env r = Some b"
        using cod [unfolded codec_ok_def, rule_format, OF r0, of oid] by blast
      have step: "and_then (restore_step env sp t r)
          (\<lambda>s _. (s\<lparr>ls_inflight := dict_set (ls_inflight s) (rq_id r) r\<rparr>, Inr (Some r))) = (s', res)"
        using went_on(2) Some r(1) by simp
      show ?thesis
        using step
      proof (cases rule: and_then_cases)
        case (raised e)
        have "frames env sp t s'" by (rule restore_step_frames [OF raised(1)])
        then show ?thesis using raised(2) p(1) q inv by (auto simp: frames_def lease_inv_def held_def)
      next
        case leased: (went_on u y)
        have u: "frames env sp t u" by (rule restore_step_frames [OF leased(1)])
        have new: "dict_set (ls_inflight u) oid r = ls_inflight s @ [(oid, r)]"
          using u p(1) fresh by (simp add: frames_def dict_set_append_new)
        have s': "s' = u\<lparr>ls_inflight := ls_inflight s @ [(oid, r)]\<rparr>" and "res = Inr (Some r)"
          using leased(2) new r(2) by simp_all
        moreover have "queue_items env sp s' = queue_items env sp t" using u s' by (simp add: frames_def queue_items_def)
        ultimately show ?thesis using inv q r fresh by (auto simp: lease_inv_def held_def payload_def)
      qed
    qed
  qed
  then show "lease_inv env sp s'" and "res = Inr x \<Longrightarrow> held env sp s' = held env sp s"
    and "held env sp s' \<subseteq># held env sp s" by blast+
qed

section \<open>Requeue\<close>

text \<open>The requeue loops only grow what is held: a lease leaves once its payload is back in the queue.\<close>

definition holds_on :: "'w sched_env \<Rightarrow> spider_info \<Rightarrow> 'w lease_sched \<Rightarrow> 'w lease_sched \<Rightarrow> bool" where
  "holds_on env sp s s' \<longleftrightarrow> lease_inv env sp s' \<and> held env sp s \<subseteq># held env sp s'"

lemma holds_on_trans: "holds_on env sp s t \<Longrightarrow> holds_on env sp t u \<Longrightarrow> holds_on env sp s u"
  by (auto simp: holds_on_def intro: subset_mset.order_trans)

lemma holds_on_frames: "lease_inv env sp s \<Longrightarrow> frames env sp s t \<Longrightarrow> holds_on env sp s t"
  using frames_held by (auto simp: holds_on_def)

lemma holds_on_put: "lease_inv env sp s \<Longrightarrow> put_effect env sp r s s' res \<Longrightarrow> holds_on env sp s s'"
  using put_effect_held by (auto simp: holds_on_def)

lemma requeue_leases_holds:
  assumes "transport_ok env (lease_queue_key env sp)" and "lease_inv env sp s"
    and "\<forall>p \<in> set rest. map_of (ls_inflight s) (fst p) = Some (snd p)" and "distinct (keys rest)"
    and "requeue_leases env sp s rest n = (s', res)"
  shows "holds_on env sp s s'"
  using assms(2-5)
proof (induction rest arbitrary: s n)
  case Nil
  then show ?case by (simp add: holds_on_def)
next
  case (Cons p rest)
  obtain i r where p: "p = (i, r)" by fastforce
  note run = Cons.prems(4) [unfolded p requeue_leases.simps]
  show ?case
    using run
  proof (cases rule: and_then_cases)
    case (raised e)
    then show ?thesis using holds_on_frames [OF Cons.prems(1)] request_to_bytes_effect(1) by blast
  next
    case (went_on t b)
    have t: "frames env sp s t" and b: "en_encode env r = Some b"
      using request_to_bytes_effect [OF went_on(1)] by simp_all
    have inv_t: "lease_inv env sp t" using frames_held [OF t] Cons.prems(1) by blast
    have put: "put_effect env sp r t u x" if "on_world t (\<lambda>w. en_push env w (lease_queue_key env sp) b) = (u, x)" for u x
      using push_effect(1) [OF transport_okD(1) [OF assms(1)] that] push_effect(2) [OF transport_okD(1) [OF assms(1)] that, of sp] b
      by (auto simp: put_effect_def payload_def)
    show ?thesis
      using went_on(2)
    proof (cases rule: and_then_cases)
      case (raised e)
      then show ?thesis using holds_on_put [OF inv_t put] holds_on_frames [OF Cons.prems(1) t] holds_on_trans by blast
    next
      case push: (went_on u ok)
      have u: "put_effect env sp r t u (Inr ok)" by (rule put [OF push(1)])
      have inv_u: "lease_inv env sp u" by (rule put_effect_held(1) [OF u inv_t])
      have same: "ls_inflight u = ls_inflight s" using u t by (simp add: put_effect_def frames_def)
      have rest: "map_of (ls_inflight u) (fst q) = Some (snd q)" "fst q \<noteq> i" if "q \<in> set rest" for q
        using Cons.prems(2,3) same that p by (auto simp: image_iff)
      show ?thesis
      proof (cases ok)
        case True
        let ?v = "lease_complete u i"
        have mem: "map_of (ls_inflight u) i = Some r" using Cons.prems(2) same p by simp
        have "held env sp u = held env sp t + {#payload env r#}" using put_effect_held(2) [OF u inv_t] True by simp
        then have "held env sp ?v = held env sp t" using held_pop(1) [OF inv_u mem] by simp
        then have v: "holds_on env sp s ?v"
          using held_pop(2) [OF inv_u mem] frames_held [OF t] by (simp add: holds_on_def)
        have "requeue_leases env sp ?v rest (n + 1) = (s', res)" using push(2) True by (simp add: lease_complete_def)
        moreover have "\<forall>q \<in> set rest. map_of (ls_inflight ?v) (fst q) = Some (snd q)"
          using rest by (simp add: lease_complete_def)
        ultimately have "holds_on env sp ?v s'"
          using Cons.IH [of ?v "n + 1"] held_pop(2) [OF inv_u mem] Cons.prems(3) p by simp
        then show ?thesis by (rule holds_on_trans [OF v])
      next
        case False
        then have "requeue_leases env sp u rest n = (s', res)" using push(2) by simp
        then have "holds_on env sp u s'" using Cons.IH [of u n] inv_u rest(1) Cons.prems(3) p by simp
        moreover have "holds_on env sp s u"
          using holds_on_put [OF inv_t u] holds_on_frames [OF Cons.prems(1) t] holds_on_trans by blast
        ultimately show ?thesis using holds_on_trans by blast
      qed
    qed
  qed
qed

text \<open>Giving back the start messages touches other keys only.\<close>

lemma redis_starts_frames:
  assumes tr: "transport_ok env (lease_queue_key env sp)" and "ic_key ingress \<noteq> lease_queue_key env sp"
    and "redis_requeue_starts env sp ingress s ms n = (s', res)"
  shows "frames env sp s s'"
  using assms(3)
proof (induction ms arbitrary: s n)
  case (Cons p ms)
  obtain i m where p: "p = (i, m)" by fastforce
  have one: "frames env sp s t" if "(case m of
          StreamStart m \<Rightarrow> and_then (on_world s (\<lambda>w. en_xadd env w (msg_key m) (msg_fields m))) (\<lambda>s _. ack_start_req env sp s m)
        | RawStart b \<Rightarrow> and_then (on_world s (\<lambda>w. en_rpush env w (ic_key ingress) b)) (\<lambda>s _. (s, Inr ()))) = (t, x)" for t x
  proof (cases m)
    case (RawStart b)
    then show ?thesis using that push_effect(3) [OF transport_okD(2) [OF tr] _ assms(2)]
      by (auto elim!: and_then_cases)
  next
    case (StreamStart sm)
    have add: "frames env sp s u" if "on_world s (\<lambda>w. en_xadd env w (msg_key sm) (msg_fields sm)) = (u, y)" for u y
      using that transport_okD(4) [OF tr, of "ls_world s"] on_world_effect [OF that]
      by (metis (no_types, lifting) frames_def fst_conv lease_sched.select_convs(4) lease_sched.select_convs(1)
          lease_sched.surjective lease_sched.update_convs(1) queue_items_def)
    have "and_then (on_world s (\<lambda>w. en_xadd env w (msg_key sm) (msg_fields sm))) (\<lambda>s _. ack_start_req env sp s sm) = (t, x)"
      using that StreamStart by simp
    then show ?thesis
      by (cases rule: and_then_cases) (auto dest: add ack_start_req_frames [OF tr] intro: frames_trans)
  qed
  show ?case
    using Cons.prems [unfolded p redis_requeue_starts.simps]
  proof (cases rule: and_then_cases)
    case (raised e)
    then show ?thesis using one by blast
  next
    case (went_on t y)
    have "frames env sp t s'" using Cons.IH [OF went_on(2)] by (simp add: frames_def queue_items_def)
    then show ?thesis by (rule frames_trans [OF one [OF went_on(1)]])
  qed
qed simp

lemma rabbit_starts_frames:
  assumes tr: "transport_ok env (lease_queue_key env sp)" and ne: "rabbit_start_queue (en_settings env) sp \<noteq> lease_queue_key env sp"
    and "rabbit_requeue_starts env sp s ms n = (s', res)"
  shows "frames env sp s s'"
  using assms(3)
proof (induction ms arbitrary: s n)
  case (Cons p ms)
  obtain i m where p: "p = (i, m)" by fastforce
  note one = push_effect(3) [OF transport_okD(1) [OF tr] _ ne]
  show ?case
    using Cons.prems [unfolded p rabbit_requeue_starts.simps]
  proof (cases rule: and_then_cases)
    case (went_on t ok)
    have "frames env sp t s'"
      using went_on(2) Cons.IH [of t n] Cons.IH [of "t\<lparr>ls_start := dict_pop (ls_start t) i\<rparr>" "n + 1"]
      by (auto simp: frames_def queue_items_def split: if_splits)
    then show ?thesis by (rule frames_trans [OF one [OF went_on(1)]])
  qed (use one in blast)
qed simp

text \<open>When every push is taken, the loop moves all leases to the end of the queue.\<close>

lemma requeue_leases_all:
  assumes tr: "transport_ok env (lease_queue_key env sp)" and np: "\<not> qs_persist_sessions (en_settings env)"
    and ok: "\<forall>w k b. snd (en_push env w k b) = Inr True"
  shows "ls_inflight s = rest \<Longrightarrow> distinct (keys rest) \<Longrightarrow> \<forall>p \<in> set rest. en_encode env (snd p) \<noteq> None \<Longrightarrow>
    \<exists>s'. requeue_leases env sp s rest n = (s', Inr (n + length rest)) \<and> ls_inflight s' = [] \<and> ls_start s' = ls_start s \<and>
      queue_items env sp s' = queue_items env sp s @ map (payload env \<circ> snd) rest"
proof (induction rest arbitrary: s n)
  case (Cons p rest)
  obtain i r where p: "p = (i, r)" by fastforce
  obtain b where b: "en_encode env r = Some b" using Cons.prems(3) p by auto
  have rb: "request_to_bytes env sp s r = (s, Inr b)" using np b by (simp add: request_to_bytes_def and_then_def)
  obtain w where w: "en_push env (ls_world s) (lease_queue_key env sp) b = (w, Inr True)"
    using ok by (metis prod.collapse)
  let ?u = "s\<lparr>ls_world := w, ls_inflight := dict_pop (ls_inflight s) i\<rparr>"
  have push: "on_world s (\<lambda>w. en_push env w (lease_queue_key env sp) b) = (s\<lparr>ls_world := w\<rparr>, Inr True)"
    using w by (simp add: on_world_def)
  have rest: "ls_inflight ?u = rest"
    using Cons.prems(1,2) p dict_pop_absent [of i rest] by (simp add: dict_pop_def)
  have q: "queue_items env sp ?u = queue_items env sp s @ [payload env r]"
    using push_effect(2) [OF transport_okD(1) [OF tr] push, of sp] b by (simp add: queue_items_def payload_def)
  from Cons.IH [OF rest, of "n + 1"] Cons.prems(2,3) obtain s' where
    "requeue_leases env sp ?u rest (n + 1) = (s', Inr (n + 1 + length rest))" "ls_inflight s' = []"
    "ls_start s' = ls_start s" "queue_items env sp s' = queue_items env sp ?u @ map (payload env \<circ> snd) rest" by auto
  then show ?case using rb push q by (simp add: p and_then_def)
qed simp

lemma requeue_holds:
  assumes fits: "env_fits env sp" and inv: "lease_inv env sp s"
  shows "redis_requeue_inflight env sp s = (s', res) \<Longrightarrow> holds_on env sp s s'"
    and "rabbit_requeue_inflight env sp s = (s', res) \<Longrightarrow> holds_on env sp s s'"
proof -
  have tr: "transport_ok env (lease_queue_key env sp)" and ne: "rabbit_start_queue (en_settings env) sp \<noteq> lease_queue_key env sp"
    and ing: "\<And>c. resolve_ingress env sp = Inr c \<Longrightarrow> ic_key c \<noteq> lease_queue_key env sp"
    using fits by (simp_all add: env_fits_def)
  have wf: "dict_wf (ls_inflight s)" using inv by (simp add: lease_inv_def)
  have leases: "holds_on env sp s t" if "requeue_leases env sp s (ls_inflight s) 0 = (t, x)" for t x
    by (rule requeue_leases_holds [OF tr inv _ wf that]) (use wf in auto)
  have then_frames: "holds_on env sp s s'" if "holds_on env sp s t" "frames env sp t s'" for t
    using holds_on_trans [OF that(1) holds_on_frames [OF _ that(2)]] that(1) by (simp add: holds_on_def)
  show "holds_on env sp s s'" if "redis_requeue_inflight env sp s = (s', res)"
    using that unfolding redis_requeue_inflight_def
  proof (cases rule: and_then_cases)
    case (went_on t n)
    have "frames env sp t s'"
      using went_on(2) redis_starts_frames [OF tr ing] by (auto split: if_splits sum.splits)
    then show ?thesis by (rule then_frames [OF leases [OF went_on(1)]])
  qed (use leases in blast)
  show "holds_on env sp s s'" if "rabbit_requeue_inflight env sp s = (s', res)"
    using that unfolding rabbit_requeue_inflight_def
  proof (cases rule: and_then_cases)
    case (went_on t n)
    have "frames env sp t s'" by (rule rabbit_starts_frames [OF tr ne went_on(2)])
    then show ?thesis by (rule then_frames [OF leases [OF went_on(1)]])
  qed (use leases in blast)
qed

section \<open>Runs\<close>

text \<open>
  A run with its ledger: payloads accepted by a put, completed by the engine, and lost by a get that
  raised after the broker had handed the message over.
\<close>

record ledger =
  lg_accepted :: "bytes multiset"
  lg_completed :: "bytes multiset"
  lg_lost :: "bytes multiset"

definition empty_ledger :: ledger where
  "empty_ledger = \<lparr>lg_accepted = {#}, lg_completed = {#}, lg_lost = {#}\<rparr>"

inductive lease_step :: "'w sched_env \<Rightarrow> spider_info \<Rightarrow> 'w lease_sched \<times> ledger \<Rightarrow> 'w lease_sched \<times> ledger \<Rightarrow> bool"
  for env sp where
  l_put: "lease_put env sp s r = (s', res) \<Longrightarrow>
     lease_step env sp (s, g)
       (s', g\<lparr>lg_accepted := lg_accepted g + (if res = Inr True then {#payload env r#} else {#})\<rparr>)"
| l_get: "oid \<notin> set (keys (ls_inflight s)) \<Longrightarrow> lease_get env sp oid s = (s', Inr x) \<Longrightarrow> lease_step env sp (s, g) (s', g)"
| l_get_raises: "oid \<notin> set (keys (ls_inflight s)) \<Longrightarrow> lease_get env sp oid s = (s', Inl e) \<Longrightarrow>
     lease_step env sp (s, g) (s', g\<lparr>lg_lost := lg_lost g + (held env sp s - held env sp s')\<rparr>)"
| l_complete: "map_of (ls_inflight s) i = Some r \<Longrightarrow>
     lease_step env sp (s, g) (lease_complete s i, g\<lparr>lg_completed := lg_completed g + {#payload env r#}\<rparr>)"
| l_attach: "lease_step env sp (s, g) (attach_start_req s i message, g)"
| l_requeue_redis: "redis_requeue_inflight env sp s = (s', res) \<Longrightarrow> lease_step env sp (s, g) (s', g)"
| l_requeue_rabbit: "rabbit_requeue_inflight env sp s = (s', res) \<Longrightarrow> lease_step env sp (s, g) (s', g)"

inductive_cases lease_stepE: "lease_step env sp s t"

definition ledger_inv :: "'w sched_env \<Rightarrow> spider_info \<Rightarrow> 'w lease_sched \<times> ledger \<Rightarrow> bool" where
  "ledger_inv env sp x \<longleftrightarrow> lease_inv env sp (fst x) \<and>
     lg_accepted (snd x) \<subseteq># held env sp (fst x) + lg_completed (snd x) + lg_lost (snd x)"

lemma ledger_inv_holds:
  "holds_on env sp s s' \<Longrightarrow> ledger_inv env sp (s, g) \<Longrightarrow> ledger_inv env sp (s', g)"
  by (auto simp: ledger_inv_def holds_on_def intro: subset_mset.order_trans)

lemma lease_step_ledger:
  assumes "env_fits env sp" and "lease_step env sp x y" and "ledger_inv env sp x"
  shows "ledger_inv env sp y"
  using assms(2)
proof (cases rule: lease_step.cases)
  case (l_put s r s' res g)
  have inv: "lease_inv env sp s" using assms(3) l_put(1) by (simp add: ledger_inv_def)
  have eff: "put_effect env sp r s s' res"
    using lease_put_effect l_put(3) assms(1) by (auto simp: env_fits_def)
  show ?thesis
  proof (cases "res = Inr True")
    case True
    then show ?thesis using put_effect_held(1,2) [OF eff inv] assms(3) l_put(1,2)
      by (simp add: ledger_inv_def add.assoc)
  next
    case False
    then show ?thesis using ledger_inv_holds [OF holds_on_put [OF inv eff]] assms(3) l_put(1,2) by simp
  qed
next
  case (l_get oid s s' v g)
  have inv: "lease_inv env sp s" using assms(3) l_get(1) by (simp add: ledger_inv_def)
  note eff = lease_get_effect(1) [OF assms(1) inv l_get(3,4)] lease_get_effect(2) [OF assms(1) inv l_get(3,4) refl]
  show ?thesis using assms(3) eff l_get(1,2) by (simp add: ledger_inv_def)
next
  case (l_get_raises oid s s' e g)
  have inv: "lease_inv env sp s" using assms(3) l_get_raises(1) by (simp add: ledger_inv_def)
  note eff = lease_get_effect(1,3) [OF assms(1) inv l_get_raises(3,4)]
  define d where "d = held env sp s - held env sp s'"
  have d: "held env sp s = held env sp s' + d" using eff(2) by (simp add: d_def)
  have lost: "lg_lost (snd y) = lg_lost g + d" using l_get_raises(2) by (simp add: d_def)
  show ?thesis using assms(3) eff(1) l_get_raises(1,2) lost unfolding ledger_inv_def by (simp add: d ac_simps)
next
  case (l_complete s i r g)
  have inv: "lease_inv env sp s" using assms(3) l_complete(1) by (simp add: ledger_inv_def)
  show ?thesis using held_pop [OF inv l_complete(3)] assms(3) l_complete(1,2) by (simp add: ledger_inv_def ac_simps)
next
  case (l_attach s g i message)
  have "frames env sp s (attach_start_req s i message)" by (simp add: attach_start_req_def)
  from frames_held [OF this] show ?thesis using assms(3) l_attach by (simp add: ledger_inv_def)
next
  case (l_requeue_redis s s' res g)
  have inv: "lease_inv env sp s" using assms(3) l_requeue_redis(1) by (simp add: ledger_inv_def)
  show ?thesis using ledger_inv_holds [OF requeue_holds(1) [OF assms(1) inv l_requeue_redis(3)]] assms(3) l_requeue_redis(1,2) by simp
next
  case (l_requeue_rabbit s s' res g)
  have inv: "lease_inv env sp s" using assms(3) l_requeue_rabbit(1) by (simp add: ledger_inv_def)
  show ?thesis using ledger_inv_holds [OF requeue_holds(2) [OF assms(1) inv l_requeue_rabbit(3)]] assms(3) l_requeue_rabbit(1,2) by simp
qed

lemma lease_runs_ledger:
  assumes "env_fits env sp" and "(lease_step env sp)\<^sup>*\<^sup>* x y" and "ledger_inv env sp x"
  shows "ledger_inv env sp y"
  using assms(2,3) by (induction rule: rtranclp_induct) (auto intro: lease_step_ledger [OF assms(1)])

section \<open>Properties\<close>


definition sample_lease_env :: "(string \<Rightarrow> bytes list) sched_env" where
  "sample_lease_env = \<lparr>en_settings = sample_queue_settings, en_attrs = sample_attrs\<lparr>ia_mode := None\<rparr>, en_defaults = None,
     en_session = sample_env,
     en_repr = (\<lambda>_. []), en_enc = (\<lambda>_. Inl NotBytes), en_dec = (\<lambda>_. Inl NotBytes),
     en_encode = (\<lambda>r. Some (map of_char (rq_fp r))), en_decode = (\<lambda>b oid. Some (sample_request oid (map char_of b))),
     en_push = (\<lambda>w k b. (w(k := w k @ [b]), Inr True)),
     en_pop = (\<lambda>w k. case w k of [] \<Rightarrow> (w, Inr None) | b # bs \<Rightarrow> (w(k := bs), Inr (Some b))),
     en_rpush = (\<lambda>w k b. (w(k := w k @ [b]), Inr True)), en_xadd = (\<lambda>w _ _. (w, Inr ())), en_xack = (\<lambda>w _. (w, Inr ())),
     en_seen = (\<lambda>w _. (w, Inr False)), en_delete = (\<lambda>w k. (w(k := []), Inr 1)), en_items = (\<lambda>w k. w k)\<rparr>"

definition sample_lease_sched :: "(string \<Rightarrow> bytes list) lease_sched" where
  "sample_lease_sched = \<lparr>ls_world = (\<lambda>_. []), ls_store = Map.empty, ls_sessions = manager_init ''d'', ls_inflight = [],
     ls_start = [], ls_signals = []\<rparr>"

lemma sample_lease_fits: "env_fits sample_lease_env sample_spider"
proof -
  have key: "lease_queue_key sample_lease_env sample_spider = ''s_req''"
    by (simp add: lease_queue_key_def sample_lease_env_def get_queue_key_def sample_queue_settings_def sample_spider_def
        str_or_def)
  have "transport_ok sample_lease_env ''s_req''"
    by (auto simp: transport_ok_def push_ok_def pop_ok_def sample_lease_env_def split: list.splits)
  moreover have "map of_char (map char_of b) = b" if "map of_char fp = b" for b :: bytes and fp :: string
    using that by (auto simp: comp_def)
  then have "codec_ok sample_lease_env"
    by (simp add: codec_ok_def sample_lease_env_def sample_request_def)
  moreover have "rabbit_start_queue sample_queue_settings sample_spider = ''s_rabbit_start''"
    by (simp add: rabbit_start_queue_def sample_queue_settings_def sample_spider_def)
  moreover have "resolve_ingress sample_lease_env sample_spider = Inr c \<Longrightarrow> ic_key c = ''s_redis_start''" for c
    by (auto simp: resolve_ingress_def sample_lease_env_def sample_attrs_def sample_queue_settings_def sample_spider_def
        resolve_key_def str_or_def dest!: resolve_ingressD(2))
  ultimately show ?thesis
    unfolding env_fits_def key by (auto simp: sample_lease_env_def split: sum.split)
qed


text \<open>When sessions are not persisted, the broker takes every push and no start message is pending,
  the shutdown requeue of the Redis and RabbitMQ schedulers puts every leased request back at the end
  of its queue, in lease order, leaves no lease and reports their number.\<close>

theorem requeue_returns_leases:
  assumes "env_fits env sp" and "lease_inv env sp s" and "\<not> qs_persist_sessions (en_settings env)"
    and "\<forall>w k b. snd (en_push env w k b) = Inr True" and "ls_start s = []"
  shows "\<exists>s'. redis_requeue_inflight env sp s = (s', Inr (length (ls_inflight s))) \<and>
    rabbit_requeue_inflight env sp s = (s', Inr (length (ls_inflight s))) \<and> ls_inflight s' = [] \<and>
    queue_items env sp s' = queue_items env sp s @ map (payload env \<circ> snd) (ls_inflight s)"
proof -
  have tr: "transport_ok env (lease_queue_key env sp)" using assms(1) by (simp add: env_fits_def)
  obtain s' where "requeue_leases env sp s (ls_inflight s) 0 = (s', Inr (length (ls_inflight s)))" "ls_inflight s' = []"
    "queue_items env sp s' = queue_items env sp s @ map (payload env \<circ> snd) (ls_inflight s)" "ls_start s' = []"
    using requeue_leases_all [OF tr assms(3,4), of s "ls_inflight s" 0] assms(2,5) by (auto simp: lease_inv_def)
  then show ?thesis
    by (auto simp: redis_requeue_inflight_def rabbit_requeue_inflight_def and_then_def raw_starts_def)
qed

theorem requeue_returns_leases_witness:
  "\<exists>s'. redis_requeue_inflight sample_lease_env sample_spider
      (sample_lease_sched\<lparr>ls_inflight := [(1, sample_request 1 ''a'')]\<rparr>) = (s', Inr 1) \<and> ls_inflight s' = []"
  using requeue_returns_leases [OF sample_lease_fits, of "sample_lease_sched\<lparr>ls_inflight := [(1, sample_request 1 ''a'')]\<rparr>"]
  by (auto simp: lease_inv_def sample_lease_env_def sample_lease_sched_def sample_request_def queue_items_def
      sample_queue_settings_def)

end
