(* ===== verification/KafkaScheduler.thy ===== *)
theory KafkaScheduler
  imports KafkaOffsets LeaseScheduler
begin

text \<open>
  The Kafka scheduler (\<open>core/scheduler/kafka.py\<close>) over the leases of \<open>KafkaOffsets\<close>, with the queue
  repository between them (\<open>repo/queue.py\<close>) and the start loop of a Kafka spider
  (\<open>spiders/kafka.py\<close>).  Producing and the records a consumer returns are inputs; a commit is recorded
  with its partition.
\<close>

section \<open>State\<close>

record kafka_msg =
  km_topic :: string
  km_group :: string
  km_part :: nat
  km_offset :: nat
  km_value :: bytes

record 'w kafka_sched =
  ks_world :: 'w
  ks_client :: kafka_client
  ks_store :: redis_store
  ks_sessions :: manager
  ks_inflight :: "(nat, kafka_msg) pydict"
  ks_start :: "(nat, kafka_msg) pydict"
  ks_signals :: "sched_signal list"
  ks_commits :: "(partition_key \<times> nat) list"

type_synonym 'w producer = "'w \<Rightarrow> string \<Rightarrow> bytes \<Rightarrow> bytes option \<Rightarrow> 'w \<times> (sched_error + bool)"

definition on_broker :: "'w kafka_sched \<Rightarrow> ('w \<Rightarrow> 'w \<times> (sched_error + 'a)) \<Rightarrow> ('w kafka_sched, 'a) attempt" where
  "on_broker s f = (case f (ks_world s) of (w, r) \<Rightarrow> (s\<lparr>ks_world := w\<rparr>, r))"

section \<open>The queue repository\<close>

text \<open>\<open>got\<close>: part, offset and value of the record the consumer returned in time.\<close>

definition queue_pop ::
  "'w kafka_sched \<Rightarrow> string \<Rightarrow> string \<Rightarrow> (nat \<times> nat \<times> bytes) option \<Rightarrow> 'w kafka_sched \<times> kafka_msg option" where
  "queue_pop s topic grp got =
     (case KafkaOffsets.dequeue_request (ks_client s) topic grp (map_option (\<lambda>(p, off, v). (p, off)) got) of
        (c, rec') \<Rightarrow>
          (s\<lparr>ks_client := c\<rparr>,
           (case (rec', got) of
              (Some r, Some (p, off, v)) \<Rightarrow>
                Some \<lparr>km_topic = kr_topic r, km_group = kr_group r, km_part = kr_partition r, km_offset = kr_offset r, km_value = v\<rparr>
            | _ \<Rightarrow> None)))"

definition queue_ack :: "'w kafka_sched \<Rightarrow> kafka_msg \<Rightarrow> 'w kafka_sched \<times> bool" where
  "queue_ack s m =
     (case ack_request (ks_client s) (km_topic m) (km_group m) (km_part m) (km_offset m) of
        (c, replied, commit) \<Rightarrow>
          (s\<lparr>ks_client := c,
             ks_commits := ks_commits s @
               (case commit of None \<Rightarrow> [] | Some n \<Rightarrow> [((km_topic m, km_group m, km_part m), n)])\<rparr>, replied))"

section \<open>Scheduler operations\<close>

definition kafka_request_bytes ::
  "'w sched_env \<Rightarrow> spider_info \<Rightarrow> 'w kafka_sched \<Rightarrow> sched_request \<Rightarrow> ('w kafka_sched, bytes) attempt" where
  "kafka_request_bytes env sp s r =
     and_then
       (if qs_persist_sessions (en_settings env) then
          (case persist_session (en_enc env) (ks_store s) (ks_sessions s)
                  (session_state_key (en_settings env) (kafka_queue_key (en_settings env) sp)) (rq_session r) of
             Inl e \<Rightarrow> (s, Inl (PersistError e))
           | Inr (store, m, done) \<Rightarrow> (s\<lparr>ks_store := store, ks_sessions := m\<rparr>, Inr ()))
        else (s, Inr ()))
       (\<lambda>s _. case en_encode env r of None \<Rightarrow> (s, Inl EncodeError) | Some b \<Rightarrow> (s, Inr b))"

definition kafka_drop :: "'w kafka_sched \<Rightarrow> sched_request \<Rightarrow> drop_reason \<Rightarrow> 'w kafka_sched" where
  "kafka_drop s r why =
     s\<lparr>ks_sessions := release (ks_sessions s) (rq_session r), ks_signals := ks_signals s @ [RequestDropped r why]\<rparr>"

definition kafka_acknowledge_start :: "'w kafka_sched \<Rightarrow> nat \<Rightarrow> 'w kafka_sched" where
  "kafka_acknowledge_start s i =
     (let s1 = s\<lparr>ks_start := dict_pop (ks_start s) i\<rparr>
      in case map_of (ks_start s) i of None \<Rightarrow> s1 | Some m \<Rightarrow> fst (queue_ack s1 m))"

text \<open>The message key is the session id, when there is one.\<close>

definition kafka_insert ::
  "'w producer \<Rightarrow> 'w sched_env \<Rightarrow> spider_info \<Rightarrow> 'w kafka_sched \<Rightarrow> sched_request \<Rightarrow> ('w kafka_sched, bool) attempt" where
  "kafka_insert produce env sp s r =
     and_then (kafka_request_bytes env sp s r) (\<lambda>s request_bytes.
     and_then (on_broker s (\<lambda>w. produce w (kafka_queue_key (en_settings env) sp) request_bytes
         (if rq_session r = [] then None else Some (map of_char (rq_session r))))) (\<lambda>s result.
       if result then
         (let s1 = kafka_acknowledge_start s (rq_id r)
          in (s1\<lparr>ks_signals := ks_signals s1 @ [RequestScheduled r]\<rparr>, Inr True))
       else (kafka_drop s r InsertError, Inr False)))"

definition kafka_put ::
  "'w producer \<Rightarrow> 'w sched_env \<Rightarrow> spider_info \<Rightarrow> 'w kafka_sched \<Rightarrow> sched_request \<Rightarrow> ('w kafka_sched, bool) attempt" where
  "kafka_put produce env sp s r =
     (if \<not> (rq_dont_filter r \<or> rq_start_url r) then
        and_then (on_broker s (\<lambda>w. en_seen env w r)) (\<lambda>s is_seen.
          if is_seen then (kafka_drop s r Filtered, Inr False) else kafka_insert produce env sp s r)
      else kafka_insert produce env sp s r)"

definition kafka_get ::
  "'w sched_env \<Rightarrow> spider_info \<Rightarrow> nat \<Rightarrow> (nat \<times> nat \<times> bytes) option \<Rightarrow> 'w kafka_sched \<Rightarrow>
   ('w kafka_sched, sched_request option) attempt" where
  "kafka_get env sp oid got s =
     (case queue_pop s (kafka_queue_key (en_settings env) sp) (get_consumer_group (en_settings env) sp False) got of
        (s, None) \<Rightarrow> (s, Inr None)
      | (s, Some message) \<Rightarrow>
          (case en_decode env (km_value message) oid of
             None \<Rightarrow> (s, Inl DecodeError)
           | Some r \<Rightarrow>
               and_then
                 (if qs_persist_sessions (en_settings env) then
                    (case restore_session (en_session env) (en_repr env) (en_dec env) (ks_store s) (ks_sessions s)
                            (session_state_key (en_settings env) (kafka_queue_key (en_settings env) sp)) (rq_session r) of
                       (m, Inl e) \<Rightarrow> (s\<lparr>ks_sessions := m\<rparr>, Inl (RestoreError e))
                     | (m, Inr restored) \<Rightarrow> (s\<lparr>ks_sessions := m\<rparr>, Inr ()))
                  else (s, Inr ()))
                 (\<lambda>s _. (s\<lparr>ks_inflight := dict_set (ks_inflight s) (rq_id r) message\<rparr>, Inr (Some r)))))"

definition kafka_complete :: "'w kafka_sched \<Rightarrow> nat \<Rightarrow> 'w kafka_sched" where
  "kafka_complete s i =
     (let s1 = s\<lparr>ks_inflight := dict_pop (ks_inflight s) i\<rparr>
      in case map_of (ks_inflight s) i of None \<Rightarrow> s1 | Some m \<Rightarrow> fst (queue_ack s1 m))"

definition kafka_requeue_inflight :: "'w kafka_sched \<Rightarrow> 'w kafka_sched \<times> nat" where
  "kafka_requeue_inflight s = (s, 0)"

text \<open>
  One turn of the start loop: the message becomes the request \<open>parse\<close> makes of it, which keeps it until
  it is put, or is acknowledged when there is no request.  \<open>Inl\<close>: parsing raised.
\<close>

definition kafka_start_turn ::
  "(bytes \<Rightarrow> sched_error + sched_request option) \<Rightarrow> 'w sched_env \<Rightarrow> spider_info \<Rightarrow> (nat \<times> nat \<times> bytes) option \<Rightarrow>
   'w kafka_sched \<Rightarrow> ('w kafka_sched, sched_request option) attempt" where
  "kafka_start_turn parse env sp got s =
     (case queue_pop s (kafka_start_topic (en_settings env) sp) (get_consumer_group (en_settings env) sp True) got of
        (s, None) \<Rightarrow> (s, Inr None)
      | (s, Some message) \<Rightarrow>
          (case parse (km_value message) of
             Inl e \<Rightarrow> (s, Inl e)
           | Inr None \<Rightarrow> (fst (queue_ack s message), Inr None)
           | Inr (Some r) \<Rightarrow> (s\<lparr>ks_start := dict_set (ks_start s) (rq_id r) message\<rparr>, Inr (Some r))))"

section \<open>Runs\<close>

definition km_key :: "kafka_msg \<Rightarrow> partition_key" where
  "km_key m = (km_topic m, km_group m, km_part m)"

text \<open>
  A run keeps the leases of every partition and the messages that are finished: completed, put back
  as a request, or refused by the spider.
\<close>

type_synonym lease_logs = "partition_key \<Rightarrow> lease_log"
type_synonym 'w kafka_conf = "'w kafka_sched \<times> lease_logs \<times> kafka_msg set"

definition lease_to :: "lease_logs \<Rightarrow> string \<Rightarrow> string \<Rightarrow> (nat \<times> nat \<times> bytes) option \<Rightarrow> lease_logs" where
  "lease_to logs topic grp got =
     (case got of None \<Rightarrow> logs
      | Some (p, off, v) \<Rightarrow> logs((topic, grp, p) := (logs (topic, grp, p))\<lparr>ll_leased := ll_leased (logs (topic, grp, p)) @ [off]\<rparr>))"

definition ack_in :: "lease_logs \<Rightarrow> kafka_msg \<Rightarrow> lease_logs" where
  "ack_in logs m = logs(km_key m := (logs (km_key m))\<lparr>ll_acked := insert (km_offset m) (ll_acked (logs (km_key m)))\<rparr>)"

definition acks_in :: "lease_logs \<Rightarrow> kafka_msg option \<Rightarrow> lease_logs" where
  "acks_in logs m = (case m of None \<Rightarrow> logs | Some m \<Rightarrow> ack_in logs m)"

text \<open>What the vendor's consumer delivers: offsets that grow within a part.\<close>

definition delivers :: "lease_logs \<Rightarrow> string \<Rightarrow> string \<Rightarrow> (nat \<times> nat \<times> bytes) option \<Rightarrow> bool" where
  "delivers logs topic grp got =
     (case got of None \<Rightarrow> True | Some (p, off, v) \<Rightarrow> list_all (\<lambda>x. x < off) (ll_leased (logs (topic, grp, p))))"

definition message_of :: "string \<Rightarrow> string \<Rightarrow> (nat \<times> nat \<times> bytes) option \<Rightarrow> kafka_msg option" where
  "message_of topic grp got =
     (case got of None \<Rightarrow> None
      | Some (p, off, v) \<Rightarrow> Some \<lparr>km_topic = topic, km_group = grp, km_part = p, km_offset = off, km_value = v\<rparr>)"

inductive kafka_run_step ::
  "'w producer \<Rightarrow> (bytes \<Rightarrow> sched_error + sched_request option) \<Rightarrow> 'w sched_env \<Rightarrow> spider_info \<Rightarrow> 'w kafka_conf \<Rightarrow> 'w kafka_conf \<Rightarrow> bool"
  for produce parse env sp where
  kr_put: "kafka_put produce env sp s r = (s', res) \<Longrightarrow>
     done' = (if res = Inr True then map_of (ks_start s) (rq_id r) else None) \<Longrightarrow>
     kafka_run_step produce parse env sp (s, logs, fin) (s', acks_in logs done', set_option done' \<union> fin)"
| kr_get: "delivers logs (kafka_queue_key (en_settings env) sp) (get_consumer_group (en_settings env) sp False) got \<Longrightarrow>
     kafka_get env sp oid got s = (s', res) \<Longrightarrow>
     kafka_run_step produce parse env sp (s, logs, fin)
       (s', lease_to logs (kafka_queue_key (en_settings env) sp) (get_consumer_group (en_settings env) sp False) got, fin)"
| kr_complete: "done' = map_of (ks_inflight s) i \<Longrightarrow>
     kafka_run_step produce parse env sp (s, logs, fin) (kafka_complete s i, acks_in logs done', set_option done' \<union> fin)"
| kr_start: "delivers logs (kafka_start_topic (en_settings env) sp) (get_consumer_group (en_settings env) sp True) got \<Longrightarrow>
     kafka_start_turn parse env sp got s = (s', res) \<Longrightarrow>
     message = message_of (kafka_start_topic (en_settings env) sp) (get_consumer_group (en_settings env) sp True) got \<Longrightarrow>
     done' = (if res = Inr None then message else None) \<Longrightarrow>
     kafka_run_step produce parse env sp (s, logs, fin)
       (s', acks_in (lease_to logs (kafka_start_topic (en_settings env) sp) (get_consumer_group (en_settings env) sp True) got) done',
        set_option done' \<union> fin)"

inductive_cases kafka_run_stepE: "kafka_run_step produce parse env sp x y"

section \<open>Invariant\<close>

declare split_paired_All [simp del] split_paired_Ex [simp del]

text \<open>The messages the scheduler keeps: in flight (\<open>False\<close>) or of a start request (\<open>True\<close>).\<close>

definition holders :: "'w kafka_sched \<Rightarrow> bool \<times> nat \<Rightarrow> kafka_msg option" where
  "holders s h = (if fst h then map_of (ks_start s) (snd h) else map_of (ks_inflight s) (snd h))"

definition leased_open :: "lease_logs \<Rightarrow> kafka_msg \<Rightarrow> bool" where
  "leased_open logs m \<longleftrightarrow> km_offset m \<in> set (ll_leased (logs (km_key m))) \<and> km_offset m \<notin> ll_acked (logs (km_key m))"

definition same_msg :: "kafka_msg \<Rightarrow> kafka_msg \<Rightarrow> bool" where
  "same_msg m m' \<longleftrightarrow> km_key m = km_key m' \<and> km_offset m = km_offset m'"

definition owned_ok :: "('h \<Rightarrow> kafka_msg option) \<Rightarrow> lease_logs \<Rightarrow> bool" where
  "owned_ok H logs \<longleftrightarrow> (\<forall>h m. H h = Some m \<longrightarrow> leased_open logs m) \<and>
     (\<forall>h h' m m'. H h = Some m \<longrightarrow> H h' = Some m' \<longrightarrow> same_msg m m' \<longrightarrow> h = h')"

definition commits_ok :: "(partition_key \<times> nat) list \<Rightarrow> lease_logs \<Rightarrow> bool" where
  "commits_ok cs logs \<longleftrightarrow>
     (\<forall>k n. (k, n) \<in> set cs \<longrightarrow> (\<exists>y \<in> set (ll_leased (logs k)). n = y + 1) \<and>
        (\<forall>x \<in> set (ll_leased (logs k)). x < n \<longrightarrow> x \<in> ll_acked (logs k)))"

definition finished_ok :: "kafka_msg set \<Rightarrow> lease_logs \<Rightarrow> bool" where
  "finished_ok fin logs \<longleftrightarrow> (\<forall>k. ll_acked (logs k) = km_offset ` {m \<in> fin. km_key m = k})"

definition kconf_inv :: "'w kafka_conf \<Rightarrow> bool" where
  "kconf_inv x \<longleftrightarrow> (case x of (s, logs, fin) \<Rightarrow>
     kafka_inv (ks_client s, logs) \<and> owned_ok (holders s) logs \<and> finished_ok fin logs \<and> commits_ok (ks_commits s) logs)"

lemma holders_frame: "ks_inflight t = ks_inflight s \<Longrightarrow> ks_start t = ks_start s \<Longrightarrow> holders t = holders s"
  by (simp add: holders_def fun_eq_iff)

lemma owned_keep: "owned_ok H logs \<Longrightarrow> H h = Some m \<Longrightarrow> leased_open logs m"
  by (simp add: owned_ok_def)

lemma owned_drop: "owned_ok H logs \<Longrightarrow> owned_ok (H(h := None)) logs"
  by (auto simp: owned_ok_def)

lemma owned_put:
  assumes "owned_ok H logs" and "leased_open logs m" and "\<And>h' m'. H h' = Some m' \<Longrightarrow> \<not> same_msg m m'"
  shows "owned_ok (H(h \<mapsto> m)) logs"
proof -
  have "\<not> same_msg m' m" if "H h' = Some m'" for h' m' using assms(3) [OF that] by (auto simp: same_msg_def)
  then show ?thesis using assms unfolding owned_ok_def by (auto split: if_splits)
qed

text \<open>Acknowledging a kept message and dropping it; leasing a new one.\<close>

lemma owned_ack:
  assumes "owned_ok H logs" and "\<And>h m'. H h = Some m' \<Longrightarrow> \<not> same_msg m m'"
  shows "owned_ok H (ack_in logs m)"
proof -
  have "leased_open (ack_in logs m) m'" if "H h = Some m'" for h m'
  proof -
    have "leased_open logs m'" by (rule owned_keep [OF assms(1) that])
    moreover have "\<not> same_msg m m'" by (rule assms(2) [OF that])
    ultimately show ?thesis by (auto simp: leased_open_def ack_in_def same_msg_def)
  qed
  then show ?thesis using assms(1) unfolding owned_ok_def by blast
qed

lemma owned_ack_drop:
  assumes "owned_ok H logs" and "H h = Some m"
  shows "owned_ok (H(h := None)) (ack_in logs m)"
proof (rule owned_ack [OF owned_drop [OF assms(1)]])
  fix h' m' assume h': "(H(h := None)) h' = Some m'"
  then have "H h' = Some m'" "h' \<noteq> h" by (auto split: if_splits)
  then show "\<not> same_msg m m'" using assms unfolding owned_ok_def by metis
qed

lemma lease_to_acked [simp]: "ll_acked (lease_to logs topic grp got k) = ll_acked (logs k)"
  by (auto simp: lease_to_def split: option.split if_splits)

lemma lease_to_leased: "set (ll_leased (logs k)) \<subseteq> set (ll_leased (lease_to logs topic grp got k))"
  by (auto simp: lease_to_def split: option.split)

lemma owned_lease: "owned_ok H logs \<Longrightarrow> owned_ok H (lease_to logs topic grp got)"
  using lease_to_leased by (fastforce simp: owned_ok_def leased_open_def)

lemma finished_lease: "finished_ok fin logs \<Longrightarrow> finished_ok fin (lease_to logs topic grp got)"
  by (simp add: finished_ok_def)

lemma finished_ack: "finished_ok fin logs \<Longrightarrow> finished_ok (insert m fin) (ack_in logs m)"
  by (auto simp: finished_ok_def ack_in_def)

lemma commits_lease:
  assumes "commits_ok cs logs" and "delivers logs topic grp got"
  shows "commits_ok cs (lease_to logs topic grp got)"
proof (cases got)
  case (Some g)
  obtain p off v where g: "g = (p, off, v)" by (cases g) auto
  have below: "x < off" if "x \<in> set (ll_leased (logs (topic, grp, p)))" for x
    using assms(2) Some g that by (auto simp: delivers_def list_all_iff)
  show ?thesis using assms(1) below unfolding commits_ok_def lease_to_def Some g
    by (auto; fastforce)
qed (use assms in \<open>simp add: lease_to_def\<close>)

text \<open>The delivered message is open and none of those kept.\<close>

lemma delivered_open:
  assumes "kafka_inv (c, logs)" and "delivers logs topic grp got" and "message_of topic grp got = Some m"
  shows "leased_open (lease_to logs topic grp got) m" and "owned_ok H logs \<Longrightarrow> H h = Some m' \<Longrightarrow> \<not> same_msg m m'"
proof -
  obtain p off v where got: "got = Some (p, off, v)" using assms(3) by (cases got) (auto simp: message_of_def)
  have m: "km_key m = (topic, grp, p)" "km_offset m = off" using assms(3) got by (auto simp: message_of_def km_key_def)
  have "ll_acked (logs (topic, grp, p)) \<subseteq> set (ll_leased (logs (topic, grp, p)))"
    using assms(1) by (simp add: kafka_inv_def lease_ok_def)
  moreover have below: "off \<notin> set (ll_leased (logs (topic, grp, p)))"
    using assms(2) got by (auto simp: delivers_def list_all_iff)
  ultimately have "off \<notin> ll_acked (logs (topic, grp, p))" by blast
  then show "leased_open (lease_to logs topic grp got) m" using m got by (simp add: leased_open_def lease_to_def)
  show "owned_ok H logs \<Longrightarrow> H h = Some m' \<Longrightarrow> \<not> same_msg m m'"
    using below m by (auto simp: same_msg_def leased_open_def dest: owned_keep)
qed

lemma queue_pop_effect:
  assumes "kafka_inv (ks_client s, logs)" and "delivers logs topic grp got" and "queue_pop s topic grp got = (s', mo)"
  shows "\<exists>c. s' = s\<lparr>ks_client := c\<rparr> \<and> kafka_inv (c, lease_to logs topic grp got)" and "mo = message_of topic grp got"
proof -
  let ?g = "map_option (\<lambda>(p, off, v). (p, off)) got"
  obtain c r where d: "KafkaOffsets.dequeue_request (ks_client s) topic grp ?g = (c, r)" by fastforce
  have s': "s' = s\<lparr>ks_client := c\<rparr>" using assms(3) d by (simp add: queue_pop_def)
  have "kafka_step (ks_client s, logs) (c, lease_to logs topic grp got)"
  proof (cases got)
    case None
    then show ?thesis using d k_timeout by (simp add: lease_to_def)
  next
    case (Some g)
    obtain p off v where g: "g = (p, off, v)" by (cases g) auto
    have "\<forall>x \<in> set (ll_leased (logs (topic, grp, p))). x < off"
      using assms(2) Some g by (simp add: delivers_def list_all_iff)
    then show ?thesis using d k_lease [of logs topic grp p off "ks_client s" c r] Some g by (simp add: lease_to_def)
  qed
  then show "\<exists>c. s' = s\<lparr>ks_client := c\<rparr> \<and> kafka_inv (c, lease_to logs topic grp got)"
    using kafka_step_inv assms(1) s' by blast
  show "mo = message_of topic grp got"
    using assms(3) d by (auto simp: queue_pop_def message_of_def KafkaOffsets.dequeue_request_def Let_def split: option.splits)
qed

lemma queue_ack_effect:
  assumes "kafka_inv (ks_client s, logs)" and "leased_open logs m" and "commits_ok (ks_commits s) logs"
  shows "\<exists>c cs. fst (queue_ack s m) = s\<lparr>ks_client := c, ks_commits := cs\<rparr> \<and> kafka_inv (c, ack_in logs m) \<and>
    commits_ok cs (ack_in logs m)"
proof -
  obtain c replied commit where
    a: "ack_request (ks_client s) (km_topic m) (km_group m) (km_part m) (km_offset m) = (c, replied, commit)"
    by (metis prod_cases3)
  let ?k = "(km_topic m, km_group m, km_part m)"
  have k: "km_key m = ?k" by (simp add: km_key_def)
  have open': "km_offset m \<in> set (ll_leased (logs ?k))" "km_offset m \<notin> ll_acked (logs ?k)"
    using assms(2) by (simp_all add: leased_open_def k)
  note res = ack_request_result [OF assms(1) open' a]
  let ?l = "(logs ?k)\<lparr>ll_acked := insert (km_offset m) (ll_acked (logs ?k))\<rparr>"
  have ack: "ack_in logs m = logs(?k := ?l)" by (simp add: ack_in_def k)
  let ?cs = "ks_commits s @ (case commit of None \<Rightarrow> [] | Some n \<Rightarrow> [(?k, n)])"
  have old: "commits_ok (ks_commits s) (ack_in logs m)" using assms(3) by (auto simp: commits_ok_def ack_in_def)
  have new: "(\<exists>y \<in> set (ll_leased ?l). n = y + 1) \<and> (\<forall>x \<in> set (ll_leased ?l). x < n \<longrightarrow> x \<in> ll_acked ?l)" if "commit = Some n" for n
  proof -
    have n: "commit_of (acked_prefix ?l) = Some n" using res(2) that by (auto split: if_splits)
    then have ne: "acked_prefix ?l \<noteq> []" and last: "n = last (acked_prefix ?l) + 1" by (auto simp: commit_of_def split: if_splits)
    have "last (acked_prefix ?l) \<in> set (ll_leased ?l)"
      using last_in_set [OF ne] by (auto simp: acked_prefix_def dest: set_takeWhileD)
    moreover have "sorted_wrt (<) (ll_leased ?l)" using assms(1) by (simp add: kafka_inv_def lease_ok_def)
    ultimately show ?thesis using commit_covers [OF _ n] last by blast
  qed
  have "commits_ok ?cs (ack_in logs m)"
    using old new by (auto simp: commits_ok_def ack split: option.splits)
  then show ?thesis using a res(3) ack by (auto simp: queue_ack_def)
qed

section \<open>Steps keep the invariant\<close>

definition kframe :: "'w kafka_sched \<Rightarrow> 'w kafka_sched \<Rightarrow> bool" where
  "kframe s t \<longleftrightarrow> ks_client t = ks_client s \<and> ks_inflight t = ks_inflight s \<and> ks_start t = ks_start s \<and>
     ks_commits t = ks_commits s"

lemma kframe_trans: "kframe s t \<Longrightarrow> kframe t u \<Longrightarrow> kframe s u"
  by (simp add: kframe_def)

lemma kframe_refl [simp]: "kframe s s"
  by (simp add: kframe_def)

lemma kframe_inv: "kframe s t \<Longrightarrow> kconf_inv (s, logs, fin) \<Longrightarrow> kconf_inv (t, logs, fin)"
proof -
  assume f: "kframe s t" and i: "kconf_inv (s, logs, fin)"
  have "holders t = holders s" using f by (simp add: kframe_def holders_def fun_eq_iff)
  then show "kconf_inv (t, logs, fin)" using f i by (simp add: kframe_def kconf_inv_def)
qed

lemma kafka_insert_cases:
  assumes "kafka_insert produce env sp s r = (s', res)"
  obtains (failed) "kframe s s'" "res \<noteq> Inr True"
  | (sent) t where "kframe s t" "kframe (kafka_acknowledge_start t (rq_id r)) s'" "res = Inr True"
proof -
  have bytes: "kframe s t" if "kafka_request_bytes env sp s r = (t, x)" for t x
    using that by (auto simp: kafka_request_bytes_def and_then_def kframe_def split: if_splits sum.splits option.splits prod.splits)
  have prod: "kframe s t" if "on_broker s f = (t, x)" for s t :: "'w kafka_sched" and f and x :: "sched_error + bool"
    using that by (auto simp: on_broker_def kframe_def split: prod.splits)
  show thesis
    using assms unfolding kafka_insert_def
  proof (cases rule: and_then_cases)
    case (raised e)
    then show thesis using failed bytes by blast
  next
    case (went_on t b)
    note t = bytes [OF went_on(1)]
    show thesis
      using went_on(2)
    proof (cases rule: and_then_cases)
      case (raised e)
      then show thesis using failed kframe_trans [OF t] prod by blast
    next
      case push: (went_on u result)
      have u: "kframe s u" using kframe_trans [OF t] prod [OF push(1)] by blast
      show thesis
      proof (cases result)
        case True
        then show thesis using push(2) sent [OF u] by (auto simp: Let_def kframe_def)
      next
        case False
        then show thesis using push(2) u failed by (auto simp: kafka_drop_def kframe_def)
      qed
    qed
  qed
qed

lemma kafka_put_cases:
  assumes "kafka_put produce env sp s r = (s', res)"
  obtains (failed) "kframe s s'" "res \<noteq> Inr True"
  | (sent) t where "kframe s t" "kframe (kafka_acknowledge_start t (rq_id r)) s'" "res = Inr True"
proof (cases "rq_dont_filter r \<or> rq_start_url r")
  case True
  then have "kafka_insert produce env sp s r = (s', res)" using assms by (simp add: kafka_put_def)
  then show thesis using failed sent by (cases rule: kafka_insert_cases)
next
  case False
  have seen: "kframe s t" if "on_broker s (\<lambda>w. en_seen env w r) = (t, x)" for t x
    using that by (auto simp: on_broker_def kframe_def split: prod.splits)
  show thesis
    using assms unfolding kafka_put_def if_P [OF False]
  proof (cases rule: and_then_cases)
    case (raised e)
    then show thesis using failed seen by blast
  next
    case (went_on t is_seen)
    note t = seen [OF went_on(1)]
    show thesis
    proof (cases is_seen)
      case True
      then show thesis using went_on(2) t failed by (auto simp: kafka_drop_def kframe_def)
    next
      case False
      then have "kafka_insert produce env sp t r = (s', res)" using went_on(2) by simp
      then show thesis using failed sent kframe_trans [OF t] by (cases rule: kafka_insert_cases) blast+
    qed
  qed
qed

text \<open>Dropping the message of a holder and acknowledging it.\<close>

lemma ack_holder_inv:
  assumes inv: "kconf_inv (s, logs, fin)" and m: "holders s h = Some m"
    and t: "ks_client t = ks_client s" "ks_commits t = ks_commits s" "holders t = (holders s)(h := None)"
  shows "kconf_inv (fst (queue_ack t m), ack_in logs m, insert m fin)"
proof -
  have i: "kafka_inv (ks_client t, logs)" "owned_ok (holders s) logs" "finished_ok fin logs" "commits_ok (ks_commits t) logs"
    using inv t by (simp_all add: kconf_inv_def)
  from queue_ack_effect [OF i(1) owned_keep [OF i(2) m] i(4)] obtain c cs where
    a: "fst (queue_ack t m) = t\<lparr>ks_client := c, ks_commits := cs\<rparr>" "kafka_inv (c, ack_in logs m)"
    "commits_ok cs (ack_in logs m)" by blast
  have "holders (fst (queue_ack t m)) = (holders s)(h := None)"
    unfolding t(3) [symmetric] by (rule holders_frame) (simp_all add: a(1))
  then show ?thesis
    using a owned_ack_drop [OF i(2) m] finished_ack [OF i(3)] by (simp add: kconf_inv_def)
qed

lemma drop_absent_inv:
  "kconf_inv (s, logs, fin) \<Longrightarrow> holders s h = None \<Longrightarrow> ks_client t = ks_client s \<Longrightarrow> ks_commits t = ks_commits s \<Longrightarrow>
   holders t = (holders s)(h := None) \<Longrightarrow> kconf_inv (t, logs, fin)"
  by (simp add: kconf_inv_def fun_upd_idem)

lemma acknowledge_start_inv:
  assumes "kconf_inv (s, logs, fin)"
  shows "kconf_inv (kafka_acknowledge_start s i, acks_in logs (map_of (ks_start s) i), set_option (map_of (ks_start s) i) \<union> fin)"
proof -
  let ?t = "s\<lparr>ks_start := dict_pop (ks_start s) i\<rparr>"
  have h: "holders ?t = (holders s)((True, i) := None)" by (auto simp: holders_def fun_eq_iff)
  show ?thesis
  proof (cases "map_of (ks_start s) i")
    case None
    then have "holders s (True, i) = None" by (simp add: holders_def)
    then show ?thesis using drop_absent_inv [OF assms _ _ _ h] None by (simp add: kafka_acknowledge_start_def acks_in_def)
  next
    case (Some m)
    then have "holders s (True, i) = Some m" by (simp add: holders_def)
    then show ?thesis using ack_holder_inv [OF assms _ _ _ h] Some by (simp add: kafka_acknowledge_start_def acks_in_def)
  qed
qed

lemma kafka_complete_inv:
  assumes "kconf_inv (s, logs, fin)"
  shows "kconf_inv (kafka_complete s i, acks_in logs (map_of (ks_inflight s) i), set_option (map_of (ks_inflight s) i) \<union> fin)"
proof -
  let ?t = "s\<lparr>ks_inflight := dict_pop (ks_inflight s) i\<rparr>"
  have h: "holders ?t = (holders s)((False, i) := None)" by (auto simp: holders_def fun_eq_iff)
  show ?thesis
  proof (cases "map_of (ks_inflight s) i")
    case None
    then have "holders s (False, i) = None" by (simp add: holders_def)
    then show ?thesis using drop_absent_inv [OF assms _ _ _ h] None by (simp add: kafka_complete_def acks_in_def)
  next
    case (Some m)
    then have "holders s (False, i) = Some m" by (simp add: holders_def)
    then show ?thesis using ack_holder_inv [OF assms _ _ _ h] Some by (simp add: kafka_complete_def acks_in_def)
  qed
qed

text \<open>Leasing a message, and keeping it or not.\<close>

lemma pop_inv:
  assumes inv: "kconf_inv (s, logs, fin)" and del: "delivers logs topic grp got" and pop: "queue_pop s topic grp got = (t, mo)"
  shows "kconf_inv (t, lease_to logs topic grp got, fin)" and "mo = message_of topic grp got"
    and "mo = Some m \<Longrightarrow> leased_open (lease_to logs topic grp got) m"
    and "mo = Some m \<Longrightarrow> holders t h = Some m' \<Longrightarrow> \<not> same_msg m m'"
proof -
  have k: "kafka_inv (ks_client s, logs)" using inv by (simp add: kconf_inv_def)
  from queue_pop_effect [OF k del pop] obtain c where
    t: "t = s\<lparr>ks_client := c\<rparr>" "kafka_inv (c, lease_to logs topic grp got)" and mo: "mo = message_of topic grp got" by blast
  have h: "holders t = holders s" by (simp add: t(1) holders_def fun_eq_iff)
  show "kconf_inv (t, lease_to logs topic grp got, fin)"
    using inv t owned_lease [of "holders s" logs] finished_lease [of fin logs] commits_lease [OF _ del, of "ks_commits s"]
    unfolding kconf_inv_def h prod.case by (simp add: t(1))
  show "mo = message_of topic grp got" by (rule mo)
  show "mo = Some m \<Longrightarrow> leased_open (lease_to logs topic grp got) m"
    using delivered_open(1) [OF k del] mo by simp
  show "mo = Some m \<Longrightarrow> holders t h = Some m' \<Longrightarrow> \<not> same_msg m m'" for h m'
    using delivered_open(2) [OF k del, of m "holders s" h m'] mo inv by (simp add: h kconf_inv_def)
qed

lemma keep_inv:
  assumes "kconf_inv (s, logs, fin)" and "leased_open logs m" and "\<And>h' m'. holders s h' = Some m' \<Longrightarrow> \<not> same_msg m m'"
    and "ks_client t = ks_client s" and "ks_commits t = ks_commits s" and "holders t = (holders s)(h \<mapsto> m)"
  shows "kconf_inv (t, logs, fin)"
  using assms(1,4-6) owned_put [OF _ assms(2,3)] by (auto simp: kconf_inv_def)

lemma kafka_get_inv:
  assumes inv: "kconf_inv (s, logs, fin)"
    and del: "delivers logs (kafka_queue_key (en_settings env) sp) (get_consumer_group (en_settings env) sp False) got"
    and get: "kafka_get env sp oid got s = (s', res)"
  shows "kconf_inv (s', lease_to logs (kafka_queue_key (en_settings env) sp) (get_consumer_group (en_settings env) sp False) got, fin)"
proof -
  let ?logs = "lease_to logs (kafka_queue_key (en_settings env) sp) (get_consumer_group (en_settings env) sp False) got"
  obtain t mo where pop: "queue_pop s (kafka_queue_key (en_settings env) sp) (get_consumer_group (en_settings env) sp False) got = (t, mo)"
    by fastforce
  note p = pop_inv [OF inv del pop]
  show ?thesis
  proof (cases mo)
    case None
    then show ?thesis using get pop p(1) by (simp add: kafka_get_def)
  next
    case (Some m)
    show ?thesis
    proof (cases "en_decode env (km_value m) oid")
      case None
      then show ?thesis using get pop p(1) Some by (simp add: kafka_get_def)
    next
      case dec: (Some r)
      have restore: "kframe t u" if "(if qs_persist_sessions (en_settings env) then
                    (case restore_session (en_session env) (en_repr env) (en_dec env) (ks_store t) (ks_sessions t)
                            (session_state_key (en_settings env) (kafka_queue_key (en_settings env) sp)) (rq_session r) of
                       (m, Inl e) \<Rightarrow> (t\<lparr>ks_sessions := m\<rparr>, Inl (RestoreError e))
                     | (m, Inr restored) \<Rightarrow> (t\<lparr>ks_sessions := m\<rparr>, Inr ()))
                  else (t, Inr ())) = (u, x)" for u x
        using that by (auto simp: kframe_def split: if_splits prod.splits sum.splits)
      show ?thesis
        using get [unfolded kafka_get_def, unfolded pop Some, simplified, unfolded dec, simplified]
      proof (cases rule: and_then_cases)
        case (raised e)
        then show ?thesis using kframe_inv [OF restore p(1)] by blast
      next
        case (went_on u x)
        have u: "kframe t u" by (rule restore [OF went_on(1)])
        have hu: "holders u = holders t" using u by (simp add: kframe_def holders_def fun_eq_iff)
        have s': "s' = u\<lparr>ks_inflight := dict_set (ks_inflight u) (rq_id r) m\<rparr>" using went_on(2) by simp
        show ?thesis
        proof (rule keep_inv [OF kframe_inv [OF u p(1)] p(3) [OF Some]])
          show "holders u h' = Some m' \<Longrightarrow> \<not> same_msg m m'" for h' m' using p(4) [OF Some] by (simp add: hu)
          show "holders s' = (holders u)((False, rq_id r) \<mapsto> m)" by (auto simp: s' holders_def fun_eq_iff)
        qed (simp_all add: s')
      qed
    qed
  qed
qed

lemma kafka_start_turn_inv:
  assumes inv: "kconf_inv (s, logs, fin)" and del: "delivers logs (kafka_start_topic (en_settings env) sp) (get_consumer_group (en_settings env) sp True) got"
    and turn: "kafka_start_turn parse env sp got s = (s', res)"
  shows "kconf_inv (s', acks_in (lease_to logs (kafka_start_topic (en_settings env) sp) (get_consumer_group (en_settings env) sp True) got) (if res = Inr None then message_of (kafka_start_topic (en_settings env) sp) (get_consumer_group (en_settings env) sp True) got else None),
    set_option (if res = Inr None then message_of (kafka_start_topic (en_settings env) sp) (get_consumer_group (en_settings env) sp True) got else None) \<union> fin)"
proof -
  let ?topic = "kafka_start_topic (en_settings env) sp" and ?grp = "get_consumer_group (en_settings env) sp True"
  let ?logs = "lease_to logs ?topic ?grp got"
  obtain t mo where pop: "queue_pop s ?topic ?grp got = (t, mo)" by fastforce
  note p = pop_inv [OF inv del pop]
  note turn' = turn [unfolded kafka_start_turn_def pop]
  show ?thesis
  proof (cases mo)
    case None
    then show ?thesis using turn' p(1,2) by (simp add: acks_in_def)
  next
    case (Some m)
    then have mo: "message_of ?topic ?grp got = Some m" using p(2) by simp
    show ?thesis
    proof (cases "parse (km_value m)")
      case (Inl e)
      then show ?thesis using turn' p(1) Some by (auto simp: acks_in_def)
    next
      case (Inr ro)
      show ?thesis
      proof (cases ro)
        case None
        then have s': "s' = fst (queue_ack t m)" and res: "res = Inr None" using turn' Some Inr by simp_all
        have i: "kafka_inv (ks_client t, ?logs)" "owned_ok (holders t) ?logs" "finished_ok fin ?logs" "commits_ok (ks_commits t) ?logs"
          using p(1) by (simp_all add: kconf_inv_def)
        from queue_ack_effect [OF i(1) p(3) [OF Some] i(4)] obtain c cs where
          a: "s' = t\<lparr>ks_client := c, ks_commits := cs\<rparr>" "kafka_inv (c, ack_in ?logs m)" "commits_ok cs (ack_in ?logs m)"
          unfolding s' by blast
        have h: "holders s' = holders t" by (rule holders_frame) (simp_all add: a(1))
        have "owned_ok (holders t) (ack_in ?logs m)" using owned_ack [OF i(2)] p(4) [OF Some] by blast
        then show ?thesis using a finished_ack [OF i(3), of m] h res mo
          by (simp add: kconf_inv_def acks_in_def)
      next
        case req: (Some r)
        have s': "s' = t\<lparr>ks_start := dict_set (ks_start t) (rq_id r) m\<rparr>" and res: "res = Inr (Some r)"
          using turn' Some Inr req by simp_all
        have "kconf_inv (s', ?logs, fin)"
        proof (rule keep_inv [OF p(1) p(3) [OF Some]])
          show "holders t h' = Some m' \<Longrightarrow> \<not> same_msg m m'" for h' m' by (rule p(4) [OF Some])
          show "holders s' = (holders t)((True, rq_id r) \<mapsto> m)" by (auto simp: s' holders_def fun_eq_iff)
        qed (simp_all add: s')
        then show ?thesis using res by (simp add: acks_in_def)
      qed
    qed
  qed
qed

lemma kafka_run_step_inv:
  assumes "kafka_run_step produce parse env sp x y" and "kconf_inv x"
  shows "kconf_inv y"
  using assms(1)
proof (cases rule: kafka_run_step.cases)
  case (kr_put s r s' res done' logs fin)
  have inv: "kconf_inv (s, logs, fin)" using assms(2) kr_put(1) by simp
  show ?thesis
    using kr_put(3)
  proof (cases rule: kafka_put_cases)
    case failed
    then show ?thesis using kframe_inv [OF failed(1) inv] kr_put(2,4) by (simp add: acks_in_def)
  next
    case (sent t)
    have "ks_start t = ks_start s" using sent(1) by (simp add: kframe_def)
    then show ?thesis
      using kframe_inv [OF sent(2) acknowledge_start_inv [OF kframe_inv [OF sent(1) inv]]] sent(3) kr_put(2,4) by simp
  qed
next
  case (kr_get logs got oid s s' res fin)
  then show ?thesis using kafka_get_inv assms(2) by blast
next
  case (kr_complete done' s i logs fin)
  then show ?thesis using kafka_complete_inv assms(2) by blast
next
  case (kr_start logs got s s' res message done' fin)
  have inv: "kconf_inv (s, logs, fin)" using assms(2) kr_start(1) by simp
  show ?thesis unfolding kr_start(2,5,6) by (rule kafka_start_turn_inv [OF inv kr_start(3,4)])
qed

definition kafka_sched_init :: "'w \<Rightarrow> redis_store \<Rightarrow> manager \<Rightarrow> 'w kafka_sched" where
  "kafka_sched_init w store m =
     \<lparr>ks_world = w, ks_client = kafka_init, ks_store = store, ks_sessions = m, ks_inflight = [], ks_start = [],
      ks_signals = [], ks_commits = []\<rparr>"

lemma kconf_inv_init: "kconf_inv (kafka_sched_init w store m, \<lambda>_. empty_log, {})"
  using kafka_inv_init
  by (simp add: kconf_inv_def kafka_sched_init_def owned_ok_def holders_def finished_ok_def commits_ok_def empty_log_def)

lemma kafka_sched_runs_inv:
  assumes "(kafka_run_step produce parse env sp)\<^sup>*\<^sup>* (kafka_sched_init w store m, \<lambda>_. empty_log, {}) x"
  shows "kconf_inv x"
  using assms by (induction rule: rtranclp_induct) (auto intro: kconf_inv_init kafka_run_step_inv)

section \<open>Properties\<close>


definition sample_kafka :: "(string \<Rightarrow> bytes list) kafka_sched" where
  "sample_kafka = kafka_sched_init (\<lambda>_. []) Map.empty (manager_init ''d'')"

definition sample_got :: "(nat \<times> nat \<times> bytes) option" where
  "sample_got = Some (0, 5, [97])"

definition sample_leased :: "(string \<Rightarrow> bytes list) kafka_sched" where
  "sample_leased = fst (kafka_get sample_lease_env sample_spider 1 sample_got sample_kafka)"

lemma sample_topic:
  "kafka_queue_key (en_settings sample_lease_env) sample_spider = ''s_req''"
  "get_consumer_group (en_settings sample_lease_env) sample_spider False = ''g.s.work''"
  by (simp_all add: kafka_queue_key_def get_consumer_group_def sample_lease_env_def sample_queue_settings_def sample_spider_def
      get_queue_key_def str_or_def kafka_name_def kafka_char_def Let_def)

lemma sample_leased_fields:
  "ks_inflight sample_leased = [(1, \<lparr>km_topic = ''s_req'', km_group = ''g.s.work'', km_part = 0, km_offset = 5, km_value = [97]\<rparr>)]"
  "ks_client sample_leased = \<lparr>kc_consumers = {(''s_req'', ''g.s.work'')}, kc_pending = [((''s_req'', ''g.s.work'', 0), [(5, False)])]\<rparr>"
  "ks_commits sample_leased = []"
  unfolding sample_leased_def kafka_get_def sample_topic
  by (simp_all add: sample_got_def sample_kafka_def kafka_sched_init_def queue_pop_def KafkaOffsets.dequeue_request_def Let_def
      kafka_init_def dict_get_def and_then_def sample_lease_env_def sample_queue_settings_def sample_request_def)


end
