(* ===== verification/InterceptorChains.thy ===== *)
theory InterceptorChains
  imports Prelude
begin

text \<open>
  The interceptor chains (\<open>interceptors/chains.py\<close>).  A chain is the list of its interceptors, head
  first; an interceptor's hook is a function from the shared state and its arguments to the state
  and the value it returned.  Callbacks are not called here: a chain returns the result it would
  hand to its callback.
\<close>

section \<open>Values and results\<close>

text \<open>What a hook can return, by the classes the chains test for; \<open>VOther\<close> is anything else.\<close>

datatype ('q, 'p, 'e, 'i, 'c) hook_value =
    VNone | VReq 'q | VResp 'p | VExc 'e | VItem 'i | VClose 'c | VOther

datatype chain_next =
    NextReschedule | NextResponse | NextException | NextDownloader | NextPipeline | NextSpider | NextSession

datatype chain_error = InvalidReturn | UnsupportedType | NoResult

record ('q, 'p, 'e, 'i, 'c) chain_result =
  cr_next :: chain_next
  cr_request :: "'q option"
  cr_response :: "('e + 'p) option"
  cr_item :: "'i option"
  cr_exception :: "'e option"
  cr_signal :: "'c option"
  cr_across :: nat

definition chain_result_of :: "chain_next \<Rightarrow> ('q, 'p, 'e, 'i, 'c) chain_result" where
  "chain_result_of nx =
     \<lparr>cr_next = nx, cr_request = None, cr_response = None, cr_item = None, cr_exception = None, cr_signal = None,
      cr_across = 0\<rparr>"

type_synonym ('m, 'q, 'p, 'e, 'i, 'c) hook_reply = "'m \<times> ('q, 'p, 'e, 'i, 'c) hook_value"

section \<open>Passes\<close>

text \<open>\<open>None\<close> from an interceptor keeps the data; the result is that of the last one, or unbound.\<close>

fun pass :: "('m \<Rightarrow> 'd \<Rightarrow> 'm \<times> 'd option) list \<Rightarrow> 'm \<Rightarrow> 'd \<Rightarrow> 'm \<times> (chain_error + 'd option)" where
  "pass [] m d = (m, Inl NoResult)"
| "pass [f] m d = (case f m d of (m', r) \<Rightarrow> (m', Inr r))"
| "pass (f # g # fs) m d = (case f m d of (m', r) \<Rightarrow> pass (g # fs) m' (case r of None \<Rightarrow> d | Some d' \<Rightarrow> d'))"

definition forward_pass :: "('m \<Rightarrow> 'd \<Rightarrow> 'm \<times> 'd option) list \<Rightarrow> 'm \<Rightarrow> 'd \<Rightarrow> 'm \<times> (chain_error + 'd option)" where
  "forward_pass fs m d = pass fs m d"

definition backward_pass :: "('m \<Rightarrow> 'd \<Rightarrow> 'm \<times> 'd option) list \<Rightarrow> 'm \<Rightarrow> 'd \<Rightarrow> 'm \<times> (chain_error + 'd option)" where
  "backward_pass fs m d = pass (rev fs) m d"

section \<open>Download chains\<close>

fun request_intercept_chain ::
  "('m \<Rightarrow> 'q \<Rightarrow> ('m, 'q, 'p, 'e, 'i, 'c) hook_reply) list \<Rightarrow> 'm \<Rightarrow> 'q \<Rightarrow>
   'm \<times> (chain_error + ('q, 'p, 'e, 'i, 'c) chain_result)" where
  "request_intercept_chain [] m q = (m, Inr ((chain_result_of NextDownloader)\<lparr>cr_request := Some q\<rparr>))"
| "request_intercept_chain (f # fs) m q =
     (case f m q of
        (m', VNone) \<Rightarrow> request_intercept_chain fs m' q
      | (m', VReq q') \<Rightarrow> (m', Inr ((chain_result_of NextReschedule)\<lparr>cr_request := Some q'\<rparr>))
      | (m', VResp p) \<Rightarrow> (m', Inr ((chain_result_of NextResponse)\<lparr>cr_request := Some q, cr_response := Some (Inr p)\<rparr>))
      | (m', VExc e) \<Rightarrow> (m', Inr ((chain_result_of NextException)\<lparr>cr_request := Some q, cr_exception := Some e\<rparr>))
      | (m', _) \<Rightarrow> (m', Inl InvalidReturn))"

text \<open>
  The response chain, tail first over the reversed list.  \<open>owned\<close> is the stream response it owns; the
  list of closed streams is the third component.
\<close>

fun response_loop ::
  "('m \<Rightarrow> 'q \<Rightarrow> 'e + 'p \<Rightarrow> ('m, 'q, 'p, 'e, 'i, 'c) hook_reply) list \<Rightarrow> 'm \<Rightarrow> 'q \<Rightarrow> 'e + 'p \<Rightarrow> 'p option \<Rightarrow>
   'm \<times> (chain_error + ('q, 'p, 'e, 'i, 'c) chain_result) \<times> 'p list" where
  "response_loop [] m q p owned =
     (m, Inr ((chain_result_of NextSpider)\<lparr>cr_request := Some q, cr_response := Some p\<rparr>), [])"
| "response_loop (f # fs) m q p owned =
     (let stream = (case owned of None \<Rightarrow> [] | Some s \<Rightarrow> [s])
      in case f m q p of
        (m', VNone) \<Rightarrow> response_loop fs m' q p owned
      | (m', VResp p') \<Rightarrow>
          (if owned \<noteq> None \<and> owned \<noteq> Some p' then
             (case response_loop fs m' q (Inr p') None of (m2, r, shut) \<Rightarrow> (m2, r, stream @ shut))
           else response_loop fs m' q (Inr p') owned)
      | (m', VReq q') \<Rightarrow> (m', Inr ((chain_result_of NextReschedule)\<lparr>cr_request := Some q'\<rparr>), stream)
      | (m', VExc e) \<Rightarrow>
          (m', Inr ((chain_result_of NextException)\<lparr>cr_request := Some q, cr_exception := Some e\<rparr>), stream)
      | (m', _) \<Rightarrow> (m', Inl InvalidReturn, []))"

definition response_intercept_chain ::
  "('p \<Rightarrow> bool) \<Rightarrow> ('m \<Rightarrow> 'q \<Rightarrow> 'e + 'p \<Rightarrow> ('m, 'q, 'p, 'e, 'i, 'c) hook_reply) list \<Rightarrow> 'm \<Rightarrow> 'q \<Rightarrow> 'e + 'p \<Rightarrow>
   'm \<times> (chain_error + ('q, 'p, 'e, 'i, 'c) chain_result) \<times> 'p list" where
  "response_intercept_chain is_stream fs m q p =
     response_loop (rev fs) m q p (case p of Inl _ \<Rightarrow> None | Inr s \<Rightarrow> if is_stream s then Some s else None)"

fun exception_loop ::
  "('m \<Rightarrow> 'q \<Rightarrow> 'e \<Rightarrow> ('m, 'q, 'p, 'e, 'i, 'c) hook_reply) list \<Rightarrow> 'm \<Rightarrow> 'q \<Rightarrow> 'e \<Rightarrow> nat \<Rightarrow>
   'm \<times> (chain_error + ('q, 'p, 'e, 'i, 'c) chain_result)" where
  "exception_loop [] m q e is_across =
     (m, Inr ((chain_result_of NextException)\<lparr>cr_request := Some q, cr_exception := Some e, cr_across := is_across\<rparr>))"
| "exception_loop (f # fs) m q e is_across =
     (case f m q e of
        (m', VNone) \<Rightarrow> exception_loop fs m' q e is_across
      | (m', VExc e') \<Rightarrow> exception_loop fs m' q e' is_across
      | (m', VReq q') \<Rightarrow> (m', Inr ((chain_result_of NextReschedule)\<lparr>cr_request := Some q', cr_across := is_across\<rparr>))
      | (m', VResp p) \<Rightarrow> (m', Inr ((chain_result_of NextResponse)\<lparr>cr_request := Some q, cr_response := Some (Inr p)\<rparr>))
      | (m', _) \<Rightarrow> (m', Inl InvalidReturn))"

definition exception_intercept_chain ::
  "('m \<Rightarrow> 'q \<Rightarrow> 'e \<Rightarrow> ('m, 'q, 'p, 'e, 'i, 'c) hook_reply) list \<Rightarrow> 'm \<Rightarrow> 'q \<Rightarrow> 'e \<Rightarrow> nat \<Rightarrow>
   'm \<times> (chain_error + ('q, 'p, 'e, 'i, 'c) chain_result)" where
  "exception_intercept_chain fs m q e is_across = exception_loop (rev fs) m q e is_across"

section \<open>Spider chains\<close>

fun spider_input_chain ::
  "('p \<Rightarrow> bool) \<Rightarrow> ('m \<Rightarrow> 'p \<Rightarrow> ('m, 'q, 'p, 'e, 'i, 'c) hook_reply) list \<Rightarrow> 'm \<Rightarrow> 'p \<Rightarrow> 'q \<Rightarrow>
   'm \<times> (chain_error + ('q, 'p, 'e, 'i, 'c) chain_result) \<times> 'p list" where
  "spider_input_chain is_stream [] m p q =
     (m, Inr ((chain_result_of NextSpider)\<lparr>cr_request := Some q, cr_response := Some (Inr p)\<rparr>), [])"
| "spider_input_chain is_stream (f # fs) m p q =
     (case f m p of
        (m', VNone) \<Rightarrow> spider_input_chain is_stream fs m' p q
      | (m', VExc e) \<Rightarrow>
          (m', Inr ((chain_result_of NextSpider)\<lparr>cr_request := Some q, cr_response := Some (Inl e)\<rparr>),
           if is_stream p then [p] else [])
      | (m', _) \<Rightarrow> (m', Inl InvalidReturn, []))"

text \<open>
  A hook that processes spider output returns nothing (\<open>None\<close>) or something to iterate: an atom, or a
  nesting of iterables.  Flattening stops where it meets an unsupported object.
\<close>

datatype 'v py_output = Atom 'v | Many "'v py_output list" | Alien

function flatten :: "'v py_output list \<Rightarrow> 'v list \<times> bool" where
  "flatten [] = ([], True)"
| "flatten (Atom v # rest) = (case flatten rest of (vs, ok) \<Rightarrow> (v # vs, ok))"
| "flatten (Many xs # rest) = flatten (xs @ rest)"
| "flatten (Alien # rest) = ([], False)"
  by pat_completeness auto

termination flatten
proof (relation "measure (\<lambda>xs. sum_list (map (\<lambda>x. Suc (size x)) xs))")
  fix xs rest :: "'v py_output list"
  have "sum_list (map (\<lambda>x. Suc (size x)) ys) \<le> size_list size ys" for ys :: "'v py_output list"
    by (induction ys) auto
  from this [of xs] show "(xs @ rest, Many xs # rest) \<in> measure (\<lambda>xs. sum_list (map (\<lambda>x. Suc (size x)) xs))" by simp
qed auto

text \<open>One interceptor's values: the last request or item becomes the result; an exception or a close
  signal ends the chain.\<close>

datatype ('v, 'r) scan = Go 'v | Stop 'r

fun scan_outputs ::
  "('q, 'p, 'e, 'i, 'c) hook_value \<Rightarrow> 'p option \<Rightarrow> ('q, 'p, 'e, 'i, 'c) hook_value list \<Rightarrow>
   (('q, 'p, 'e, 'i, 'c) hook_value, ('q, 'p, 'e, 'i, 'c) chain_result) scan" where
  "scan_outputs r p [] = Go r"
| "scan_outputs r p (VReq q # vs) = scan_outputs (VReq q) p vs"
| "scan_outputs r p (VItem i # vs) = scan_outputs (VItem i) p vs"
| "scan_outputs r p (VExc e # vs) =
     Stop ((chain_result_of NextException)\<lparr>cr_response := map_option Inr p, cr_exception := Some e\<rparr>)"
| "scan_outputs r p (VClose c # vs) = Stop ((chain_result_of NextSession)\<lparr>cr_signal := Some c\<rparr>)"
| "scan_outputs r p (VNone # vs) = scan_outputs r p vs"
| "scan_outputs r p (VResp x # vs) = scan_outputs r p vs"
| "scan_outputs r p (VOther # vs) = scan_outputs r p vs"

type_synonym ('m, 'q, 'p, 'e, 'i, 'c) output_hook =
  "'m \<Rightarrow> 'p option \<Rightarrow> ('q, 'p, 'e, 'i, 'c) hook_value \<Rightarrow> 'm \<times> ('q, 'p, 'e, 'i, 'c) hook_value py_output option"

fun output_loop ::
  "('m, 'q, 'p, 'e, 'i, 'c) output_hook list \<Rightarrow> 'm \<Rightarrow> 'p option \<Rightarrow> ('q, 'p, 'e, 'i, 'c) hook_value \<Rightarrow>
   'm \<times> ('q, 'p, 'e, 'i, 'c) chain_result list \<times> chain_error option" where
  "output_loop [] m p r =
     (m, (case r of
            VReq q \<Rightarrow> [(chain_result_of NextReschedule)\<lparr>cr_request := Some q\<rparr>]
          | VItem i \<Rightarrow> [(chain_result_of NextPipeline)\<lparr>cr_item := Some i\<rparr>]
          | VClose c \<Rightarrow> [(chain_result_of NextSession)\<lparr>cr_signal := Some c\<rparr>]
          | _ \<Rightarrow> []),
      (case r of VResp _ \<Rightarrow> Some InvalidReturn | VExc _ \<Rightarrow> Some InvalidReturn | VOther \<Rightarrow> Some InvalidReturn | _ \<Rightarrow> None))"
| "output_loop (f # fs) m p r =
     (case f m p r of
        (m', None) \<Rightarrow> output_loop fs m' p r
      | (m', Some out) \<Rightarrow>
          (case flatten [out] of
             (vs, ok) \<Rightarrow>
               (case scan_outputs r p vs of
                  Stop res \<Rightarrow> (m', [res], None)
                | Go r' \<Rightarrow> if ok then output_loop fs m' p r' else (m', [], Some UnsupportedType))))"

definition spider_output_chain ::
  "('m, 'q, 'p, 'e, 'i, 'c) output_hook list \<Rightarrow> 'm \<Rightarrow> 'p option \<Rightarrow> ('q, 'p, 'e, 'i, 'c) hook_value \<Rightarrow>
   'm \<times> ('q, 'p, 'e, 'i, 'c) chain_result list \<times> chain_error option" where
  "spider_output_chain fs m p r = output_loop (rev fs) m p r"

fun spider_exception_loop ::
  "('m \<Rightarrow> 'p option \<Rightarrow> 'e \<Rightarrow> ('m, 'q, 'p, 'e, 'i, 'c) hook_reply) list \<Rightarrow> 'm \<Rightarrow> 'p option \<Rightarrow> 'e \<Rightarrow> nat \<Rightarrow>
   'm \<times> (chain_error + ('q, 'p, 'e, 'i, 'c) chain_result)" where
  "spider_exception_loop [] m p e is_across =
     (m, Inr ((chain_result_of NextException)\<lparr>cr_response := map_option Inr p, cr_exception := Some e, cr_across := is_across\<rparr>))"
| "spider_exception_loop (f # fs) m p e is_across =
     (case f m p e of
        (m', VNone) \<Rightarrow> spider_exception_loop fs m' p e is_across
      | (m', VExc e') \<Rightarrow>
          (m', Inr ((chain_result_of NextException)\<lparr>cr_response := map_option Inr p, cr_exception := Some e, cr_across := is_across\<rparr>))
      | (m', VReq q) \<Rightarrow> (m', Inr ((chain_result_of NextReschedule)\<lparr>cr_request := Some q, cr_across := is_across\<rparr>))
      | (m', VItem i) \<Rightarrow> (m', Inr ((chain_result_of NextPipeline)\<lparr>cr_item := Some i, cr_across := is_across\<rparr>))
      | (m', _) \<Rightarrow> (m', Inl InvalidReturn))"

definition spider_exception_chain ::
  "('m \<Rightarrow> 'p option \<Rightarrow> 'e \<Rightarrow> ('m, 'q, 'p, 'e, 'i, 'c) hook_reply) list \<Rightarrow> 'm \<Rightarrow> 'p option \<Rightarrow> 'e \<Rightarrow> nat \<Rightarrow>
   'm \<times> (chain_error + ('q, 'p, 'e, 'i, 'c) chain_result)" where
  "spider_exception_chain fs m p e is_across = spider_exception_loop (rev fs) m p e is_across"

section \<open>Lemmas\<close>

lemma response_loop_closed:
  "response_loop fs m q p (Some s) = (m', Inr res, shut) \<Longrightarrow> p = Inr s \<Longrightarrow>
   length shut \<le> 1 \<and> set shut \<subseteq> {s} \<and> (shut = [] \<longrightarrow> cr_next res = NextSpider \<and> cr_response res = Some (Inr s))"
  "response_loop fs m q p None = (m', Inr res, shut) \<Longrightarrow> shut = []"
proof (induction fs arbitrary: m p shut)
  case (Cons f fs)
  {
    case 1
    obtain m1 v where f: "f m q p = (m1, v)" by fastforce
    show ?case
    proof (cases v)
      case (VResp p')
      show ?thesis
      proof (cases "p' = s")
        case True
        then have "response_loop fs m1 q (Inr s) (Some s) = (m', Inr res, shut)" using 1(1) f VResp by simp
        then show ?thesis by (rule Cons.IH(1)) (rule refl)
      next
        case False
        then obtain shut' where "response_loop fs m1 q (Inr p') None = (m', Inr res, shut')" "shut = s # shut'"
          using 1(1) f VResp by (auto split: prod.splits)
        then show ?thesis using Cons.IH(2) [of m1 "Inr p'" shut'] by simp
      qed
    qed (use 1 f Cons.IH(1) [of m1 p shut] in \<open>auto split: prod.splits simp: chain_result_of_def\<close>)
  next
    case 2
    obtain m1 v where f: "f m q p = (m1, v)" by fastforce
    show ?case
      using 2 f Cons.IH(2) by (cases v) (auto split: prod.splits)
  }
qed (auto simp: chain_result_of_def)

lemma output_loop_one: "output_loop fs m p r = (m', res, err) \<Longrightarrow> length res \<le> 1"
  by (induction fs arbitrary: m r) (auto split: hook_value.splits prod.splits option.splits scan.splits if_splits)

lemma flatten_atoms: "flatten [Many (map Atom vs)] = (vs, True)"
proof -
  have "flatten (map Atom vs) = (vs, True)" by (induction vs) auto
  then show ?thesis by simp
qed

lemma scan_requests: "qs \<noteq> [] \<Longrightarrow> scan_outputs r p (map VReq qs) = Go (VReq (last qs))"
  by (induction qs arbitrary: r) auto

section \<open>Properties\<close>

text \<open>C19.  A stream response that enters the response chain is closed at most once, only that stream is
  closed, and when it is not closed it is what the spider gets, provided the chain returns.\<close>

theorem owned_stream_closed_once:
  assumes "is_stream s" and "response_intercept_chain is_stream fs m q (Inr s) = (m', Inr res, shut)"
  shows "length shut \<le> 1 \<and> set shut \<subseteq> {s} \<and>
    (shut = [] \<longrightarrow> cr_next res = NextSpider \<and> cr_response res = Some (Inr s))"
  using response_loop_closed(1) [of "rev fs" m q "Inr s" s m' res shut] assms
  by (simp add: response_intercept_chain_def)

theorem owned_stream_closed_once_witness:
  "\<exists>res. response_intercept_chain (\<lambda>p. p = 1) [\<lambda>m q p. (m, VResp (2::nat))] () () (Inr 1 :: unit + nat) =
     ((), Inr (res :: (unit, nat, unit, unit, unit) chain_result), [1]) \<and> length [1 :: nat] \<le> 1"
proof -
  let ?f = "[\<lambda>m q p. (m, VResp (2::nat))] :: (unit \<Rightarrow> unit \<Rightarrow> unit + nat \<Rightarrow> (unit, unit, nat, unit, unit, unit) hook_reply) list"
  obtain res where run: "response_intercept_chain (\<lambda>p. p = 1) ?f () () (Inr 1) = ((), Inr res, [1])"
    by (simp add: response_intercept_chain_def)
  then show ?thesis using owned_stream_closed_once [of "\<lambda>p. p = 1" 1 ?f "()" "()" "()" res "[1]"] by simp
qed

text \<open>However many requests and items the interceptors yield for one spider output, at most one result
  leaves the chain; from an interceptor that yields several requests only the last survives.\<close>

theorem spider_output_single_result:
  fixes r :: "('q, 'p, 'e, 'i, 'c) hook_value"
  assumes "qs \<noteq> []"
  shows "length (fst (snd (spider_output_chain fs m p r))) \<le> 1 \<and>
    spider_output_chain [\<lambda>m p r. (m, Some (Many (map (Atom \<circ> VReq) qs)))] m p r =
      (m, [(chain_result_of NextReschedule)\<lparr>cr_request := Some (last qs)\<rparr>], None)"
proof -
  have "length (fst (snd (spider_output_chain fs m p r))) \<le> 1"
    using output_loop_one [of "rev fs" m p r] by (cases "output_loop (rev fs) m p r") (auto simp: spider_output_chain_def)
  moreover have "flatten [Many (map (Atom \<circ> VReq) qs)] = (map VReq qs :: ('q, 'p, 'e, 'i, 'c) hook_value list, True)"
    using flatten_atoms [of "map VReq qs"] by simp
  ultimately show ?thesis using scan_requests [OF assms, of r p]
    by (simp add: spider_output_chain_def del: flatten.simps)
qed

theorem spider_output_single_result_witness:
  "spider_output_chain [\<lambda>m p r. (m, Some (Many (map (Atom \<circ> VReq) [1, 2 :: nat])))] (0 :: nat) None VNone =
     (0, [(chain_result_of NextReschedule :: (nat, nat, nat, nat, nat) chain_result)\<lparr>cr_request := Some 2\<rparr>], None)"
  using spider_output_single_result [of "[1, 2 :: nat]" "[]" "0 :: nat" None "VNone :: (nat, nat, nat, nat, nat) hook_value"]
  by simp

end
