(* ===== verification/EngineWork.thy ===== *)
theory EngineWork
  imports InterceptorChains MemoryScheduler
begin

text \<open>
  The engine (\<open>core/engine.py\<close>): the ownership of requests between their acceptance and the end of
  their callbacks, on which the engine's completion waits, and the routing of chain results to the
  next step.  Requests are Python objects: \<open>ew_meta\<close> is the work id in an object's \<open>meta\<close>.
\<close>

section \<open>Ownership of requests\<close>

record engine_work =
  ew_engine :: nat
  ew_seq :: nat
  ew_meta :: "nat \<Rightarrow> string option"
  ew_pending :: "string set"
  ew_idle :: bool

definition engine_init :: "nat \<Rightarrow> (nat \<Rightarrow> string option) \<Rightarrow> engine_work" where
  "engine_init self meta = \<lparr>ew_engine = self, ew_seq = 0, ew_meta = meta, ew_pending = {}, ew_idle = True\<rparr>"

definition has_work_id :: "engine_work \<Rightarrow> nat \<Rightarrow> bool" where
  "has_work_id w r \<longleftrightarrow> ew_meta w r \<noteq> None \<and> ew_meta w r \<noteq> Some []"

definition work_id_text :: "nat \<Rightarrow> nat \<Rightarrow> string" where
  "work_id_text self n = str_nat self @ '':'' @ str_nat n"

definition track_request :: "engine_work \<Rightarrow> nat \<Rightarrow> engine_work" where
  "track_request w r =
     (let w1 = (if has_work_id w r then w
                else w\<lparr>ew_seq := ew_seq w + 1,
                       ew_meta := (ew_meta w)(r \<mapsto> work_id_text (ew_engine w) (ew_seq w + 1))\<rparr>);
          work_id = the (ew_meta w1 r)
      in if work_id \<notin> ew_pending w1
         then w1\<lparr>ew_pending := insert work_id (ew_pending w1), ew_idle := False\<rparr> else w1)"

definition release_request :: "engine_work \<Rightarrow> nat \<Rightarrow> engine_work" where
  "release_request w r =
     (let w1 = (if has_work_id w r then w\<lparr>ew_pending := ew_pending w - {the (ew_meta w r)}\<rparr> else w)
      in if ew_pending w1 = {} then w1\<lparr>ew_idle := True\<rparr> else w1)"

text \<open>The scheduler's completion comes first: when it raises, the request stays owned.\<close>

definition complete_request :: "engine_work \<Rightarrow> nat \<Rightarrow> bool \<Rightarrow> engine_work" where
  "complete_request w r acknowledged = (if acknowledged then release_request w r else w)"

datatype put_outcome = PutAccepted | PutRefused | PutRaised

definition enqueue_request :: "bool \<Rightarrow> engine_work \<Rightarrow> nat \<Rightarrow> put_outcome \<Rightarrow> engine_work" where
  "enqueue_request stop w r outcome =
     (if stop then w
      else let w1 = track_request w r
           in if outcome = PutAccepted then w1 else release_request w1 r)"

section \<open>Routing\<close>

text \<open>The next step the engine takes for a chain result.\<close>

datatype ('q, 'p, 'e, 'i, 'c) engine_action =
    EnqueueStep 'q
  | DownloadStep 'q
  | ResponseChainStep "'e + 'p" 'q
  | SpiderInputStep "'e + 'p" 'q
  | ExceptionChainStep 'q 'e
  | SpiderExceptionStep "('e + 'p) option" 'e
  | ProcessResponseStep "'e + 'p" 'q
  | ItemStep 'i
  | SpiderErrorSignal
  | EndWebSocketStep 'c
  | EndSessionStep 'c
  | NoStep

definition route_download ::
  "('q, 'p, 'e, 'i, 'c) chain_result \<Rightarrow> ('q, 'p, 'e, 'i, 'c) engine_action" where
  "route_download res =
     (case cr_next res of
        NextReschedule \<Rightarrow> EnqueueStep (the (cr_request res))
      | NextDownloader \<Rightarrow> DownloadStep (the (cr_request res))
      | NextResponse \<Rightarrow> ResponseChainStep (the (cr_response res)) (the (cr_request res))
      | NextSpider \<Rightarrow> SpiderInputStep (the (cr_response res)) (the (cr_request res))
      | NextException \<Rightarrow>
          (if cr_across res = 0 then ExceptionChainStep (the (cr_request res)) (the (cr_exception res))
           else ProcessResponseStep (Inl (the (cr_exception res))) (the (cr_request res)))
      | _ \<Rightarrow> NoStep)"

text \<open>\<open>ws_end\<close> and \<open>session_end\<close>: what a close signal asks for.\<close>

definition route_spider ::
  "('c \<Rightarrow> bool) \<Rightarrow> ('c \<Rightarrow> bool) \<Rightarrow> ('q, 'p, 'e, 'i, 'c) chain_result \<Rightarrow> ('q, 'p, 'e, 'i, 'c) engine_action" where
  "route_spider ws_end session_end res =
     (case cr_next res of
        NextReschedule \<Rightarrow> EnqueueStep (the (cr_request res))
      | NextSpider \<Rightarrow> ProcessResponseStep (the (cr_response res)) (the (cr_request res))
      | NextPipeline \<Rightarrow> ItemStep (the (cr_item res))
      | NextException \<Rightarrow>
          (if cr_across res = 0 then SpiderExceptionStep (cr_response res) (the (cr_exception res)) else SpiderErrorSignal)
      | NextSession \<Rightarrow>
          (if ws_end (the (cr_signal res)) then EndWebSocketStep (the (cr_signal res))
           else if session_end (the (cr_signal res)) then EndSessionStep (the (cr_signal res))
           else NoStep)
      | _ \<Rightarrow> NoStep)"

text \<open>The end of a request's way: its callbacks, and whether it is completed now.\<close>

datatype back_func = NoCallback | Callback

datatype response_step = RunCallback bool | CompleteNow | DropStep

definition process_response :: "bool \<Rightarrow> back_func \<Rightarrow> back_func \<Rightarrow> 'e + 'p \<Rightarrow> bool \<times> response_step" where
  "process_response stop errback callback r =
     (case r of
        Inl e \<Rightarrow> (False, if errback = NoCallback then CompleteNow else if stop then DropStep else RunCallback True)
      | Inr p \<Rightarrow> (True, if stop then DropStep else RunCallback (callback = Callback)))"

section \<open>Invariant\<close>

text \<open>
  \<open>outs\<close>: the objects accepted and not completed.  A request that went through a broker comes back as a
  new object with the same \<open>meta\<close>, which then stands for it.
\<close>

definition engine_inv :: "engine_work \<Rightarrow> nat set \<Rightarrow> bool" where
  "engine_inv w outs \<longleftrightarrow> finite outs \<and> (\<forall>r \<in> outs. has_work_id w r) \<and>
     (\<forall>r x. ew_meta w r = Some x \<longrightarrow> (\<exists>n \<le> ew_seq w. x = work_id_text (ew_engine w) n)) \<and>
     inj_on (\<lambda>r. the (ew_meta w r)) outs \<and>
     ew_pending w = (\<lambda>r. the (ew_meta w r)) ` outs \<and> (ew_idle w \<longleftrightarrow> outs = {})"

lemma work_id_text_inj: "work_id_text self n = work_id_text self k \<Longrightarrow> n = k"
  by (simp add: work_id_text_def)

lemma work_id_text_nonempty [simp]: "work_id_text self n \<noteq> []"
  by (simp add: work_id_text_def)

lemma engine_inv_init: "engine_inv (engine_init self (\<lambda>_. None)) {}"
  by (simp add: engine_inv_def engine_init_def)

lemma engine_invD:
  assumes "engine_inv w outs"
  shows "finite outs" "r \<in> outs \<Longrightarrow> has_work_id w r" "inj_on (\<lambda>r. the (ew_meta w r)) outs"
    "ew_pending w = (\<lambda>r. the (ew_meta w r)) ` outs" "ew_idle w \<longleftrightarrow> outs = {}"
    "ew_meta w r = Some x \<Longrightarrow> \<exists>n \<le> ew_seq w. x = work_id_text (ew_engine w) n"
  using assms unfolding engine_inv_def by blast+

text \<open>Tracking a new object or an owned one, releasing an owned one, and an object that stands for
  another.\<close>

lemma track_new:
  assumes inv: "engine_inv w outs" and new: "ew_meta w r = None"
  shows "engine_inv (track_request w r) (insert r outs)"
proof -
  note d = engine_invD [OF inv]
  let ?id = "work_id_text (ew_engine w) (ew_seq w + 1)" and ?meta = "(ew_meta w)(r \<mapsto> work_id_text (ew_engine w) (ew_seq w + 1))"
  have fresh: "ew_meta w k \<noteq> Some ?id" for k
    using d(6) [of k ?id] work_id_text_inj by fastforce
  have r: "r \<notin> outs" using d(2) [of r] new by (auto simp: has_work_id_def)
  have same: "the (?meta k) = the (ew_meta w k)" "the (ew_meta w k) \<noteq> ?id" if "k \<in> outs" for k
    using that r d(2) [OF that] fresh [of k] by (auto simp: has_work_id_def)
  have notin: "?id \<notin> ew_pending w" unfolding d(4) using same(2) by (metis (no_types, lifting) imageE)
  have t: "track_request w r = w\<lparr>ew_seq := ew_seq w + 1, ew_meta := ?meta,
      ew_pending := insert ?id (ew_pending w), ew_idle := False\<rparr>"
    using notin new by (simp add: track_request_def has_work_id_def Let_def)
  have img: "(\<lambda>k. the (?meta k)) ` outs = ew_pending w" unfolding d(4) by (rule image_cong [OF refl same(1)])
  have inj: "inj_on (\<lambda>k. the (?meta k)) outs"
    using d(3) by (rule inj_on_cong [THEN iffD2, rotated]) (rule same(1))
  have ids: "has_work_id (track_request w r) k" if "k \<in> insert r outs" for k
    using that d(2) [of k] r by (auto simp: t has_work_id_def)
  have form: "\<exists>n \<le> ew_seq w + 1. x = work_id_text (ew_engine w) n" if "?meta k = Some x" for k x
    using that d(6) [of k x] by (auto split: if_splits intro: le_SucI)
  show ?thesis
    using d(1) ids form inj img notin r
    by (simp add: engine_inv_def t del: fun_upd_apply) (simp add: image_iff)
qed

lemma track_owned:
  assumes "engine_inv w outs" and "r \<in> outs"
  shows "track_request w r = w"
  using engine_invD(2,4) [OF assms(1)] assms(2) by (auto simp: track_request_def Let_def)

lemma release_owned:
  assumes inv: "engine_inv w outs" and r: "r \<in> outs"
  shows "engine_inv (release_request w r) (outs - {r})"
proof -
  note d = engine_invD [OF inv]
  have p: "ew_pending w - {the (ew_meta w r)} = (\<lambda>k. the (ew_meta w k)) ` (outs - {r})"
    unfolding d(4) using d(3) r by (simp add: inj_on_image_set_diff [of _ outs])
  have idle: "ew_idle w = False" using d(5) r by auto
  let ?w = "w\<lparr>ew_pending := ew_pending w - {the (ew_meta w r)}\<rparr>"
  have rel: "release_request w r = (if outs - {r} = {} then ?w\<lparr>ew_idle := True\<rparr> else ?w)"
    using d(2) [OF r] by (simp add: release_request_def p)
  have "inj_on (\<lambda>k. the (ew_meta w k)) (outs - {r})" using d(3) by (rule inj_on_subset) blast
  moreover have "has_work_id (ww\<lparr>ew_pending := P\<rparr>) k = has_work_id ww k" "has_work_id (ww\<lparr>ew_idle := b\<rparr>) k = has_work_id ww k" for ww P b k
    by (simp_all add: has_work_id_def)
  ultimately show ?thesis
    using d(1,2,6) idle p unfolding rel engine_inv_def by auto
qed

lemma stands_for:
  assumes inv: "engine_inv w outs" and r: "r \<in> outs" and r': "r' \<notin> outs"
  shows "engine_inv (w\<lparr>ew_meta := (ew_meta w)(r' := ew_meta w r)\<rparr>) (insert r' (outs - {r}))"
proof -
  note d = engine_invD [OF inv]
  let ?meta = "(ew_meta w)(r' := ew_meta w r)"
  have same: "the (?meta k) = the (ew_meta w k)" if "k \<in> outs - {r}" for k using that r' by auto
  have inj: "inj_on (\<lambda>k. the (?meta k)) (outs - {r})"
    using inj_on_subset [OF d(3), of "outs - {r}"] by (rule inj_on_cong [THEN iffD2, rotated, OF _ ]) (use same in auto)
  have "(\<lambda>k. the (?meta k)) ` (outs - {r}) = (\<lambda>k. the (ew_meta w k)) ` (outs - {r})"
    by (rule image_cong [OF refl]) (rule same)
  also have "\<dots> = (\<lambda>k. the (ew_meta w k)) ` outs - {the (ew_meta w r)}"
    using inj_on_image_set_diff [OF d(3), of outs "{r}"] r by simp
  finally have img: "(\<lambda>k. the (?meta k)) ` (outs - {r}) = (\<lambda>k. the (ew_meta w k)) ` outs - {the (ew_meta w r)}" .
  show ?thesis
    unfolding engine_inv_def
  proof (intro conjI)
    show "\<forall>k \<in> insert r' (outs - {r}). has_work_id (w\<lparr>ew_meta := ?meta\<rparr>) k"
      using d(2) r by (auto simp: has_work_id_def)
    show "inj_on (\<lambda>k. the (ew_meta (w\<lparr>ew_meta := ?meta\<rparr>) k)) (insert r' (outs - {r}))"
      using inj img r' by (simp add: inj_on_insert)
    show "ew_pending (w\<lparr>ew_meta := ?meta\<rparr>) = (\<lambda>k. the (ew_meta (w\<lparr>ew_meta := ?meta\<rparr>) k)) ` insert r' (outs - {r})"
      using img r d(4) by auto
    show "\<forall>k x. ew_meta (w\<lparr>ew_meta := ?meta\<rparr>) k = Some x \<longrightarrow>
        (\<exists>n \<le> ew_seq (w\<lparr>ew_meta := ?meta\<rparr>). x = work_id_text (ew_engine (w\<lparr>ew_meta := ?meta\<rparr>)) n)"
      using d(6) by (auto split: if_splits)
    show "ew_idle (w\<lparr>ew_meta := ?meta\<rparr>) = (insert r' (outs - {r}) = {})" using d(5) r by auto
  qed (use d(1) in simp)
qed

text \<open>A refused new request leaves its work id behind on the object, and the set as it was.\<close>

lemma release_unowned:
  assumes inv: "engine_inv w outs" and new: "ew_meta w r = None"
  shows "engine_inv (release_request (track_request w r) r) outs"
proof -
  have "r \<notin> outs" using engine_invD(2) [OF inv, of r] new by (auto simp: has_work_id_def)
  then show ?thesis using release_owned [OF track_new [OF inv new], of r] by simp
qed

section \<open>Runs\<close>

text \<open>
  A run with the accepted, not yet completed objects.  A new object is accepted or not by the scheduler, an owned
  one is put again, a request is decoded from a broker into another object, and a callback boundary is
  reached, where the scheduler's completion succeeds or raises.
\<close>

inductive engine_step :: "engine_work \<times> nat set \<Rightarrow> engine_work \<times> nat set \<Rightarrow> bool" where
  accept_new: "ew_meta w r = None \<Longrightarrow>
    engine_step (w, outs) (enqueue_request stop w r PutAccepted, if stop then outs else insert r outs)"
| refuse_new: "ew_meta w r = None \<Longrightarrow> outcome \<noteq> PutAccepted \<Longrightarrow>
    engine_step (w, outs) (enqueue_request stop w r outcome, outs)"
| put_owned: "r \<in> outs \<Longrightarrow>
    engine_step (w, outs)
      (enqueue_request stop w r outcome, if stop \<or> outcome = PutAccepted then outs else outs - {r})"
| decode: "r \<in> outs \<Longrightarrow> r' \<notin> outs \<Longrightarrow>
    engine_step (w, outs) (w\<lparr>ew_meta := (ew_meta w)(r' := ew_meta w r)\<rparr>, insert r' (outs - {r}))"
| boundary: "r \<in> outs \<Longrightarrow>
    engine_step (w, outs) (complete_request w r ok, if ok then outs - {r} else outs)"

inductive engine_reach :: "nat \<Rightarrow> engine_work \<times> nat set \<Rightarrow> bool" for self where
  engine_begin: "engine_reach self (engine_init self (\<lambda>_. None), {})"
| engine_next: "engine_reach self s \<Longrightarrow> engine_step s s' \<Longrightarrow> engine_reach self s'"

lemma engine_step_inv: "engine_step s s' \<Longrightarrow> engine_inv (fst s) (snd s) \<Longrightarrow> engine_inv (fst s') (snd s')"
proof (induction rule: engine_step.induct)
  case (accept_new w r outs stop)
  then show ?case using track_new [of w outs r] by (simp add: enqueue_request_def)
next
  case (refuse_new w r outcome outs stop)
  then show ?case using release_unowned [of w outs r] by (simp add: enqueue_request_def Let_def)
next
  case (put_owned r outs w stop outcome)
  then show ?case
    using track_owned [of w outs r] release_owned [of w outs r] by (simp add: enqueue_request_def Let_def)
next
  case (decode r outs r' w)
  then show ?case using stands_for [of w outs r r'] by simp
next
  case (boundary r outs w ok)
  then show ?case using release_owned [of w outs r] by (simp add: complete_request_def)
qed

lemma engine_reach_inv: "engine_reach self s \<Longrightarrow> engine_inv (fst s) (snd s)"
  by (induction rule: engine_reach.induct) (simp_all add: engine_inv_init engine_step_inv)

section \<open>Properties\<close>



definition outcome_of :: "sched_error + bool \<Rightarrow> put_outcome" where
  "outcome_of res = (case res of Inl _ \<Rightarrow> PutRaised | Inr b \<Rightarrow> if b then PutAccepted else PutRefused)"

text \<open>When a callback yields its own request object again and the scheduler accepts it, the
  completion of the callback releases it: with no other request outstanding the engine is idle
  although the request is in the queue, so completion does not wait for it.\<close>

theorem reyielded_request_unowned:
  assumes "engine_reach self (w, {r})" and "memory_put s sp q = (s', Inr True)" and "dict_wf (ms_queues s)"
    and "get_queue_key (ms_settings s) sp \<in> set (keys (ms_queues s))"
  shows "ew_idle (complete_request (enqueue_request False w r (outcome_of (Inr True))) r True) \<and> q \<in># queued s'"
proof
  have inv: "engine_inv w {r}" using engine_reach_inv [OF assms(1)] by simp
  have "enqueue_request False w r (outcome_of (Inr True)) = w"
    using track_owned [OF inv] by (simp add: enqueue_request_def outcome_of_def)
  then show "ew_idle (complete_request (enqueue_request False w r (outcome_of (Inr True))) r True)"
    using release_owned [OF inv, of r] engine_invD(5) [of "release_request w r" "{}"] by (simp add: complete_request_def)
  have "queued s' = queued s + {#q#}" using memory_put_effect(1,2) [OF assms(2-4)] by simp
  then show "q \<in># queued s'" by simp
qed

lemma engine_one_request: "engine_reach 7 (enqueue_request False (engine_init 7 (\<lambda>_. None)) r PutAccepted, {r})"
  using accept_new [of "engine_init 7 (\<lambda>_. None)" r "{}" False]
  by (auto simp: engine_init_def intro: engine_reach.intros)

theorem reyielded_request_unowned_witness:
  "\<exists>s'. ew_idle (complete_request (enqueue_request False
      (enqueue_request False (engine_init 7 (\<lambda>_. None)) 3 PutAccepted) 3 (outcome_of (Inr True))) 3 True) \<and>
    sample_request 3 ''a'' \<in># queued s'"
proof -
  let ?s = "memory_sched_init sample_queue_settings [''s''] [] (manager_init ''d'')"
  have "\<exists>s'. memory_put ?s sample_spider (sample_request 3 ''a'') = (s', Inr True)"
    by (simp add: memory_sched_init_def sample_queue_settings_def sample_spider_def sample_request_def dict_setdefault_def
        queue_key_for_name_def get_queue_key_def str_or_def Let_def memory_put_def memory_enqueue_def memory_seen_def memory_init_def)
  then obtain s' where put: "memory_put ?s sample_spider (sample_request 3 ''a'') = (s', Inr True)" ..
  have "get_queue_key (ms_settings ?s) sample_spider \<in> set (keys (ms_queues ?s))"
    by (simp add: memory_sched_init_def sample_queue_settings_def sample_spider_def dict_setdefault_def
        queue_key_for_name_def get_queue_key_def str_or_def Let_def)
  from reyielded_request_unowned [OF engine_one_request put memory_sched_init_wf this] show ?thesis by blast
qed

text \<open>When a download interceptor answers an owned request with another, fresh request, the fresh one
  is queued in its place and nothing completes the first: after the fresh request has been put and
  completed, the engine still waits.\<close>

theorem replaced_request_blocks_completion:
  assumes "engine_reach self (w, outs)" and "r \<in> outs" and "ew_meta w r' = None"
    and "f m r = (m', VReq r')"
  shows "\<exists>res. request_intercept_chain (f # fs) m r = (m', Inr res) \<and> route_download res = EnqueueStep r' \<and>
    \<not> ew_idle (complete_request (enqueue_request False w r' PutAccepted) r' True)"
proof -
  have inv: "engine_inv w outs" using engine_reach_inv [OF assms(1)] by simp
  have fresh: "r' \<notin> outs" using engine_invD(2) [OF inv, of r'] assms(3) by (auto simp: has_work_id_def)
  have "engine_inv (complete_request (enqueue_request False w r' PutAccepted) r' True) (insert r' outs - {r'})"
    using release_owned [OF track_new [OF inv assms(3)], of r'] by (simp add: enqueue_request_def complete_request_def)
  then have "\<not> ew_idle (complete_request (enqueue_request False w r' PutAccepted) r' True)"
    using engine_invD(5) assms(2) fresh by blast
  then show ?thesis
    using assms(4) by (simp add: chain_result_of_def route_download_def)
qed

theorem replaced_request_blocks_completion_witness:
  "\<not> ew_idle (complete_request (enqueue_request False
      (enqueue_request False (engine_init 7 (\<lambda>_. None)) 3 PutAccepted) 4 PutAccepted) 4 True)"
proof -
  let ?f = "\<lambda>m q. (m, VReq 4) :: (unit, nat, unit, unit, unit, unit) hook_reply"
  have "ew_meta (enqueue_request False (engine_init 7 (\<lambda>_. None)) 3 PutAccepted) 4 = None"
    by (simp add: enqueue_request_def track_request_def engine_init_def has_work_id_def)
  from replaced_request_blocks_completion [OF engine_one_request insertI1 this, of ?f "()" "()" "[]"] show ?thesis by blast
qed

end
