(* ===== verification/RobotsRules.thy ===== *)
theory RobotsRules
  imports PyStrings "HOL-Library.Sublist"
begin

text \<open>
  Which URLs a spider may request: the allowed domains (\<open>utils/domain.py\<close>) and the \<open>robots.txt\<close> rules
  (\<open>utils/robot.py\<close>), over the parts of a URL that \<open>urllib.parse.urlparse\<close> gives.
\<close>

section \<open>Parsing a URL\<close>

definition partition_on :: "char \<Rightarrow> string \<Rightarrow> string \<times> bool \<times> string" where
  "partition_on c s = (takeWhile (\<lambda>x. x \<noteq> c) s, c \<in> set s, drop 1 (dropWhile (\<lambda>x. x \<noteq> c) s))"

definition rpartition_last :: "char \<Rightarrow> string \<Rightarrow> string" where
  "rpartition_last c s = rev (takeWhile (\<lambda>x. x \<noteq> c) (rev s))"

definition is_alpha :: "char \<Rightarrow> bool" where
  "is_alpha c \<longleftrightarrow> (let n = (of_char (char_lower c) :: nat) in 97 \<le> n \<and> n \<le> 122)"

definition scheme_char :: "char \<Rightarrow> bool" where
  "scheme_char c \<longleftrightarrow> is_alpha c \<or> is_digit c \<or> c \<in> set ''+-.''"

text \<open>Leading control characters and blanks go, and tabs and line ends wherever they are.\<close>

definition url_clean :: "string \<Rightarrow> string" where
  "url_clean url =
     filter (\<lambda>c. (of_char c :: nat) \<notin> {9, 10, 13}) (dropWhile (\<lambda>c. (of_char c :: nat) \<le> 32) url)"

record url_parts =
  u_scheme :: string
  u_netloc :: string
  u_path :: string

definition split_scheme :: "string \<Rightarrow> string \<times> string" where
  "split_scheme url =
     (case partition_on (CHR '':'') url of
        (before, found, after) \<Rightarrow>
          if found \<and> before \<noteq> [] \<and> is_alpha (hd before) \<and> list_all scheme_char before
          then (lower before, after) else ([], url))"

definition split_netloc :: "string \<Rightarrow> string \<times> string" where
  "split_netloc url =
     (if starts_with ''//'' url
      then (takeWhile (\<lambda>c. c \<notin> set ''/?#'') (drop 2 url), dropWhile (\<lambda>c. c \<notin> set ''/?#'') (drop 2 url))
      else ([], url))"

definition uses_params :: "string list" where
  "uses_params = [[], ''ftp'', ''hdl'', ''prospero'', ''http'', ''https'', ''shttp'', ''rtsp'', ''rtsps'',
     ''rtspu'', ''sip'', ''sips'', ''mms'', ''sftp'', ''tel'']"

text \<open>Parameters are cut off the last segment of the path only.\<close>

definition drop_params :: "string \<Rightarrow> string" where
  "drop_params path =
     (let last = rpartition_last (CHR ''/'') path
      in take (length path - length last) path @ fst (partition_on (CHR '';'') last))"

text \<open>\<open>None\<close>: brackets in the network location that do not match, a \<open>ValueError\<close>.\<close>

definition urlparse :: "string \<Rightarrow> url_parts option" where
  "urlparse text =
     (let (scheme, url1) = split_scheme (url_clean text);
          (netloc, url2) = split_netloc url1;
          path = fst (partition_on (CHR ''?'') (fst (partition_on (CHR ''#'') url2)))
      in if (CHR ''['' \<in> set netloc) \<noteq> (CHR '']'' \<in> set netloc) then None
         else Some \<lparr>u_scheme = scheme, u_netloc = netloc,
                    u_path = (if scheme \<in> set uses_params then drop_params path else path)\<rparr>)"

definition hostname :: "url_parts \<Rightarrow> string option" where
  "hostname u =
     (let hostinfo = rpartition_last (CHR ''@'') (u_netloc u);
          name = (case partition_on (CHR ''['') hostinfo of
                    (_, bracket, bracketed) \<Rightarrow>
                      if bracket then fst (partition_on (CHR '']'') bracketed)
                      else fst (partition_on (CHR '':'') hostinfo));
          (host, percent, zone) = partition_on (CHR ''%'') name
      in if name = [] then None else Some (lower host @ (if percent then ''%'' @ zone else [])))"

section \<open>Allowed domains\<close>

definition hostname_from_url :: "string \<Rightarrow> string option option" where
  "hostname_from_url url = map_option (\<lambda>u. map_option lower (hostname u)) (urlparse url)"

definition hostname_from_allowed :: "string \<Rightarrow> string option" where
  "hostname_from_allowed text =
     (let entry = lower (strip text)
      in if entry = [] then Some []
         else map_option
           (\<lambda>u. lower (case hostname u of
                    Some host \<Rightarrow> if host = [] then hd (split_on (CHR '':'') entry) else host
                  | None \<Rightarrow> hd (split_on (CHR '':'') entry)))
           (urlparse (if contains ''://'' entry then entry else ''http://'' @ entry)))"

fun any_allowed :: "string \<Rightarrow> string list \<Rightarrow> bool option" where
  "any_allowed host [] = Some False"
| "any_allowed host (entry # rest) =
     (case hostname_from_allowed entry of
        None \<Rightarrow> None
      | Some allowed \<Rightarrow>
          if allowed \<noteq> [] \<and> (host = allowed \<or> ends_with (''.'' @ allowed) host) then Some True
          else any_allowed host rest)"

definition url_is_from_allowed_domains :: "string \<Rightarrow> string list \<Rightarrow> bool option" where
  "url_is_from_allowed_domains url allowed_domains =
     (if allowed_domains = [] then Some True
      else (case hostname_from_url url of
              None \<Rightarrow> None
            | Some None \<Rightarrow> Some False
            | Some (Some host) \<Rightarrow> if host = [] then Some False else any_allowed host allowed_domains))"

definition robots_txt_url :: "string \<Rightarrow> string \<Rightarrow> string" where
  "robots_txt_url scheme allowed_entry =
     (let entry = strip allowed_entry
      in if entry = [] then scheme @ ''://localhost/robots.txt''
         else if contains ''://'' entry then rev (dropWhile (\<lambda>c. c = CHR ''/'') (rev entry)) @ ''/robots.txt''
         else scheme @ ''://'' @ entry @ ''/robots.txt'')"

section \<open>robots.txt\<close>

datatype rule_type = Allow | Disallow

type_synonym robots_rules = "(rule_type \<times> string) list"

text \<open>The loop over the rules with the rule matched so far.\<close>

fun match_rules :: "string \<Rightarrow> robots_rules \<Rightarrow> (rule_type \<times> nat) option \<Rightarrow> (rule_type \<times> nat) option" where
  "match_rules path [] best = best"
| "match_rules path ((ty, rule_path) # rest) best =
     match_rules path rest
       (if starts_with rule_path path \<and> (case best of None \<Rightarrow> True | Some (_, n) \<Rightarrow> n < length rule_path)
        then Some (ty, length rule_path) else best)"

definition path_allowed :: "robots_rules \<Rightarrow> string \<Rightarrow> bool" where
  "path_allowed rules path =
     (case match_rules (if path = [] then ''/'' else path) rules None of Some (Disallow, _) \<Rightarrow> False | _ \<Rightarrow> True)"

definition rules_is_allowed :: "robots_rules \<Rightarrow> string \<Rightarrow> bool option" where
  "rules_is_allowed rules url = map_option (\<lambda>u. path_allowed rules (u_path u)) (urlparse url)"

text \<open>\<open>str.splitlines\<close> for ASCII text.\<close>

definition line_end :: "char \<Rightarrow> bool" where
  "line_end c \<longleftrightarrow> (of_char c :: nat) \<in> {10, 11, 12, 13, 28, 29, 30}"

fun join_crlf :: "string \<Rightarrow> string" where
  "join_crlf (c # d # s) =
     (if (of_char c :: nat) = 13 \<and> (of_char d :: nat) = 10 then d # join_crlf s else c # join_crlf (d # s))"
| "join_crlf s = s"

fun lines_of :: "string \<Rightarrow> string \<Rightarrow> string list" where
  "lines_of line [] = (if line = [] then [] else [rev line])"
| "lines_of line (c # s) = (if line_end c then rev line # lines_of [] s else lines_of (c # line) s)"

definition split_lines :: "string \<Rightarrow> string list" where
  "split_lines s = lines_of [] (join_crlf s)"

datatype directive = UserAgent string | Rule rule_type string

text \<open>The pattern of a directive: its key, a colon, and a value that is not empty.\<close>

definition parse_directive :: "string \<Rightarrow> directive option" where
  "parse_directive text =
     (let line = strip text
      in if line = [] \<or> starts_with ''#'' line then None
         else
           (case partition_on (CHR '':'') line of
              (key, found, rest) \<Rightarrow>
                if \<not> found \<or> rest = [] then None
                else if lower key = ''user-agent'' then Some (UserAgent (lower (strip rest)))
                else if lower key = ''allow'' then Some (Rule Allow (strip rest))
                else if lower key = ''disallow'' then Some (Rule Disallow (strip rest))
                else None))"

text \<open>The agents seen with their rules, and the agents the next rules belong to.\<close>

type_synonym robots_state = "(string, robots_rules) pydict \<times> string list"

fun robots_line :: "robots_state \<Rightarrow> directive \<Rightarrow> robots_state" where
  "robots_line (agent_blocks, current) (UserAgent agent) = (dict_setdefault agent_blocks agent [], [agent])"
| "robots_line (agent_blocks, current) (Rule ty path) =
     (foldl (\<lambda>d agent. dict_set d agent (dict_get d agent [] @ [(ty, path)])) agent_blocks current, current)"

definition robots_blocks :: "directive list \<Rightarrow> (string, robots_rules) pydict" where
  "robots_blocks ds = fst (foldl robots_line ([], []) ds)"

definition rules_for :: "(string, robots_rules) pydict \<Rightarrow> string \<Rightarrow> robots_rules" where
  "rules_for blocks ua =
     (let matched = filter (\<lambda>p. contains (fst p) ua) blocks
      in if matched \<noteq> [] then concat (map snd matched) else dict_get blocks ''*'' [])"

definition parse_robots_txt :: "string \<Rightarrow> string \<Rightarrow> robots_rules" where
  "parse_robots_txt text user_agent =
     rules_for (robots_blocks (List.map_filter parse_directive (split_lines text))) (lower user_agent)"

section \<open>The rules of the hosts\<close>

text \<open>What the request for \<open>robots.txt\<close> gave: a status with a text, or an exception.\<close>

datatype robots_reply = Reply nat string | FetchFailed

definition load_single :: "string \<Rightarrow> robots_reply \<Rightarrow> robots_rules" where
  "load_single user_agent reply =
     (case reply of
        Reply status text \<Rightarrow> if status = 200 then parse_robots_txt text user_agent else []
      | FetchFailed \<Rightarrow> [(Disallow, ''/'')])"

type_synonym rules_cache = "string option \<Rightarrow> robots_rules option"

text \<open>
  The hosts not yet known when the call begins are fetched, concurrently: a host named twice is
  fetched twice, and the reply that comes last stays.
\<close>

definition load_rules_for_hosts ::
  "string \<Rightarrow> rules_cache \<Rightarrow> (string option \<times> robots_reply) list \<Rightarrow> rules_cache" where
  "load_rules_for_hosts user_agent cache replies =
     foldl (\<lambda>c (domain, reply). c(domain \<mapsto> load_single user_agent reply)) cache
       (filter (\<lambda>p. cache (fst p) = None) replies)"

definition robots_is_allowed :: "rules_cache \<Rightarrow> string \<Rightarrow> bool option" where
  "robots_is_allowed cache url =
     (case urlparse url of
        None \<Rightarrow> None
      | Some u \<Rightarrow> (case cache (hostname u) of None \<Rightarrow> Some True | Some rules \<Rightarrow> rules_is_allowed rules url))"

section \<open>Lemmas\<close>

lemma split_on_append2: "split_on c (s @ c # t) = split_on c s @ split_on c t"
  by (induction s) (auto split: list.splits)

lemma join_split_on: "join [c] (split_on c s) = s"
proof (induction s)
  case (Cons x s)
  obtain f fs where f: "split_on c s = f # fs" by (meson neq_Nil_conv split_on_nonempty)
  then show ?case using Cons.IH by (cases fs) auto
qed simp

lemma join_append: "xs \<noteq> [] \<Longrightarrow> ys \<noteq> [] \<Longrightarrow> join sep (xs @ ys) = join sep xs @ sep @ join sep ys"
proof (induction sep xs rule: join.induct)
  case (2 sep s)
  then show ?case by (cases ys) auto
qed auto

text \<open>The suffix test of the code compares whole labels.\<close>

lemma label_suffix:
  "h = a \<or> ends_with (c # a) h \<longleftrightarrow> suffix (split_on c a) (split_on c h)"
proof
  assume "h = a \<or> ends_with (c # a) h"
  then consider "h = a" | t where "h = t @ c # a" by (auto simp: ends_with_iff)
  then show "suffix (split_on c a) (split_on c h)"
  proof cases
    case 2
    show ?thesis unfolding 2 split_on_append2 by (rule suffixI) (rule refl)
  qed simp
next
  assume "suffix (split_on c a) (split_on c h)"
  then obtain xs where xs: "split_on c h = xs @ split_on c a" by (auto simp: suffix_def)
  show "h = a \<or> ends_with (c # a) h"
  proof (cases "xs = []")
    case True
    then have "split_on c h = split_on c a" using xs by simp
    then have "h = a" by (metis join_split_on)
    then show ?thesis ..
  next
    case False
    have "join [c] (split_on c h) = join [c] xs @ [c] @ join [c] (split_on c a)"
      unfolding xs by (rule join_append [OF False split_on_nonempty])
    then have "h = join [c] xs @ c # a" unfolding join_split_on by simp
    then have "ends_with (c # a) h" unfolding ends_with_iff by (rule exI)
    then show ?thesis ..
  qed
qed

text \<open>Plain host names: what is left of them in every part that may follow.\<close>

definition host_char :: "char \<Rightarrow> bool" where
  "host_char c \<longleftrightarrow> is_alpha c \<or> is_digit c \<or> c = CHR ''.'' \<or> c = CHR ''-''"

definition url_tail :: "string \<Rightarrow> bool" where
  "url_tail t \<longleftrightarrow> t = [] \<or> hd t \<in> set ''/?#''"

definition port_part :: "string \<Rightarrow> bool" where
  "port_part p \<longleftrightarrow> p = [] \<or> hd p = CHR '':'' \<and> list_all is_digit (tl p)"

lemma host_char_code:
  "host_char c \<Longrightarrow> (of_char c :: nat) \<in> {45, 46} \<union> {48..57} \<union> {65..90} \<union> {97..122}"
  by (auto simp: host_char_def is_alpha_def is_digit_def char_lower_def Let_def split: if_splits)

lemma not_in_host: "list_all host_char h \<Longrightarrow> port_part p \<Longrightarrow> x \<in> set (h @ p) \<Longrightarrow>
    (of_char x :: nat) \<in> {45, 46} \<union> {48..58} \<union> {65..90} \<union> {97..122}"
proof -
  assume h: "list_all host_char h" and p: "port_part p" and x: "x \<in> set (h @ p)"
  consider "x \<in> set h" | "x \<in> set p" using x by auto
  then show ?thesis
  proof cases
    case 1
    then show ?thesis using h host_char_code [of x] by (auto simp: list_all_iff)
  next
    case 2
    then obtain q where q: "p = CHR '':'' # q" "list_all is_digit q" using p by (cases p) (auto simp: port_part_def)
    then have "x = CHR '':'' \<or> is_digit x" using 2 by (auto simp: list_all_iff)
    then show ?thesis by (auto simp: is_digit_def Let_def)
  qed
qed

lemma takeWhile_absent: "c \<notin> set s \<Longrightarrow> takeWhile (\<lambda>x. x \<noteq> c) (s @ c # t) = s" "c \<notin> set s \<Longrightarrow> takeWhile (\<lambda>x. x \<noteq> c) s = s"
  "c \<notin> set s \<Longrightarrow> dropWhile (\<lambda>x. x \<noteq> c) s = []"
  by (induction s) auto

lemma partition_absent: "c \<notin> set s \<Longrightarrow> partition_on c s = (s, False, [])"
  by (simp add: partition_on_def takeWhile_absent)

lemma rpartition_absent: "c \<notin> set s \<Longrightarrow> rpartition_last c s = s"
  unfolding rpartition_last_def by (subst takeWhile_absent(2)) simp_all

lemma url_clean_host:
  assumes "list_all host_char h" and "port_part p" and "url_tail t" and "s \<in> {''http'', ''https''}"
  shows "\<exists>t'. url_tail t' \<and> url_clean (s @ ''://'' @ h @ p @ t) = s @ ''://'' @ h @ p @ t'"
proof -
  let ?keep = "\<lambda>c. (of_char c :: nat) \<notin> {9, 10, 13}"
  have "filter ?keep (h @ p) = h @ p"
  proof (rule filter_True, rule ballI)
    fix x assume "x \<in> set (h @ p)"
    from not_in_host [OF assms(1,2) this] show "?keep x" by auto
  qed
  moreover have "url_tail (filter ?keep t)"
    using assms(3) by (cases t) (auto simp: url_tail_def)
  moreover have "url_clean (s @ ''://'' @ h @ p @ t) = s @ ''://'' @ filter ?keep (h @ p) @ filter ?keep t"
    using assms(4) by (auto simp: url_clean_def)
  ultimately show ?thesis by auto
qed

lemma hostname_of_url:
  assumes "list_all host_char h" and "h \<noteq> []" and "port_part p" and "url_tail t" and "s \<in> {''http'', ''https''}"
  shows "\<exists>u. urlparse (s @ ''://'' @ h @ p @ t) = Some u \<and> hostname u = Some (lower h)"
proof -
  obtain t' where t': "url_tail t'" "url_clean (s @ ''://'' @ h @ p @ t) = s @ ''://'' @ h @ p @ t'"
    using url_clean_host [OF assms(1,3,4,5)] by blast
  have scheme: "split_scheme (s @ ''://'' @ h @ p @ t') = (s, ''//'' @ h @ p @ t')"
    using assms(5) by (auto simp: split_scheme_def partition_on_def is_alpha_def scheme_char_def lower_def char_lower_def Let_def)
  have no: "c \<notin> set (h @ p)" if "(of_char c :: nat) \<in> {35, 37, 47, 63, 64, 91, 93}" for c
    using not_in_host [OF assms(1,3), of c] that by auto
  have seps: "\<forall>x \<in> set (h @ p). x \<notin> set ''/?#''" using no [of "CHR ''/''"] no [of "CHR ''?''"] no [of "CHR ''#''"] by auto
  have tail: "takeWhile (\<lambda>c. c \<notin> set ''/?#'') t' = []" "dropWhile (\<lambda>c. c \<notin> set ''/?#'') t' = t'"
    using t'(1) by (cases t'; auto simp: url_tail_def)+
  have "split_netloc (''//'' @ (h @ p) @ t') = (h @ p, t')"
    using takeWhile_append2 [of "h @ p" "\<lambda>c. c \<notin> set ''/?#''" t'] dropWhile_append2 [of "h @ p" "\<lambda>c. c \<notin> set ''/?#''" t'] seps tail
    by (simp add: split_netloc_def del: append_assoc)
  then have netloc: "split_netloc (''//'' @ h @ p @ t') = (h @ p, t')" by simp
  obtain u where u: "urlparse (s @ ''://'' @ h @ p @ t) = Some u" "u_netloc u = h @ p"
    unfolding urlparse_def t'(2) scheme netloc Let_def prod.case
    using no [of "CHR ''[''"] no [of "CHR '']''"] by (auto simp: Let_def)
  have at: "CHR ''@'' \<notin> set (h @ p)" and bracket: "CHR ''['' \<notin> set (h @ p)" by (rule no, simp)+
  have "CHR '':'' \<notin> set h"
    using assms(1) host_char_code by (fastforce simp: list_all_iff)
  then have "fst (partition_on (CHR '':'') (h @ p)) = h"
    using assms(3) takeWhile_absent(1,2) [of "CHR '':''" h] by (cases p) (auto simp: partition_on_def port_part_def)
  then have "hostname u = Some (lower h)"
    using partition_absent [of "CHR ''%''" h] no [of "CHR ''%''"] assms(2) rpartition_absent [OF at] partition_absent [OF bracket]
    by (simp add: hostname_def u(2) Let_def)
  then show ?thesis using u(1) by blast
qed

lemma lower_host: "list_all host_char h \<Longrightarrow> list_all host_char (lower h)"
  by (auto simp: lower_def list_all_iff host_char_def is_alpha_def is_digit_def char_lower_def Let_def)

lemma lower_port: "port_part p \<Longrightarrow> lower p = p"
  by (cases p) (auto simp: port_part_def lower_def list_all_iff is_digit_def char_lower_def Let_def intro!: map_idI)

lemma hostname_from_allowed_host:
  assumes "list_all host_char a" and "a \<noteq> []" and "port_part p"
  shows "hostname_from_allowed (a @ p) = Some (lower a)"
proof -
  have "\<not> is_space c" if "c \<in> set (a @ p)" for c
    using not_in_host [OF assms(1,3) that] by (auto simp: is_space_def Let_def)
  then have strip: "strip (a @ p) = a @ p" by (intro strip_no_space ballI)
  have low: "lower (a @ p) = lower a @ p" using lower_port [OF assms(3)] by (simp add: lower_def)
  have "CHR ''/'' \<notin> set (lower a @ p)"
    using not_in_host [OF lower_host [OF assms(1)] assms(3), of "CHR ''/''"] by auto
  moreover have "CHR ''/'' \<in> set (lower a @ p)" if "lower a @ p = x @ ''://'' @ y" for x y
    unfolding that by simp
  ultimately have plain: "\<not> contains ''://'' (lower a @ p)" unfolding contains_iff by blast
  obtain u where "urlparse (''http'' @ ''://'' @ lower a @ p @ []) = Some u" "hostname u = Some (lower (lower a))"
    using hostname_of_url [OF lower_host [OF assms(1)] _ assms(3), of "[]" "''http''"] assms(2) by (auto simp: url_tail_def)
  then show ?thesis
    using plain assms(2) by (simp add: hostname_from_allowed_def strip low Let_def)
qed

lemma match_rules_snoc:
  "match_rules path (rules @ [(ty, rp)]) best =
     (let b = match_rules path rules best
      in if starts_with rp path \<and> (case b of None \<Rightarrow> True | Some (_, n) \<Rightarrow> n < length rp) then Some (ty, length rp) else b)"
  by (induction path rules best rule: match_rules.induct) simp_all

text \<open>The rule that decides: the longest of the matching rules, the first of them among equals.\<close>

definition deciding :: "robots_rules \<Rightarrow> string \<Rightarrow> nat \<Rightarrow> bool" where
  "deciding rules path i \<longleftrightarrow> i < length rules \<and> starts_with (snd (rules ! i)) path \<and>
     (\<forall>j < length rules. starts_with (snd (rules ! j)) path \<longrightarrow>
        length (snd (rules ! j)) \<le> length (snd (rules ! i)) \<and>
        (j < i \<longrightarrow> length (snd (rules ! j)) < length (snd (rules ! i))))"

lemma match_rules_deciding:
  "(case match_rules path rules None of
      None \<Rightarrow> \<forall>j < length rules. \<not> starts_with (snd (rules ! j)) path
    | Some (ty, n) \<Rightarrow> \<exists>i. deciding rules path i \<and> fst (rules ! i) = ty \<and> length (snd (rules ! i)) = n)"
proof (induction rules rule: rev_induct)
  case (snoc r rules)
  obtain ty rp where r: "r = (ty, rp)" by fastforce
  show ?case
  proof (cases "match_rules path rules None")
    case None
    then have none: "\<forall>j < length rules. \<not> starts_with (snd (rules ! j)) path" using snoc by simp
    show ?thesis
    proof (cases "starts_with rp path")
      case True
      have "deciding (rules @ [r]) path (length rules)"
        unfolding deciding_def using True none r by (auto simp: nth_append less_Suc_eq)
      then show ?thesis using None True r by (auto simp: match_rules_snoc Let_def intro!: exI [of _ "length rules"])
    next
      case False
      then show ?thesis using None none r by (auto simp: match_rules_snoc Let_def nth_append less_Suc_eq)
    qed
  next
    case (Some b)
    obtain ty' n where b: "b = (ty', n)" by fastforce
    then obtain i where i: "deciding rules path i" "fst (rules ! i) = ty'" "length (snd (rules ! i)) = n"
      using snoc Some by auto
    show ?thesis
    proof (cases "starts_with rp path \<and> n < length rp")
      case True
      have "deciding (rules @ [r]) path (length rules)"
        unfolding deciding_def using True i r
        by (fastforce simp: nth_append less_Suc_eq deciding_def)
      then show ?thesis using Some True r b by (auto simp: match_rules_snoc Let_def intro!: exI [of _ "length rules"])
    next
      case False
      have "deciding (rules @ [r]) path i"
        using False i r by (auto simp: nth_append less_Suc_eq deciding_def)
      moreover have "(rules @ [r]) ! i = rules ! i" using i(1) by (simp add: nth_append deciding_def)
      ultimately show ?thesis using Some False r b i by (auto simp: match_rules_snoc Let_def intro!: exI [of _ i])
    qed
  qed
qed simp

lemma deciding_unique: "deciding rules path i \<Longrightarrow> deciding rules path j \<Longrightarrow> i = j"
proof (rule ccontr)
  assume d: "deciding rules path i" "deciding rules path j" and "i \<noteq> j"
  then consider "i < j" | "j < i" by linarith
  then show False using d unfolding deciding_def by cases (meson leD)+
qed

section \<open>Properties\<close>

text \<open>C25.  For a plain host name a URL of that host, whatever its port and path, is allowed exactly when the
  labels of an allowed entry, whatever its port, end the labels of the host, in either case: sub-domains
  are allowed and names that merely end alike are not.\<close>

theorem allowed_domains_whole_labels:
  assumes "list_all host_char h" and "h \<noteq> []" and "port_part p" and "url_tail t" and "s \<in> {''http'', ''https''}"
    and "list_all (\<lambda>(a, q). list_all host_char a \<and> a \<noteq> [] \<and> port_part q) entries" and "entries \<noteq> []"
  shows "url_is_from_allowed_domains (s @ ''://'' @ h @ p @ t) (map (\<lambda>(a, q). a @ q) entries) =
    Some (\<exists>(a, q) \<in> set entries. suffix (split_on (CHR ''.'') (lower a)) (split_on (CHR ''.'') (lower h)))"
proof -
  have "any_allowed (lower h) (map (\<lambda>(a, q). a @ q) entries) =
      Some (\<exists>(a, q) \<in> set entries. suffix (split_on (CHR ''.'') (lower a)) (split_on (CHR ''.'') (lower h)))"
    using assms(6)
  proof (induction entries)
    case (Cons e es)
    obtain a q where e: "e = (a, q)" by fastforce
    have "hostname_from_allowed (a @ q) = Some (lower a)"
      using hostname_from_allowed_host [of a q] Cons.prems e by simp
    then show ?case
      using Cons label_suffix [of "lower h" "lower a" "CHR ''.''"] e by (auto simp del: split_on.simps)
  qed simp
  moreover obtain u where "urlparse (s @ ''://'' @ h @ p @ t) = Some u" "hostname u = Some (lower h)"
    using hostname_of_url [OF assms(1-5)] by blast
  ultimately show ?thesis
    using assms(2,7) by (simp add: url_is_from_allowed_domains_def hostname_from_url_def)
qed

theorem allowed_domains_whole_labels_witness:
  "url_is_from_allowed_domains ''https://A.x.org:8080/p'' [''x.org:80''] = Some True \<and>
   url_is_from_allowed_domains ''http://evilx.org'' [''x.org''] = Some False"
proof -
  have "url_is_from_allowed_domains (''https'' @ ''://'' @ ''A.x.org'' @ '':8080'' @ ''/p'') (map (\<lambda>(a, q). a @ q) [(''x.org'', '':80'')]) = Some True"
    by (subst allowed_domains_whole_labels)
      (simp_all add: host_char_def port_part_def url_tail_def is_alpha_def is_digit_def char_lower_def lower_def Let_def suffix_def)
  moreover have "url_is_from_allowed_domains (''http'' @ ''://'' @ ''evilx.org'' @ [] @ []) (map (\<lambda>(a, q). a @ q) [(''x.org'', [])]) = Some False"
    by (subst allowed_domains_whole_labels)
      (simp_all add: host_char_def port_part_def url_tail_def is_alpha_def is_digit_def char_lower_def lower_def Let_def suffix_def
        Cons_eq_append_conv)
  ultimately show ?thesis by simp
qed

text \<open>C26.  A path is blocked exactly when the rule that decides it, the longest rule that is a prefix of the
  path and the first among the longest, is a \<open>Disallow\<close>; an empty path is the root.\<close>

theorem robots_longest_rule_decides:
  "path_allowed rules path \<longleftrightarrow>
     \<not> (\<exists>i. deciding rules (if path = [] then ''/'' else path) i \<and> fst (rules ! i) = Disallow)"
proof -
  define P where "P = (if path = [] then ''/'' else path)"
  have allowed: "path_allowed rules path \<longleftrightarrow> (case match_rules P rules None of Some (Disallow, _) \<Rightarrow> False | _ \<Rightarrow> True)"
    by (simp add: path_allowed_def P_def)
  have "(case match_rules P rules None of Some (Disallow, _) \<Rightarrow> False | _ \<Rightarrow> True) \<longleftrightarrow>
      \<not> (\<exists>i. deciding rules P i \<and> fst (rules ! i) = Disallow)"
  proof (cases "match_rules P rules None")
    case None
    then have "\<forall>j < length rules. \<not> starts_with (snd (rules ! j)) P"
      using match_rules_deciding [where path = P and rules = rules] by simp
    then show ?thesis using None by (auto simp: deciding_def)
  next
    case (Some b)
    obtain ty n where b: "b = (ty, n)" by fastforce
    then obtain i where i: "deciding rules P i" "fst (rules ! i) = ty"
      using Some match_rules_deciding [where path = P and rules = rules] by auto
    have "(case match_rules P rules None of Some (Disallow, _) \<Rightarrow> False | _ \<Rightarrow> True) \<longleftrightarrow> ty \<noteq> Disallow"
      using Some b by (cases ty) simp_all
    then show ?thesis using i deciding_unique [OF i(1)] by blast
  qed
  then show ?thesis using allowed by (simp only: P_def)
qed

lemma robots_blocks_agents:
  "robots_blocks [UserAgent a, UserAgent b, Rule ty rp] = (if a = b then [(a, [(ty, rp)])] else [(a, []), (b, [(ty, rp)])])"
  by (simp add: robots_blocks_def dict_setdefault_def dict_get_def)

text \<open>Of the consecutive \<open>User-agent\<close> lines of one group only the last names an agent: the agents
  before it get no rules from the group, and everything is allowed to them.\<close>

theorem robots_group_last_agent_only:
  assumes "contains a ua" and "\<not> contains b ua"
  shows "path_allowed (rules_for (robots_blocks [UserAgent a, UserAgent b, Rule ty rp]) ua) path"
  using assms by (auto simp: robots_blocks_agents rules_for_def path_allowed_def)

theorem robots_group_last_agent_only_witness:
  "path_allowed (rules_for (robots_blocks [UserAgent ''x'', UserAgent ''y'', Rule Disallow ''/'']) ''x/1'') ''/p''"
  by (rule robots_group_last_agent_only) simp_all

text \<open>After a failed fetch of a host's \<open>robots.txt\<close> every URL of the host whose path is empty or starts at the root is
  refused, while any status other than 200 allows all of them; a host never loaded is allowed.\<close>

theorem robots_failure_fails_closed:
  assumes "urlparse url = Some u" and "u_path u = [] \<or> hd (u_path u) = CHR ''/''" and "cache (hostname u) = None"
    and "status \<noteq> 200"
  shows "robots_is_allowed (load_rules_for_hosts ua cache [(hostname u, FetchFailed)]) url = Some False \<and>
    robots_is_allowed (load_rules_for_hosts ua cache [(hostname u, Reply status text)]) url = Some True \<and>
    robots_is_allowed cache url = Some True"
  using assms by (cases "u_path u")
    (auto simp: robots_is_allowed_def load_rules_for_hosts_def load_single_def rules_is_allowed_def path_allowed_def)

theorem robots_failure_fails_closed_witness:
  "robots_is_allowed (load_rules_for_hosts ''ua'' (\<lambda>_. None) [(Some ''h'', FetchFailed)]) ''http://h/x'' = Some False"
proof -
  have "urlparse ''http://h/x'' = Some \<lparr>u_scheme = ''http'', u_netloc = ''h'', u_path = ''/x''\<rparr>" (is "_ = Some ?u")
    by (simp add: urlparse_def url_clean_def split_scheme_def split_netloc_def partition_on_def is_alpha_def scheme_char_def
        lower_def char_lower_def uses_params_def drop_params_def rpartition_last_def Let_def)
  moreover have "hostname ?u = Some ''h''"
    by (simp add: hostname_def partition_on_def rpartition_last_def lower_def char_lower_def Let_def)
  ultimately show ?thesis
    using robots_failure_fails_closed [of "''http://h/x''" ?u "\<lambda>_. None" 404 "''ua''" "[]"] by simp
qed

end
