(* ===== verification/SpiderInterceptors.thy ===== *)
theory SpiderInterceptors
  imports InterceptorChains RobotsRules SessionLifecycle EngineWork Requests
begin

text \<open>
  The two built-in spider interceptors (\<open>interceptors/spiders.py\<close>): the one that completes requests and takes
  their session references, and the one that filters by domain and \<open>robots.txt\<close>, run by the
  chain over the session manager; and what the engine does with the close signals that leave the
  chain (\<open>end_websocket\<close> and the session branch of \<open>manager_spiderinterceptors_result\<close>).
\<close>

section \<open>Requests and signals\<close>

record spider_req =
  sr_id :: nat
  sr_url :: string
  sr_session :: string
  sr_cookies :: "(string, string) pydict option"
  sr_headers :: "(string, string) pydict option"
  sr_impersonate :: "string option"
  sr_timeout :: "rat option"
  sr_no_proxy :: bool
  sr_proxies :: "string option"
  sr_dont_filter :: "bool option"
  sr_websocket :: bool
  sr_websocket_id :: string
  sr_start :: bool

text \<open>A missing key or URL is the empty string.\<close>

record close_signal =
  cs_session :: string
  cs_key :: string
  cs_url :: string
  cs_end :: bool

datatype spider_exc =
    SessionEnded spider_req
  | DomainFiltered spider_req
  | RobotsBlocked spider_req
  | OtherExc nat

datatype hook_error = SessionFailed session_error | UrlValueError

type_synonym 'i spider_value = "(spider_req, nat, spider_exc, 'i, close_signal) hook_value"

section \<open>Completing requests\<close>

record update_settings =
  us_user_agent :: string
  us_headers :: "(string, string) pydict"
  us_timeout :: "rat option"
  us_proxies :: "string option"
  us_proxies_list :: "string list"
  us_dont_filter :: bool

definition checked_headers :: "update_settings \<Rightarrow> spider_req \<Rightarrow> (string, string) pydict" where
  "checked_headers st r =
     (let impersonates = sr_impersonate r \<noteq> None;
          headers = (case sr_headers r of
            None \<Rightarrow> if impersonates then [] else us_headers st
          | Some hs \<Rightarrow> if hs = [] \<and> \<not> impersonates then us_headers st else hs)
      in if us_user_agent st \<noteq> [] \<and> \<not> impersonates \<and>
            (case header_key headers ''user-agent'' of None \<Rightarrow> True | Some k \<Rightarrow> k = [])
         then dict_set headers ''user-agent'' (us_user_agent st) else headers)"

definition pre_check :: "update_settings \<Rightarrow> (string list \<Rightarrow> string) \<Rightarrow> spider_req \<Rightarrow> spider_req" where
  "pre_check st choice r =
     r\<lparr>sr_headers := Some (checked_headers st r),
       sr_timeout := (case sr_timeout r of None \<Rightarrow> us_timeout st | Some t \<Rightarrow> if t = 0 then us_timeout st else Some t),
       sr_proxies :=
         (if sr_no_proxy r then None
          else if sr_proxies r \<noteq> None then sr_proxies r
          else if us_proxies st \<noteq> None then us_proxies st
          else if us_proxies_list st \<noteq> [] then Some (choice (us_proxies_list st)) else None),
       sr_dont_filter := (case sr_dont_filter r of None \<Rightarrow> Some (us_dont_filter st) | Some b \<Rightarrow> Some b)\<rparr>"

definition on_wrapper :: "manager \<Rightarrow> string \<Rightarrow> (wrapper \<Rightarrow> wrapper) \<Rightarrow> manager" where
  "on_wrapper m sid f =
     (case live_session m sid of
        None \<Rightarrow> m | Some w \<Rightarrow> m\<lparr>sm_sessions := dict_set (sm_sessions m) sid (Some (f w))\<rparr>)"

definition entry_of_key :: "manager \<Rightarrow> string \<Rightarrow> string \<Rightarrow> ws_entry option" where
  "entry_of_key m sid key =
     (case live_session m sid of None \<Rightarrow> None | Some w \<Rightarrow> get_from_key (sw_pool w) key)"

definition acquire_websocket :: "(string \<Rightarrow> string) \<Rightarrow> manager \<Rightarrow> string \<Rightarrow> string \<Rightarrow> manager" where
  "acquire_websocket key_of m sid url =
     on_wrapper m sid (\<lambda>w. w\<lparr>sw_pool := acquire_from_url key_of (sw_pool w) url\<rparr>)"

record update_env =
  ue_sessions :: session_env
  ue_settings :: update_settings
  ue_key_of :: "string \<Rightarrow> string"

definition update_request ::
  "update_env \<Rightarrow> manager \<Rightarrow> spider_req \<Rightarrow> manager \<times> (hook_error + 'i spider_value)" where
  "update_request ue m r0 =
     (let r = pre_check (ue_settings ue) (se_choice (ue_sessions ue)) r0
      in case get_or_create_session (ue_sessions ue) m (sr_session r) (sr_cookies r) of
           Inl e \<Rightarrow> (m, Inl (SessionFailed e))
         | Inr (m1, sid) \<Rightarrow>
             let m2 = (case sr_cookies r of
                         Some (c # cs) \<Rightarrow>
                           on_wrapper m1 sid (\<lambda>w. update_session_cookies (se_mk_cookie (ue_sessions ue)) w (c # cs))
                       | _ \<Rightarrow> m1)
             in if sr_websocket r \<and> sr_url r = [] \<and> sr_websocket_id r \<noteq> []
                then (case entry_of_key m2 sid (sr_websocket_id r) of
                        Some e \<Rightarrow> (acquire_websocket (ue_key_of ue) m2 sid (we_url e), Inr (VReq (r\<lparr>sr_url := we_url e\<rparr>)))
                      | None \<Rightarrow> (m2, Inr (VExc (SessionEnded r))))
                else (m2, Inr (VReq r)))"

definition update_signal ::
  "update_env \<Rightarrow> manager \<Rightarrow> close_signal \<Rightarrow> manager \<times> (hook_error + close_signal option)" where
  "update_signal ue m c =
     (case get_or_create_session (ue_sessions ue) m (cs_session c) None of
        Inl e \<Rightarrow> (m, Inl (SessionFailed e))
      | Inr (m1, sid) \<Rightarrow>
          (case (if cs_key c = [] then None else entry_of_key m1 sid (cs_key c)) of
             Some e \<Rightarrow>
               (acquire_websocket (ue_key_of ue) m1 sid (we_url e),
                Inr (if we_url e = [] \<and> \<not> cs_end c then None else Some (c\<lparr>cs_url := we_url e\<rparr>)))
           | None \<Rightarrow> (m1, Inr (if cs_url c = [] \<and> \<not> cs_end c then None else Some c))))"

definition update_output ::
  "update_env \<Rightarrow> manager \<Rightarrow> 'i spider_value \<Rightarrow> manager \<times> (hook_error + 'i spider_value py_output option)" where
  "update_output ue m v =
     (case v of
        VReq r \<Rightarrow>
          (case update_request ue (acquire m (sr_session r)) r of
             (m', Inl e) \<Rightarrow> (m', Inl e)
           | (m', Inr v') \<Rightarrow> (m', Inr (Some (Atom v'))))
      | VClose c \<Rightarrow>
          (case update_signal ue (acquire m (cs_session c)) c of
             (m', Inl e) \<Rightarrow> (m', Inl e)
           | (m', Inr s) \<Rightarrow> (m', Inr (map_option (Atom \<circ> VClose) s)))
      | VNone \<Rightarrow> (m, Inr None)
      | _ \<Rightarrow> (m, Inr (Some (Atom v))))"

section \<open>Filtering requests\<close>

record robot_env =
  re_domains :: "string list"
  re_obey :: bool
  re_rules :: rules_cache

definition robot_output ::
  "robot_env \<Rightarrow> manager \<Rightarrow> 'i spider_value \<Rightarrow> manager \<times> (hook_error + 'i spider_value py_output option)" where
  "robot_output env m v =
     (case v of
        VReq r0 \<Rightarrow>
          (if sr_url r0 = [] then (m, Inr (Some (Atom v)))
           else
             let r = r0\<lparr>sr_start := False\<rparr>
             in if sr_start r0 then (m, Inr (Some (Atom (VReq r))))
                else (case url_is_from_allowed_domains (sr_url r) (re_domains env) of
                        None \<Rightarrow> (m, Inl UrlValueError)
                      | Some False \<Rightarrow> (release m (sr_session r), Inr (Some (Atom (VExc (DomainFiltered r)))))
                      | Some True \<Rightarrow>
                          (if re_obey env then
                             (case robots_is_allowed (re_rules env) (sr_url r) of
                                None \<Rightarrow> (m, Inl UrlValueError)
                              | Some True \<Rightarrow> (m, Inr (Some (Atom (VReq r))))
                              | Some False \<Rightarrow> (release m (sr_session r), Inr (Some (Atom (VExc (RobotsBlocked r))))))
                           else (m, Inr (Some (Atom (VReq r)))))))
      | VNone \<Rightarrow> (m, Inr None)
      | _ \<Rightarrow> (m, Inr (Some (Atom v))))"

section \<open>The chain\<close>

text \<open>
  A hook that raises ends the chain: the exception escapes to the caller with the state as it is.  The
  chain lists the user's interceptors before the built-in ones, so these run first.
\<close>

type_synonym 'i raising_hook = "manager \<Rightarrow> 'i spider_value \<Rightarrow> manager \<times> (hook_error + 'i spider_value py_output option)"

definition as_hook ::
  "'i raising_hook \<Rightarrow> (manager \<times> hook_error option, spider_req, nat, spider_exc, 'i, close_signal) output_hook" where
  "as_hook f s p v =
     (case s of
        (m, Some e) \<Rightarrow> ((m, Some e), None)
      | (m, None) \<Rightarrow>
          (case f m v of
             (m', Inl e) \<Rightarrow> ((m', Some e), None)
           | (m', Inr out) \<Rightarrow> ((m', None), out)))"

type_synonym 'i spider_result = "(spider_req, nat, spider_exc, 'i, close_signal) chain_result"

definition spider_output_turn ::
  "'i raising_hook list \<Rightarrow> robot_env \<Rightarrow> update_env \<Rightarrow> manager \<Rightarrow> 'i spider_value \<Rightarrow>
   manager \<times> (hook_error + 'i spider_result list \<times> chain_error option)" where
  "spider_output_turn user env ue m v =
     (case spider_output_chain (map as_hook user @ [as_hook (robot_output env), as_hook (update_output ue)]) (m, None) None v of
        ((m', Some e), _) \<Rightarrow> (m', Inl e)
      | ((m', None), res) \<Rightarrow> (m', Inr res))"

section \<open>Close signals in the engine\<close>

definition end_websocket :: "update_env \<Rightarrow> manager \<Rightarrow> close_signal \<Rightarrow> hook_error + manager" where
  "end_websocket ue m c =
     (case get_or_create_session (ue_sessions ue) m (cs_session c) None of
        Inl e \<Rightarrow> Inl (SessionFailed e)
      | Inr (m1, sid) \<Rightarrow>
          let entry =
            (if cs_url c \<noteq> [] then entry_of_key m1 sid (ue_key_of ue (cs_url c))
             else if cs_key c \<noteq> [] then entry_of_key m1 sid (cs_key c) else None)
          in case entry of
               None \<Rightarrow> Inr m1
             | Some e \<Rightarrow>
                 Inr (release
                   (on_wrapper m1 sid (\<lambda>w. w\<lparr>sw_pool := release_from_key
                       (mark_end_from_url (ue_key_of ue) (sw_pool w) (we_url e)) (ue_key_of ue (we_url e))\<rparr>))
                   (cs_session c)))"

definition end_session :: "manager \<Rightarrow> close_signal \<Rightarrow> manager" where
  "end_session m c = release (mark_end m (cs_session c)) (cs_session c)"

definition wants_ws_end :: "close_signal \<Rightarrow> bool" where
  "wants_ws_end c \<longleftrightarrow> cs_key c \<noteq> [] \<or> cs_url c \<noteq> []"

section \<open>Lemmas\<close>

abbreviation refs :: "manager \<Rightarrow> string \<Rightarrow> int" where
  "refs m sid \<equiv> dict_get (sm_ref_counts m) sid 0"

lemma on_wrapper_fields [simp]:
  "sm_ref_counts (on_wrapper m sid f) = sm_ref_counts m" "sm_default (on_wrapper m sid f) = sm_default m"
  "sm_end_flags (on_wrapper m sid f) = sm_end_flags m" "sm_pending (on_wrapper m sid f) = sm_pending m"
  "sm_close_queue (on_wrapper m sid f) = sm_close_queue m" "sm_groups (on_wrapper m sid f) = sm_groups m"
  by (simp_all add: on_wrapper_def split: option.splits)

lemma get_or_create_fields:
  assumes "get_or_create_session env m sid cookies = Inr (m', sid')"
  shows "sm_ref_counts m' = sm_ref_counts m" "sm_default m' = sm_default m" "sm_end_flags m' = sm_end_flags m"
    "sm_pending m' = sm_pending m" "sm_close_queue m' = sm_close_queue m" "sm_groups m' = sm_groups m"
  using assms by (auto elim!: get_or_create_cases)

text \<open>A taken or found reference: the session is neither the default nor empty.\<close>

abbreviation counted :: "manager \<Rightarrow> string \<Rightarrow> bool" where
  "counted m sid \<equiv> sid \<noteq> sm_default m \<and> sid \<noteq> []"

lemma refs_acquire: "counted m sid \<Longrightarrow> refs (acquire m sid) k = refs m k + (if k = sid then 1 else 0)"
  by (simp add: acquire_def is_default_session_def)

lemma acquire_known: "counted m sid \<Longrightarrow> map_of (sm_ref_counts (acquire m sid)) sid = Some (refs m sid + 1)"
  by (simp add: acquire_def is_default_session_def)

lemma refs_enqueue [simp]: "sm_ref_counts (enqueue_close m sid) = sm_ref_counts m"
  by (simp add: enqueue_close_def)

lemma refs_release:
  "counted m sid \<Longrightarrow> map_of (sm_ref_counts m) sid = Some n \<Longrightarrow> refs (release m sid) k = (if k = sid then n - 1 else refs m k)"
  by (simp add: release_def is_default_session_def Let_def)

lemma acquire_default [simp]: "sm_default (acquire m sid) = sm_default m"
  by (simp add: acquire_def)

lemma update_request_cases:
  assumes "update_request ue m r = (m', res)"
  obtains (failed) e where "res = Inl e" "m' = m"
  | (passed) r' where "res = Inr (VReq r')" "sr_session r' = sr_session r"
      "sm_ref_counts m' = sm_ref_counts m" "sm_default m' = sm_default m"
  | (ended) r' where "res = Inr (VExc (SessionEnded r'))" "sr_websocket r" "sr_url r = []" "sr_session r' = sr_session r"
      "sm_ref_counts m' = sm_ref_counts m" "sm_default m' = sm_default m"
proof (cases "get_or_create_session (ue_sessions ue) m (sr_session r) (sr_cookies r)")
  case (Inl e)
  then show ?thesis using assms failed by (auto simp: update_request_def pre_check_def Let_def)
next
  case (Inr p)
  obtain m1 sid where p: "p = (m1, sid)" by fastforce
  note keep = get_or_create_fields(1,2) [OF Inr [unfolded p]]
  define m2 where "m2 = (case sr_cookies r of
      Some (c # cs) \<Rightarrow> on_wrapper m1 sid (\<lambda>w. update_session_cookies (se_mk_cookie (ue_sessions ue)) w (c # cs)) | _ \<Rightarrow> m1)"
  have m2: "sm_ref_counts m2 = sm_ref_counts m" "sm_default m2 = sm_default m"
    using keep by (simp_all add: m2_def split: option.splits list.splits)
  let ?r = "pre_check (ue_settings ue) (se_choice (ue_sessions ue)) r"
  have sel: "sr_session ?r = sr_session r" "sr_cookies ?r = sr_cookies r" "sr_url ?r = sr_url r"
    "sr_websocket ?r = sr_websocket r" "sr_websocket_id ?r = sr_websocket_id r" by (simp_all add: pre_check_def)
  have run: "(m', res) = (if sr_websocket r \<and> sr_url r = [] \<and> sr_websocket_id r \<noteq> []
      then (case entry_of_key m2 sid (sr_websocket_id r) of
              Some e \<Rightarrow> (acquire_websocket (ue_key_of ue) m2 sid (we_url e), Inr (VReq (?r\<lparr>sr_url := we_url e\<rparr>)))
            | None \<Rightarrow> (m2, Inr (VExc (SessionEnded ?r))))
      else (m2, Inr (VReq ?r)))"
    unfolding assms [symmetric] update_request_def Let_def sel Inr p sum.case prod.case m2_def by simp
  show ?thesis
  proof (cases "sr_websocket r \<and> sr_url r = [] \<and> sr_websocket_id r \<noteq> []")
    case False
    show ?thesis by (rule passed [of ?r]) (use run False m2 sel in auto)
  next
    case ws: True
    show ?thesis
    proof (cases "entry_of_key m2 sid (sr_websocket_id r)")
      case None
      show ?thesis by (rule ended [of ?r]) (use run None ws m2 sel in auto)
    next
      case (Some e)
      show ?thesis by (rule passed [of "?r\<lparr>sr_url := we_url e\<rparr>"]) (use run Some ws m2 sel in \<open>auto simp: acquire_websocket_def\<close>)
    qed
  qed
qed

lemma robot_request_cases:
  assumes "robot_output env m (VReq r) = (m', res)"
  obtains (failed) e where "res = Inl e" "m' = m"
  | (passed) r' where "res = Inr (Some (Atom (VReq r')))" "m' = m" "sr_url r' = sr_url r" "sr_url r \<noteq> [] \<longrightarrow> \<not> sr_start r'"
      "sr_session r' = sr_session r"
      "sr_url r = [] \<or> sr_start r \<or> url_is_from_allowed_domains (sr_url r) (re_domains env) = Some True \<and>
         (re_obey env \<longrightarrow> robots_is_allowed (re_rules env) (sr_url r) = Some True)"
  | (refused) e where "res = Inr (Some (Atom (VExc e)))" "m' = release m (sr_session r)" "\<forall>q. e \<noteq> SessionEnded q"
  using assms that unfolding robot_output_def by (force simp: Let_def split: if_splits option.splits bool.splits)

text \<open>The chain of the built-in interceptors, as the two steps it takes.\<close>

definition scheduled_result :: "spider_req \<Rightarrow> 'i spider_result" where
  "scheduled_result r = (chain_result_of NextReschedule)\<lparr>cr_request := Some r\<rparr>"

definition failed_result :: "spider_exc \<Rightarrow> 'i spider_result" where
  "failed_result e = (chain_result_of NextException)\<lparr>cr_response := None, cr_exception := Some e\<rparr>"

lemma turn_request:
  assumes "spider_output_turn [] env ue m (VReq r) = (m', Inr (res, err))"
  obtains (ended) r' where "update_request ue (acquire m (sr_session r)) r = (m', Inr (VExc (SessionEnded r') :: 'i spider_value))"
      "(res :: 'i spider_result list) = [failed_result (SessionEnded r')]" "err = None"
  | (passed) m1 r1 r' where "update_request ue (acquire m (sr_session r)) r = (m1, Inr (VReq r1 :: 'i spider_value))"
      "robot_output env m1 (VReq r1 :: 'i spider_value) = (m', Inr (Some (Atom (VReq r'))))" "res = [scheduled_result r']" "err = None"
  | (refused) m1 r1 e where "update_request ue (acquire m (sr_session r)) r = (m1, Inr (VReq r1 :: 'i spider_value))"
      "robot_output env m1 (VReq r1 :: 'i spider_value) = (m', Inr (Some (Atom (VExc e))))" "res = [failed_result e]" "err = None"
proof -
  note run = assms [unfolded spider_output_turn_def spider_output_chain_def, simplified]
  obtain m1 u where u: "update_request ue (acquire m (sr_session r)) r = (m1, u :: hook_error + 'i spider_value)" by fastforce
  from u show ?thesis
  proof (cases rule: update_request_cases)
    case (failed e)
    then show ?thesis using run u by (simp add: as_hook_def update_output_def)
  next
    case (ended r')
    show ?thesis
      by (rule that(1) [of r']) (use run u ended in \<open>auto simp: as_hook_def update_output_def failed_result_def\<close>)
  next
    case (passed r1)
    obtain m2 v where v: "robot_output env m1 (VReq r1 :: 'i spider_value) = (m2, v)" by fastforce
    from v show ?thesis
    proof (cases rule: robot_request_cases)
      case (failed e)
      then show ?thesis using run u passed v by (simp add: as_hook_def update_output_def)
    next
      case (passed r')
      show ?thesis
        by (rule that(2) [of m1 r1 r'])
          (use run u \<open>u = Inr (VReq r1)\<close> v passed in \<open>auto simp: as_hook_def update_output_def scheduled_result_def\<close>)
    next
      case (refused e)
      show ?thesis
        by (rule that(3) [of m1 r1 e])
          (use run u \<open>u = Inr (VReq r1)\<close> v refused in \<open>auto simp: as_hook_def update_output_def failed_result_def\<close>)
    qed
  qed
qed

lemma turn_signal:
  "spider_output_turn [] env ue m (VClose c) =
     (case update_signal ue (acquire m (cs_session c)) c of
        (m', Inl e) \<Rightarrow> (m', Inl e)
      | (m', Inr s) \<Rightarrow>
          (m', Inr ([(chain_result_of NextSession)\<lparr>cr_signal := Some (case s of None \<Rightarrow> c | Some c' \<Rightarrow> c')\<rparr>], None)))"
proof -
  obtain m1 s where u: "update_signal ue (acquire m (cs_session c)) c = (m1, s)" by fastforce
  show ?thesis
    by (cases s; cases "projr s")
      (auto simp: u spider_output_turn_def spider_output_chain_def as_hook_def update_output_def robot_output_def)
qed

lemma update_signal_fields:
  assumes "update_signal ue m c = (m', res)"
  shows "sm_ref_counts m' = sm_ref_counts m" "sm_default m' = sm_default m" "sm_end_flags m' = sm_end_flags m"
    "sm_pending m' = sm_pending m" "sm_close_queue m' = sm_close_queue m" "sm_groups m' = sm_groups m"
    "res = Inr (Some c') \<Longrightarrow> cs_session c' = cs_session c \<and> cs_end c' = cs_end c"
proof -
  have *: "sm_ref_counts m' = sm_ref_counts m \<and> sm_default m' = sm_default m \<and> sm_end_flags m' = sm_end_flags m \<and>
    sm_pending m' = sm_pending m \<and> sm_close_queue m' = sm_close_queue m \<and> sm_groups m' = sm_groups m \<and>
    (res = Inr (Some c') \<longrightarrow> cs_session c' = cs_session c \<and> cs_end c' = cs_end c)"
  proof (cases "get_or_create_session (ue_sessions ue) m (cs_session c) None")
    case (Inl e)
    then show ?thesis using assms by (auto simp: update_signal_def)
  next
    case (Inr p)
    obtain m1 sid where p: "p = (m1, sid)" by fastforce
    note keep = get_or_create_fields [OF Inr [unfolded p]]
    have "(m', res) = (case (if cs_key c = [] then None else entry_of_key m1 sid (cs_key c)) of
             Some e \<Rightarrow> (acquire_websocket (ue_key_of ue) m1 sid (we_url e),
                Inr (if we_url e = [] \<and> \<not> cs_end c then None else Some (c\<lparr>cs_url := we_url e\<rparr>)))
           | None \<Rightarrow> (m1, Inr (if cs_url c = [] \<and> \<not> cs_end c then None else Some c)))"
      unfolding assms [symmetric] update_signal_def Inr p by simp
    then show ?thesis
      using keep by (cases "if cs_key c = [] then None else entry_of_key m1 sid (cs_key c)")
        (auto simp: acquire_websocket_def split: if_splits)
  qed
  show "sm_ref_counts m' = sm_ref_counts m" "sm_default m' = sm_default m" "sm_end_flags m' = sm_end_flags m"
    "sm_pending m' = sm_pending m" "sm_close_queue m' = sm_close_queue m" "sm_groups m' = sm_groups m"
    "res = Inr (Some c') \<Longrightarrow> cs_session c' = cs_session c \<and> cs_end c' = cs_end c" using * by blast+
qed

lemma sm_inv_on_wrapper [inv_intros]:
  assumes "sm_inv key_of m fl" and "\<And>w. wrapper_ok key_of w \<Longrightarrow> wrapper_ok key_of (f w)"
  shows "sm_inv key_of (on_wrapper m sid f) fl"
proof (cases "live_session m sid")
  case (Some w)
  then show ?thesis using sm_inv_put [OF assms(1) assms(2) [OF sm_inv_live [OF assms(1) Some]], of sid] by (simp add: on_wrapper_def)
qed (simp add: on_wrapper_def assms(1))

lemma sm_inv_acquire_websocket [inv_intros]: "sm_inv key_of m fl \<Longrightarrow> sm_inv key_of (acquire_websocket key_of m sid url) fl"
  unfolding acquire_websocket_def by (rule sm_inv_on_wrapper) (auto simp: wrapper_ok_def acquire_from_url_def intro: pool_inv_ops)

lemma sm_inv_update_request:
  assumes "sm_inv (ue_key_of ue) m fl" and "env_ok (ue_sessions ue)"
  shows "sm_inv (ue_key_of ue) (fst (update_request ue m r)) fl"
proof (cases "get_or_create_session (ue_sessions ue) m (sr_session r) (sr_cookies r)")
  case (Inl e)
  then show ?thesis using assms(1) by (simp add: update_request_def pre_check_def Let_def)
next
  case (Inr p)
  obtain m1 sid where p: "p = (m1, sid)" by fastforce
  have m1: "sm_inv (ue_key_of ue) m1 fl" by (rule sm_inv_get_or_create [OF assms Inr [unfolded p]])
  define m2 where "m2 = (case sr_cookies r of
      Some (c # cs) \<Rightarrow> on_wrapper m1 sid (\<lambda>w. update_session_cookies (se_mk_cookie (ue_sessions ue)) w (c # cs)) | _ \<Rightarrow> m1)"
  have m2: "sm_inv (ue_key_of ue) m2 fl"
    unfolding m2_def using m1 assms(2)
    by (auto split: option.splits list.splits intro!: sm_inv_on_wrapper wrapper_ok_update_env)
  have sel: "sr_session (pre_check st ch r) = sr_session r" "sr_cookies (pre_check st ch r) = sr_cookies r" for st ch
    by (simp_all add: pre_check_def)
  have "fst (update_request ue m r) \<in> {m2} \<union> range (acquire_websocket (ue_key_of ue) m2 sid)"
    unfolding update_request_def Let_def sel Inr p sum.case prod.case m2_def [symmetric] by (simp split: option.split)
  then show ?thesis using m2 sm_inv_acquire_websocket by auto
qed

lemma sm_inv_update_signal:
  assumes "sm_inv (ue_key_of ue) m fl" and "env_ok (ue_sessions ue)"
  shows "sm_inv (ue_key_of ue) (fst (update_signal ue m c)) fl"
proof (cases "get_or_create_session (ue_sessions ue) m (cs_session c) None")
  case (Inl e)
  then show ?thesis using assms(1) by (simp add: update_signal_def)
next
  case (Inr p)
  obtain m1 sid where p: "p = (m1, sid)" by fastforce
  have m1: "sm_inv (ue_key_of ue) m1 fl" by (rule sm_inv_get_or_create [OF assms Inr [unfolded p]])
  have "fst (update_signal ue m c) \<in> {m1} \<union> range (acquire_websocket (ue_key_of ue) m1 sid)"
    unfolding update_signal_def Inr p sum.case prod.case by (simp split: option.split)
  then show ?thesis using m1 sm_inv_acquire_websocket by auto
qed

lemma sm_inv_update_output:
  assumes "sm_inv (ue_key_of ue) m fl" and "env_ok (ue_sessions ue)"
  shows "sm_inv (ue_key_of ue) (fst (update_output ue m v)) fl"
proof (cases v)
  case (VReq r)
  obtain m1 u where u: "update_request ue (acquire m (sr_session r)) r = (m1, u :: hook_error + 'a spider_value)" by fastforce
  then show ?thesis
    using VReq sm_inv_update_request [OF sm_inv_acquire [OF assms(1)] assms(2), of "sr_session r" r, where 'a = 'a]
    by (cases u) (simp_all add: update_output_def)
next
  case (VClose c)
  obtain m1 s where s: "update_signal ue (acquire m (cs_session c)) c = (m1, s)" by fastforce
  then show ?thesis
    using VClose sm_inv_update_signal [OF sm_inv_acquire [OF assms(1)] assms(2), of "cs_session c" c]
    by (cases s) (simp_all add: update_output_def)
qed (simp_all add: update_output_def assms(1))

lemma sm_inv_robot_output:
  assumes "sm_inv key_of m fl"
  shows "sm_inv key_of (fst (robot_output env m v)) fl"
proof (cases v)
  case (VReq r)
  obtain m1 u where u: "robot_output env m (VReq r :: 'a spider_value) = (m1, u)" by fastforce
  then have "m1 = m \<or> m1 = release m (sr_session r)" by (cases rule: robot_request_cases) simp_all
  then show ?thesis using VReq u assms sm_inv_release [OF assms, of "sr_session r"] by auto
qed (simp_all add: robot_output_def assms)

text \<open>A property of the state that every hook keeps is kept by the chain.\<close>

lemma output_loop_keeps:
  fixes fs :: "('m, 'q, 'p, 'e, 'i, 'c) output_hook list"
  assumes "\<And>f m p v. f \<in> set fs \<Longrightarrow> P m \<Longrightarrow> P (fst (f m p v))"
  shows "P m \<Longrightarrow> P (fst (output_loop fs m p v))"
  using assms
proof (induction fs arbitrary: m v)
  case (Cons f fs)
  obtain m1 out where f: "f m p v = (m1, out)" by fastforce
  then have m1: "P m1" using Cons.prems(2) [of f m p v] Cons.prems(1) by simp
  have IH: "P (fst (output_loop fs m1 p v))" for v
    by (rule Cons.IH [OF m1]) (use Cons.prems(2) in simp)
  show ?case
  proof (cases out)
    case None
    then show ?thesis using f IH by simp
  next
    case (Some x)
    obtain vs ok where x: "flatten [x] = (vs, ok)" by fastforce
    show ?thesis
      by (cases "scan_outputs v p vs"; cases ok) (simp_all add: f Some x m1 IH del: flatten.simps)
  qed
qed simp

definition sample_update_env :: update_env where
  "sample_update_env = \<lparr>ue_sessions = sample_env,
     ue_settings = \<lparr>us_user_agent = ''ua'', us_headers = [], us_timeout = Some 30, us_proxies = None, us_proxies_list = [],
       us_dont_filter = False\<rparr>, ue_key_of = id\<rparr>"

definition sample_robot_env :: robot_env where
  "sample_robot_env = \<lparr>re_domains = [], re_obey = False, re_rules = (\<lambda>_. None)\<rparr>"

definition sample_spider_req :: "bool \<Rightarrow> spider_req" where
  "sample_spider_req start = \<lparr>sr_id = 1, sr_url = ''http://h/'', sr_session = ''s'', sr_cookies = None, sr_headers = None,
     sr_impersonate = None, sr_timeout = None, sr_no_proxy = False, sr_proxies = None, sr_dont_filter = None,
     sr_websocket = False, sr_websocket_id = [], sr_start = start\<rparr>"

definition sample_signal :: "bool \<Rightarrow> close_signal" where
  "sample_signal ends = \<lparr>cs_session = ''s'', cs_key = [], cs_url = [], cs_end = ends\<rparr>"

lemma counted_sample: "counted sample_manager (sr_session (sample_spider_req start))" "counted sample_manager (cs_session (sample_signal b))"
  by (simp_all add: sample_manager_def manager_init_def sample_spider_req_def sample_signal_def)

lemma sample_session: "get_or_create_session sample_env (acquire sample_manager ''s'') ''s'' None = Inr (acquire sample_manager ''s'', ''s'')"
proof -
  have "live_session (acquire sample_manager ''s'') ''s'' = Some sample_wrapper"
    using live_sample by (simp add: live_session_def acquire_def)
  moreover have "sm_groups (acquire sample_manager ''s'') = []" by (simp add: acquire_def sample_manager_def manager_init_def)
  ultimately show ?thesis by (simp add: get_or_create_session_def resolve_session_id_def)
qed

lemma sample_turn:
  "\<exists>r'. spider_output_turn [] sample_robot_env sample_update_env sample_manager (VReq (sample_spider_req True)) =
    (acquire sample_manager ''s'', Inr ([scheduled_result r' :: nat spider_result], None)) \<and> sr_url r' \<noteq> []"
  using sample_session
  by (simp add: spider_output_turn_def spider_output_chain_def as_hook_def update_output_def robot_output_def update_request_def
      sample_update_env_def sample_spider_req_def pre_check_def scheduled_result_def Let_def)
    (rule exI, rule conjI, rule refl, simp)

lemma sample_signal_turn:
  "spider_output_turn [] sample_robot_env sample_update_env sample_manager (VClose (sample_signal b)) =
    (acquire sample_manager ''s'', Inr ([(chain_result_of NextSession :: nat spider_result)\<lparr>cr_signal := Some (sample_signal b)\<rparr>], None))"
  using sample_session
  by (cases b; simp add: turn_signal update_signal_def sample_update_env_def sample_signal_def)

section \<open>Properties\<close>





text \<open>A close signal that ends nothing, with no URL, no session end and a key that names no open
  WebSocket, takes a reference to its session, is handed to the engine all the same and ignored there:
  the reference is never given back.\<close>

theorem unknown_close_signal_leaks:
  assumes "counted m (cs_session c)" and "cs_url c = []" and "cs_key c = []" and "\<not> cs_end c"
    and "spider_output_turn [] env ue m (VClose c) = (m', Inr (res, err))"
  shows "\<exists>r. (res :: 'i spider_result list) = [r] \<and> route_spider wants_ws_end cs_end r = NoStep \<and> refs m' (cs_session c) = refs m (cs_session c) + 1"
proof -
  obtain m1 s where u: "update_signal ue (acquire m (cs_session c)) c = (m1, s)" by fastforce
  have s: "s = Inr None" "m' = m1"
    using assms(2-5) u unfolding turn_signal
    by (auto simp: update_signal_def split: sum.splits prod.splits if_splits option.splits)
  have "res = [(chain_result_of NextSession)\<lparr>cr_signal := Some c\<rparr>]" using assms(5) u s unfolding turn_signal by simp
  moreover have "route_spider wants_ws_end cs_end ((chain_result_of NextSession)\<lparr>cr_signal := Some c\<rparr> :: 'i spider_result) = NoStep"
    using assms(2-4) by (simp add: route_spider_def chain_result_of_def wants_ws_end_def)
  moreover have "refs m' (cs_session c) = refs m (cs_session c) + 1"
    using refs_acquire [OF assms(1), of "cs_session c"] update_signal_fields(1) [OF u] s by simp
  ultimately show ?thesis by blast
qed

theorem unknown_close_signal_leaks_witness:
  "refs (acquire sample_manager ''s'') ''s'' = refs sample_manager ''s'' + 1"
  using unknown_close_signal_leaks [OF counted_sample(2) _ _ _ sample_signal_turn [of False]] by (simp add: sample_signal_def)

lemma refs_mark_end [simp]: "sm_ref_counts (mark_end m sid) = sm_ref_counts m"
  by (rule sm_ref_counts_mark_end)

lemma pending_enqueue: "sid \<in> sm_pending (enqueue_close m sid)" "sid' \<in> sm_pending m \<Longrightarrow> sid' \<in> sm_pending (enqueue_close m sid)"
  by (simp_all add: enqueue_close_def)

text \<open>A close signal that ends a session, which is no group, passes the chain and the engine with the
  session's count as it was before, and when no request holds the session it is pending for closing.\<close>

theorem session_end_signal_balanced:
  assumes "counted m (cs_session c)" and "cs_end c" and "cs_url c = []" and "cs_key c = []"
    and "map_of (sm_groups m) (cs_session c) = None"
    and "spider_output_turn [] env ue m (VClose c) = (m', Inr (res, err))"
  shows "(res :: 'i spider_result list) = [(chain_result_of NextSession)\<lparr>cr_signal := Some c\<rparr>] \<and>
    route_spider wants_ws_end cs_end (hd res) = EndSessionStep c \<and>
    refs (end_session m' c) (cs_session c) = refs m (cs_session c) \<and>
    (refs m (cs_session c) \<le> 0 \<longrightarrow> cs_session c \<in> sm_pending (end_session m' c))"
proof -
  let ?sid = "cs_session c"
  obtain m1 s where u: "update_signal ue (acquire m ?sid) c = (m1, s)" by fastforce
  note keep = update_signal_fields [OF u]
  have s: "s = Inr (Some c)" "m' = m1"
    using assms(2-4,6) u unfolding turn_signal
    by (auto simp: update_signal_def split: sum.splits prod.splits if_splits option.splits)
  have res: "res = [(chain_result_of NextSession)\<lparr>cr_signal := Some c\<rparr>]" using assms(6) u s unfolding turn_signal by simp
  have dflt: "sm_default m' = sm_default m" using keep(2) s by simp
  have known: "map_of (sm_ref_counts m') ?sid = Some (refs m ?sid + 1)" using acquire_known [OF assms(1)] keep(1) s by simp
  have counts: "refs (end_session m' c) ?sid = refs m ?sid"
    using refs_release [where m = "mark_end m' ?sid" and sid = ?sid and n = "refs m ?sid + 1" and k = ?sid] known assms(1) dflt by (simp add: end_session_def)
  have groups: "map_of (sm_groups m') ?sid = None"
    using keep(6) s assms(5) by (simp add: acquire_def)
  have flag: "?sid \<in> sm_end_flags (mark_end m' ?sid)"
    using assms(1) dflt groups by (simp add: mark_end_def is_default_session_def mark_end_single_def enqueue_close_def Let_def)
  have "?sid \<in> sm_pending (end_session m' c)" if "refs m ?sid \<le> 0"
    using that known flag assms(1) dflt
    by (auto simp: end_session_def release_def is_default_session_def Let_def intro: pending_enqueue)
  moreover have "route_spider wants_ws_end cs_end (hd res) = EndSessionStep c"
    using assms(2-4) by (simp add: res route_spider_def chain_result_of_def wants_ws_end_def)
  ultimately show ?thesis using res counts by blast
qed

theorem session_end_signal_balanced_witness:
  "''s'' \<in> sm_pending (end_session (acquire sample_manager ''s'') (sample_signal True))"
proof -
  have "map_of (sm_groups sample_manager) (cs_session (sample_signal True)) = None" "refs sample_manager ''s'' \<le> 0"
    by (simp_all add: sample_manager_def manager_init_def sample_signal_def dict_get_def)
  then show ?thesis
    using session_end_signal_balanced [OF counted_sample(2) _ _ _ _ sample_signal_turn [of True]]
    by (simp add: sample_signal_def)
qed

lemma mark_end_single_pending: "refs m sid \<le> 0 \<Longrightarrow> sid \<in> sm_pending (mark_end_single m sid)"
  by (auto simp: mark_end_single_def Let_def intro: pending_enqueue)

lemma mark_end_single_keeps: "k \<in> sm_pending m \<Longrightarrow> k \<in> sm_pending (mark_end_single m sid)"
  by (auto simp: mark_end_single_def Let_def intro: pending_enqueue)

lemma fold_mark_end_keeps: "k \<in> sm_pending m \<Longrightarrow> k \<in> sm_pending (foldl mark_end_single m sids)"
  by (induction sids arbitrary: m) (auto intro: mark_end_single_keeps)

lemma fold_mark_end_pending: "sid \<in> set sids \<Longrightarrow> refs m sid \<le> 0 \<Longrightarrow> sid \<in> sm_pending (foldl mark_end_single m sids)"
proof (induction sids arbitrary: m)
  case (Cons x sids)
  have "refs (mark_end_single m x) sid = refs m sid" by simp
  then show ?case
    using Cons mark_end_single_pending [of m sid] fold_mark_end_keeps [of sid "mark_end_single m x" sids] by (cases "x = sid") auto
qed simp

text \<open>Requests that name a group hold their references under the group's id: however many there are, ending the
  group makes every member that holds none of its own pending for closing at once, although those requests run on the
  members' sessions.\<close>

theorem group_references_unprotected:
  assumes "counted m gid" and "map_of (sm_groups m) gid = Some members" and "sid \<in> set members" and "sid \<noteq> gid"
    and "refs m sid \<le> 0"
  shows "refs (acquire m gid) gid = refs m gid + 1 \<and> sid \<in> sm_pending (mark_end (acquire m gid) gid)"
proof
  show "refs (acquire m gid) gid = refs m gid + 1" using refs_acquire [OF assms(1), of gid] by simp
  have "refs (acquire m gid) sid \<le> 0" using refs_acquire [OF assms(1), of sid] assms(4,5) by simp
  then have "sid \<in> sm_pending (foldl mark_end_single (acquire m gid) members)"
    using fold_mark_end_pending [OF assms(3)] by blast
  moreover have "sm_groups (acquire m gid) = sm_groups m" by (simp add: acquire_def)
  ultimately show "sid \<in> sm_pending (mark_end (acquire m gid) gid)"
    using assms(1,2) by (simp add: mark_end_def is_default_session_def)
qed

theorem group_references_unprotected_witness:
  "''u'' \<in> sm_pending (mark_end (acquire ((manager_init ''d'')\<lparr>sm_groups := [(''g'', [''u''])]\<rparr>) ''g'') ''g'')"
  using group_references_unprotected [of "''g''" "(manager_init ''d'')\<lparr>sm_groups := [(''g'', [''u''])]\<rparr>" "[''u'']" "''u''"]
  by (simp add: manager_init_def dict_get_def)

lemma sm_inv_as_hook:
  assumes "sm_inv key_of (fst s) fl" and "\<And>m v. sm_inv key_of m fl \<Longrightarrow> sm_inv key_of (fst (f m v)) fl"
  shows "sm_inv key_of (fst (fst (as_hook f s p v))) fl"
proof (cases s)
  case (Pair m err)
  obtain m1 u where f: "f m v = (m1, u)" by fastforce
  have "sm_inv key_of m1 fl" using assms(2) [of m v] assms(1) Pair f by simp
  then show ?thesis using assms(1) f Pair by (cases err; cases u) (simp_all add: as_hook_def)
qed

lemma sm_inv_end_websocket:
  assumes "sm_inv (ue_key_of ue) m fl" and "env_ok (ue_sessions ue)" and run: "end_websocket ue m c = Inr m'"
  shows "sm_inv (ue_key_of ue) m' fl"
proof -
  obtain m1 sid where g: "get_or_create_session (ue_sessions ue) m (cs_session c) None = Inr (m1, sid)"
    using run by (auto simp: end_websocket_def split: sum.splits)
  have m1: "sm_inv (ue_key_of ue) m1 fl" by (rule sm_inv_get_or_create [OF assms(1,2) g])
  let ?entry = "if cs_url c \<noteq> [] then entry_of_key m1 sid (ue_key_of ue (cs_url c))
             else if cs_key c \<noteq> [] then entry_of_key m1 sid (cs_key c) else None"
  have m': "m' = (case ?entry of None \<Rightarrow> m1 | Some e \<Rightarrow> release (on_wrapper m1 sid (\<lambda>w. w\<lparr>sw_pool := release_from_key
        (mark_end_from_url (ue_key_of ue) (sw_pool w) (we_url e)) (ue_key_of ue (we_url e))\<rparr>)) (cs_session c))"
    using run unfolding end_websocket_def g sum.case prod.case Let_def by (cases ?entry) simp_all
  have "wrapper_ok (ue_key_of ue) (w\<lparr>sw_pool := release_from_key (mark_end_from_url (ue_key_of ue) (sw_pool w) u) k\<rparr>)"
    if "wrapper_ok (ue_key_of ue) w" for w u k
    using that pool_inv_ops(5,6) by (simp add: wrapper_ok_def mark_end_from_url_def)
  then have "sm_inv (ue_key_of ue) (release (on_wrapper m1 sid (\<lambda>w. w\<lparr>sw_pool := release_from_key
        (mark_end_from_url (ue_key_of ue) (sw_pool w) u) k\<rparr>)) (cs_session c)) fl" for u k
    by (intro sm_inv_release sm_inv_on_wrapper m1)
  then show ?thesis using m1 unfolding m' by (cases ?entry) simp_all
qed

lemma sm_inv_turn:
  fixes v :: "'i spider_value"
  assumes "sm_inv (ue_key_of ue) m fl" and "env_ok (ue_sessions ue)"
  shows "sm_inv (ue_key_of ue) (fst (spider_output_turn [] env ue m v)) fl"
proof -
  let ?P = "\<lambda>s :: manager \<times> hook_error option. sm_inv (ue_key_of ue) (fst s) fl"
  have keeps: "?P (fst (output_loop [as_hook (update_output ue), as_hook (robot_output env)] (m, None) None v))"
  proof (rule output_loop_keeps [where P = ?P])
    fix f :: "(manager \<times> hook_error option, spider_req, nat, spider_exc, 'i, close_signal) output_hook" and s p v
    assume f: "f \<in> set [as_hook (update_output ue), as_hook (robot_output env)]" and s: "?P s"
    from f consider "f = as_hook (update_output ue)" | "f = as_hook (robot_output env)" by auto
    then show "?P (fst (f s p v))"
    proof cases
      case 1
      show ?thesis unfolding 1 by (rule sm_inv_as_hook [OF s sm_inv_update_output [OF _ assms(2)]])
    next
      case 2
      show ?thesis unfolding 2 by (rule sm_inv_as_hook [OF s sm_inv_robot_output])
    qed
  qed (simp add: assms(1))
  obtain m1 e res where run: "output_loop [as_hook (update_output ue), as_hook (robot_output env)] (m, None) None v = ((m1, e), res)"
    by (metis surj_pair)
  have "fst (spider_output_turn [] env ue m v) = m1"
    unfolding spider_output_turn_def spider_output_chain_def by (cases e) (simp_all add: run del: output_loop.simps)
  then show ?thesis using keeps unfolding run by simp
qed



end
