(* ===== verification/Resilience.thy ===== *)
theory Resilience
  imports Prelude
begin

text \<open>
  Retry and replacement of long-lived resources (\<open>service/resilience.py\<close>): the slot that owns one
  replaceable resource, the bounded retry policy, and their use by a queue repository
  (\<open>repo/queue.py\<close>, \<open>_run\<close>).  Resources are numbered in the order the factory makes them.  What connecting,
  closing and operating do to the outside world \<open>'w\<close> is an argument.
\<close>

section \<open>The slot\<close>

datatype ('e, 'r) outcome = Done 'r | Raised 'e | Cancelled

record ('w, 'e) slot_env =
  sv_connect :: "nat \<Rightarrow> 'w \<Rightarrow> 'w \<times> ('e, unit) outcome"
  sv_close :: "nat \<Rightarrow> 'w \<Rightarrow> 'w \<times> ('e, unit) outcome"

text \<open>\<open>sl_closed\<close>: the resources whose close was called.\<close>

record 'w slot =
  sl_resource :: "nat option"
  sl_generation :: nat
  sl_made :: nat
  sl_closed :: "nat set"
  sl_world :: 'w

definition slot_init :: "'w \<Rightarrow> 'w slot" where
  "slot_init w = \<lparr>sl_resource = None, sl_generation = 0, sl_made = 0, sl_closed = {}, sl_world = w\<rparr>"

definition call_close :: "('w, 'e) slot_env \<Rightarrow> nat \<Rightarrow> 'w slot \<Rightarrow> 'w slot \<times> ('e, unit) outcome" where
  "call_close env i s =
     (case sv_close env i (sl_world s) of (w, r) \<Rightarrow> (s\<lparr>sl_closed := insert i (sl_closed s), sl_world := w\<rparr>, r))"

text \<open>A resource that fails to connect is closed, and its failure is what is raised.\<close>

definition make_resource :: "('w, 'e) slot_env \<Rightarrow> 'w slot \<Rightarrow> 'w slot \<times> ('e, nat) outcome" where
  "make_resource env s =
     (let i = sl_made s
      in case sv_connect env i (sl_world s) of
           (w, r) \<Rightarrow>
             let s1 = s\<lparr>sl_made := i + 1, sl_world := w\<rparr>
             in (case r of
                   Done _ \<Rightarrow> (s1, Done i)
                 | Raised e \<Rightarrow> (fst (call_close env i s1), Raised e)
                 | Cancelled \<Rightarrow> (fst (call_close env i s1), Cancelled)))"

definition slot_start :: "('w, 'e) slot_env \<Rightarrow> 'w slot \<Rightarrow> 'w slot \<times> ('e, unit) outcome" where
  "slot_start env s =
     (if sl_resource s \<noteq> None then (s, Done ())
      else (case make_resource env s of
              (s1, Done i) \<Rightarrow> (s1\<lparr>sl_resource := Some i\<rparr>, Done ())
            | (s1, Raised e) \<Rightarrow> (s1, Raised e)
            | (s1, Cancelled) \<Rightarrow> (s1, Cancelled)))"

definition slot_replace :: "('w, 'e) slot_env \<Rightarrow> nat option \<Rightarrow> 'w slot \<Rightarrow> 'w slot \<times> ('e, unit) outcome" where
  "slot_replace env observed s =
     (if observed \<noteq> None \<and> observed \<noteq> Some (sl_generation s) then (s, Done ())
      else (case make_resource env s of
              (s1, Raised e) \<Rightarrow> (s1, Raised e)
            | (s1, Cancelled) \<Rightarrow> (s1, Cancelled)
            | (s1, Done i) \<Rightarrow>
                let s2 = s1\<lparr>sl_resource := Some i, sl_generation := sl_generation s1 + 1\<rparr>
                in (case sl_resource s of
                      None \<Rightarrow> (s2, Done ())
                    | Some previous \<Rightarrow>
                        (case call_close env previous s2 of
                           (s3, Cancelled) \<Rightarrow> (s3, Cancelled)
                         | (s3, _) \<Rightarrow> (s3, Done ())))))"

definition slot_close :: "('w, 'e) slot_env \<Rightarrow> 'w slot \<Rightarrow> 'w slot \<times> ('e, unit) outcome" where
  "slot_close env s =
     (case sl_resource s of
        None \<Rightarrow> (s, Done ())
      | Some i \<Rightarrow> call_close env i (s\<lparr>sl_resource := None\<rparr>))"

datatype slot_op = SlotStart | SlotReplace "nat option" | SlotClose

fun slot_step :: "('w, 'e) slot_env \<Rightarrow> slot_op \<Rightarrow> 'w slot \<Rightarrow> 'w slot" where
  "slot_step env SlotStart s = fst (slot_start env s)"
| "slot_step env (SlotReplace observed) s = fst (slot_replace env observed s)"
| "slot_step env SlotClose s = fst (slot_close env s)"

section \<open>The retry policy\<close>

text \<open>
  \<open>rp_retryable\<close>: the exception is one of the configured classes and satisfies the predicate.  \<open>rp_pause\<close> is
  the delay between attempts, which can be cancelled; a delay of zero leaves the world as it is.
\<close>

record ('w, 'e) retry_policy =
  rp_max :: nat
  rp_retryable :: "'e \<Rightarrow> bool"
  rp_stopped :: "'w \<Rightarrow> bool"
  rp_pause :: "'w \<Rightarrow> 'w \<times> bool"

definition retry_policy_init ::
  "int \<Rightarrow> ('e \<Rightarrow> bool) \<Rightarrow> ('w \<Rightarrow> bool) \<Rightarrow> ('w \<Rightarrow> 'w \<times> bool) \<Rightarrow> ('w, 'e) retry_policy option" where
  "retry_policy_init max_attempts retryable stopped pause =
     (if max_attempts < 1 then None
      else Some \<lparr>rp_max = nat max_attempts, rp_retryable = retryable, rp_stopped = stopped, rp_pause = pause\<rparr>)"

datatype ('e, 'r) run_result = Returned 'r | Failed 'e | RunCancelled | Exhausted

text \<open>The recovery loop of one failed attempt.\<close>

function recover_loop ::
  "('w, 'e) retry_policy \<Rightarrow> ('w \<Rightarrow> 'w \<times> ('e, unit) outcome) \<Rightarrow> nat \<Rightarrow> nat \<Rightarrow> 'w \<Rightarrow> 'w \<times> ('e, unit) outcome" where
  "recover_loop p recover attempt failures w =
     (case recover w of
        (w1, Done u) \<Rightarrow> (w1, Done u)
      | (w1, Cancelled) \<Rightarrow> (w1, Cancelled)
      | (w1, Raised e) \<Rightarrow>
          (if \<not> rp_retryable p e \<or> rp_max p \<le> attempt + (failures + 1) then (w1, Raised e)
           else (case rp_pause p w1 of
                   (w2, True) \<Rightarrow> recover_loop p recover attempt (failures + 1) w2
                 | (w2, False) \<Rightarrow> (w2, Cancelled))))"
  by pat_completeness auto

termination recover_loop
  by (relation "measure (\<lambda>(p, recover, attempt, failures, w). rp_max p - (attempt + failures))") auto

declare recover_loop.simps [simp del]

function run_from ::
  "('w, 'e) retry_policy \<Rightarrow> ('w \<Rightarrow> 'w \<times> ('e, 'r) outcome) \<Rightarrow> ('w \<Rightarrow> 'w \<times> ('e, unit) outcome) \<Rightarrow> bool \<Rightarrow> nat \<Rightarrow> 'w \<Rightarrow>
   'w \<times> ('e, 'r) run_result" where
  "run_from p operation recover allow attempt w =
     (if rp_max p < attempt then (w, Exhausted)
      else if rp_stopped p w \<and> \<not> allow then (w, RunCancelled)
      else (case operation w of
              (w1, Done r) \<Rightarrow> (w1, Returned r)
            | (w1, Cancelled) \<Rightarrow> (w1, RunCancelled)
            | (w1, Raised e) \<Rightarrow>
                (if \<not> rp_retryable p e \<or> rp_max p \<le> attempt then (w1, Failed e)
                 else (case recover_loop p recover attempt 0 w1 of
                         (w2, Raised e') \<Rightarrow> (w2, Failed e')
                       | (w2, Cancelled) \<Rightarrow> (w2, RunCancelled)
                       | (w2, Done _) \<Rightarrow>
                           (case rp_pause p w2 of
                              (w3, True) \<Rightarrow> run_from p operation recover allow (attempt + 1) w3
                            | (w3, False) \<Rightarrow> (w3, RunCancelled))))))"
  by pat_completeness auto

termination run_from
  by (relation "measure (\<lambda>(p, operation, recover, allow, attempt, w). rp_max p + 1 - attempt)") auto

declare run_from.simps [simp del]

definition run_policy ::
  "('w, 'e) retry_policy \<Rightarrow> ('w \<Rightarrow> 'w \<times> ('e, 'r) outcome) \<Rightarrow> ('w \<Rightarrow> 'w \<times> ('e, unit) outcome) \<Rightarrow> bool \<Rightarrow> 'w \<Rightarrow>
   'w \<times> ('e, 'r) run_result" where
  "run_policy p operation recover allow w = run_from p operation recover allow 1 w"

section \<open>A repository over a slot\<close>

text \<open>
  The world of \<open>_run\<close>: the slot and the generation the last attempt saw.  \<open>operate\<close> is the operation on the
  active client; without one, \<open>get\<close> raises \<open>not_started\<close>.
\<close>

definition current_operation ::
  "'e \<Rightarrow> (nat \<Rightarrow> 'w \<Rightarrow> 'w \<times> ('e, 'r) outcome) \<Rightarrow> 'w slot \<times> nat \<Rightarrow> ('w slot \<times> nat) \<times> ('e, 'r) outcome" where
  "current_operation not_started operate sg =
     (let s = fst sg
      in case sl_resource s of
           None \<Rightarrow> ((s, sl_generation s), Raised not_started)
         | Some i \<Rightarrow> (case operate i (sl_world s) of (w, r) \<Rightarrow> ((s\<lparr>sl_world := w\<rparr>, sl_generation s), r)))"

definition recover_slot ::
  "('w, 'e) slot_env \<Rightarrow> 'w slot \<times> nat \<Rightarrow> ('w slot \<times> nat) \<times> ('e, unit) outcome" where
  "recover_slot env sg = (case slot_replace env (Some (snd sg)) (fst sg) of (s, r) \<Rightarrow> ((s, snd sg), r))"

definition lift_policy :: "('w, 'e) retry_policy \<Rightarrow> ('w slot \<times> nat, 'e) retry_policy" where
  "lift_policy p =
     \<lparr>rp_max = rp_max p, rp_retryable = rp_retryable p, rp_stopped = (\<lambda>(s, g). rp_stopped p (sl_world s)),
      rp_pause = (\<lambda>(s, g). case rp_pause p (sl_world s) of (w, b) \<Rightarrow> ((s\<lparr>sl_world := w\<rparr>, g), b))\<rparr>"

definition repository_run ::
  "('w, 'e) retry_policy \<Rightarrow> ('w, 'e) slot_env \<Rightarrow> 'e \<Rightarrow> (nat \<Rightarrow> 'w \<Rightarrow> 'w \<times> ('e, 'r) outcome) \<Rightarrow> bool \<Rightarrow>
   'w slot \<Rightarrow> 'w slot \<times> ('e, 'r) run_result" where
  "repository_run p env not_started operate allow s =
     (case run_policy (lift_policy p) (current_operation not_started operate) (recover_slot env) allow (s, sl_generation s) of
        (sg, r) \<Rightarrow> (fst sg, r))"

section \<open>The slot never leaks\<close>

text \<open>Of the resources made, exactly the current one has not been closed.\<close>

definition slot_inv :: "'w slot \<Rightarrow> bool" where
  "slot_inv s \<longleftrightarrow> {i. i < sl_made s} - sl_closed s = set_option (sl_resource s) \<and> (\<forall>i \<in> sl_closed s. i < sl_made s)"

lemma slot_inv_init: "slot_inv (slot_init w)"
  by (simp add: slot_inv_def slot_init_def)

lemma call_close_fields:
  assumes "call_close env i s = (s', r)"
  shows "sl_closed s' = insert i (sl_closed s)" "sl_made s' = sl_made s" "sl_resource s' = sl_resource s"
    "sl_generation s' = sl_generation s"
  using assms by (auto simp: call_close_def split: prod.splits)

lemma make_resource_cases:
  assumes "make_resource env s = (s', r)"
  obtains (made) "r = Done (sl_made s)" "sl_made s' = sl_made s + 1" "sl_closed s' = sl_closed s"
      "sl_resource s' = sl_resource s" "sl_generation s' = sl_generation s"
  | (failed) "\<forall>i. r \<noteq> Done i" "sl_made s' = sl_made s + 1" "sl_closed s' = insert (sl_made s) (sl_closed s)"
      "sl_resource s' = sl_resource s" "sl_generation s' = sl_generation s"
  using assms that unfolding make_resource_def
  by (auto simp: Let_def call_close_def split: prod.splits outcome.splits)

lemma slot_replace_cases:
  assumes "slot_replace env observed s = (s', r)"
  obtains (stale) "observed \<noteq> None" "observed \<noteq> Some (sl_generation s)" "s' = s" "r = Done ()"
  | (failed) "observed = None \<or> observed = Some (sl_generation s)" "r \<noteq> Done ()" "\<forall>i. snd (make_resource env s) \<noteq> Done i"
      "sl_made s' = sl_made s + 1"
      "sl_closed s' = insert (sl_made s) (sl_closed s)" "sl_resource s' = sl_resource s" "sl_generation s' = sl_generation s"
  | (replaced) "observed = None \<or> observed = Some (sl_generation s)" "r = Done () \<or> r = Cancelled"
      "sl_made s' = sl_made s + 1" "sl_closed s' = set_option (sl_resource s) \<union> sl_closed s"
      "sl_resource s' = Some (sl_made s)" "sl_generation s' = sl_generation s + 1"
proof (cases "observed \<noteq> None \<and> observed \<noteq> Some (sl_generation s)")
  case True
  then have "s' = s" "r = Done ()" using assms by (simp_all add: slot_replace_def)
  then show ?thesis using True by (intro stale) simp_all
next
  case False
  then have obs: "observed = None \<or> observed = Some (sl_generation s)" by blast
  obtain s1 u where m: "make_resource env s = (s1, u)" by fastforce
  have run: "(s', r) = (case (s1, u) of
        (s1, Raised e) \<Rightarrow> (s1, Raised e)
      | (s1, Cancelled) \<Rightarrow> (s1, Cancelled)
      | (s1, Done i) \<Rightarrow>
          let s2 = s1\<lparr>sl_resource := Some i, sl_generation := sl_generation s1 + 1\<rparr>
          in (case sl_resource s of
                None \<Rightarrow> (s2, Done ())
              | Some previous \<Rightarrow>
                  (case call_close env previous s2 of
                     (s3, Cancelled) \<Rightarrow> (s3, Cancelled)
                   | (s3, _) \<Rightarrow> (s3, Done ()))))"
    unfolding assms [symmetric] slot_replace_def m if_not_P [OF False] by (rule refl)
  from m show ?thesis
  proof (cases rule: make_resource_cases)
    case made
    let ?s2 = "s1\<lparr>sl_resource := Some (sl_made s), sl_generation := sl_generation s1 + 1\<rparr>"
    show ?thesis
    proof (cases "sl_resource s")
      case None
      then have "s' = ?s2" "r = Done ()" using run made(1) by (simp_all add: Let_def)
      then show ?thesis by - (rule replaced [OF obs], use made None in simp_all)
    next
      case (Some previous)
      obtain s3 c where c: "call_close env previous ?s2 = (s3, c)" by fastforce
      have "s' = s3 \<and> (r = Done () \<or> r = Cancelled)" using run made(1) Some c by (cases c) (simp_all add: Let_def)
      then show ?thesis by - (rule replaced [OF obs], use call_close_fields [OF c] made Some in simp_all)
    qed
  next
    case failed
    have "s' = s1 \<and> r \<noteq> Done ()" using run failed(1) by (cases u) simp_all
    then show ?thesis by - (rule that(2) [OF obs], use failed m in simp_all)
  qed
qed

lemma slot_inv_replace: "slot_inv s \<Longrightarrow> slot_inv (fst (slot_replace env observed s))"
proof -
  assume inv: "slot_inv s"
  obtain s' r where run: "slot_replace env observed s = (s', r)" by fastforce
  then show ?thesis
  proof (cases rule: slot_replace_cases)
    case failed
    then show ?thesis using inv run by (auto simp: slot_inv_def less_Suc_eq)
  next
    case replaced
    then show ?thesis using inv run unfolding slot_inv_def by (auto simp: less_Suc_eq set_eq_iff)
  qed (use inv run in simp)
qed

lemma slot_inv_start: "slot_inv s \<Longrightarrow> slot_inv (fst (slot_start env s))"
proof -
  assume inv: "slot_inv s"
  obtain s1 u where m: "make_resource env s = (s1, u)" by fastforce
  show ?thesis
  proof (cases "sl_resource s")
    case None
    from m show ?thesis
    proof (cases rule: make_resource_cases)
      case made
      then show ?thesis using inv m None unfolding slot_inv_def slot_start_def by (auto simp: less_Suc_eq set_eq_iff)
    next
      case failed
      then show ?thesis using inv m None
        by (cases u) (auto simp: slot_inv_def slot_start_def less_Suc_eq)
    qed
  qed (use inv in \<open>simp add: slot_start_def\<close>)
qed

lemma slot_inv_close: "slot_inv s \<Longrightarrow> slot_inv (fst (slot_close env s))"
proof (cases "sl_resource s")
  case (Some i)
  assume inv: "slot_inv s"
  obtain s' r where c: "call_close env i (s\<lparr>sl_resource := None\<rparr>) = (s', r)" by fastforce
  then show ?thesis
    using inv Some call_close_fields [OF c] unfolding slot_inv_def slot_close_def by (auto simp: set_eq_iff)
qed (simp add: slot_close_def)

lemma slot_inv_step: "slot_inv s \<Longrightarrow> slot_inv (slot_step env op s)"
  by (cases op) (simp_all add: slot_inv_start slot_inv_replace slot_inv_close)

lemma slot_inv_run: "slot_inv s \<Longrightarrow> slot_inv (fold (slot_step env) ops s)"
  by (induction ops arbitrary: s) (simp_all add: slot_inv_step)

section \<open>Runs\<close>

text \<open>
  What every call keeps is kept by a whole run: the contract between the policy and the operations handed to it.
\<close>

locale retried =
  fixes policy :: "('w, 'e) retry_policy"
    and operation :: "'w \<Rightarrow> 'w \<times> ('e, 'r) outcome"
    and recover :: "'w \<Rightarrow> 'w \<times> ('e, unit) outcome"
    and I :: "'w \<Rightarrow> bool"
  assumes operation_keeps: "I w \<Longrightarrow> I (fst (operation w))"
    and recover_keeps: "I w \<Longrightarrow> I (fst (recover w))"
    and pause_keeps: "I w \<Longrightarrow> I (fst (rp_pause policy w))"
begin

lemma recover_loop_keeps: "I w \<Longrightarrow> I (fst (recover_loop policy recover attempt failures w))"
proof (induction "rp_max policy - (attempt + failures)" arbitrary: failures w rule: less_induct)
  case less
  obtain w1 r where r: "recover w = (w1, r)" by fastforce
  obtain w2 b where b: "rp_pause policy w1 = (w2, b)" by fastforce
  have w1: "I w1" using recover_keeps [OF less.prems] r by simp
  have w2: "I w2" using pause_keeps [OF w1] b by simp
  have "I (fst (recover_loop policy recover attempt (failures + 1) w2))" if "\<not> rp_max policy \<le> attempt + (failures + 1)"
    by (rule less.hyps [OF _ w2]) (use that in simp)
  then show ?case
    using w1 w2 by (subst recover_loop.simps) (simp add: r b split: outcome.split bool.split)
qed

lemma run_from_keeps: "I w \<Longrightarrow> I (fst (run_from policy operation recover allow attempt w))"
proof (induction "rp_max policy + 1 - attempt" arbitrary: attempt w rule: less_induct)
  case less
  obtain w1 r where r: "operation w = (w1, r)" by fastforce
  obtain w2 u where u: "recover_loop policy recover attempt 0 w1 = (w2, u)" by fastforce
  obtain w3 b where b: "rp_pause policy w2 = (w3, b)" by fastforce
  have w1: "I w1" using operation_keeps [OF less.prems] r by simp
  have w2: "I w2" using recover_loop_keeps [OF w1, of attempt 0] u by simp
  have w3: "I w3" using pause_keeps [OF w2] b by simp
  have "I (fst (run_from policy operation recover allow (attempt + 1) w3))" if "\<not> rp_max policy < attempt"
    by (rule less.hyps [OF _ w3]) (use that in simp)
  then show ?case
    using w1 w2 w3 less.prems by (subst run_from.simps) (simp add: r u b split: outcome.split bool.split)
qed

lemma run_keeps: "I w \<Longrightarrow> I (fst (run_policy policy operation recover allow w))"
  unfolding run_policy_def by (rule run_from_keeps)

end

text \<open>The cost of a run, when the operation costs at most \<open>a\<close> and a recovery at most \<open>b\<close>.\<close>

locale metered =
  fixes policy :: "('w, 'e) retry_policy"
    and operation :: "'w \<Rightarrow> 'w \<times> ('e, 'r) outcome"
    and recover :: "'w \<Rightarrow> 'w \<times> ('e, unit) outcome"
    and cost :: "'w \<Rightarrow> nat" and a b :: nat
  assumes operation_cost: "cost (fst (operation w)) \<le> cost w + a"
    and recover_cost: "cost (fst (recover w)) \<le> cost w + b"
    and pause_cost: "cost (fst (rp_pause policy w)) \<le> cost w"
begin

lemma recover_loop_cost:
  "attempt + failures < rp_max policy \<Longrightarrow>
   cost (fst (recover_loop policy recover attempt failures w)) \<le> cost w + b * (rp_max policy - (attempt + failures))"
proof (induction "rp_max policy - (attempt + failures)" arbitrary: failures w rule: less_induct)
  case less
  obtain w1 r where r: "recover w = (w1, r)" by fastforce
  obtain w2 c where c: "rp_pause policy w1 = (w2, c)" by fastforce
  define n where "n = rp_max policy - (attempt + failures)"
  have n: "1 \<le> n" using less.prems by (simp add: n_def)
  then have bn: "b \<le> b * n" by simp
  have w1: "cost w1 \<le> cost w + b" using recover_cost [of w] r by simp
  have w2: "cost w2 \<le> cost w1" using pause_cost [of w1] c by simp
  have more: "cost (fst (recover_loop policy recover attempt (failures + 1) w2)) \<le> cost w + b * n"
    if "\<not> rp_max policy \<le> attempt + (failures + 1)"
  proof -
    have "cost (fst (recover_loop policy recover attempt (failures + 1) w2)) \<le>
        cost w2 + b * (rp_max policy - (attempt + (failures + 1)))"
      by (rule less.hyps) (use that in simp_all)
    then have "cost (fst (recover_loop policy recover attempt (failures + 1) w2)) \<le> cost w2 + b * (n - 1)"
      by (simp add: n_def)
    moreover have "b * n = b + b * (n - 1)" using n by (cases n) simp_all
    ultimately show ?thesis using w1 w2 by linarith
  qed
  have "cost w1 \<le> cost w + b * n" "cost w2 \<le> cost w + b * n" using w1 w2 bn by linarith+
  then show ?case
    using more unfolding n_def [symmetric]
    by (subst recover_loop.simps) (simp add: r c split: outcome.split bool.split)
qed

lemma run_from_ends:
  assumes "\<not> rp_max policy < attempt" and "operation w = (w1, r)" and "recover_loop policy recover attempt 0 w1 = (w2, u)"
    and "rp_pause policy w2 = (w3, c)"
  shows "fst (run_from policy operation recover allow attempt w) \<in> {w, w1} \<union>
    (if attempt < rp_max policy then {w2, w3, fst (run_from policy operation recover allow (attempt + 1) w3)} else {})"
proof -
  have "fst (run_from policy operation recover allow attempt w) =
      (if rp_stopped policy w \<and> \<not> allow then w
       else case r of Raised e \<Rightarrow>
          (if \<not> rp_retryable policy e \<or> rp_max policy \<le> attempt then w1
           else case u of Done _ \<Rightarrow> (if c then fst (run_from policy operation recover allow (attempt + 1) w3) else w3) | _ \<Rightarrow> w2)
         | _ \<Rightarrow> w1)"
    using assms by (subst run_from.simps) (cases r; cases u; cases c; simp)
  then show ?thesis using assms(1) by (cases r; cases u) simp_all
qed

lemma run_from_cost:
  "1 \<le> attempt \<Longrightarrow> 2 * cost (fst (run_from policy operation recover allow attempt w)) \<le>
     2 * cost w + 2 * a * (rp_max policy + 1 - attempt) +
       b * ((rp_max policy + 1 - attempt) * (rp_max policy - attempt))"
proof (induction "rp_max policy + 1 - attempt" arbitrary: attempt w rule: less_induct)
  case less
  show ?case
  proof (cases "rp_max policy < attempt")
    case False
    obtain w1 r where r: "operation w = (w1, r)" by fastforce
    obtain w2 u where u: "recover_loop policy recover attempt 0 w1 = (w2, u)" by fastforce
    obtain w3 c where c: "rp_pause policy w2 = (w3, c)" by fastforce
    define n where "n = rp_max policy - attempt"
    define total where "total = 2 * cost w + 2 * a * (n + 1) + b * ((n + 1) * n)"
    have w1: "cost w1 \<le> cost w + a" using operation_cost [of w] r by simp
    have w2: "cost w2 \<le> cost w1 + b * n" if "attempt < rp_max policy"
      using recover_loop_cost [of attempt 0 w1] that u by (simp add: n_def)
    have w3: "cost w3 \<le> cost w2" using pause_cost [of w2] c by simp
    have first: "2 * cost w1 \<le> total" using w1 by (simp add: total_def)
    have step: "2 * cost w2 \<le> total" "2 * cost w3 \<le> total"
      "2 * cost (fst (run_from policy operation recover allow (attempt + 1) w3)) \<le> total"
      if "attempt < rp_max policy"
    proof -
      define k where "k = n - 1"
      have k: "n = Suc k" using that by (simp add: n_def k_def)
      have bound: "2 * cost w2 \<le> 2 * cost w + 2 * a + 2 * (b * n)" using w1 w2 [OF that] by linarith
      have total: "total = 2 * cost w + 2 * a + 2 * (b * n) + 2 * a * n + b * (n * k)"
        by (simp add: total_def k algebra_simps)
      show "2 * cost w2 \<le> total" "2 * cost w3 \<le> total" using bound w3 total by linarith+
      have "2 * cost (fst (run_from policy operation recover allow (attempt + 1) w3)) \<le>
          2 * cost w3 + 2 * a * (rp_max policy + 1 - (attempt + 1)) +
            b * ((rp_max policy + 1 - (attempt + 1)) * (rp_max policy - (attempt + 1)))"
        by (rule less.hyps) (use that less.prems in simp_all)
      moreover have "rp_max policy + 1 - (attempt + 1) = n" "rp_max policy - (attempt + 1) = k" using k by (simp_all add: n_def)
      ultimately have "2 * cost (fst (run_from policy operation recover allow (attempt + 1) w3)) \<le> 2 * cost w3 + 2 * a * n + b * (n * k)"
        by (simp only:)
      then show "2 * cost (fst (run_from policy operation recover allow (attempt + 1) w3)) \<le> total"
        using bound w3 total by linarith
    qed
    have zero: "2 * cost w \<le> total" by (simp add: total_def)
    have within: "2 * cost x \<le> total" if "x \<in> S" "\<forall>y \<in> S. 2 * cost y \<le> total" for x S using that by blast
    have "2 * cost (fst (run_from policy operation recover allow attempt w)) \<le> total"
    proof (cases "attempt < rp_max policy")
      case True
      then have "fst (run_from policy operation recover allow attempt w) \<in>
          {w, w1, w2, w3, fst (run_from policy operation recover allow (attempt + 1) w3)}"
        using run_from_ends [OF False r u c, of allow] by auto
      then show ?thesis by (rule within) (simp only: ball_simps first step [OF True] zero)
    next
      case no: False
      then have "fst (run_from policy operation recover allow attempt w) \<in> {w, w1}"
        using run_from_ends [OF False r u c, of allow] by simp
      then show ?thesis by (rule within) (simp only: ball_simps first zero)
    qed
    moreover have "rp_max policy + 1 - attempt = n + 1" "rp_max policy - attempt = n" using False by (simp_all add: n_def)
    ultimately show ?thesis unfolding total_def by simp
  qed (subst run_from.simps, simp)
qed

lemma run_cost:
  "2 * cost (fst (run_policy policy operation recover allow w)) \<le>
     2 * cost w + 2 * a * rp_max policy + b * (rp_max policy * (rp_max policy - 1))"
  using run_from_cost [of 1 allow w] by (simp add: run_policy_def)

end

lemma recover_slot_fields: "fst (fst (recover_slot env (s, g))) = fst (slot_replace env (Some g) s)"
  by (simp add: recover_slot_def split: prod.split)

lemma current_operation_fields:
  "sl_made (fst (fst (current_operation ns operate (s, g)))) = sl_made s"
  "sl_resource (fst (fst (current_operation ns operate (s, g)))) = sl_resource s"
  "sl_closed (fst (fst (current_operation ns operate (s, g)))) = sl_closed s"
  by (simp_all add: current_operation_def Let_def split: option.split prod.split)

lemma slot_replace_made: "sl_made (fst (slot_replace env observed s)) \<le> sl_made s + 1"
proof -
  obtain s' r where run: "slot_replace env observed s = (s', r)" by fastforce
  then have "sl_made s' \<le> sl_made s + 1" by (cases rule: slot_replace_cases) simp_all
  then show ?thesis using run by simp
qed

text \<open>The repository's operation and recovery meet both contracts.\<close>

interpretation slot_retry: retried "lift_policy p" "current_operation ns operate" "recover_slot env" "\<lambda>sg. slot_inv (fst sg)"
  for p ns operate env
proof
  show "slot_inv (fst (fst (current_operation ns operate sg)))" if "slot_inv (fst sg)" for sg :: "'a slot \<times> nat"
    using that by (cases sg) (simp add: slot_inv_def current_operation_fields)
  show "slot_inv (fst (fst (recover_slot env sg)))" if "slot_inv (fst sg)" for sg :: "'a slot \<times> nat"
    using that slot_inv_replace [of "fst sg" env "Some (snd sg)"] by (cases sg) (simp add: recover_slot_fields)
  show "slot_inv (fst (fst (rp_pause (lift_policy p) sg)))" if "slot_inv (fst sg)" for sg :: "'a slot \<times> nat"
    using that by (cases sg) (simp add: slot_inv_def lift_policy_def split: prod.split)
qed

interpretation slot_meter: metered "lift_policy p" "current_operation ns operate" "recover_slot env" "\<lambda>sg. sl_made (fst sg)" 0 1
  for p ns operate env
proof
  show "sl_made (fst (fst (current_operation ns operate sg))) \<le> sl_made (fst sg) + 0" for sg :: "'a slot \<times> nat"
    by (cases sg) (simp add: current_operation_fields)
  show "sl_made (fst (fst (recover_slot env sg))) \<le> sl_made (fst sg) + 1" for sg :: "'a slot \<times> nat"
    using slot_replace_made [of env "Some (snd sg)" "fst sg"] by (cases sg) (simp add: recover_slot_fields)
  show "sl_made (fst (fst (rp_pause (lift_policy p) sg))) \<le> sl_made (fst sg)" for sg :: "'a slot \<times> nat"
    by (cases sg) (simp add: lift_policy_def split: prod.split)
qed

text \<open>Where the result of a run comes from.\<close>

lemma recover_loop_raises:
  "recover_loop p recover attempt failures w = (w', Raised e) \<Longrightarrow> \<exists>w1. recover w1 = (w', Raised e)"
proof (induction "rp_max p - (attempt + failures)" arbitrary: failures w rule: less_induct)
  case less
  obtain w1 r where r: "recover w = (w1, r)" by fastforce
  obtain w2 b where b: "rp_pause p w1 = (w2, b)" by fastforce
  have run: "recover_loop p recover attempt failures w =
      (case r of Raised e \<Rightarrow>
         (if \<not> rp_retryable p e \<or> rp_max p \<le> attempt + (failures + 1) then (w1, Raised e)
          else if b then recover_loop p recover attempt (failures + 1) w2 else (w2, Cancelled))
       | Done u \<Rightarrow> (w1, Done u) | Cancelled \<Rightarrow> (w1, Cancelled))"
    by (subst recover_loop.simps) (simp add: r b split: outcome.split bool.split)
  show ?case
  proof (cases r)
    case (Raised e0)
    show ?thesis
    proof (cases "\<not> rp_retryable p e0 \<or> rp_max p \<le> attempt + (failures + 1)")
      case True
      then have "w1 = w'" "e0 = e" using less.prems run Raised by simp_all
      then show ?thesis using r Raised by blast
    next
      case False
      then have more: "recover_loop p recover attempt (failures + 1) w2 = (w', Raised e)"
        using less.prems run Raised by (cases b) simp_all
      have "attempt + failures < rp_max p" using False by simp
      then show ?thesis by (intro less.hyps [OF _ more]) linarith
    qed
  qed (use less.prems run in simp_all)
qed

lemma run_from_result:
  assumes "run_from p operation recover allow attempt w = (w', res)" and "attempt \<le> rp_max p"
  shows "(\<forall>r. res = Returned r \<longrightarrow> (\<exists>w1. operation w1 = (w', Done r))) \<and>
    (\<forall>e. res = Failed e \<longrightarrow> (\<exists>w1. operation w1 = (w', Raised e)) \<or> (\<exists>w1. recover w1 = (w', Raised e))) \<and> res \<noteq> Exhausted"
  using assms
proof (induction "rp_max p + 1 - attempt" arbitrary: attempt w rule: less_induct)
  case less
  obtain w1 r where r: "operation w = (w1, r)" by fastforce
  obtain w2 u where u: "recover_loop p recover attempt 0 w1 = (w2, u)" by fastforce
  obtain w3 b where b: "rp_pause p w2 = (w3, b)" by fastforce
  have run: "(w', res) =
      (if rp_stopped p w \<and> \<not> allow then (w, RunCancelled)
       else case r of Done x \<Rightarrow> (w1, Returned x) | Cancelled \<Rightarrow> (w1, RunCancelled)
         | Raised e \<Rightarrow>
            (if \<not> rp_retryable p e \<or> rp_max p \<le> attempt then (w1, Failed e)
             else case u of Raised e' \<Rightarrow> (w2, Failed e') | Cancelled \<Rightarrow> (w2, RunCancelled)
               | Done _ \<Rightarrow> if b then run_from p operation recover allow (attempt + 1) w3 else (w3, RunCancelled)))"
    unfolding less.prems(1) [symmetric] using less.prems(2)
    by (subst run_from.simps) (cases r; cases u; cases b; simp add: r u b)
  consider (stopped) "rp_stopped p w \<and> \<not> allow" | (go) "\<not> (rp_stopped p w \<and> \<not> allow)" by blast
  then show ?case
  proof cases
    case stopped
    then show ?thesis using run by simp
  next
    case go
    show ?thesis
    proof (cases r)
      case (Raised e)
      show ?thesis
      proof (cases "\<not> rp_retryable p e \<or> rp_max p \<le> attempt")
        case True
        then show ?thesis using run go Raised r by auto
      next
        case False
        show ?thesis
        proof (cases u)
          case (Done x)
          show ?thesis
          proof (cases b)
            case True
            then have "run_from p operation recover allow (attempt + 1) w3 = (w', res)"
              using run go Raised False Done by simp
            then show ?thesis using less.hyps [of "attempt + 1" w3] False less.prems(2) by simp
          qed (use run go Raised False Done in simp)
        next
          case (Raised e')
          then have "res = Failed e'" "w' = w2" using run go \<open>r = Raised e\<close> False by simp_all
          then show ?thesis using recover_loop_raises [of p recover attempt 0 w1 w2 e'] u Raised by simp
        qed (use run go Raised False in simp)
      qed
    qed (use run go r in auto)
  qed
qed

section \<open>Properties\<close>

text \<open>C27.  A retry policy that could be built never ends without a result: a run returns what a call of the
  operation returned, raises what a call of the operation or of the recovery raised, or is cancelled.\<close>

theorem retry_result_sound:
  assumes "retry_policy_init n retryable stopped pause = Some p" and "run_policy p operation recover allow w = (w', res)"
  shows "(\<forall>r. res = Returned r \<longrightarrow> (\<exists>w1. operation w1 = (w', Done r))) \<and>
    (\<forall>e. res = Failed e \<longrightarrow> (\<exists>w1. operation w1 = (w', Raised e)) \<or> (\<exists>w1. recover w1 = (w', Raised e))) \<and> res \<noteq> Exhausted"
proof -
  have "1 \<le> rp_max p" using assms(1) by (auto simp: retry_policy_init_def split: if_splits)
  then show ?thesis using run_from_result [of p operation recover allow 1 w w' res] assms(2) by (simp add: run_policy_def)
qed

theorem retry_result_sound_witness:
  "\<exists>w'. run_policy \<lparr>rp_max = 2, rp_retryable = (\<lambda>e :: nat. True), rp_stopped = (\<lambda>w. False), rp_pause = (\<lambda>w. (w, True))\<rparr>
      (\<lambda>w. (w + 1, if w < 1 then Raised 7 else Done w)) (\<lambda>w. (w, Done ())) False (0 :: nat) = (w', Returned (1 :: nat)) \<and>
    (\<exists>w1. (if w1 < 1 then Raised (7 :: nat) else Done w1) = Done (1 :: nat))"
  (is "\<exists>w'. run_policy ?p ?op ?rec _ _ = _ \<and> _")
proof -
  have init: "retry_policy_init 2 (\<lambda>e :: nat. True) (\<lambda>w. False) (\<lambda>w. (w, True)) = Some ?p" by (simp add: retry_policy_init_def)
  have run: "run_policy ?p ?op ?rec False 0 = (2, Returned 1)"
    unfolding run_policy_def by (simp add: run_from.simps recover_loop.simps)
  obtain w1 where "?op w1 = (2, Done 1)" using retry_result_sound [OF init run] by blast
  then have "(if w1 < 1 then Raised (7 :: nat) else Done w1) = Done (1 :: nat)" by simp
  with run show ?thesis by blast
qed

text \<open>The calls of a run are bounded: with \<open>n\<close> attempts, an operation that costs at most \<open>a\<close> and a recovery that
  costs at most \<open>b\<close>, a run costs at most \<open>n\<close> operations and \<open>n (n - 1) / 2\<close> recoveries.\<close>

theorem retry_calls_bounded:
  assumes "\<And>w. cost (fst (operation w)) \<le> cost w + a" and "\<And>w. cost (fst (recover w)) \<le> cost w + b"
    and "\<And>w. cost (fst (rp_pause p w)) \<le> cost w"
  shows "2 * cost (fst (run_policy p operation recover allow w)) \<le>
    2 * cost w + 2 * a * rp_max p + b * (rp_max p * (rp_max p - 1))"
  using metered.run_cost [OF metered.intro, of cost operation a recover b p allow w] assms by blast

theorem retry_calls_bounded_witness:
  "2 * fst (run_policy \<lparr>rp_max = 3, rp_retryable = (\<lambda>e :: nat. True), rp_stopped = (\<lambda>w. False), rp_pause = (\<lambda>w. (w, True))\<rparr>
      (\<lambda>w. (w + 1, Raised 7 :: (nat, nat) outcome)) (\<lambda>w. (w, Raised 8)) False (0 :: nat)) \<le> 2 * 3"
  using retry_calls_bounded [of "\<lambda>w. w" "\<lambda>w. (w + 1, Raised 7 :: (nat, nat) outcome)" 1 "\<lambda>w. (w, Raised 8)" 0
      "\<lparr>rp_max = 3, rp_retryable = (\<lambda>e :: nat. True), rp_stopped = (\<lambda>w. False), rp_pause = (\<lambda>w. (w, True))\<rparr>" False 0] by simp

text \<open>C28.  A repository call keeps the slot sound whatever happens to it, errors and cancellations included: of all
  the clients ever made exactly the current one has not been closed; and it makes at most
  \<open>n (n - 1) / 2\<close> new clients.  The same soundness holds for every sequence of starts, replacements and closes.\<close>

theorem slot_never_leaks:
  assumes "slot_inv s"
  shows "slot_inv (fst (repository_run p env ns operate allow s)) \<and>
    2 * sl_made (fst (repository_run p env ns operate allow s)) \<le> 2 * sl_made s + rp_max p * (rp_max p - 1) \<and>
    slot_inv (fold (slot_step env) ops s)"
proof -
  have "fst (repository_run p env ns operate allow s) =
      fst (fst (run_policy (lift_policy p) (current_operation ns operate) (recover_slot env) allow (s, sl_generation s)))"
    by (simp add: repository_run_def split: prod.split)
  moreover have "rp_max (lift_policy p) = rp_max p" by (simp add: lift_policy_def)
  ultimately show ?thesis
    using slot_retry.run_keeps [of "(s, sl_generation s)" p ns operate env allow]
      slot_meter.run_cost [of p ns operate env allow "(s, sl_generation s)"] assms slot_inv_run [OF assms, of env ops]
    by simp
qed

theorem slot_never_leaks_witness:
  "slot_inv (fold (slot_step \<lparr>sv_connect = (\<lambda>i w. (w, if i = 0 then Raised ''e'' else Done ())), sv_close = (\<lambda>i w. (w, Cancelled))\<rparr>)
     [SlotStart, SlotReplace None, SlotReplace (Some 1), SlotClose] (slot_init (0 :: nat)))"
  by (rule slot_never_leaks [OF slot_inv_init, THEN conjunct2, THEN conjunct2])

text \<open>Observers of the same failed generation replace it once: however many replacements of the generation \<open>g\<close> are
  asked for, one after the other, the generation grows by one as soon as one of them connects, and
  the later ones make no client.\<close>

theorem replacement_happens_once:
  assumes "sl_generation s = g" and "\<And>i w. \<exists>u. snd (sv_connect env i w) = Done u"
  shows "sl_generation (fold (slot_step env) (replicate (Suc n) (SlotReplace (Some g))) s) = g + 1 \<and>
    sl_made (fold (slot_step env) (replicate (Suc n) (SlotReplace (Some g))) s) = sl_made s + 1"
proof -
  obtain s1 r where run: "slot_replace env (Some g) s = (s1, r)" by fastforce
  obtain w u where w: "sv_connect env (sl_made s) (sl_world s) = (w, Done u)"
    using assms(2) [of "sl_made s" "sl_world s"] by (metis prod.collapse)
  have ok: "snd (make_resource env s) = Done (sl_made s)" by (simp add: make_resource_def w Let_def)
  from run have first: "sl_generation s1 = g + 1 \<and> sl_made s1 = sl_made s + 1"
    by (cases rule: slot_replace_cases) (use assms(1) ok in simp_all)
  have "slot_step env (SlotReplace (Some g)) s1 = s1" using first by (simp add: slot_replace_def)
  then have "fold (slot_step env) (replicate n (SlotReplace (Some g))) s1 = s1" by (induction n) simp_all
  then show ?thesis using run first by simp
qed

theorem replacement_happens_once_witness:
  "sl_generation (fold (slot_step \<lparr>sv_connect = (\<lambda>i w. (w, Done ())), sv_close = (\<lambda>i w. (w, Raised ''e''))\<rparr>)
     (replicate (Suc 2) (SlotReplace (Some 0))) (slot_init (0 :: nat))) = 1"
  using replacement_happens_once [of "slot_init (0 :: nat)" 0
      "\<lparr>sv_connect = (\<lambda>i w. (w, Done ())), sv_close = (\<lambda>i w. (w, Raised ''e''))\<rparr>" 2] by (simp add: slot_init_def)

text \<open>Closing a slot is not final: a replacement of the same generation that comes after the close, from an
  operation that failed because of it, connects a new client and publishes it, and nothing closes it.\<close>

theorem closed_slot_reopens:
  assumes "sl_resource s = Some i" and "slot_close env s = (s1, r)" and "snd (sv_connect env (sl_made s) (sl_world s1)) = Done ()"
  shows "sl_resource s1 = None \<and> sl_resource (fst (slot_replace env (Some (sl_generation s)) s1)) = Some (sl_made s)"
proof -
  obtain w where w: "sv_connect env (sl_made s) (sl_world s1) = (w, Done ())" using assms(3) by (metis prod.collapse)
  have "call_close env i (s\<lparr>sl_resource := None\<rparr>) = (s1, r)" using assms(1,2) by (simp add: slot_close_def)
  from call_close_fields [OF this] show ?thesis
    using w by (simp add: slot_replace_def make_resource_def Let_def)
qed

theorem closed_slot_reopens_witness:
  "sl_resource (fst (slot_replace \<lparr>sv_connect = (\<lambda>i w. (w, Done ())), sv_close = (\<lambda>i w. (w, Done () :: (unit, unit) outcome))\<rparr> (Some 0)
     (fst (slot_close \<lparr>sv_connect = (\<lambda>i w. (w, Done ())), sv_close = (\<lambda>i w. (w, Done () :: (unit, unit) outcome))\<rparr>
       ((slot_init (0 :: nat))\<lparr>sl_resource := Some 0, sl_made := 1\<rparr>))))) = Some 1"
  (is "sl_resource (fst (slot_replace ?env _ (fst (slot_close _ ?s)))) = _")
proof -
  obtain s1 r where c: "slot_close ?env ?s = (s1, r)" by fastforce
  from closed_slot_reopens [of ?s 0 ?env, OF _ c] c show ?thesis by (simp add: slot_init_def)
qed

end
