(* ===== verification/ResourceRegistry.thy ===== *)
theory ResourceRegistry
  imports Resilience PyStrings
begin

text \<open>
  The registry of runtime resources (\<open>runtime/resources.py\<close>): registration, lookup, and startup and shutdown with
  their order and rollback.  How starting and closing an entry end is an argument of each call; the calls
  it makes are returned as a list of events.
\<close>

section \<open>Factory resources\<close>

datatype 'e resource_error =
    LateRegistration
  | InvalidName
  | ReservedName string
  | DuplicateName string
  | NotRegistered string
  | NotStarted string
  | WrongType string
  | FactoryReturnedNone
  | LifecycleError 'e
  | StartCancelled

record 'v factory_resource =
  fr_value :: "'v option"
  fr_started :: bool

definition factory_init :: "'v factory_resource" where
  "factory_init = \<lparr>fr_value = None, fr_started = False\<rparr>"

definition factory_get :: "'v factory_resource \<Rightarrow> 'v option" where
  "factory_get f = (if fr_started f then fr_value f else None)"

text \<open>\<open>made\<close>: what the factory returned, \<open>None\<close> included, or its exception.\<close>

definition factory_start :: "('e, 'v option) outcome \<Rightarrow> 'v factory_resource \<Rightarrow> 'v factory_resource \<times> ('e resource_error, unit) outcome" where
  "factory_start made f =
     (if fr_started f then (f, Done ())
      else (case made of
              Raised e \<Rightarrow> (f, Raised (LifecycleError e))
            | Cancelled \<Rightarrow> (f, Cancelled)
            | Done None \<Rightarrow> (f, Raised FactoryReturnedNone)
            | Done (Some v) \<Rightarrow> (\<lparr>fr_value = Some v, fr_started = True\<rparr>, Done ())))"

text \<open>The value is forgotten before its closer runs; the second component is the value handed to the closer.\<close>

definition factory_close :: "'v factory_resource \<Rightarrow> 'v factory_resource \<times> 'v option" where
  "factory_close f = (if \<not> fr_started f then (f, None) else (factory_init, fr_value f))"

section \<open>The registry\<close>

text \<open>A preassembled value, which may be \<open>None\<close>, or one a factory makes at startup.\<close>

datatype 'v resource_entry = Assembled 'v | Made "'v factory_resource"

record 'v registry =
  rg_entries :: "(string, 'v resource_entry) pydict"
  rg_active :: "string list"
  rg_started :: bool

definition registry_init :: "'v registry" where
  "registry_init = \<lparr>rg_entries = [], rg_active = [], rg_started = False\<rparr>"

definition registry_names :: "'v registry \<Rightarrow> string list" where
  "registry_names r = keys (rg_entries r)"

text \<open>The public attributes of the class.\<close>

definition registry_api :: "string list" where
  "registry_api = [''started'', ''names'', ''register'', ''register_factory'', ''register_spec'', ''register_resource'',
     ''register_classes'', ''get'', ''require'', ''get_typed'', ''require_typed'', ''start'', ''close'']"

definition validate_registration :: "bool \<Rightarrow> 'v registry \<Rightarrow> string \<Rightarrow> 'e resource_error option" where
  "validate_registration starting r name =
     (if rg_started r \<or> starting then Some LateRegistration
      else if strip name = [] then Some InvalidName
      else if name \<noteq> strip name \<or> starts_with ''_'' name then Some InvalidName
      else if name \<in> set registry_api then Some (ReservedName name)
      else if name \<in> set (keys (rg_entries r)) then Some (DuplicateName name)
      else None)"

definition add_entry :: "bool \<Rightarrow> 'v registry \<Rightarrow> string \<Rightarrow> 'v resource_entry \<Rightarrow> 'e resource_error + 'v registry" where
  "add_entry starting r name entry =
     (case validate_registration starting r name of
        Some e \<Rightarrow> Inl e
      | None \<Rightarrow> Inr (r\<lparr>rg_entries := dict_set (rg_entries r) name entry\<rparr>))"

definition register_value :: "bool \<Rightarrow> 'v registry \<Rightarrow> string \<Rightarrow> 'v \<Rightarrow> 'e resource_error + 'v registry" where
  "register_value starting r name v = add_entry starting r name (Assembled v)"

definition register_factory :: "bool \<Rightarrow> 'v registry \<Rightarrow> string \<Rightarrow> 'e resource_error + 'v registry" where
  "register_factory starting r name = add_entry starting r name (Made factory_init)"

definition register_resource :: "bool \<Rightarrow> 'v registry \<Rightarrow> string \<Rightarrow> 'v \<Rightarrow> 'e resource_error + 'v registry" where
  "register_resource starting r declared v =
     (if strip declared = [] then Inl InvalidName else register_value starting r (strip declared) v)"

definition entry_get :: "'v resource_entry \<Rightarrow> 'v option" where
  "entry_get e = (case e of Assembled v \<Rightarrow> Some v | Made f \<Rightarrow> factory_get f)"

definition registry_get :: "'v registry \<Rightarrow> string \<Rightarrow> 'v option \<Rightarrow> 'v option" where
  "registry_get r name default_value =
     (case map_of (rg_entries r) name of
        None \<Rightarrow> default_value
      | Some e \<Rightarrow> (case entry_get e of None \<Rightarrow> default_value | Some v \<Rightarrow> Some v))"

definition registry_require :: "'v registry \<Rightarrow> string \<Rightarrow> 'e resource_error + 'v" where
  "registry_require r name =
     (case map_of (rg_entries r) name of
        None \<Rightarrow> Inl (NotRegistered name)
      | Some e \<Rightarrow> (case entry_get e of None \<Rightarrow> Inl (NotStarted name) | Some v \<Rightarrow> Inr v))"

definition get_typed :: "('v \<Rightarrow> bool) \<Rightarrow> 'v registry \<Rightarrow> string \<Rightarrow> 'e resource_error + 'v option" where
  "get_typed is_type r name =
     (case registry_get r name None of
        None \<Rightarrow> Inr None
      | Some v \<Rightarrow> if is_type v then Inr (Some v) else Inl (WrongType name))"

definition require_typed :: "('v \<Rightarrow> bool) \<Rightarrow> 'v registry \<Rightarrow> string \<Rightarrow> 'e resource_error + 'v" where
  "require_typed is_type r name =
     (case registry_require r name of
        Inl e \<Rightarrow> Inl e
      | Inr v \<Rightarrow> if is_type v then Inr v else Inl (WrongType name))"

section \<open>Startup and shutdown\<close>

text \<open>A start call with whether it succeeded, and a close call.\<close>

datatype life_event = StartCalled string bool | CloseCalled string

text \<open>
  How the lifecycle calls end: a preassembled entry starts as the first component says, a factory makes what the
  second says, and closing ends as the third says.
\<close>

record ('v, 'e) lifecycle =
  lc_start :: "string \<Rightarrow> ('e, unit) outcome"
  lc_make :: "string \<Rightarrow> ('e, 'v option) outcome"
  lc_close :: "string \<Rightarrow> ('e, unit) outcome"

definition start_entry ::
  "('v, 'e) lifecycle \<Rightarrow> string \<Rightarrow> 'v resource_entry \<Rightarrow> 'v resource_entry \<times> ('e resource_error, unit) outcome" where
  "start_entry lc name entry =
     (case entry of
        Made f \<Rightarrow> (case factory_start (lc_make lc name) f of (f', r) \<Rightarrow> (Made f', r))
      | Assembled v \<Rightarrow>
          (entry, (case lc_start lc name of
                     Done u \<Rightarrow> Done u | Raised e \<Rightarrow> Raised (LifecycleError e) | Cancelled \<Rightarrow> Cancelled)))"

definition close_entry :: "'v resource_entry \<Rightarrow> 'v resource_entry" where
  "close_entry entry = (case entry of Made f \<Rightarrow> Made (fst (factory_close f)) | Assembled v \<Rightarrow> entry)"

text \<open>Every entry is closed, whatever its siblings do; a cancellation among them is raised at the end.\<close>

definition close_entries ::
  "('v, 'e) lifecycle \<Rightarrow> 'v registry \<Rightarrow> string list \<Rightarrow> 'v registry \<times> bool \<times> life_event list" where
  "close_entries lc r names =
     (r\<lparr>rg_entries := map (\<lambda>(n, e). (n, if n \<in> set names then close_entry e else e)) (rg_entries r)\<rparr>,
      list_ex (\<lambda>n. lc_close lc n = Cancelled) names, map CloseCalled (rev names))"

text \<open>The loop of \<open>start\<close>: the entries started so far, and how it ended.\<close>

fun start_loop ::
  "('v, 'e) lifecycle \<Rightarrow> 'v registry \<Rightarrow> string list \<Rightarrow> string list \<Rightarrow>
   'v registry \<times> string list \<times> ('e resource_error, unit) outcome" where
  "start_loop lc r started [] = (r, started, Done ())"
| "start_loop lc r started (name # rest) =
     (case map_of (rg_entries r) name of
        None \<Rightarrow> (r, started, Done ())
      | Some entry \<Rightarrow>
          (case start_entry lc name entry of
             (entry', res) \<Rightarrow>
               let r1 = r\<lparr>rg_entries := dict_set (rg_entries r) name entry'\<rparr>
               in (case res of
                     Done _ \<Rightarrow>
                       start_loop lc (r1\<lparr>rg_active := rg_active r1 @ [name]\<rparr>) (started @ [name]) rest
                   | Raised e \<Rightarrow> (r1, started, Raised e)
                   | Cancelled \<Rightarrow> (r1, started, Cancelled))))"

text \<open>A cancelled close during the rollback is raised before the active names are cleared.\<close>

definition registry_start ::
  "('v, 'e) lifecycle \<Rightarrow> 'v registry \<Rightarrow> 'v registry \<times> ('e resource_error, unit) outcome \<times> life_event list" where
  "registry_start lc r =
     (if rg_started r then (r, Done (), [])
      else
        (case start_loop lc r [] (registry_names r) of
           (r1, started, Done _) \<Rightarrow> (r1\<lparr>rg_started := True\<rparr>, Done (), map (\<lambda>n. StartCalled n True) started)
         | (r1, started, failure) \<Rightarrow>
             (case close_entries lc r1 started of
                (r2, cancelled, closes) \<Rightarrow>
                  let tried = map (\<lambda>n. StartCalled n True) started @
                    map (\<lambda>n. StartCalled n False) (take 1 (drop (length started) (registry_names r)))
                  in if cancelled then (r2, Cancelled, tried @ closes)
                     else (r2\<lparr>rg_active := []\<rparr>, failure, tried @ closes))))"

definition registry_close ::
  "('v, 'e) lifecycle \<Rightarrow> 'v registry \<Rightarrow> 'v registry \<times> ('e resource_error, unit) outcome \<times> life_event list" where
  "registry_close lc r =
     (case close_entries lc (r\<lparr>rg_active := []\<rparr>) (rg_active r) of
        (r1, cancelled, closes) \<Rightarrow> (r1\<lparr>rg_started := False\<rparr>, if cancelled then Cancelled else Done (), closes))"

section \<open>Runs\<close>

datatype ('v, 'e) registry_op =
    OpRegister string "'v resource_entry"
  | OpStart "('v, 'e) lifecycle"
  | OpClose "('v, 'e) lifecycle"

fun registry_step :: "'v registry \<Rightarrow> ('v, 'e) registry_op \<Rightarrow> 'v registry \<times> life_event list" where
  "registry_step r (OpRegister name entry) =
     ((case add_entry False r name entry :: 'e resource_error + 'v registry of Inl e \<Rightarrow> r | Inr r' \<Rightarrow> r'), [])"
| "registry_step r (OpStart lc) = (case registry_start lc r of (r', out, ev) \<Rightarrow> (r', ev))"
| "registry_step r (OpClose lc) = (case registry_close lc r of (r', out, ev) \<Rightarrow> (r', ev))"

fun registry_run :: "'v registry \<Rightarrow> ('v, 'e) registry_op list \<Rightarrow> 'v registry \<times> life_event list" where
  "registry_run r [] = (r, [])"
| "registry_run r (op # ops) =
     (case registry_step r op of (r1, ev1) \<Rightarrow> (case registry_run r1 ops of (r2, ev2) \<Rightarrow> (r2, ev1 @ ev2)))"

text \<open>Closing during a rollback is not cancelled.\<close>

fun quiet_op :: "('v, 'e) registry_op \<Rightarrow> bool" where
  "quiet_op (OpStart lc) = (\<forall>n. lc_close lc n \<noteq> Cancelled)"
| "quiet_op _ = True"

definition registry_inv :: "'v registry \<Rightarrow> bool" where
  "registry_inv r \<longleftrightarrow> dict_wf (rg_entries r) \<and> rg_active r = (if rg_started r then registry_names r else [])"

definition started_count :: "life_event list \<Rightarrow> string \<Rightarrow> nat" where
  "started_count ev n = count_list ev (StartCalled n True)"

definition closed_count :: "life_event list \<Rightarrow> string \<Rightarrow> nat" where
  "closed_count ev n = count_list ev (CloseCalled n)"

section \<open>Lemmas\<close>

lemma dict_set_keys_known: "map_of d k = Some v \<Longrightarrow> keys (dict_set d k w) = keys d"
  by (induction d k w rule: dict_set.induct) (auto split: if_splits)

lemma start_loop_result:
  assumes "start_loop lc r started names = (r', started', res)" and "set names \<subseteq> set (keys (rg_entries r))"
  shows "\<exists>began rest. names = began @ rest \<and> started' = started @ began \<and> rg_active r' = rg_active r @ began \<and>
    keys (rg_entries r') = keys (rg_entries r) \<and> rg_started r' = rg_started r \<and> (res = Done () \<longleftrightarrow> rest = [])"
  using assms
proof (induction lc r started names rule: start_loop.induct)
  case (1 lc r started)
  then show ?case by simp
next
  case (2 lc r started name rest)
  obtain entry where entry: "map_of (rg_entries r) name = Some entry"
    using 2(3) by (metis list.set_intros(1) map_of_eq_None_iff not_None_eq set_map subsetD)
  obtain entry' out where e: "start_entry lc name entry = (entry', out)" by fastforce
  let ?r1 = "r\<lparr>rg_entries := dict_set (rg_entries r) name entry'\<rparr>"
  have keys: "keys (rg_entries ?r1) = keys (rg_entries r)"
    using dict_set_keys_known [OF entry, of entry'] by simp
  show ?case
  proof (cases out)
    case (Done u)
    have "start_loop lc (?r1\<lparr>rg_active := rg_active ?r1 @ [name]\<rparr>) (started @ [name]) rest = (r', started', res)"
      using 2(2) entry e Done by (simp add: Let_def)
    moreover have "set rest \<subseteq> set (keys (rg_entries (?r1\<lparr>rg_active := rg_active ?r1 @ [name]\<rparr>)))"
    proof -
      have "set rest \<subseteq> set (keys (rg_entries r))" using 2(3) by (meson list.set_intros(2) subset_iff)
      then show ?thesis using keys by simp
    qed
    ultimately obtain began' rest' where "rest = began' @ rest'" "started' = (started @ [name]) @ began'"
      "rg_active r' = (rg_active r @ [name]) @ began'" "keys (rg_entries r') = keys (rg_entries r)"
      "rg_started r' = rg_started r" "res = Done () \<longleftrightarrow> rest' = []"
      using 2(1) [OF entry e [symmetric] refl Done] keys by auto
    then show ?thesis by (intro exI [of _ "name # began'"] exI [of _ rest']) simp
  next
    case (Raised e')
    then show ?thesis using 2(2) entry e keys by (intro exI [of _ "[]"] exI [of _ "name # rest"]) (auto simp: Let_def)
  next
    case Cancelled
    then show ?thesis using 2(2) entry e keys by (intro exI [of _ "[]"] exI [of _ "name # rest"]) (auto simp: Let_def)
  qed
qed

lemma close_entries_result:
  assumes "close_entries lc r names = (r', cancelled, ev)"
  shows "keys (rg_entries r') = keys (rg_entries r)" "rg_active r' = rg_active r" "rg_started r' = rg_started r"
    "cancelled \<longleftrightarrow> (\<exists>n \<in> set names. lc_close lc n = Cancelled)" "ev = map CloseCalled (rev names)"
  using assms by (auto simp: close_entries_def list_ex_iff comp_def case_prod_beta)

lemma registry_start_result:
  assumes "registry_start lc r = (r', out, ev)" and "\<not> rg_started r"
  shows "\<exists>began rest. registry_names r = began @ rest \<and> registry_names r' = registry_names r \<and>
    (if rest = [] then out = Done () \<and> rg_started r' \<and> rg_active r' = rg_active r @ began \<and> ev = map (\<lambda>n. StartCalled n True) began
     else out \<noteq> Done () \<and> \<not> rg_started r' \<and>
       rg_active r' = (if \<exists>n \<in> set began. lc_close lc n = Cancelled then rg_active r @ began else []) \<and>
       ev = map (\<lambda>n. StartCalled n True) began @ [StartCalled (hd rest) False] @ map CloseCalled (rev began))"
proof -
  obtain r1 started res where loop: "start_loop lc r [] (registry_names r) = (r1, started, res)" by (metis prod_cases3)
  obtain rest where rest: "registry_names r = started @ rest" "rg_active r1 = rg_active r @ started"
    "keys (rg_entries r1) = keys (rg_entries r)" "rg_started r1 = rg_started r" "res = Done () \<longleftrightarrow> rest = []"
    using start_loop_result [OF loop] by (auto simp: registry_names_def)
  obtain r2 c closes where cl: "close_entries lc r1 started = (r2, c, closes)" by (metis prod_cases3)
  note cr = close_entries_result [OF cl]
  show ?thesis
  proof (cases "rest = []")
    case True
    then have "r' = r1\<lparr>rg_started := True\<rparr>" "out = Done ()" "ev = map (\<lambda>n. StartCalled n True) started"
      using assms loop rest(5) by (auto simp: registry_start_def)
    then show ?thesis using True rest by (intro exI [of _ started] exI [of _ "[]"]) (simp add: registry_names_def)
  next
    case False
    have take: "take 1 (drop (length started) (registry_names r)) = [hd rest]"
      using False rest(1) by (cases rest) simp_all
    have res: "(r', out, ev) = (let tried = map (\<lambda>n. StartCalled n True) started @ [StartCalled (hd rest) False]
        in if c then (r2, Cancelled, tried @ closes) else (r2\<lparr>rg_active := []\<rparr>, res, tried @ closes))"
      using assms loop rest(5) False cl take by (cases res; cases c) (auto simp: registry_start_def Let_def)
    show ?thesis
      using res rest cr False assms(2)
      by (intro exI [of _ started] exI [of _ rest]) (cases c; simp add: registry_names_def Let_def)
  qed
qed

lemma count_started_map [simp]:
  "started_count (map (\<lambda>n. StartCalled n True) ns) n = count_list ns n" "closed_count (map (\<lambda>n. StartCalled n b) ns) n = 0"
  "started_count (map CloseCalled ns) n = 0" "closed_count (map CloseCalled ns) n = count_list ns n"
  by (induction ns) (simp_all add: started_count_def closed_count_def)

lemma count_events_append [simp]:
  "started_count (a @ b) n = started_count a n + started_count b n" "closed_count (a @ b) n = closed_count a n + closed_count b n"
  by (simp_all add: started_count_def closed_count_def)

lemma count_failed [simp]: "started_count (StartCalled x False # ev) n = started_count ev n" "closed_count (StartCalled x False # ev) n = closed_count ev n"
  by (simp_all add: started_count_def closed_count_def)

lemma count_list_rev [simp]: "count_list (rev xs) x = count_list xs x"
  by (induction xs) simp_all

lemma count_distinct: "distinct xs \<Longrightarrow> count_list xs x = (if x \<in> set xs then 1 else 0)"
  by (induction xs) auto

lemma registry_inv_add: "registry_inv r \<Longrightarrow> add_entry starting r name entry = Inr r' \<Longrightarrow> registry_inv r' \<and> rg_active r' = rg_active r"
  by (auto simp: registry_inv_def add_entry_def validate_registration_def registry_names_def split: option.splits if_splits)

lemma registry_step_balanced:
  assumes "registry_step r op = (r', ev)" and "registry_inv r" and "quiet_op op"
  shows "registry_inv r' \<and> started_count ev n + count_list (rg_active r) n = closed_count ev n + count_list (rg_active r') n"
proof (cases op)
  case (OpRegister name entry)
  then show ?thesis using assms registry_inv_add [OF assms(2)]
    by (auto simp: started_count_def closed_count_def split: sum.splits)
next
  case (OpStart lc)
  obtain out where run: "registry_start lc r = (r', out, ev)" using assms(1) OpStart by (auto split: prod.splits)
  show ?thesis
  proof (cases "rg_started r")
    case True
    then show ?thesis using run assms(2) by (auto simp: registry_start_def started_count_def closed_count_def)
  next
    case False
    have empty: "rg_active r = []" using assms(2) False by (simp add: registry_inv_def)
    obtain began rest where d: "registry_names r = began @ rest" "registry_names r' = registry_names r"
      "if rest = [] then out = Done () \<and> rg_started r' \<and> rg_active r' = rg_active r @ began \<and> ev = map (\<lambda>n. StartCalled n True) began
       else out \<noteq> Done () \<and> \<not> rg_started r' \<and>
         rg_active r' = (if \<exists>n \<in> set began. lc_close lc n = Cancelled then rg_active r @ began else []) \<and>
         ev = map (\<lambda>n. StartCalled n True) began @ [StartCalled (hd rest) False] @ map CloseCalled (rev began)"
      using registry_start_result [OF run False] by blast
    have wf: "dict_wf (rg_entries r')" using d(2) assms(2) by (simp add: registry_inv_def registry_names_def)
    have quiet: "\<not> (\<exists>n \<in> set began. lc_close lc n = Cancelled)" using assms(3) OpStart by simp
    show ?thesis
    proof (cases "rest = []")
      case True
      then show ?thesis using d wf empty by (simp add: registry_inv_def)
    next
      case F: False
      then have "rg_active r' = []" "\<not> rg_started r'"
        "ev = map (\<lambda>n. StartCalled n True) began @ [StartCalled (hd rest) False] @ map CloseCalled (rev began)"
        using d(3) quiet by auto
      then show ?thesis using wf empty by (simp add: registry_inv_def)
    qed
  qed
next
  case (OpClose lc)
  obtain r1 c closes where cl: "close_entries lc (r\<lparr>rg_active := []\<rparr>) (rg_active r) = (r1, c, closes)" by (metis prod_cases3)
  note cr = close_entries_result [OF cl]
  have "r' = r1\<lparr>rg_started := False\<rparr>" "ev = closes" using assms(1) OpClose cl by (auto simp: registry_close_def)
  then show ?thesis using cr assms(2) by (simp add: registry_inv_def started_count_def closed_count_def count_list_rev
      flip: closed_count_def started_count_def)
qed

lemma registry_run_balanced:
  "registry_run r ops = (r', ev) \<Longrightarrow> registry_inv r \<Longrightarrow> list_all quiet_op ops \<Longrightarrow>
   registry_inv r' \<and> started_count ev n + count_list (rg_active r) n = closed_count ev n + count_list (rg_active r') n"
proof (induction ops arbitrary: r r' ev)
  case (Cons op ops)
  obtain r1 ev1 where s: "registry_step r op = (r1, ev1)" by fastforce
  obtain r2 ev2 where t: "registry_run r1 ops = (r2, ev2)" by fastforce
  have "r' = r2" "ev = ev1 @ ev2" using Cons.prems(1) s t by simp_all
  then show ?case
    using registry_step_balanced [OF s Cons.prems(2), of n] Cons.IH [OF t] Cons.prems(3) by simp
qed (simp add: started_count_def closed_count_def)

section \<open>Properties\<close>

text \<open>C29.  Startup is all or nothing, in registration order: either every entry started and the registry is started,
  or the first entry that fails ends it, the entries started before it are closed in reverse order, the
  failing one is not, and nothing is active unless one of those closes was cancelled.\<close>

theorem startup_all_or_nothing:
  assumes "registry_start lc r = (r', out, ev)" and "\<not> rg_started r" and "rg_active r = []"
  shows "\<exists>began rest. registry_names r = began @ rest \<and>
    (if rest = [] then out = Done () \<and> rg_started r' \<and> rg_active r' = registry_names r \<and> ev = map (\<lambda>n. StartCalled n True) began
     else out \<noteq> Done () \<and> \<not> rg_started r' \<and>
       rg_active r' = (if \<exists>n \<in> set began. lc_close lc n = Cancelled then began else []) \<and>
       ev = map (\<lambda>n. StartCalled n True) began @ [StartCalled (hd rest) False] @ map CloseCalled (rev began))"
proof -
  obtain began rest where "registry_names r = began @ rest"
    "if rest = [] then out = Done () \<and> rg_started r' \<and> rg_active r' = rg_active r @ began \<and> ev = map (\<lambda>n. StartCalled n True) began
     else out \<noteq> Done () \<and> \<not> rg_started r' \<and>
       rg_active r' = (if \<exists>n \<in> set began. lc_close lc n = Cancelled then rg_active r @ began else []) \<and>
       ev = map (\<lambda>n. StartCalled n True) began @ [StartCalled (hd rest) False] @ map CloseCalled (rev began)"
    using registry_start_result [OF assms(1,2)] by blast
  then show ?thesis using assms(3) by (intro exI [of _ began] exI [of _ rest]) (simp split: if_splits)
qed

theorem startup_all_or_nothing_witness:
  "\<exists>out r' (began :: string list) rest. registry_start
      \<lparr>lc_start = (\<lambda>n. if n = ''b'' then Raised (7 :: nat) else Done ()), lc_make = (\<lambda>n. Cancelled), lc_close = (\<lambda>n. Done ())\<rparr>
      ((registry_init :: nat registry)\<lparr>rg_entries := [(''a'', Assembled 1), (''b'', Assembled 2)]\<rparr>) =
      (r', out, [StartCalled ''a'' True, StartCalled ''b'' False, CloseCalled ''a'']) \<and> [''a'', ''b''] = began @ rest"
  (is "\<exists>out r' began rest. registry_start ?lc ?r = _ \<and> _")
proof -
  have run: "registry_start ?lc ?r = (?r, Raised (LifecycleError 7), [StartCalled ''a'' True, StartCalled ''b'' False, CloseCalled ''a''])"
    by (simp add: registry_start_def registry_names_def registry_init_def start_entry_def close_entries_def close_entry_def Let_def)
  have r: "\<not> rg_started ?r" "rg_active ?r = []" "registry_names ?r = [''a'', ''b'']"
    by (simp_all add: registry_init_def registry_names_def)
  show ?thesis using startup_all_or_nothing [OF run r(1,2)] run r(3) by metis
qed

text \<open>C30.  Over any sequence of registrations, startups and shutdowns in which no rollback is cancelled, every
  resource has been started successfully as often as it has been closed, and once more exactly when it is active.\<close>

theorem lifecycle_balanced:
  assumes "registry_run registry_init ops = (r, ev)" and "list_all quiet_op ops"
  shows "started_count ev n = closed_count ev n + (if n \<in> set (rg_active r) then 1 else 0)"
proof -
  have init: "registry_inv registry_init" by (simp add: registry_inv_def registry_init_def registry_names_def)
  have run: "registry_inv r \<and> started_count ev n = closed_count ev n + count_list (rg_active r) n"
    using registry_run_balanced [OF assms(1) init assms(2), of n] by (simp add: registry_init_def)
  then have "distinct (rg_active r)" by (simp add: registry_inv_def registry_names_def)
  then have "count_list (rg_active r) n = (if n \<in> set (rg_active r) then 1 else 0)"
    by (rule count_distinct)
  then show ?thesis using run by simp
qed

theorem lifecycle_balanced_witness:
  "\<exists>r ev. registry_run (registry_init :: nat registry)
      [OpRegister ''a'' (Assembled 1), OpStart \<lparr>lc_start = (\<lambda>n. Done ()), lc_make = (\<lambda>n. Cancelled), lc_close = (\<lambda>n. Raised (7 :: nat))\<rparr>] =
      (r, ev) \<and> started_count ev ''a'' = closed_count ev ''a'' + (if ''a'' \<in> set (rg_active r) then 1 else 0)"
proof -
  obtain r ev where run: "registry_run (registry_init :: nat registry)
      [OpRegister ''a'' (Assembled 1), OpStart \<lparr>lc_start = (\<lambda>n. Done ()), lc_make = (\<lambda>n. Cancelled), lc_close = (\<lambda>n. Raised (7 :: nat))\<rparr>] = (r, ev)"
    by fastforce
  from lifecycle_balanced [OF run, of "''a''"] run show ?thesis by (intro exI conjI) simp_all
qed

text \<open>A rollback whose close is cancelled leaves the names active: a later shutdown closes those entries a second
  time.\<close>

theorem cancelled_rollback_closes_twice:
  fixes lc :: "('v, 'e) lifecycle"
  assumes "registry_start lc r = (r', out, ev)" and "\<not> rg_started r" and "rg_active r = []" and "n \<in> set (registry_names r)"
    and "out \<noteq> Done ()" and "closed_count ev n = 1" and "lc_close lc n = Cancelled"
  shows "closed_count (snd (snd (registry_close lc r'))) n = 1"
proof -
  obtain began rest where b: "registry_names r = began @ rest"
    "if rest = [] then out = Done () \<and> rg_started r' \<and> rg_active r' = rg_active r @ began \<and> ev = map (\<lambda>n. StartCalled n True) began
     else out \<noteq> Done () \<and> \<not> rg_started r' \<and>
       rg_active r' = (if \<exists>n \<in> set began. lc_close lc n = Cancelled then rg_active r @ began else []) \<and>
       ev = map (\<lambda>n. StartCalled n True) began @ [StartCalled (hd rest) False] @ map CloseCalled (rev began)"
    using registry_start_result [OF assms(1,2)] by blast
  have rest: "rest \<noteq> []" using b(2) assms(5) by auto
  then have count: "count_list began n = 1" using b(2) assms(6) by simp
  then have "n \<in> set began" by (metis count_list_0_iff zero_neq_one)
  then have active: "rg_active r' = began" using b(2) rest assms(3,7) by auto
  obtain r1 c closes where cl: "close_entries lc (r'\<lparr>rg_active := []\<rparr>) (rg_active r') = (r1, c, closes)" by (metis prod_cases3)
  show ?thesis
    using close_entries_result(5) [OF cl] cl count active by (simp add: registry_close_def)
qed

end
