(* ===== verification/ProtoWire.thy ===== *)
theory ProtoWire
  imports PyStrings
begin

text \<open>
  The wire format of the bundled protobuf codec (\<open>utils/blackboxprotobuf/utils/wire.py\<close>, \<open>fixed.py\<close>, the packed
  types of \<open>schema/type_maps.py\<close>, and \<open>_group_by_number\<close> of \<open>length_delim.py\<close>).  Positions are integers and index
  a buffer as in Python, from the end when negative.
\<close>

section \<open>Varints\<close>

datatype wire_error =
    OutOfRange
  | ReadPastEnd
  | NotStandard
  | StructError
  | PackedOverrun
  | TextError
  | MismatchedTypes
  | GroupsUnsupported
  | UnknownWireType
  | FieldOverrun

definition py_index :: "bytes \<Rightarrow> int \<Rightarrow> nat option" where
  "py_index buf pos =
     (if 0 \<le> pos \<and> pos < int (length buf) then Some (buf ! nat pos)
      else if - int (length buf) \<le> pos \<and> pos < 0 then Some (buf ! nat (int (length buf) + pos))
      else None)"

text \<open>Seven bits to a byte, the lowest first; all but the last byte have the high bit.\<close>

fun uvarint_bytes :: "nat \<Rightarrow> bytes" where
  "uvarint_bytes n = (if n < 128 then [n] else (128 + n mod 128) # uvarint_bytes (n div 128))"

declare uvarint_bytes.simps [simp del]

definition encode_uvarint :: "int \<Rightarrow> wire_error + bytes" where
  "encode_uvarint v = (if v < 0 \<or> 2 ^ 64 - 1 < v then Inl OutOfRange else Inr (uvarint_bytes (nat v)))"

function uvarint_loop :: "bytes \<Rightarrow> int \<Rightarrow> nat \<Rightarrow> nat \<Rightarrow> (nat \<times> int) option" where
  "uvarint_loop buf pos shift acc =
     (case py_index buf pos of
        None \<Rightarrow> None
      | Some b \<Rightarrow>
          let acc' = acc + (b mod 128) * 2 ^ (7 * shift)
          in if 128 \<le> b then uvarint_loop buf (pos + 1) (shift + 1) acc' else Some (acc', pos + 1))"
  by pat_completeness auto

termination uvarint_loop
  by (relation "measure (\<lambda>(buf, pos, shift, acc). nat (int (length buf) - pos))")
     (auto simp: py_index_def split: if_splits)

declare uvarint_loop.simps [simp del]

text \<open>A decoded value must encode to the very bytes it was read from.\<close>

definition decode_uvarint :: "bytes \<Rightarrow> int \<Rightarrow> wire_error + int \<times> int" where
  "decode_uvarint buf pos =
     (case uvarint_loop buf pos 0 0 of
        None \<Rightarrow> Inl ReadPastEnd
      | Some (n, p) \<Rightarrow>
          (case encode_uvarint (int n) of
             Inl e \<Rightarrow> Inl e
           | Inr test \<Rightarrow> if py_slice buf pos p \<noteq> test then Inl NotStandard else Inr (int n, p)))"

definition encode_varint :: "int \<Rightarrow> wire_error + bytes" where
  "encode_varint v =
     (if 2 ^ 63 - 1 < v \<or> v < - (2 ^ 63) then Inl OutOfRange
      else encode_uvarint (if v < 0 then v + 2 ^ 64 else v))"

definition decode_varint :: "bytes \<Rightarrow> int \<Rightarrow> wire_error + int \<times> int" where
  "decode_varint buf pos =
     (case decode_uvarint buf pos of
        Inl e \<Rightarrow> Inl e
      | Inr (u, p) \<Rightarrow>
          let v = (if 2 ^ 63 \<le> u then u - 2 ^ 64 else u)
          in case encode_varint v of
               Inl e \<Rightarrow> Inl e
             | Inr test \<Rightarrow> if py_slice buf pos p \<noteq> test then Inl NotStandard else Inr (v, p))"

definition encode_zig_zag :: "int \<Rightarrow> int" where
  "encode_zig_zag v = (if v < 0 then \<bar>v\<bar> * 2 - 1 else v * 2)"

definition decode_zig_zag :: "int \<Rightarrow> int" where
  "decode_zig_zag u = (if u mod 2 = 1 then - ((u + 1) div 2) else u div 2)"

definition encode_svarint :: "int \<Rightarrow> wire_error + bytes" where
  "encode_svarint v = (if 2 ^ 63 - 1 < v \<or> v < - (2 ^ 63) then Inl OutOfRange else encode_uvarint (encode_zig_zag v))"

definition decode_svarint :: "bytes \<Rightarrow> int \<Rightarrow> wire_error + int \<times> int" where
  "decode_svarint buf pos =
     (case decode_uvarint buf pos of
        Inl e \<Rightarrow> Inl e
      | Inr (u, p) \<Rightarrow>
          let v = decode_zig_zag u
          in case encode_svarint v of
               Inl e \<Rightarrow> Inl e
             | Inr test \<Rightarrow> if py_slice buf pos p \<noteq> test then Inl NotStandard else Inr (v, p))"

section \<open>Fixed-width integers\<close>

fun le_bytes :: "nat \<Rightarrow> nat \<Rightarrow> bytes" where
  "le_bytes 0 n = []"
| "le_bytes (Suc k) n = (n mod 256) # le_bytes k (n div 256)"

fun le_value :: "bytes \<Rightarrow> nat" where
  "le_value [] = 0"
| "le_value (b # bs) = b + 256 * le_value bs"

text \<open>The \<open>struct\<close> formats I and Q of \<open>width\<close> bytes, and their signed forms i and q.\<close>

definition encode_fixed :: "nat \<Rightarrow> int \<Rightarrow> wire_error + bytes" where
  "encode_fixed width v =
     (if 0 \<le> v \<and> v < 256 ^ width then Inr (le_bytes width (nat v)) else Inl StructError)"

definition decode_fixed :: "nat \<Rightarrow> bytes \<Rightarrow> int \<Rightarrow> wire_error + int \<times> int" where
  "decode_fixed width buf pos =
     (let new_pos = pos + int width; chunk = py_slice buf pos new_pos
      in if length chunk = width then Inr (int (le_value chunk), new_pos) else Inl StructError)"

definition encode_sfixed :: "nat \<Rightarrow> int \<Rightarrow> wire_error + bytes" where
  "encode_sfixed width v =
     (if - (256 ^ width) \<le> 2 * v \<and> 2 * v < 256 ^ width
      then Inr (le_bytes width (nat (v mod 256 ^ width))) else Inl StructError)"

definition decode_sfixed :: "nat \<Rightarrow> bytes \<Rightarrow> int \<Rightarrow> wire_error + int \<times> int" where
  "decode_sfixed width buf pos =
     (let new_pos = pos + int width; chunk = py_slice buf pos new_pos; u = int (le_value chunk)
      in if length chunk = width then Inr (if 256 ^ width \<le> 2 * u then u - 256 ^ width else u, new_pos)
         else Inl StructError)"

section \<open>Length-delimited values\<close>

definition encode_bytes :: "bytes \<Rightarrow> wire_error + bytes" where
  "encode_bytes b = (case encode_varint (int (length b)) of Inl e \<Rightarrow> Inl e | Inr len \<Rightarrow> Inr (len @ b))"

text \<open>A slice past the end is cut short, not an error.\<close>

definition decode_bytes :: "bytes \<Rightarrow> int \<Rightarrow> wire_error + bytes \<times> int" where
  "decode_bytes buf pos =
     (case decode_varint buf pos of
        Inl e \<Rightarrow> Inl e | Inr (len, p) \<Rightarrow> Inr (py_slice buf p (p + len), p + len))"

definition encode_string :: "('t \<Rightarrow> bytes) \<Rightarrow> 't \<Rightarrow> wire_error + bytes" where
  "encode_string utf8 s = encode_bytes (utf8 s)"

definition decode_string :: "(bytes \<Rightarrow> 't option) \<Rightarrow> bytes \<Rightarrow> int \<Rightarrow> wire_error + 't \<times> int" where
  "decode_string from_utf8 buf pos =
     (case decode_varint buf pos of
        Inl e \<Rightarrow> Inl e
      | Inr (len, p) \<Rightarrow>
          (case from_utf8 (py_slice buf p (p + len)) of None \<Rightarrow> Inl TextError | Some s \<Rightarrow> Inr (s, p + len)))"

definition encode_tag :: "nat \<Rightarrow> nat \<Rightarrow> wire_error + bytes" where
  "encode_tag field_number wire_type = encode_uvarint (int (field_number * 8 + wire_type))"

definition decode_tag :: "bytes \<Rightarrow> int \<Rightarrow> wire_error + nat \<times> nat \<times> int" where
  "decode_tag buf pos =
     (case decode_uvarint buf pos of Inl e \<Rightarrow> Inl e | Inr (t, p) \<Rightarrow> Inr (nat t div 8, nat t mod 8, p))"

section \<open>Packed values\<close>

fun encode_all :: "('v \<Rightarrow> wire_error + bytes) \<Rightarrow> 'v list \<Rightarrow> wire_error + bytes" where
  "encode_all enc [] = Inr []"
| "encode_all enc (v # vs) =
     (case enc v of
        Inl e \<Rightarrow> Inl e
      | Inr b \<Rightarrow> (case encode_all enc vs of Inl e \<Rightarrow> Inl e | Inr bs \<Rightarrow> Inr (b @ bs)))"

definition encode_packed :: "('v \<Rightarrow> wire_error + bytes) \<Rightarrow> 'v list \<Rightarrow> wire_error + bytes" where
  "encode_packed enc vs = (case encode_all enc vs of Inl e \<Rightarrow> Inl e | Inr out \<Rightarrow> encode_bytes out)"

text \<open>Every value takes at least one byte, so one turn more than the buffer has bytes is enough.\<close>

fun packed_loop ::
  "(bytes \<Rightarrow> int \<Rightarrow> wire_error + 'v \<times> int) \<Rightarrow> nat \<Rightarrow> bytes \<Rightarrow> int \<Rightarrow> int \<Rightarrow> 'v list \<Rightarrow> (wire_error + 'v list \<times> int) option" where
  "packed_loop dec fuel buf end_pos pos out =
     (if \<not> pos < end_pos then Some (if end_pos < pos then Inl PackedOverrun else Inr (out, pos))
      else (case fuel of
              0 \<Rightarrow> None
            | Suc n \<Rightarrow>
                (case dec buf pos of
                   Inl e \<Rightarrow> Some (Inl e)
                 | Inr (v, p) \<Rightarrow> packed_loop dec n buf end_pos p (out @ [v]))))"

declare packed_loop.simps [simp del]

definition decode_packed ::
  "(bytes \<Rightarrow> int \<Rightarrow> wire_error + 'v \<times> int) \<Rightarrow> bytes \<Rightarrow> int \<Rightarrow> (wire_error + 'v list \<times> int) option" where
  "decode_packed dec buf pos =
     (case decode_varint buf pos of
        Inl e \<Rightarrow> Some (Inl e) | Inr (len, p) \<Rightarrow> packed_loop dec (Suc (length buf)) buf (p + len) p [])"

section \<open>Fields\<close>

text \<open>The bytes a field's value takes, from its wire type.\<close>

definition field_length :: "bytes \<Rightarrow> int \<Rightarrow> nat \<Rightarrow> wire_error + int" where
  "field_length buf pos wire_type =
     (if wire_type = 0 then (case decode_uvarint buf pos of Inl e \<Rightarrow> Inl e | Inr (_, p) \<Rightarrow> Inr (p - pos))
      else if wire_type = 5 then Inr 4
      else if wire_type = 1 then Inr 8
      else if wire_type = 2 then
        (case decode_varint buf pos of Inl e \<Rightarrow> Inl e | Inr (len, p) \<Rightarrow> Inr (len + (p - pos)))
      else if wire_type = 3 \<or> wire_type = 4 then Inl GroupsUnsupported
      else Inl UnknownWireType)"

type_synonym field_groups = "(nat, nat \<times> bytes list) pydict"

text \<open>The loop may not end: \<open>None\<close> is a run that has not ended after \<open>fuel\<close> fields.\<close>

fun group_by_number ::
  "nat \<Rightarrow> bytes \<Rightarrow> int \<Rightarrow> int \<Rightarrow> field_groups \<Rightarrow> nat list \<Rightarrow> (wire_error + field_groups \<times> nat list \<times> int) option" where
  "group_by_number fuel buf pos end_pos groups order =
     (if \<not> pos < end_pos then Some (Inr (groups, order, pos))
      else (case fuel of
              0 \<Rightarrow> None
            | Suc n \<Rightarrow>
                (case decode_tag buf pos of
                   Inl e \<Rightarrow> Some (Inl e)
                 | Inr (field, wire_type, p) \<Rightarrow>
                     if (case map_of groups field of None \<Rightarrow> False | Some (wt, _) \<Rightarrow> wt \<noteq> wire_type)
                     then Some (Inl MismatchedTypes)
                     else
                       (case field_length buf p wire_type of
                          Inl e \<Rightarrow> Some (Inl e)
                        | Inr len \<Rightarrow>
                            if end_pos < p + len then Some (Inl FieldOverrun)
                            else
                              let chunk = py_slice buf p (p + len);
                                  bufs = (case map_of groups field of None \<Rightarrow> [] | Some (_, bs) \<Rightarrow> bs)
                              in group_by_number n buf (p + len) end_pos
                                   (dict_set groups field (wire_type, bufs @ [chunk])) (order @ [field])))))"

declare group_by_number.simps [simp del]

section \<open>Lemmas\<close>

lemma py_slice_mid [simp]:
  "py_slice (pre @ mid @ post) (int (length pre)) (int (length pre) + int (length mid)) = mid"
proof -
  have "int (length pre) + int (length mid) = int (length pre + length mid)" by simp
  then show ?thesis by (simp only: py_slice_nat) simp
qed

lemma uvarint_bytes_nonempty [simp]: "uvarint_bytes n \<noteq> []"
  by (subst uvarint_bytes.simps) simp

lemma uvarint_loop_bytes:
  "uvarint_loop (pre @ uvarint_bytes n @ post) (int (length pre)) shift acc =
     Some (acc + n * 2 ^ (7 * shift), int (length pre) + int (length (uvarint_bytes n)))"
proof (induction n arbitrary: pre shift acc rule: uvarint_bytes.induct)
  case (1 n)
  show ?case
  proof (cases "n < 128")
    case True
    then have n: "uvarint_bytes n = [n]" by (subst uvarint_bytes.simps) simp
    show ?thesis using True by (subst uvarint_loop.simps) (simp add: n py_index_def nth_append)
  next
    case False
    then have n: "uvarint_bytes n = (128 + n mod 128) # uvarint_bytes (n div 128)" by (subst uvarint_bytes.simps) simp
    let ?b = "128 + n mod 128"
    have idx: "py_index (pre @ uvarint_bytes n @ post) (int (length pre)) = Some ?b"
      by (simp add: n py_index_def nth_append)
    have "uvarint_loop (pre @ uvarint_bytes n @ post) (int (length pre)) shift acc =
        uvarint_loop ((pre @ [?b]) @ uvarint_bytes (n div 128) @ post) (int (length (pre @ [?b]))) (shift + 1)
          (acc + (n mod 128) * 2 ^ (7 * shift))"
      by (subst uvarint_loop.simps) (simp add: idx, simp add: n add.commute)
    also have "\<dots> = Some (acc + (n mod 128) * 2 ^ (7 * shift) + (n div 128) * 2 ^ (7 * (shift + 1)),
        int (length (pre @ [?b])) + int (length (uvarint_bytes (n div 128))))"
      by (rule 1 [OF False])
    also have "acc + (n mod 128) * 2 ^ (7 * shift) + (n div 128) * 2 ^ (7 * (shift + 1)) = acc + n * 2 ^ (7 * shift)"
    proof -
      have "n * 2 ^ (7 * shift) = (n mod 128 + 128 * (n div 128)) * 2 ^ (7 * shift)" by simp
      also have "\<dots> = (n mod 128) * 2 ^ (7 * shift) + (n div 128) * 2 ^ (7 * (shift + 1))"
        by (simp only: distrib_right) (simp add: power_add)
      finally show ?thesis by simp
    qed
    finally show ?thesis by (simp add: n)
  qed
qed

text \<open>
  What the packed types and the fields rely on: a value that encodes is read back from its bytes wherever they stand.
\<close>

locale wire_codec =
  fixes enc :: "'v \<Rightarrow> wire_error + bytes"
    and dec :: "bytes \<Rightarrow> int \<Rightarrow> wire_error + 'v \<times> int"
  assumes roundtrip: "enc v = Inr b \<Longrightarrow>
      dec (pre @ b @ post) (int (length pre)) = Inr (v, int (length pre) + int (length b))"
    and nonempty: "enc v = Inr b \<Longrightarrow> b \<noteq> []"
begin

lemma encode_injective: "enc v = Inr b \<Longrightarrow> enc v' = Inr b \<Longrightarrow> v = v'"
  using roundtrip [of v b "[]" "[]"] roundtrip [of v' b "[]" "[]"] by simp

lemma encode_all_length: "encode_all enc vs = Inr out \<Longrightarrow> length vs \<le> length out"
proof (induction vs arbitrary: out)
  case (Cons v vs)
  then obtain b bs where b: "enc v = Inr b" "encode_all enc vs = Inr bs" "out = b @ bs"
    by (auto split: sum.splits)
  then show ?case using Cons.IH [OF b(2)] nonempty [OF b(1)] by (cases b) simp_all
qed simp

lemma packed_loop_values:
  "encode_all enc vs = Inr out \<Longrightarrow> length vs \<le> fuel \<Longrightarrow>
   packed_loop dec fuel (pre @ out @ post) (int (length pre) + int (length out)) (int (length pre)) out0 =
     Some (Inr (out0 @ vs, int (length pre) + int (length out)))"
proof (induction vs arbitrary: out fuel pre "out0")
  case Nil
  then show ?case by (subst packed_loop.simps) simp
next
  case (Cons v vs)
  then obtain b bs where b: "enc v = Inr b" "encode_all enc vs = Inr bs" "out = b @ bs"
    by (auto split: sum.splits)
  obtain n where n: "fuel = Suc n" "length vs \<le> n" using Cons.prems(2) by (cases fuel) simp_all
  have d: "dec (pre @ b @ (bs @ post)) (int (length pre)) = Inr (v, int (length pre) + int (length b))"
    by (rule roundtrip [OF b(1)])
  obtain x xs where "b = x # xs" using nonempty [OF b(1)] by (cases b) simp_all
  then have lt: "int (length pre) < int (length pre) + int (length out)" by (simp add: b(3))
  have "packed_loop dec fuel (pre @ out @ post) (int (length pre) + int (length out)) (int (length pre)) out0 =
      packed_loop dec n ((pre @ b) @ bs @ post) (int (length (pre @ b)) + int (length bs)) (int (length (pre @ b))) (out0 @ [v])"
    using d lt by (subst packed_loop.simps) (simp add: n(1), simp add: b(3) add.assoc)
  also have "\<dots> = Some (Inr ((out0 @ [v]) @ vs, int (length (pre @ b)) + int (length bs)))"
    by (rule Cons.IH [OF b(2) n(2)])
  finally show ?case by (simp add: b(3) add.assoc)
qed

end

lemma encode_uvarint_Inr: "encode_uvarint v = Inr b \<longleftrightarrow> 0 \<le> v \<and> v < 2 ^ 64 \<and> b = uvarint_bytes (nat v)"
  by (auto simp: encode_uvarint_def)

lemma decode_uvarint_bytes:
  assumes "encode_uvarint v = Inr b"
  shows "decode_uvarint (pre @ b @ post) (int (length pre)) = Inr (v, int (length pre) + int (length b))"
proof -
  have v: "0 \<le> v" "b = uvarint_bytes (nat v)" using assms by (auto simp: encode_uvarint_Inr)
  have "uvarint_loop (pre @ b @ post) (int (length pre)) 0 0 = Some (nat v, int (length pre) + int (length b))"
    using uvarint_loop_bytes [of pre "nat v" post 0 0] v(2) by simp
  then show ?thesis using assms v(1) by (simp add: decode_uvarint_def)
qed

interpretation uvarint: wire_codec encode_uvarint decode_uvarint
proof
  show "decode_uvarint (pre @ b @ post) (int (length pre)) = Inr (v, int (length pre) + int (length b))"
    if "encode_uvarint v = Inr b" for v b pre post by (rule decode_uvarint_bytes [OF that])
  show "b \<noteq> []" if "encode_uvarint v = Inr b" for v b using that by (simp add: encode_uvarint_Inr)
qed

lemma encode_varint_Inr:
  "encode_varint v = Inr b \<longleftrightarrow> - (2 ^ 63) \<le> v \<and> v < 2 ^ 63 \<and> encode_uvarint (if v < 0 then v + 2 ^ 64 else v) = Inr b"
  by (auto simp: encode_varint_def)

lemma decode_varint_bytes:
  assumes "encode_varint v = Inr b"
  shows "decode_varint (pre @ b @ post) (int (length pre)) = Inr (v, int (length pre) + int (length b))"
proof -
  let ?u = "if v < 0 then v + 2 ^ 64 else v"
  have v: "- (2 ^ 63) \<le> v" "v < 2 ^ 63" and u: "encode_uvarint ?u = Inr b" using assms by (auto simp: encode_varint_Inr)
  have restored: "(if 2 ^ 63 \<le> ?u then ?u - 2 ^ 64 else ?u) = v" using v by auto
  show ?thesis
    unfolding decode_varint_def decode_uvarint_bytes [OF u] sum.case prod.case Let_def restored
    by (simp add: assms)
qed

interpretation varint: wire_codec encode_varint decode_varint
proof
  show "decode_varint (pre @ b @ post) (int (length pre)) = Inr (v, int (length pre) + int (length b))"
    if "encode_varint v = Inr b" for v b pre post by (rule decode_varint_bytes [OF that])
  show "b \<noteq> []" if "encode_varint v = Inr b" for v b using that by (auto simp: encode_varint_Inr encode_uvarint_Inr)
qed

lemma zig_zag: "decode_zig_zag (encode_zig_zag v) = v"
  unfolding decode_zig_zag_def encode_zig_zag_def by (cases "v < 0") (simp_all, presburger+)

lemma encode_svarint_Inr:
  "encode_svarint v = Inr b \<longleftrightarrow> - (2 ^ 63) \<le> v \<and> v < 2 ^ 63 \<and> encode_uvarint (encode_zig_zag v) = Inr b"
  by (auto simp: encode_svarint_def)

lemma decode_svarint_bytes:
  assumes "encode_svarint v = Inr b"
  shows "decode_svarint (pre @ b @ post) (int (length pre)) = Inr (v, int (length pre) + int (length b))"
proof -
  have u: "encode_uvarint (encode_zig_zag v) = Inr b" using assms by (simp add: encode_svarint_Inr)
  show ?thesis
    unfolding decode_svarint_def decode_uvarint_bytes [OF u] sum.case prod.case Let_def zig_zag
    by (simp add: assms)
qed

interpretation svarint: wire_codec encode_svarint decode_svarint
proof
  show "decode_svarint (pre @ b @ post) (int (length pre)) = Inr (v, int (length pre) + int (length b))"
    if "encode_svarint v = Inr b" for v b pre post by (rule decode_svarint_bytes [OF that])
  show "b \<noteq> []" if "encode_svarint v = Inr b" for v b using that by (simp add: encode_svarint_Inr encode_uvarint_Inr)
qed

lemma length_le_bytes [simp]: "length (le_bytes k n) = k"
  by (induction k arbitrary: n) simp_all

lemma le_value_bytes: "n < 256 ^ k \<Longrightarrow> le_value (le_bytes k n) = n"
proof (induction k arbitrary: n)
  case (Suc k)
  then have "n div 256 < 256 ^ k" by (simp add: less_mult_imp_div_less mult.commute)
  then show ?case using Suc.IH by simp
qed simp

lemma decode_fixed_bytes:
  assumes "encode_fixed width v = Inr b"
  shows "decode_fixed width (pre @ b @ post) (int (length pre)) = Inr (v, int (length pre) + int (length b))"
proof -
  have v: "0 \<le> v" "v < 256 ^ width" "b = le_bytes width (nat v)" using assms by (auto simp: encode_fixed_def split: if_splits)
  have len: "length b = width" by (simp add: v(3))
  have "nat v < 256 ^ width" using v(1,2) by (simp add: nat_less_iff)
  then have "int (le_value b) = v" using v(1) le_value_bytes by (simp add: v(3))
  then show ?thesis using py_slice_mid [of pre b post] by (simp add: decode_fixed_def Let_def flip: len)
qed

lemma decode_sfixed_bytes:
  assumes "encode_sfixed width v = Inr b"
  shows "decode_sfixed width (pre @ b @ post) (int (length pre)) = Inr (v, int (length pre) + int (length b))"
proof -
  have v: "- (256 ^ width) \<le> 2 * v" "2 * v < 256 ^ width" "b = le_bytes width (nat (v mod 256 ^ width))"
    using assms by (auto simp: encode_sfixed_def split: if_splits)
  have len: "length b = width" by (simp add: v(3))
  let ?u = "v mod 256 ^ width"
  have u: "?u = (if v < 0 then v + 256 ^ width else v)"
  proof (cases "v < 0")
    case True
    have "(v + 256 ^ width) mod 256 ^ width = v + 256 ^ width"
      by (rule mod_pos_pos_trivial) (use v(1) True zero_less_power [of "256 :: int" width] in linarith)+
    then show ?thesis using True by simp
  next
    case False
    then show ?thesis using v(2) by (simp add: mod_pos_pos_trivial)
  qed
  have "0 \<le> ?u" "?u < 256 ^ width" by simp_all
  then have val: "int (le_value b) = ?u" using le_value_bytes [of "nat ?u" width] by (simp add: v(3) nat_less_iff)
  have restored: "(if 256 ^ width \<le> 2 * ?u then ?u - 256 ^ width else ?u) = v"
    using v(1,2) unfolding u by auto
  have slice: "py_slice (pre @ b @ post) (int (length pre)) (int (length pre) + int width) = b"
    using py_slice_mid [of pre b post] len by simp
  show ?thesis unfolding decode_sfixed_def Let_def slice val restored by (simp add: len)
qed

lemma le_bytes_nonempty: "0 < k \<Longrightarrow> le_bytes k n \<noteq> []"
  by (cases k) simp_all

lemma decode_bytes_bytes:
  assumes "encode_bytes v = Inr b"
  shows "decode_bytes (pre @ b @ post) (int (length pre)) = Inr (v, int (length pre) + int (length b))"
proof -
  obtain len where len: "encode_varint (int (length v)) = Inr len" "b = len @ v"
    using assms by (auto simp: encode_bytes_def split: sum.splits)
  have "decode_varint (pre @ b @ post) (int (length pre)) = Inr (int (length v), int (length pre) + int (length len))"
    using decode_varint_bytes [OF len(1), of pre "v @ post"] by (simp add: len(2))
  moreover have "py_slice (pre @ b @ post) (int (length pre) + int (length len)) (int (length pre) + int (length len) + int (length v)) = v"
    using py_slice_mid [of "pre @ len" v post] by (simp add: len(2))
  ultimately show ?thesis by (simp add: decode_bytes_def len(2))
qed

interpretation delimited: wire_codec encode_bytes decode_bytes
proof
  show "decode_bytes (pre @ b @ post) (int (length pre)) = Inr (v, int (length pre) + int (length b))"
    if "encode_bytes v = Inr b" for v b pre post by (rule decode_bytes_bytes [OF that])
  show "b \<noteq> []" if "encode_bytes v = Inr b" for v b
    using that varint.nonempty by (auto simp: encode_bytes_def split: sum.splits)
qed

interpretation fixed: wire_codec "encode_fixed (Suc k)" "decode_fixed (Suc k)" for k
proof
  show "decode_fixed (Suc k) (pre @ b @ post) (int (length pre)) = Inr (v, int (length pre) + int (length b))"
    if "encode_fixed (Suc k) v = Inr b" for v b pre post by (rule decode_fixed_bytes [OF that])
  show "b \<noteq> []" if "encode_fixed (Suc k) v = Inr b" for v b using that by (auto simp: encode_fixed_def split: if_splits)
qed

interpretation sfixed: wire_codec "encode_sfixed (Suc k)" "decode_sfixed (Suc k)" for k
proof
  show "decode_sfixed (Suc k) (pre @ b @ post) (int (length pre)) = Inr (v, int (length pre) + int (length b))"
    if "encode_sfixed (Suc k) v = Inr b" for v b pre post by (rule decode_sfixed_bytes [OF that])
  show "b \<noteq> []" if "encode_sfixed (Suc k) v = Inr b" for v b using that by (auto simp: encode_sfixed_def split: if_splits)
qed

context wire_codec
begin

lemma packed_roundtrip:
  assumes "encode_packed enc vs = Inr b"
  shows "decode_packed dec (pre @ b @ post) (int (length pre)) = Some (Inr (vs, int (length pre) + int (length b)))"
proof -
  obtain out where out: "encode_all enc vs = Inr out" "encode_bytes out = Inr b"
    using assms by (auto simp: encode_packed_def split: sum.splits)
  obtain len where len: "encode_varint (int (length out)) = Inr len" "b = len @ out"
    using out(2) by (auto simp: encode_bytes_def split: sum.splits)
  have d: "decode_varint (pre @ b @ post) (int (length pre)) = Inr (int (length out), int (length pre) + int (length len))"
    using decode_varint_bytes [OF len(1), of pre "out @ post"] by (simp add: len(2))
  have "length vs \<le> Suc (length ((pre @ len) @ out @ post))" using encode_all_length [OF out(1)] by simp
  from packed_loop_values [OF out(1) this, of "pre @ len" post "[]"]
  show ?thesis by (simp add: decode_packed_def d, simp add: len(2) add.assoc)
qed

end

section \<open>Encodings are bytes\<close>

definition is_bytes :: "bytes \<Rightarrow> bool" where
  "is_bytes b \<longleftrightarrow> (\<forall>x \<in> set b. x < 256)"

lemma is_bytes_simps [simp]:
  "is_bytes []" "is_bytes (x # b) \<longleftrightarrow> x < 256 \<and> is_bytes b" "is_bytes (b @ c) \<longleftrightarrow> is_bytes b \<and> is_bytes c"
  by (auto simp: is_bytes_def)

locale byte_codec = wire_codec +
  assumes emits: "enc v = Inr b \<Longrightarrow> is_bytes b"
begin

lemma all_emits: "encode_all enc vs = Inr out \<Longrightarrow> is_bytes out"
  by (induction vs arbitrary: out) (auto dest: emits split: sum.splits)

end

lemma uvarint_bytes_range: "is_bytes (uvarint_bytes n)"
proof (induction n rule: uvarint_bytes.induct)
  case (1 n)
  have "128 + n mod 128 < (256 :: nat)" by simp
  then show ?case using 1 by (subst uvarint_bytes.simps) auto
qed

lemma le_bytes_range: "is_bytes (le_bytes k n)"
  by (induction k arbitrary: n) simp_all

interpretation uvarint_byte: byte_codec encode_uvarint decode_uvarint
  by unfold_locales (auto simp: encode_uvarint_Inr uvarint_bytes_range)

interpretation varint_byte: byte_codec encode_varint decode_varint
  by unfold_locales (auto simp: encode_varint_Inr encode_uvarint_Inr uvarint_bytes_range)

interpretation svarint_byte: byte_codec encode_svarint decode_svarint
  by unfold_locales (auto simp: encode_svarint_Inr encode_uvarint_Inr uvarint_bytes_range)

interpretation fixed_byte: byte_codec "encode_fixed (Suc k)" "decode_fixed (Suc k)" for k
  by unfold_locales (auto simp: encode_fixed_def le_bytes_range split: if_splits simp del: le_bytes.simps)

interpretation sfixed_byte: byte_codec "encode_sfixed (Suc k)" "decode_sfixed (Suc k)" for k
  by unfold_locales (auto simp: encode_sfixed_def le_bytes_range split: if_splits simp del: le_bytes.simps)

lemma encode_bytes_range: "encode_bytes w = Inr b \<Longrightarrow> is_bytes w \<Longrightarrow> is_bytes b"
  by (auto simp: encode_bytes_def dest: varint_byte.emits split: sum.splits)

lemmas emits_intros = uvarint_byte.emits varint_byte.emits svarint_byte.emits fixed_byte.emits sfixed_byte.emits

context byte_codec
begin

lemma packed_emits: "encode_packed enc vs = Inr b \<Longrightarrow> is_bytes b"
  by (auto simp: encode_packed_def intro: encode_bytes_range dest: all_emits split: sum.splits)

end

section \<open>Properties\<close>

text \<open>Every scalar codec reads back what it wrote, wherever the bytes stand in a buffer, and stops right after
  them: unsigned, signed and zigzag varints, fixed and signed fixed integers of every width, and byte strings.\<close>

theorem scalar_roundtrip:
  "(encode_uvarint v = Inr b \<longrightarrow> decode_uvarint (pre @ b @ post) (int (length pre)) = Inr (v, int (length pre + length b))) \<and>
   (encode_varint v = Inr b \<longrightarrow> decode_varint (pre @ b @ post) (int (length pre)) = Inr (v, int (length pre + length b))) \<and>
   (encode_svarint v = Inr b \<longrightarrow> decode_svarint (pre @ b @ post) (int (length pre)) = Inr (v, int (length pre + length b))) \<and>
   (encode_fixed (Suc k) v = Inr b \<longrightarrow>
      decode_fixed (Suc k) (pre @ b @ post) (int (length pre)) = Inr (v, int (length pre + length b))) \<and>
   (encode_sfixed (Suc k) v = Inr b \<longrightarrow>
      decode_sfixed (Suc k) (pre @ b @ post) (int (length pre)) = Inr (v, int (length pre + length b))) \<and>
   (encode_bytes w = Inr b \<longrightarrow> decode_bytes (pre @ b @ post) (int (length pre)) = Inr (w, int (length pre + length b)))"
  unfolding of_nat_add
  by (intro conjI impI)
    (erule uvarint.roundtrip varint.roundtrip svarint.roundtrip fixed.roundtrip sfixed.roundtrip delimited.roundtrip)+

theorem scalar_roundtrip_witness:
  "decode_varint ([7] @ [172, 2] @ [9]) 1 = Inr (300, 3)"
proof -
  have "encode_varint 300 = Inr [172, 2]"
    by (simp add: encode_varint_def encode_uvarint_def uvarint_bytes.simps)
  then show ?thesis using scalar_roundtrip [of 300 "[172, 2]" "[7]" "[9]" 0 "[]"] by simp
qed

text \<open>A packed list reads back as it was written, for every element codec: the loop ends, at the right place, and with
  no element more or fewer.\<close>

theorem packed_roundtrips:
  "(encode_packed encode_uvarint vs = Inr b \<longrightarrow>
      decode_packed decode_uvarint (pre @ b @ post) (int (length pre)) = Some (Inr (vs, int (length pre) + int (length b)))) \<and>
   (encode_packed encode_varint vs = Inr b \<longrightarrow>
      decode_packed decode_varint (pre @ b @ post) (int (length pre)) = Some (Inr (vs, int (length pre) + int (length b)))) \<and>
   (encode_packed encode_svarint vs = Inr b \<longrightarrow>
      decode_packed decode_svarint (pre @ b @ post) (int (length pre)) = Some (Inr (vs, int (length pre) + int (length b)))) \<and>
   (encode_packed (encode_fixed (Suc k)) vs = Inr b \<longrightarrow>
      decode_packed (decode_fixed (Suc k)) (pre @ b @ post) (int (length pre)) = Some (Inr (vs, int (length pre) + int (length b)))) \<and>
   (encode_packed (encode_sfixed (Suc k)) vs = Inr b \<longrightarrow>
      decode_packed (decode_sfixed (Suc k)) (pre @ b @ post) (int (length pre)) = Some (Inr (vs, int (length pre) + int (length b))))"
  by (intro conjI impI)
    (erule uvarint.packed_roundtrip varint.packed_roundtrip svarint.packed_roundtrip fixed.packed_roundtrip
      sfixed.packed_roundtrip)+

theorem packed_roundtrips_witness:
  "decode_packed decode_svarint [2, 1, 4] 0 = Some (Inr ([- 1, 2], 3))"
proof -
  have "encode_packed encode_svarint [- 1, 2] = Inr [2, 1, 4]"
    by (simp add: encode_packed_def encode_svarint_def encode_zig_zag_def encode_bytes_def encode_varint_def
        encode_uvarint_def uvarint_bytes.simps)
  then show ?thesis using packed_roundtrips [of "[- 1, 2]" "[2, 1, 4]" "[]" "[]" 0] by simp
qed



text \<open>Messages as their fields: number, wire type, and the bytes of the value.\<close>

type_synonym wire_field = "nat \<times> nat \<times> bytes"

definition well_delimited :: "nat \<Rightarrow> bytes \<Rightarrow> bool" where
  "well_delimited wire_type chunk \<longleftrightarrow>
     wire_type = 0 \<and> (\<exists>v. encode_uvarint v = Inr chunk) \<or> wire_type = 1 \<and> length chunk = 8 \<or>
     wire_type = 5 \<and> length chunk = 4 \<or> wire_type = 2 \<and> (\<exists>b. encode_bytes b = Inr chunk)"

fun message_bytes :: "wire_field list \<Rightarrow> wire_error + bytes" where
  "message_bytes [] = Inr []"
| "message_bytes ((n, wt, chunk) # fs) =
     (case encode_tag n wt of
        Inl e \<Rightarrow> Inl e
      | Inr tag \<Rightarrow> (case message_bytes fs of Inl e \<Rightarrow> Inl e | Inr rest \<Rightarrow> Inr (tag @ chunk @ rest)))"

definition add_field :: "field_groups \<Rightarrow> wire_field \<Rightarrow> field_groups" where
  "add_field groups f =
     (case f of (n, wt, chunk) \<Rightarrow>
        dict_set groups n (wt, (case map_of groups n of None \<Rightarrow> [] | Some (_, bs) \<Rightarrow> bs) @ [chunk]))"

definition one_type :: "(nat \<Rightarrow> nat) \<Rightarrow> field_groups \<Rightarrow> bool" where
  "one_type type_of groups \<longleftrightarrow> (\<forall>n wt bs. map_of groups n = Some (wt, bs) \<longrightarrow> wt = type_of n)"

lemma decode_tag_bytes:
  assumes "encode_tag n wt = Inr tag" and "wt < 8"
  shows "decode_tag (pre @ tag @ post) (int (length pre)) = Inr (n, wt, int (length pre) + int (length tag))"
proof -
  have "decode_uvarint (pre @ tag @ post) (int (length pre)) = Inr (int (n * 8 + wt), int (length pre) + int (length tag))"
    using assms(1) unfolding encode_tag_def by (rule decode_uvarint_bytes)
  moreover have "nat (int (n * 8 + wt)) = n * 8 + wt" by (rule nat_int)
  ultimately show ?thesis using assms(2) by (simp add: decode_tag_def del: of_nat_add of_nat_mult)
qed

lemma field_length_chunk:
  assumes "well_delimited wt chunk"
  shows "field_length (pre @ chunk @ post) (int (length pre)) wt = Inr (int (length chunk))"
proof -
  consider (var) v where "wt = 0" "encode_uvarint v = Inr chunk" | (f64) "wt = 1" "length chunk = 8"
    | (f32) "wt = 5" "length chunk = 4" | (len) b where "wt = 2" "encode_bytes b = Inr chunk"
    using assms by (auto simp: well_delimited_def)
  then show ?thesis
  proof cases
    case var
    then show ?thesis using decode_uvarint_bytes [OF var(2), of pre post] by (simp add: field_length_def)
  next
    case len
    obtain l where l: "encode_varint (int (length b)) = Inr l" "chunk = l @ b"
      using len(2) by (auto simp: encode_bytes_def split: sum.splits)
    have "decode_varint (pre @ chunk @ post) (int (length pre)) = Inr (int (length b), int (length pre) + int (length l))"
      using decode_varint_bytes [OF l(1), of pre "b @ post"] by (simp add: l(2))
    then show ?thesis using len(1) l(2) by (simp add: field_length_def)
  qed (simp_all add: field_length_def)
qed

lemma group_reads:
  "message_bytes fs = Inr msg \<Longrightarrow> \<forall>(n, wt, chunk) \<in> set fs. well_delimited wt chunk \<and> wt = type_of n \<Longrightarrow>
   one_type type_of groups \<Longrightarrow> length fs \<le> fuel \<Longrightarrow>
   group_by_number fuel (pre @ msg) (int (length pre)) (int (length pre + length msg)) groups order =
     Some (Inr (foldl add_field groups fs, order @ map fst fs, int (length pre + length msg)))"
proof (induction fs arbitrary: msg pre groups order fuel)
  case Nil
  then show ?case by (subst group_by_number.simps) simp
next
  case (Cons f fs)
  obtain n wt chunk where f: "f = (n, wt, chunk)" by (cases f) auto
  obtain tag rest where m: "encode_tag n wt = Inr tag" "message_bytes fs = Inr rest" "msg = tag @ chunk @ rest"
    using Cons.prems(1) f by (auto split: sum.splits)
  have ok: "well_delimited wt chunk" "wt = type_of n" using Cons.prems(2) f by auto
  have small: "wt < 8" using ok(1) by (auto simp: well_delimited_def)
  obtain k where k: "fuel = Suc k" "length fs \<le> k" using Cons.prems(4) by (cases fuel) auto
  let ?p = "int (length (pre @ tag))" and ?p' = "int (length (pre @ tag @ chunk))"
  have tag: "decode_tag (pre @ msg) (int (length pre)) = Inr (n, wt, ?p)"
    using decode_tag_bytes [OF m(1) small, of pre "chunk @ rest"] by (simp add: m(3))
  have len: "field_length (pre @ msg) ?p wt = Inr (int (length chunk))"
    using field_length_chunk [OF ok(1), of "pre @ tag" rest] by (simp add: m(3))
  have slice: "py_slice (pre @ msg) ?p (?p + int (length chunk)) = chunk"
    using py_slice_mid [of "pre @ tag" chunk rest] by (simp add: m(3))
  have tagne: "tag \<noteq> []" using m(1) uvarint.nonempty unfolding encode_tag_def by blast
  have pos: "int (length pre) < int (length pre + length msg)" using tagne by (cases tag) (simp_all add: m(3))
  have fits: "\<not> int (length pre + length msg) < ?p + int (length chunk)" by (simp add: m(3))
  have same: "\<not> (case map_of groups n of None \<Rightarrow> False | Some (t, _) \<Rightarrow> t \<noteq> wt)"
    using Cons.prems(3) ok(2) by (auto simp: one_type_def split: option.splits)
  have "group_by_number fuel (pre @ msg) (int (length pre)) (int (length pre + length msg)) groups order =
      group_by_number k (pre @ msg) (?p + int (length chunk)) (int (length pre + length msg)) (add_field groups f) (order @ [n])"
    using pos fits same by (subst group_by_number.simps) (simp add: k(1) tag len slice Let_def f add_field_def del: of_nat_add length_append)
  also have "\<dots> = group_by_number k ((pre @ tag @ chunk) @ rest) (int (length (pre @ tag @ chunk)))
      (int (length (pre @ tag @ chunk) + length rest)) (add_field groups f) (order @ [n])"
    by (simp add: m(3) add.assoc)
  also have "\<dots> = Some (Inr (foldl add_field (add_field groups f) fs, (order @ [n]) @ map fst fs,
      int (length (pre @ tag @ chunk) + length rest)))"
  proof (rule Cons.IH [OF m(2) _ _ k(2)])
    show "\<forall>(n, wt, chunk) \<in> set fs. well_delimited wt chunk \<and> wt = type_of n" using Cons.prems(2) by simp
    show "one_type type_of (add_field groups f)"
      using Cons.prems(3) ok(2) by (auto simp: one_type_def add_field_def f split: if_splits)
  qed
  finally show ?case by (simp add: f m(3) add.assoc)
qed

text \<open>Reading a message gives back the fields it was written from: every value's bytes under its number, in order,
  and the order of the numbers, whenever each value is delimited as its wire type says and no number has two
  wire types.\<close>

theorem message_fields_roundtrip:
  assumes "message_bytes fs = Inr msg" and "\<forall>(n, wt, chunk) \<in> set fs. well_delimited wt chunk \<and> wt = type_of n"
  shows "group_by_number (length fs) msg 0 (int (length msg)) [] [] = Some (Inr (foldl add_field [] fs, map fst fs, int (length msg)))"
  using group_reads [OF assms, of "[]" "length fs" "[]" "[]"] by (simp add: one_type_def)

theorem message_fields_roundtrip_witness:
  "group_by_number 2 [8, 5, 8, 6] 0 4 [] [] = Some (Inr ([(1, 0, [[5], [6]])], [1, 1], 4))"
proof -
  have msg: "message_bytes [(1, 0, [5]), (1, 0, [6])] = Inr [8, 5, 8, 6]"
    by (simp add: encode_tag_def encode_uvarint_def uvarint_bytes.simps)
  have "encode_uvarint 5 = Inr [5]" "encode_uvarint 6 = Inr [6]"
    by (simp_all add: encode_uvarint_def uvarint_bytes.simps)
  then have ok: "\<forall>(n, wt, chunk) \<in> set [(1 :: nat, 0, [5]), (1, 0, [6])]. well_delimited wt chunk \<and> wt = (\<lambda>_. 0) n"
    by (auto simp: well_delimited_def)
  from message_fields_roundtrip [OF msg ok] show ?thesis by (simp add: add_field_def numeral_2_eq_2)
qed

text \<open>A varint is read only from its standard encoding, so that each value has one, of at most ten bytes.\<close>

lemma uvarint_bytes_length: "n < 128 ^ k \<Longrightarrow> 0 < k \<Longrightarrow> length (uvarint_bytes n) \<le> k"
proof (induction n arbitrary: k rule: uvarint_bytes.induct)
  case (1 n)
  show ?case
  proof (cases "n < 128")
    case True
    then show ?thesis using 1(3) by (subst uvarint_bytes.simps) simp
  next
    case False
    then obtain j where j: "k = Suc (Suc j)" using 1(2,3) by (cases k; cases "k - 1") auto
    have "n div 128 < 128 ^ Suc j" using 1(2) j by (simp add: less_mult_imp_div_less mult.commute)
    then have "length (uvarint_bytes (n div 128)) \<le> Suc j" by (rule 1(1) [OF False]) simp
    then show ?thesis using False j by (subst uvarint_bytes.simps) simp
  qed
qed

text \<open>A decoded varint is in range, is the value of exactly the bytes that were consumed, at most ten of them, and no
  other bytes stand for it: decoding and encoding are inverse to each other.\<close>

theorem varint_canonical:
  assumes "decode_varint buf pos = Inr (v, p)"
  shows "- (2 ^ 63) \<le> v \<and> v < 2 ^ 63 \<and> encode_varint v = Inr (py_slice buf pos p) \<and> length (py_slice buf pos p) \<le> 10"
proof -
  obtain u where u: "decode_uvarint buf pos = Inr (u, p)" and v: "v = (if 2 ^ 63 \<le> u then u - 2 ^ 64 else u)"
    and enc: "encode_varint v = Inr (py_slice buf pos p)"
    using assms by (auto simp: decode_varint_def Let_def split: sum.splits if_splits)
  then have "- (2 ^ 63) \<le> v \<and> v < 2 ^ 63" "encode_uvarint (if v < 0 then v + 2 ^ 64 else v) = Inr (py_slice buf pos p)"
    unfolding encode_varint_Inr by blast+
  moreover have "length (py_slice buf pos p) \<le> 10"
  proof -
    obtain w where w: "0 \<le> w" "w < 2 ^ 64" "py_slice buf pos p = uvarint_bytes (nat w)"
      using calculation(2) unfolding encode_uvarint_Inr by blast
    have "nat w < 128 ^ 10" using w(1,2) by simp
    then show ?thesis unfolding w(3) by (rule uvarint_bytes_length) simp
  qed
  ultimately show ?thesis using enc by blast
qed

theorem varint_canonical_witness: "encode_varint (- 1) = Inr [255, 255, 255, 255, 255, 255, 255, 255, 255, 1]"
proof -
  have "encode_varint (- 1) = Inr [255, 255, 255, 255, 255, 255, 255, 255, 255, 1]"
    by (simp add: encode_varint_def encode_uvarint_def uvarint_bytes.simps)
  from decode_varint_bytes [OF this, of "[]" "[]"]
  have "decode_varint [255, 255, 255, 255, 255, 255, 255, 255, 255, 1] 0 = Inr (- 1, 10)" by simp
  from varint_canonical [OF this] show ?thesis by (simp add: py_slice_def slice_index_def)
qed

definition looping_message :: bytes where
  "looping_message = [10, 245, 255, 255, 255, 255, 255, 255, 255, 255, 1]"

lemma looping_tag: "decode_tag looping_message 0 = Inr (1, 2, 1)"
  by (simp add: looping_message_def decode_tag_def decode_uvarint_def uvarint_loop.simps py_index_def encode_uvarint_def
      uvarint_bytes.simps py_slice_def slice_index_def)

lemma looping_length: "decode_varint looping_message 1 = Inr (- 11, 11)"
proof -
  have "encode_varint (- 11) = Inr [245, 255, 255, 255, 255, 255, 255, 255, 255, 1]"
    by (simp add: encode_varint_def encode_uvarint_def uvarint_bytes.simps)
  from decode_varint_bytes [OF this, of "[10]" "[]"] show ?thesis by (simp add: looping_message_def)
qed

lemma looping_field: "field_length looping_message 1 2 = Inr (- 1)"
  by (simp add: field_length_def looping_length)

text \<open>A length prefix may be negative.  A message of one delimited field whose length is minus eleven, the tag and
  the ten bytes of its length, takes the reader back to the tag: it never ends, and however long it runs it has
  returned nothing and collected one more empty buffer each time.\<close>

theorem negative_length_never_ends:
  assumes "\<And>wt bs. map_of groups 1 = Some (wt, bs) \<Longrightarrow> wt = 2"
  shows "group_by_number fuel looping_message 0 (int (length looping_message)) groups order = None"
  using assms
proof (induction fuel arbitrary: groups order)
  case 0
  show ?case by (subst group_by_number.simps) (simp add: looping_message_def)
next
  case (Suc n)
  have len: "looping_message \<noteq> []" by (simp add: looping_message_def)
  have same: "\<not> (case map_of groups 1 of None \<Rightarrow> False | Some (wt, _) \<Rightarrow> wt \<noteq> 2)"
    using Suc.prems by (auto split: option.splits prod.splits)
  have next_turn: "group_by_number n looping_message 0 (int (length looping_message)) (dict_set groups 1 (2, bufs)) order' = None"
    for bufs order' by (rule Suc.IH) (simp split: if_splits)
  show ?case
    by (subst group_by_number.simps) (simp add: len looping_tag looping_field same next_turn Let_def del: One_nat_def)
qed

theorem negative_length_never_ends_witness:
  "group_by_number 1000 looping_message 0 (int (length looping_message)) [] [] = None"
  by (rule negative_length_never_ends) simp

end
