(* ===== verification/ProtoTypes.thy ===== *)
theory ProtoTypes
  imports ProtoWire
begin

text \<open>
  Type definitions of protobuf messages (\<open>utils/blackboxprotobuf/schema/typedef.py\<close>): the objects, the dictionaries they are read from
  and written to, and their lookups.  A field number is a string, as in the code; the example value of a field, which no operation
  reads, is left out.
\<close>

section \<open>Objects and dictionaries\<close>

text \<open>The exceptions that a caller tells apart: the three of \<open>exceptions.py\<close>, and any other, such as \<open>KeyError\<close>.\<close>

datatype proto_error = DecoderError | EncoderError | TypedefError | OtherError

text \<open>
  A type is the name of a standard type, or a \<open>TypeDef\<close>: the fields by number, and the numbers by name.  The classes refer to one another,
  so each is a datatype over the types it holds, and the recursion is closed where a type is.
\<close>

datatype 't field_shape =
  FieldDef (fd_name: "string option") (fd_id: string) (fd_type_name: "string option")
    (fd_types: "(string \<times> 't) list") (fd_repeated: bool) (fd_order: "string list option")

datatype 't type_shape = TypeDef (td_fields: "(string \<times> 't field_shape) list") (td_names: "(string \<times> string) list")

datatype field_type = Named string | Nested "field_type type_shape"

type_synonym field_def = "field_type field_shape"
type_synonym type_def = "field_type type_shape"

text \<open>\<open>FieldDefDict\<close>: a missing key is \<open>None\<close>.\<close>

datatype 'd alt_entry = AltName string | AltDict 'd

datatype 'd field_entry =
  FieldDict (dd_name: "string option") (dd_type: "string option") (dd_message: "'d option")
    (dd_type_name: "string option") (dd_alts: "(string \<times> 'd alt_entry) list option") (dd_repeated: "bool option")
    (dd_order: "string list option")

datatype type_dict = TypeDict (dict_fields: "(string \<times> type_dict field_entry) list")

type_synonym field_dict = "type_dict field_entry"
type_synonym alt_dict = "type_dict alt_entry"

definition truthy :: "'a list option \<Rightarrow> bool" where
  "truthy x = (case x of None \<Rightarrow> False | Some s \<Rightarrow> s \<noteq> [])"

text \<open>\<open>_field_names\<close> as \<open>from_dict\<close> fills it: a later field takes a name from an earlier one.\<close>

definition names_of :: "(string \<times> field_def) list \<Rightarrow> (string \<times> string) list" where
  "names_of fields =
     fold (\<lambda>(k, fd) names. case fd_name fd of Some n \<Rightarrow> if n \<noteq> [] then dict_set names n k else names | None \<Rightarrow> names) fields []"

lemma size_member: "(k, d) \<in> set xs \<Longrightarrow> s d < Suc (size_list (size_prod (\<lambda>x. 0) s) xs)"
  by (induction xs) auto

function type_from_dict :: "type_dict \<Rightarrow> type_def"
  and field_from_dict :: "string \<Rightarrow> field_dict \<Rightarrow> field_def"
  and alt_from_dict :: "alt_dict \<Rightarrow> field_type" where
  "type_from_dict (TypeDict fds) =
     (let fields = map (\<lambda>(k, d). (k, field_from_dict k d)) fds in TypeDef fields (names_of fields))"
| "field_from_dict k (FieldDict name ty msg type_name alts repeated order) =
     (let zero = (case ty of
                    None \<Rightarrow> []
                  | Some t \<Rightarrow>
                      (case msg of
                         Some d \<Rightarrow> [(''0'', if t = ''message'' then Nested (type_from_dict d) else Named t)]
                       | None \<Rightarrow> [(''0'', Named t)]));
          others = (case alts of None \<Rightarrow> [] | Some l \<Rightarrow> map (\<lambda>(n, a). (n, alt_from_dict a)) l)
      in FieldDef name k type_name (fold (\<lambda>(n, t) types. dict_set types n t) others zero)
           (case repeated of None \<Rightarrow> False | Some b \<Rightarrow> b) order)"
| "alt_from_dict (AltName t) = Named t"
| "alt_from_dict (AltDict d) = Nested (type_from_dict d)"
  by pat_completeness auto

termination type_from_dict
  by (relation "measure (case_sum size (case_sum (size_field_entry size \<circ> snd) (size_alt_entry size)))")
    (auto dest: size_member [where s = "size_field_entry size"] size_member [where s = "size_alt_entry size"])

function type_to_dict :: "type_def \<Rightarrow> type_dict"
  and field_to_dict :: "field_def \<Rightarrow> field_dict"
  and alt_to_dict :: "field_type \<Rightarrow> alt_dict" where
  "type_to_dict (TypeDef fields names) = TypeDict (map (\<lambda>(k, fd). (k, field_to_dict fd)) fields)"
| "field_to_dict (FieldDef name k type_name types repeated order) =
     (let alts = map (\<lambda>(n, t). (n, alt_to_dict t)) types;
          zero = map_of alts ''0'';
          ty = (case zero of None \<Rightarrow> None | Some (AltName t) \<Rightarrow> (if t \<noteq> [] then Some t else None) | Some (AltDict d) \<Rightarrow> Some ''message'')
      in FieldDict (if truthy name then name else None) ty
           (case zero of Some (AltDict d) \<Rightarrow> Some d | _ \<Rightarrow> None)
           (if truthy type_name then type_name else None)
           (if ty \<noteq> None \<and> 1 < length types then Some (filter (\<lambda>(n, a). n \<noteq> ''0'') alts) else None)
           (if repeated then Some True else None)
           (if truthy order then order else None))"
| "alt_to_dict (Named t) = AltName t"
| "alt_to_dict (Nested td) = AltDict (type_to_dict td)"
  by pat_completeness auto

termination type_to_dict
  by (relation "measure (case_sum (size_type_shape size) (case_sum (size_field_shape size) size))")
    (auto dest: size_member [where s = size] size_member [where s = "size_field_shape size"])

section \<open>Lookups\<close>

text \<open>\<open>key.split("-", 1)\<close>: what stands before the first dash, and after it.\<close>

definition before_dash :: "string \<Rightarrow> string" where
  "before_dash key = takeWhile (\<lambda>c. c \<noteq> CHR ''-'') key"

definition after_dash :: "string \<Rightarrow> string option" where
  "after_dash key = (if CHR ''-'' \<in> set key then Some (drop (Suc (length (before_dash key))) key) else None)"

definition lookup_fielddef :: "type_def \<Rightarrow> string \<Rightarrow> (string \<times> field_def) option" where
  "lookup_fielddef td key =
     (let field_id = dict_get (td_names td) (before_dash key) (before_dash key)
      in map_option (Pair field_id) (map_of (td_fields td) field_id))"

definition type_mutable :: "type_def \<Rightarrow> type_def" where
  "type_mutable td = TypeDef (td_fields td) []"

definition set_fielddef :: "type_def \<Rightarrow> string \<Rightarrow> field_def \<Rightarrow> type_def" where
  "set_fielddef td k fd =
     TypeDef (dict_set (td_fields td) k fd)
       (case fd_name fd of Some n \<Rightarrow> if n \<noteq> [] then dict_set (td_names td) n k else td_names td | None \<Rightarrow> td_names td)"

definition new_field :: "string \<Rightarrow> field_def" where
  "new_field k = FieldDef None k None [] False None"

text \<open>\<open>known_types\<close> of the configuration.\<close>

type_synonym known_types = "(string \<times> type_dict) list"

definition resolve_message_name :: "known_types \<Rightarrow> field_def \<Rightarrow> proto_error + field_type" where
  "resolve_message_name known fd =
     (case fd_type_name fd of
        None \<Rightarrow> Inl TypedefError
      | Some n \<Rightarrow> (case map_of known n of None \<Rightarrow> Inl TypedefError | Some d \<Rightarrow> Inr (Nested (type_from_dict d))))"

definition lookup_type_number :: "known_types \<Rightarrow> field_def \<Rightarrow> string \<Rightarrow> proto_error + field_type option" where
  "lookup_type_number known fd alt =
     (case map_of (fd_types fd) alt of
        None \<Rightarrow> Inr None
      | Some t \<Rightarrow> if t = Named ''message'' then map_sum id Some (resolve_message_name known fd) else Inr (Some t))"

definition lookup_field_type :: "known_types \<Rightarrow> field_def \<Rightarrow> string \<Rightarrow> proto_error + field_type option" where
  "lookup_field_type known fd key =
     lookup_type_number known fd (case after_dash key of Some a \<Rightarrow> a | None \<Rightarrow> ''0'')"

definition field_name :: "field_def \<Rightarrow> string" where
  "field_name fd = (case fd_name fd of Some n \<Rightarrow> if n \<noteq> [] then n else fd_id fd | None \<Rightarrow> fd_id fd)"

definition field_key :: "field_def \<Rightarrow> string \<Rightarrow> string" where
  "field_key fd alt = (if alt = ''0'' then field_name fd else field_name fd @ ''-'' @ alt)"

text \<open>One more than the greatest number in use; a key that is no decimal number raises \<open>ValueError\<close>.\<close>

definition next_alt :: "field_def \<Rightarrow> nat option" where
  "next_alt fd =
     (if fd_types fd = [] then Some 0
      else if list_all (\<lambda>(n, t). parse_nat n \<noteq> None) (fd_types fd)
      then Some (Suc (Max (set (map (\<lambda>(n, t). the (parse_nat n)) (fd_types fd))))) else None)"

definition resolve_types :: "known_types \<Rightarrow> field_def \<Rightarrow> proto_error + (string \<times> field_type) list" where
  "resolve_types known fd =
     (if map_of (fd_types fd) ''0'' = Some (Named ''message'')
      then map_sum id (\<lambda>t. dict_set (fd_types fd) ''0'' t) (resolve_message_name known fd)
      else Inr (fd_types fd))"

text \<open>The setters of \<open>MutableFieldDef\<close>.\<close>

fun set_field_order :: "string list \<Rightarrow> field_def \<Rightarrow> field_def" where
  "set_field_order o' (FieldDef name k type_name types repeated order) = FieldDef name k type_name types repeated (Some o')"

fun mark_repeated :: "field_def \<Rightarrow> field_def" where
  "mark_repeated (FieldDef name k type_name types repeated order) = FieldDef name k type_name types True order"

fun set_types :: "(string \<times> field_type) list \<Rightarrow> field_def \<Rightarrow> field_def" where
  "set_types types' (FieldDef name k type_name types repeated order) = FieldDef name k type_name types' repeated order"

definition set_type :: "string \<Rightarrow> field_type \<Rightarrow> field_def \<Rightarrow> field_def" where
  "set_type alt t fd = set_types (dict_set (fd_types fd) alt t) fd"

section \<open>Written out and read back\<close>

text \<open>What a dictionary can hold: no empty names or orders, and the type of number zero first, if there is any type.\<close>

function type_storable :: "type_def \<Rightarrow> bool"
  and field_storable :: "string \<Rightarrow> field_def \<Rightarrow> bool"
  and alt_storable :: "field_type \<Rightarrow> bool" where
  "type_storable (TypeDef flds names) \<longleftrightarrow> names = names_of flds \<and> list_all (\<lambda>(k, fd). field_storable k fd) flds"
| "field_storable k (FieldDef name k' type_name types repeated order) \<longleftrightarrow>
     k' = k \<and> name \<noteq> Some [] \<and> type_name \<noteq> Some [] \<and> order \<noteq> Some [] \<and> dict_wf types \<and>
     (case types of [] \<Rightarrow> True | (n, t) # _ \<Rightarrow> n = ''0'' \<and> t \<noteq> Named []) \<and> list_all (\<lambda>(n, t). alt_storable t) types"
| "alt_storable (Named t) \<longleftrightarrow> True"
| "alt_storable (Nested td) \<longleftrightarrow> type_storable td"
  by pat_completeness auto

termination type_storable
  by (relation "measure (case_sum (size_type_shape size) (case_sum (size_field_shape size \<circ> snd) size))")
    (auto dest: size_member [where s = size] size_member [where s = "size_field_shape size"])

lemma fold_dict_set_new:
  "distinct (map fst d @ map fst l) \<Longrightarrow> fold (\<lambda>(n, t) types. dict_set types n t) l d = d @ l"
proof (induction l arbitrary: d)
  case (Cons p l)
  obtain n t where p: "p = (n, t)" by (cases p)
  have "dict_set d n t = d @ [(n, t)]" using Cons.prems p by (intro dict_set_append_new) auto
  then show ?case using Cons.IH [of "d @ [(n, t)]"] Cons.prems by (simp add: p)
qed simp

lemma truthy_kept: "x \<noteq> Some [] \<Longrightarrow> (if truthy x then x else None) = x"
  by (cases x) (auto simp: truthy_def)

lemma storable_field:
  assumes "field_storable k (FieldDef name k' type_name types repeated order)"
    and "\<And>n t. (n, t) \<in> set types \<Longrightarrow> alt_from_dict (alt_to_dict t) = t"
  shows "field_from_dict k (field_to_dict (FieldDef name k' type_name types repeated order)) =
    FieldDef name k' type_name types repeated order"
proof (cases types)
  case Nil
  then show ?thesis using assms(1) by (simp add: truthy_kept)
next
  case (Cons p rest)
  then obtain t where p: "p = (''0'', t)" "t \<noteq> Named []" using assms(1) by (cases p) auto
  have rest: "''0'' \<notin> set (keys rest)" "dict_wf rest" using assms(1) by (simp_all add: Cons p)
  have "map (\<lambda>(n, a). (n, alt_from_dict a)) (map (\<lambda>(n, t). (n, alt_to_dict t)) rest) = rest"
    unfolding map_map using assms(2) Cons by (intro map_idI) auto
  moreover have "filter (\<lambda>(n, a). n \<noteq> ''0'') (map (\<lambda>(n, t). (n, alt_to_dict t)) rest) = map (\<lambda>(n, t). (n, alt_to_dict t)) rest"
    using rest(1) by (force simp: filter_id_conv)
  moreover have "fold (\<lambda>(n, t) types. dict_set types n t) rest [(''0'', t)] = (''0'', t) # rest"
    using rest by (subst fold_dict_set_new) auto
  moreover have "alt_from_dict (alt_to_dict t) = t" using assms(2) [of "''0''" t] by (simp add: Cons p)
  moreover have "rest = [] \<or> 1 < length types" by (auto simp: Cons)
  ultimately show ?thesis using assms(1) p
    by (cases t; cases repeated) (auto simp: Cons truthy_kept Let_def)
qed

text \<open>A storable definition, with all that is nested in it, is read back as it was written out.\<close>

theorem type_dict_roundtrip:
  assumes "type_storable td"
  shows "type_from_dict (type_to_dict td) = td"
proof -
  have "type_storable td \<longrightarrow> type_from_dict (type_to_dict td) = td"
    and "\<forall>k. field_storable k fd \<longrightarrow> field_from_dict k (field_to_dict fd) = fd"
    and "alt_storable t \<longrightarrow> alt_from_dict (alt_to_dict t) = t" for fd t
  proof (induction td and fd and t rule: type_to_dict_field_to_dict_alt_to_dict.induct)
    case (1 flds names)
    show ?case
    proof
      assume s: "type_storable (TypeDef flds names)"
      have "map (\<lambda>(k, d). (k, field_from_dict k d)) (map (\<lambda>(k, fd). (k, field_to_dict fd)) flds) = flds"
        unfolding map_map using s 1 by (intro map_idI) (auto simp: list_all_iff)
      then show "type_from_dict (type_to_dict (TypeDef flds names)) = TypeDef flds names"
        using s unfolding type_to_dict.simps type_from_dict.simps Let_def by simp
    qed
  next
    case (2 name k' type_name types repeated order)
    show ?case
    proof (intro allI impI)
      fix k assume s: "field_storable k (FieldDef name k' type_name types repeated order)"
      have "alt_from_dict (alt_to_dict t) = t" if "(n, t) \<in> set types" for n t
        using 2 that s by (auto simp: list_all_iff)
      with s show "field_from_dict k (field_to_dict (FieldDef name k' type_name types repeated order)) =
          FieldDef name k' type_name types repeated order" by (rule storable_field)
    qed
  qed simp_all
  then show ?thesis using assms by blast
qed

theorem type_dict_roundtrip_witness:
  "type_from_dict (type_to_dict (TypeDef [(''1'', FieldDef (Some ''id'') ''1'' None [(''0'', Named ''int''), (''1'', Nested (TypeDef [] []))] True None)]
     [(''id'', ''1'')])) =
   TypeDef [(''1'', FieldDef (Some ''id'') ''1'' None [(''0'', Named ''int''), (''1'', Nested (TypeDef [] []))] True None)] [(''id'', ''1'')]"
  by (rule type_dict_roundtrip) (simp add: names_of_def)

end
