(* ===== verification/ProtoMessage.thy ===== *)
theory ProtoMessage
  imports ProtoTypes
begin

text \<open>
  Messages as dictionaries (\<open>utils/blackboxprotobuf/length_delim.py\<close>, \<open>schema/type_maps.py\<close>, \<open>config.py\<close>, \<open>api.py\<close>): encoding
  under a type definition, decoding with or without one, and the guess whether a delimited field is a message, a string or bytes.
  The paths that only error messages show are left out, and so is the depth at which Python's stack ends.
\<close>

section \<open>Values, configuration\<close>

text \<open>A key of a message is given as the string \<open>str(field_id)\<close> the code makes of it.\<close>

datatype ('t, 'f) proto_value =
    VInt int
  | VFloat 'f
  | VBytes bytes
  | VText 't
  | VList "('t, 'f) proto_value list"
  | VMsg "(string \<times> ('t, 'f) proto_value) list"

text \<open>
  The configuration, after what the code uses of Python: UTF-8, and the floating-point formats of \<open>struct\<close> by their width
  (packing fails for a number too large for the width, converting an integer to a float for one too large for a float).
\<close>

record ('t, 'f) proto_config =
  utf8 :: "'t \<Rightarrow> bytes"
  from_utf8 :: "bytes \<Rightarrow> 't option"
  pack_float :: "nat \<Rightarrow> 'f \<Rightarrow> bytes option"
  unpack_float :: "bytes \<Rightarrow> 'f"
  float_of_int :: "int \<Rightarrow> 'f option"
  known_types :: known_types
  default_binary_type :: string
  default_types :: "(nat \<times> string) list"
  preserve_field_order :: bool

definition wire_type_defaults :: "(nat \<times> string) list" where
  "wire_type_defaults = [(0, ''int''), (5, ''fixed32''), (1, ''fixed64'')]"

definition get_default_type :: "('t, 'f) proto_config \<Rightarrow> nat \<Rightarrow> proto_error + string" where
  "get_default_type cfg wire_type =
     (case map_of (default_types cfg) wire_type of
        Some t \<Rightarrow> Inr t
      | None \<Rightarrow> (case map_of wire_type_defaults wire_type of Some t \<Rightarrow> Inr t | None \<Rightarrow> Inl DecoderError))"

section \<open>Encoders\<close>

definition encoder_error :: "wire_error + bytes \<Rightarrow> proto_error + bytes" where
  "encoder_error r = (case r of Inl e \<Rightarrow> Inl EncoderError | Inr b \<Rightarrow> Inr b)"

definition enc_int :: "(int \<Rightarrow> wire_error + bytes) \<Rightarrow> ('t, 'f) proto_value \<Rightarrow> proto_error + bytes" where
  "enc_int enc v = (case v of VInt i \<Rightarrow> encoder_error (enc i) | _ \<Rightarrow> Inl EncoderError)"

text \<open>An integer is converted, and one no float can hold is an error of \<open>struct\<close>; a float too large for four bytes is an
  \<open>OverflowError\<close>, which nothing translates.\<close>

definition enc_float :: "('t, 'f) proto_config \<Rightarrow> nat \<Rightarrow> ('t, 'f) proto_value \<Rightarrow> proto_error + bytes" where
  "enc_float cfg width v =
     (let packed = \<lambda>x. case pack_float cfg width x of None \<Rightarrow> Inl OtherError | Some b \<Rightarrow> Inr b
      in case v of
           VFloat x \<Rightarrow> packed x
         | VInt i \<Rightarrow> (case float_of_int cfg i of None \<Rightarrow> Inl EncoderError | Some x \<Rightarrow> packed x)
         | _ \<Rightarrow> Inl EncoderError)"

definition enc_bytes :: "('t, 'f) proto_config \<Rightarrow> ('t, 'f) proto_value \<Rightarrow> proto_error + bytes" where
  "enc_bytes cfg v =
     (case v of
        VText s \<Rightarrow> encoder_error (encode_bytes (utf8 cfg s))
      | VBytes b \<Rightarrow> encoder_error (encode_bytes b)
      | _ \<Rightarrow> Inl EncoderError)"

text \<open>Bytes that are no UTF-8 raise \<open>UnicodeDecodeError\<close>, which is no \<open>TypeError\<close>.\<close>

definition enc_string :: "('t, 'f) proto_config \<Rightarrow> ('t, 'f) proto_value \<Rightarrow> proto_error + bytes" where
  "enc_string cfg v =
     (case v of
        VBytes b \<Rightarrow> (case from_utf8 cfg b of None \<Rightarrow> Inl OtherError | Some s \<Rightarrow> encoder_error (encode_string (utf8 cfg) s))
      | VText s \<Rightarrow> encoder_error (encode_string (utf8 cfg) s)
      | _ \<Rightarrow> Inl EncoderError)"

text \<open>\<open>binascii.hexlify\<close> and \<open>unhexlify\<close>; letters of both cases are read.\<close>

definition hex_digit :: "nat \<Rightarrow> nat" where
  "hex_digit n = (if n < 10 then 48 + n else 87 + n)"

definition unhex_digit :: "nat \<Rightarrow> nat option" where
  "unhex_digit c =
     (if 48 \<le> c \<and> c \<le> 57 then Some (c - 48) else if 97 \<le> c \<and> c \<le> 102 then Some (c - 87)
      else if 65 \<le> c \<and> c \<le> 70 then Some (c - 55) else None)"

definition hexlify :: "bytes \<Rightarrow> bytes" where
  "hexlify b = concat (map (\<lambda>x. [hex_digit (x div 16), hex_digit (x mod 16)]) b)"

fun unhexlify :: "bytes \<Rightarrow> bytes option" where
  "unhexlify [] = Some []"
| "unhexlify [c] = None"
| "unhexlify (c # d # b) =
     (case (unhex_digit c, unhex_digit d, unhexlify b) of (Some x, Some y, Some r) \<Rightarrow> Some ((16 * x + y) # r) | _ \<Rightarrow> None)"

text \<open>A string with a character that is not ASCII is a plain \<open>ValueError\<close>.\<close>

definition enc_bytes_hex :: "('t, 'f) proto_config \<Rightarrow> ('t, 'f) proto_value \<Rightarrow> proto_error + bytes" where
  "enc_bytes_hex cfg v =
     (let digits = \<lambda>b. case unhexlify b of None \<Rightarrow> Inl EncoderError | Some w \<Rightarrow> encoder_error (encode_bytes w)
      in case v of
           VBytes b \<Rightarrow> digits b
         | VText s \<Rightarrow> (if list_all (\<lambda>x. x < 128) (utf8 cfg s) then digits (utf8 cfg s) else Inl OtherError)
         | _ \<Rightarrow> Inl EncoderError)"

fun encode_values :: "(('t, 'f) proto_value \<Rightarrow> proto_error + bytes) \<Rightarrow> ('t, 'f) proto_value list \<Rightarrow> proto_error + bytes list" where
  "encode_values enc [] = Inr []"
| "encode_values enc (v # vs) =
     (case enc v of
        Inl e \<Rightarrow> Inl e
      | Inr b \<Rightarrow> (case encode_values enc vs of Inl e \<Rightarrow> Inl e | Inr bs \<Rightarrow> Inr (b # bs)))"

text \<open>What the loop of a packed encoder runs over: bytes are integers; the characters of a string and the keys of a dictionary are strings,
  which no packed encoder takes; a number cannot be iterated.\<close>

definition enc_packed ::
  "('t, 'f) proto_config \<Rightarrow> (('t, 'f) proto_value \<Rightarrow> proto_error + bytes) \<Rightarrow> ('t, 'f) proto_value \<Rightarrow> proto_error + bytes" where
  "enc_packed cfg enc v =
     (let each = \<lambda>vs. case encode_values enc vs of Inl e \<Rightarrow> Inl e | Inr bs \<Rightarrow> encoder_error (encode_bytes (concat bs))
      in case v of
           VList vs \<Rightarrow> each vs
         | VBytes b \<Rightarrow> each (map (\<lambda>x. VInt (int x)) b)
         | VText s \<Rightarrow> (if utf8 cfg s = [] then each [] else Inl EncoderError)
         | VMsg items \<Rightarrow> (if items = [] then each [] else Inl EncoderError)
         | _ \<Rightarrow> Inl OtherError)"

definition base_encoders :: "('t, 'f) proto_config \<Rightarrow> (string \<times> (('t, 'f) proto_value \<Rightarrow> proto_error + bytes)) list" where
  "base_encoders cfg =
     [(''uint'', enc_int encode_uvarint), (''int'', enc_int encode_varint), (''sint'', enc_int encode_svarint),
      (''fixed32'', enc_int (encode_fixed 4)), (''sfixed32'', enc_int (encode_sfixed 4)), (''float'', enc_float cfg 4),
      (''fixed64'', enc_int (encode_fixed 8)), (''sfixed64'', enc_int (encode_sfixed 8)), (''double'', enc_float cfg 8)]"

definition encoders :: "('t, 'f) proto_config \<Rightarrow> (string \<times> (('t, 'f) proto_value \<Rightarrow> proto_error + bytes)) list" where
  "encoders cfg =
     base_encoders cfg @ [(''bytes'', enc_bytes cfg), (''bytes_hex'', enc_bytes_hex cfg), (''string'', enc_string cfg)] @
     map (\<lambda>(n, enc). (''packed_'' @ n, enc_packed cfg enc)) (base_encoders cfg)"

text \<open>The members of \<open>BaseWireTypes\<close> and \<open>WireTypes\<close>.\<close>

definition base_wire_types :: "(string \<times> nat) list" where
  "base_wire_types =
     [(''VARINT'', 0), (''FIXED64'', 1), (''LENGTH_DELIMITED'', 2), (''START_GROUP'', 3), (''END_GROUP'', 4), (''FIXED32'', 5)]"

definition number_types :: "(string \<times> nat) list" where
  "number_types =
     [(''uint'', 0), (''int'', 0), (''sint'', 0), (''fixed32'', 5), (''sfixed32'', 5), (''float'', 5), (''fixed64'', 1),
      (''sfixed64'', 1), (''double'', 1)]"

definition wire_types :: "(string \<times> nat) list" where
  "wire_types =
     number_types @ [(''bytes'', 2), (''bytes_hex'', 2), (''string'', 2), (''message'', 2), (''group'', 3)] @
     map (\<lambda>(n, w). (''packed_'' @ n, 2)) number_types"

section \<open>Encoding\<close>

text \<open>\<open>int\<close> of a field number, a decimal with or without a minus sign.  A number below zero has no tag.\<close>

definition field_number :: "string \<Rightarrow> int option" where
  "field_number s =
     (case s of
        [] \<Rightarrow> None
      | c # digits \<Rightarrow> if c = CHR ''-'' then map_option (\<lambda>n. - int n) (parse_nat digits) else map_option int (parse_nat s))"

definition field_tag :: "string \<Rightarrow> nat \<Rightarrow> proto_error + bytes" where
  "field_tag number wire_type =
     (case field_number number of
        None \<Rightarrow> Inl OtherError
      | Some n \<Rightarrow> if n < 0 then Inl EncoderError else encoder_error (encode_tag (nat n) wire_type))"

text \<open>The encoded outputs of one entry, given how a nested message is encoded.\<close>

definition encode_outputs ::
  "bytes \<Rightarrow> bool \<Rightarrow> (('t, 'f) proto_value \<Rightarrow> proto_error + bytes) \<Rightarrow> ('t, 'f) proto_value \<Rightarrow> proto_error + bytes list" where
  "encode_outputs tag packed enc v =
     (case v of
        VList vs \<Rightarrow> if packed then encode_values (\<lambda>v. map_sum id ((@) tag) (enc v)) [v]
                    else encode_values (\<lambda>v. map_sum id ((@) tag) (enc v)) vs
      | _ \<Rightarrow> encode_values (\<lambda>v. map_sum id ((@) tag) (enc v)) [v])"

definition encode_message_field ::
  "('t, 'f) proto_config \<Rightarrow> (type_def \<Rightarrow> string list option \<Rightarrow> ('t, 'f) proto_value \<Rightarrow> proto_error + bytes) \<Rightarrow> type_def \<Rightarrow>
   string \<times> ('t, 'f) proto_value \<Rightarrow> proto_error + string \<times> bytes list" where
  "encode_message_field cfg enc_nested td item =
     (case lookup_fielddef td (fst item) of
        None \<Rightarrow> Inl EncoderError
      | Some (number, fd) \<Rightarrow>
          (case lookup_field_type (known_types cfg) fd (fst item) of
             Inl e \<Rightarrow> Inl e
           | Inr None \<Rightarrow> Inl EncoderError
           | Inr (Some (Nested td')) \<Rightarrow>
               (case field_tag number 2 of
                  Inl e \<Rightarrow> Inl e
                | Inr tag \<Rightarrow> map_sum id (Pair number) (encode_outputs tag False (enc_nested td' (fd_order fd)) (snd item)))
           | Inr (Some (Named t)) \<Rightarrow>
               (case (map_of (encoders cfg) t, map_of wire_types t) of
                  (Some enc, Some wire_type) \<Rightarrow>
                    (case field_tag number wire_type of
                       Inl e \<Rightarrow> Inl e
                     | Inr tag \<Rightarrow> map_sum id (Pair number) (encode_outputs tag (starts_with ''packed_'' t) enc (snd item)))
                | _ \<Rightarrow> Inl TypedefError)))"

text \<open>The entries in the order of the dictionary, up to the first error; entries of the same number are put together.\<close>

fun collect_outputs ::
  "(string \<times> ('t, 'f) proto_value \<Rightarrow> proto_error + string \<times> bytes list) \<Rightarrow> (string \<times> ('t, 'f) proto_value) list \<Rightarrow>
   (string \<times> bytes list) list \<Rightarrow> proto_error + (string \<times> bytes list) list" where
  "collect_outputs enc [] outs = Inr outs"
| "collect_outputs enc (item # items) outs =
     (case enc item of
        Inl e \<Rightarrow> Inl e
      | Inr (number, bs) \<Rightarrow> collect_outputs enc items (dict_set outs number (dict_get outs number [] @ bs)))"

text \<open>The loop over \<open>field_order\<close>: it stops at the first number for which nothing is left.\<close>

fun ordered_outputs :: "string list \<Rightarrow> (string \<times> bytes list) list \<Rightarrow> bytes \<Rightarrow> bytes \<times> (string \<times> bytes list) list" where
  "ordered_outputs [] outs acc = (acc, outs)"
| "ordered_outputs (k # order) outs acc =
     (case map_of outs k of Some (b # bs) \<Rightarrow> ordered_outputs order (dict_set outs k bs) (acc @ b) | _ \<Rightarrow> (acc, outs))"

definition join_outputs :: "bool \<Rightarrow> string list option \<Rightarrow> (string \<times> bytes list) list \<Rightarrow> bytes" where
  "join_outputs preserve order outs =
     (let n = length (concat (map snd outs));
          (out, rest) = (case order of
                           Some ks \<Rightarrow> if 0 < n \<and> preserve \<and> length ks = n then ordered_outputs ks outs [] else ([], outs)
                         | None \<Rightarrow> ([], outs))
      in out @ concat (concat (map snd rest)))"

text \<open>\<open>encode_message\<close>, and \<open>encode_lendelim_message\<close> for what is nested.  A value that is no dictionary has no items.\<close>

definition lendelim :: "proto_error + bytes \<Rightarrow> proto_error + bytes" where
  "lendelim r = (case r of Inl e \<Rightarrow> Inl e | Inr b \<Rightarrow> encoder_error (encode_bytes b))"

text \<open>What may be encoded as a nested message is the value of an entry, or an element of it.\<close>

definition parts :: "('t, 'f) proto_value \<Rightarrow> ('t, 'f) proto_value list" where
  "parts v = (case v of VList vs \<Rightarrow> v # vs | _ \<Rightarrow> [v])"

lemma encode_values_cong:
  "vs = vs' \<Longrightarrow> (\<And>v. v \<in> set vs' \<Longrightarrow> enc v = enc' v) \<Longrightarrow> encode_values enc vs = encode_values enc' vs'"
proof (induction vs arbitrary: vs')
  case (Cons v vs)
  then have "enc v = enc' v" "encode_values enc vs = encode_values enc' vs" by auto
  then show ?case using Cons.prems(1) by (auto split: sum.splits)
qed simp

lemma encode_outputs_cong:
  "v = v' \<Longrightarrow> (\<And>u. u \<in> set (parts v') \<Longrightarrow> enc u = enc' u) \<Longrightarrow>
   encode_outputs tag packed enc v = encode_outputs tag packed enc' v'"
  unfolding encode_outputs_def
  by (auto simp: parts_def intro!: encode_values_cong split: proto_value.splits simp del: encode_values.simps)

lemma encode_message_field_cong [fundef_cong]:
  assumes "cfg = cfg'" "td = td'" "item = item'" and "\<And>t o' u. u \<in> set (parts (snd item')) \<Longrightarrow> enc t o' u = enc' t o' u"
  shows "encode_message_field cfg enc td item = encode_message_field cfg' enc' td' item'"
proof -
  have "encode_outputs tag False (enc t o') (snd item') = encode_outputs tag False (enc' t o') (snd item')" for tag t o'
    by (rule encode_outputs_cong) (simp_all add: assms(4))
  then show ?thesis using assms(1-3) by (auto simp: encode_message_field_def split: option.splits sum.splits field_type.splits)
qed

lemma collect_outputs_cong [fundef_cong]:
  "items = items' \<Longrightarrow> outs = outs' \<Longrightarrow> (\<And>i. i \<in> set items' \<Longrightarrow> enc i = enc' i) \<Longrightarrow>
   collect_outputs enc items outs = collect_outputs enc' items' outs'"
  by (induction items arbitrary: items' outs outs') (auto split: sum.splits prod.splits)

lemma parts_size: "u \<in> set (parts (snd item)) \<Longrightarrow> item \<in> set items \<Longrightarrow> size u < size (VMsg items)"
proof -
  assume u: "u \<in> set (parts (snd item))" and i: "item \<in> set items"
  have "size u \<le> size (snd item)"
    using u by (auto simp: parts_def dest: size_list_estimation' [where f = size, OF _ order_refl] split: proto_value.splits)
  moreover have "size (snd item) < Suc (size_list (size_prod (\<lambda>x. 0) size) items)"
    using i by (intro size_member [of "fst item"]) simp
  ultimately show ?thesis by simp
qed

function encode_message ::
  "('t, 'f) proto_config \<Rightarrow> type_def \<Rightarrow> string list option \<Rightarrow> ('t, 'f) proto_value \<Rightarrow> proto_error + bytes" where
  "encode_message cfg td order (VMsg items) =
     (case collect_outputs
             (encode_message_field cfg (\<lambda>td' order' v. lendelim (encode_message cfg td' order' v)) td) items [] of
        Inl e \<Rightarrow> Inl e
      | Inr outs \<Rightarrow> Inr (join_outputs (preserve_field_order cfg) order outs))"
| "encode_message cfg td order (VInt i) = Inl OtherError"
| "encode_message cfg td order (VFloat x) = Inl OtherError"
| "encode_message cfg td order (VBytes b) = Inl OtherError"
| "encode_message cfg td order (VText s) = Inl OtherError"
| "encode_message cfg td order (VList vs) = Inl OtherError"
  by pat_completeness auto

termination encode_message
  by (relation "measure (\<lambda>(cfg, td, order, v). size v)") (auto dest: parts_size simp del: proto_value.size)

section \<open>Decoders\<close>

text \<open>The result of decoding: a value, an exception, or a loop that has not ended within the fuel.\<close>

datatype 'a answer = Answer 'a | Fails proto_error | Endless

definition andthen :: "'a answer \<Rightarrow> ('a \<Rightarrow> 'b answer) \<Rightarrow> 'b answer" where
  "andthen m f = (case m of Answer x \<Rightarrow> f x | Fails e \<Rightarrow> Fails e | Endless \<Rightarrow> Endless)"

definition of_sum :: "proto_error + 'a \<Rightarrow> 'a answer" where
  "of_sum r = (case r of Inl e \<Rightarrow> Fails e | Inr x \<Rightarrow> Answer x)"

definition decoded :: "('a \<Rightarrow> 'b) \<Rightarrow> wire_error + 'a \<times> int \<Rightarrow> ('b \<times> int) answer" where
  "decoded f r = (case r of Inl e \<Rightarrow> Fails DecoderError | Inr (x, p) \<Rightarrow> Answer (f x, p))"

definition dec_int ::
  "(bytes \<Rightarrow> int \<Rightarrow> wire_error + int \<times> int) \<Rightarrow> bytes \<Rightarrow> int \<Rightarrow> (('t, 'f) proto_value \<times> int) answer" where
  "dec_int dec buf pos = decoded VInt (dec buf pos)"

definition decode_float :: "('t, 'f) proto_config \<Rightarrow> nat \<Rightarrow> bytes \<Rightarrow> int \<Rightarrow> wire_error + 'f \<times> int" where
  "decode_float cfg width buf pos =
     (let chunk = py_slice buf pos (pos + int width)
      in if length chunk = width then Inr (unpack_float cfg chunk, pos + int width) else Inl StructError)"

definition packed_decoded ::
  "('a \<Rightarrow> ('t, 'f) proto_value) \<Rightarrow> (wire_error + 'a list \<times> int) option \<Rightarrow> (('t, 'f) proto_value \<times> int) answer" where
  "packed_decoded f r = (case r of None \<Rightarrow> Endless | Some s \<Rightarrow> decoded (\<lambda>vs. VList (map f vs)) s)"

definition decoders ::
  "('t, 'f) proto_config \<Rightarrow> (string \<times> (bytes \<Rightarrow> int \<Rightarrow> (('t, 'f) proto_value \<times> int) answer)) list" where
  "decoders cfg =
     (let ints = [(''uint'', decode_uvarint), (''int'', decode_varint), (''sint'', decode_svarint), (''fixed32'', decode_fixed 4),
            (''sfixed32'', decode_sfixed 4), (''fixed64'', decode_fixed 8), (''sfixed64'', decode_sfixed 8)];
          floats = [(''float'', decode_float cfg 4), (''double'', decode_float cfg 8)]
      in map (\<lambda>(n, dec). (n, dec_int dec)) ints @ map (\<lambda>(n, dec). (n, \<lambda>buf pos. decoded VFloat (dec buf pos))) floats @
         [(''bytes'', \<lambda>buf pos. decoded VBytes (decode_bytes buf pos)),
          (''bytes_hex'', \<lambda>buf pos. decoded (VBytes \<circ> hexlify) (decode_bytes buf pos)),
          (''string'', \<lambda>buf pos. decoded VText (decode_string (from_utf8 cfg) buf pos))] @
         map (\<lambda>(n, dec). (''packed_'' @ n, \<lambda>buf pos. packed_decoded VInt (decode_packed dec buf pos))) ints @
         map (\<lambda>(n, dec). (''packed_'' @ n, \<lambda>buf pos. packed_decoded VFloat (decode_packed dec buf pos))) floats)"

fun decode_each ::
  "(bytes \<Rightarrow> int \<Rightarrow> (('t, 'f) proto_value \<times> int) answer) \<Rightarrow> bytes list \<Rightarrow> ('t, 'f) proto_value list answer" where
  "decode_each dec [] = Answer []"
| "decode_each dec (b # bs) = andthen (dec b 0) (\<lambda>(v, p). andthen (decode_each dec bs) (\<lambda>vs. Answer (v # vs)))"

section \<open>Standard fields\<close>

text \<open>
  The loop over the types of a field, of which those that are messages are passed over.  \<open>BaseWireTypes\<close> is indexed by the name of the type,
  and has no member named like a standard type.  The first type that decodes all values is taken; one that fails with an
  exception of the codec is passed over.
\<close>

definition standard_type ::
  "('t, 'f) proto_config \<Rightarrow> nat \<Rightarrow> bytes list \<Rightarrow> string \<Rightarrow> ('t, 'f) proto_value list option answer" where
  "standard_type cfg wire_type buffers t =
     (case map_of base_wire_types t of
        None \<Rightarrow> Fails OtherError
      | Some w \<Rightarrow>
          if w \<noteq> wire_type then Fails DecoderError
          else (case map_of (decoders cfg) t of
                  None \<Rightarrow> Fails TypedefError
                | Some dec \<Rightarrow>
                    (case decode_each dec buffers of
                       Answer vs \<Rightarrow> Answer (Some vs)
                     | Fails e \<Rightarrow> if e = OtherError then Fails e else Answer None
                     | Endless \<Rightarrow> Endless)))"

fun standard_types ::
  "('t, 'f) proto_config \<Rightarrow> nat \<Rightarrow> bytes list \<Rightarrow> (string \<times> field_type) list \<Rightarrow>
   (string \<times> string \<times> ('t, 'f) proto_value list) option answer" where
  "standard_types cfg wire_type buffers [] = Answer None"
| "standard_types cfg wire_type buffers ((alt, Nested td) # types) = standard_types cfg wire_type buffers types"
| "standard_types cfg wire_type buffers ((alt, Named t) # types) =
     andthen (standard_type cfg wire_type buffers t)
       (\<lambda>r. case r of Some vs \<Rightarrow> Answer (Some (alt, t, vs)) | None \<Rightarrow> standard_types cfg wire_type buffers types)"

definition elements :: "('t, 'f) proto_value \<Rightarrow> ('t, 'f) proto_value list" where
  "elements v = (case v of VList vs \<Rightarrow> vs | _ \<Rightarrow> [v])"

definition decode_standard_field ::
  "('t, 'f) proto_config \<Rightarrow> nat \<Rightarrow> bytes list \<Rightarrow> field_def \<Rightarrow> (('t, 'f) proto_value list \<times> field_def \<times> string) answer" where
  "decode_standard_field cfg wire_type buffers fd =
     andthen (of_sum (resolve_types (known_types cfg) fd)) (\<lambda>types.
     andthen (standard_types cfg wire_type buffers types) (\<lambda>found.
     andthen (case found of
                Some r \<Rightarrow> Answer r
              | None \<Rightarrow>
                  andthen (of_sum (get_default_type cfg wire_type)) (\<lambda>t.
                  case map_of (decoders cfg) t of
                    None \<Rightarrow> Fails OtherError
                  | Some dec \<Rightarrow>
                      andthen (decode_each dec buffers) (\<lambda>vs.
                      case next_alt fd of None \<Rightarrow> Fails OtherError | Some n \<Rightarrow> Answer (str_nat n, t, vs))))
       (\<lambda>(alt, t, vs).
          let fd' = set_type alt (Named t) fd
          in if starts_with ''packed_'' t then Answer (concat (map elements vs), mark_repeated fd', alt)
             else Answer (vs, if 1 < length vs then mark_repeated fd' else fd', alt))))"

section \<open>Delimited fields\<close>

type_synonym ('t, 'f) proto_output = "(string \<times> ('t, 'f) proto_value list) list"

text \<open>What decoding a message returns: its entries, the completed definition, the order of the fields, and the position.\<close>

type_synonym ('t, 'f) decoded_message = "(string \<times> ('t, 'f) proto_value) list \<times> type_def \<times> string list \<times> int"

text \<open>The first message type that decodes a value; any exception passes on to the next.  \<open>dec\<close> decodes a delimited message.\<close>

fun try_message_types ::
  "(type_def option \<Rightarrow> bytes \<Rightarrow> ('t, 'f) decoded_message answer) \<Rightarrow> bytes \<Rightarrow> (string \<times> field_type) list \<Rightarrow>
   (string \<times> ('t, 'f) decoded_message) option answer" where
  "try_message_types dec buf [] = Answer None"
| "try_message_types dec buf ((alt, Named t) # types) = try_message_types dec buf types"
| "try_message_types dec buf ((alt, Nested td) # types) =
     (case dec (Some td) buf of
        Answer m \<Rightarrow> Answer (Some (alt, m))
      | Fails e \<Rightarrow> try_message_types dec buf types
      | Endless \<Rightarrow> Endless)"

text \<open>One turn over the values of a field, with its types so far, the next number for a type, the outputs by type and the longest
  order of fields.\<close>

fun decode_messages ::
  "(type_def option \<Rightarrow> bytes \<Rightarrow> ('t, 'f) decoded_message answer) \<Rightarrow> bytes list \<Rightarrow>
   (string \<times> field_type) list \<Rightarrow> nat \<Rightarrow> ('t, 'f) proto_output \<Rightarrow> string list \<Rightarrow>
   ((string \<times> field_type) list \<times> ('t, 'f) proto_output \<times> string list) answer" where
  "decode_messages dec [] types next_id outs order = Answer (types, outs, order)"
| "decode_messages dec (buf # bufs) types next_id outs order =
     andthen (try_message_types dec buf (sort_key (\<lambda>(n, t). the (parse_nat n)) types)) (\<lambda>found.
     andthen (case found of
                Some (alt, m) \<Rightarrow> Answer (alt, next_id, m)
              | None \<Rightarrow> andthen (dec None buf) (\<lambda>m. Answer (str_nat next_id, next_id + 1, m)))
       (\<lambda>(alt, next_id', items, td, new_order, p).
          decode_messages dec bufs (dict_set types alt (Nested td)) next_id'
            (dict_set outs alt (dict_get outs alt [] @ [VMsg items])) (if length order < length new_order then new_order else order)))"

definition as_messages ::
  "(type_def option \<Rightarrow> bytes \<Rightarrow> ('t, 'f) decoded_message answer) \<Rightarrow> ('t, 'f) proto_config \<Rightarrow> bytes list \<Rightarrow> field_def \<Rightarrow>
   (('t, 'f) proto_output \<times> field_def) answer" where
  "as_messages dec cfg buffers fd =
     (case next_alt fd of
        None \<Rightarrow> Fails OtherError
      | Some n \<Rightarrow>
          andthen (of_sum (resolve_types (known_types cfg) fd)) (\<lambda>types0.
          andthen (decode_messages dec buffers types0 n [] []) (\<lambda>(types, outs, order).
          let fd1 = set_types types fd;
              fd2 = (if preserve_field_order cfg then set_field_order order fd1 else fd1);
              fd3 = (if list_ex (\<lambda>(alt, vs). 1 < length vs) outs then mark_repeated fd2 else fd2)
          in Answer (map (\<lambda>(alt, vs). (field_key fd2 alt, vs)) outs, fd3))))"

text \<open>Strings, then the configured type, then bytes.\<close>

fun as_binary ::
  "('t, 'f) proto_config \<Rightarrow> bytes list \<Rightarrow> field_def \<Rightarrow> string list \<Rightarrow> (('t, 'f) proto_output \<times> field_def) answer" where
  "as_binary cfg buffers fd [] = Fails DecoderError"
| "as_binary cfg buffers fd (t # targets) =
     (case map_of (decoders cfg) t of
        None \<Rightarrow> Fails OtherError
      | Some dec \<Rightarrow>
          (case decode_each dec buffers of
             Endless \<Rightarrow> Endless
           | Fails e \<Rightarrow> if e = DecoderError then as_binary cfg buffers fd targets else Fails e
           | Answer vs \<Rightarrow>
               andthen (of_sum (resolve_types (known_types cfg) fd)) (\<lambda>types.
               case filter (\<lambda>(alt, ty). ty = Named t) types of
                 (alt, ty) # _ \<Rightarrow> Answer ([(field_key fd alt, vs)], fd)
               | [] \<Rightarrow>
                   (case next_alt fd of
                      None \<Rightarrow> Fails OtherError
                    | Some n \<Rightarrow> Answer ([(field_key fd (str_nat n), vs)], set_type (str_nat n) (Named t) fd)))))"

definition try_decode_lendelim_fields ::
  "(type_def option \<Rightarrow> bytes \<Rightarrow> ('t, 'f) decoded_message answer) \<Rightarrow> ('t, 'f) proto_config \<Rightarrow> bytes list \<Rightarrow> field_def \<Rightarrow>
   (('t, 'f) proto_output \<times> field_def) answer" where
  "try_decode_lendelim_fields dec cfg buffers fd =
     (case as_messages dec cfg buffers fd of
        Fails e \<Rightarrow>
          if e = DecoderError then as_binary cfg buffers fd [''string'', default_binary_type cfg, ''bytes''] else Fails e
      | r \<Rightarrow> r)"

section \<open>Decoding\<close>

text \<open>\<open>output.setdefault(key, []).extend(outputs)\<close> for each entry.\<close>

definition extend_output :: "('t, 'f) proto_output \<Rightarrow> ('t, 'f) proto_output \<Rightarrow> ('t, 'f) proto_output" where
  "extend_output output new = foldl (\<lambda>out (k, vs). dict_set out k (dict_get out k [] @ vs)) output new"

definition is_named :: "field_type option \<Rightarrow> bool" where
  "is_named t = (case t of Some (Named n) \<Rightarrow> True | _ \<Rightarrow> False)"

text \<open>One field: its outputs by key, and its completed definition.\<close>

definition decode_field ::
  "(type_def option \<Rightarrow> bytes \<Rightarrow> ('t, 'f) decoded_message answer) \<Rightarrow> ('t, 'f) proto_config \<Rightarrow> nat \<Rightarrow> bytes list \<Rightarrow> field_def \<Rightarrow>
   (('t, 'f) proto_output \<times> field_def) answer" where
  "decode_field dec cfg wire_type buffers fd =
     (let standard =
        andthen (decode_standard_field cfg wire_type buffers fd) (\<lambda>(vs, fd', alt). Answer ([(field_key fd' alt, vs)], fd'))
      in if wire_type = 2
         then andthen (of_sum (lookup_type_number (known_types cfg) fd ''0''))
                (\<lambda>t. if is_named t then standard else try_decode_lendelim_fields dec cfg buffers fd)
         else standard)"

fun decode_fields ::
  "(type_def option \<Rightarrow> bytes \<Rightarrow> ('t, 'f) decoded_message answer) \<Rightarrow> ('t, 'f) proto_config \<Rightarrow>
   (string \<times> nat \<times> bytes list) list \<Rightarrow> type_def \<Rightarrow> ('t, 'f) proto_output \<Rightarrow> (string \<times> bool) list \<Rightarrow>
   (type_def \<times> ('t, 'f) proto_output \<times> (string \<times> bool) list) answer" where
  "decode_fields dec cfg [] td output seen = Answer (td, output, seen)"
| "decode_fields dec cfg ((number, wire_type, buffers) # groups) td output seen =
     (let fd = dict_get (td_fields td) number (new_field number)
      in andthen (decode_field dec cfg wire_type buffers fd) (\<lambda>(new, fd').
         decode_fields dec cfg groups (set_fielddef td number fd') (extend_output output new)
           (dict_set seen (field_name fd) (fd_repeated fd'))))"

text \<open>\<open>_simplify_output\<close>: a list of one becomes its element, unless the field repeats.  The name of the field is what stands before the
  first dash of the key, and may be unknown.\<close>

fun simplify_output :: "('t, 'f) proto_output \<Rightarrow> (string \<times> bool) list \<Rightarrow> (string \<times> ('t, 'f) proto_value) list answer" where
  "simplify_output [] seen = Answer []"
| "simplify_output ((k, vs) # output) seen =
     andthen (case vs of
                [v] \<Rightarrow> (case map_of seen (before_dash k) of
                        None \<Rightarrow> Fails OtherError
                      | Some repeated \<Rightarrow> Answer (if repeated then VList vs else v))
              | _ \<Rightarrow> Answer (VList vs))
       (\<lambda>v. andthen (simplify_output output seen) (\<lambda>items. Answer ((k, v) # items)))"

definition grouped_fields :: "nat \<Rightarrow> bytes \<Rightarrow> int \<Rightarrow> int \<Rightarrow> ((string \<times> nat \<times> bytes list) list \<times> string list \<times> int) answer" where
  "grouped_fields fuel buf pos end_pos =
     (case group_by_number fuel buf pos end_pos [] [] of
        None \<Rightarrow> Endless
      | Some (Inl e) \<Rightarrow> Fails DecoderError
      | Some (Inr (groups, order, p)) \<Rightarrow> Answer (map (\<lambda>(n, g). (str_nat n, g)) groups, map str_nat order, p))"

text \<open>\<open>decode_message\<close>, and \<open>decode_lendelim_message\<close> for what is nested.  The fuel bounds both the fields of a message and the depth.\<close>

definition decode_lendelim ::
  "(bytes \<Rightarrow> ('t, 'f) proto_config \<Rightarrow> type_def option \<Rightarrow> int \<Rightarrow> int \<Rightarrow> ('t, 'f) decoded_message answer) \<Rightarrow> ('t, 'f) proto_config \<Rightarrow>
   type_def option \<Rightarrow> bytes \<Rightarrow> ('t, 'f) decoded_message answer" where
  "decode_lendelim dec cfg td buf =
     (case decode_varint buf 0 of Inl e \<Rightarrow> Fails DecoderError | Inr (len, p) \<Rightarrow> dec buf cfg td p (p + len))"

fun decode_message ::
  "nat \<Rightarrow> bytes \<Rightarrow> ('t, 'f) proto_config \<Rightarrow> type_def option \<Rightarrow> int \<Rightarrow> int \<Rightarrow> ('t, 'f) decoded_message answer" where
  "decode_message 0 buf cfg td pos end_pos = Endless"
| "decode_message (Suc n) buf cfg td pos end_pos =
     andthen (grouped_fields n buf pos end_pos) (\<lambda>(groups, order, p).
     andthen (decode_fields (decode_lendelim (decode_message n) cfg) cfg groups
                (type_mutable (case td of None \<Rightarrow> TypeDef [] [] | Some t \<Rightarrow> t)) [] [])
       (\<lambda>(td', output, seen).
     andthen (simplify_output output seen) (\<lambda>items. Answer (items, td', order, p))))"

declare decode_message.simps [simp del]

section \<open>The interface\<close>

text \<open>\<open>decode_message\<close> and \<open>encode_message\<close> of \<open>api.py\<close>.  A message type is a name, a dictionary, or missing.\<close>

datatype message_type = NoType | TypeName string | TypeOf type_dict

definition api_decode ::
  "nat \<Rightarrow> ('t, 'f) proto_config \<Rightarrow> message_type \<Rightarrow> bytes \<Rightarrow> (('t, 'f) proto_value \<times> type_dict) answer" where
  "api_decode fuel cfg message_type buf =
     (let td = (case message_type of
                  NoType \<Rightarrow> TypeDict []
                | TypeName n \<Rightarrow> dict_get (known_types cfg) n (TypeDict [])
                | TypeOf d \<Rightarrow> d)
      in andthen (decode_message fuel buf cfg (Some (type_from_dict td)) 0 (int (length buf)))
           (\<lambda>(items, td', order, p). Answer (VMsg items, type_to_dict td')))"

definition api_encode :: "('t, 'f) proto_config \<Rightarrow> message_type \<Rightarrow> ('t, 'f) proto_value \<Rightarrow> proto_error + bytes" where
  "api_encode cfg message_type v =
     (case message_type of
        NoType \<Rightarrow> Inl EncoderError
      | TypeName n \<Rightarrow>
          (case map_of (known_types cfg) n of None \<Rightarrow> Inl EncoderError | Some d \<Rightarrow> encode_message cfg (type_from_dict d) None v)
      | TypeOf d \<Rightarrow> encode_message cfg (type_from_dict d) None v)"

end
