(* ===== verification/ProtoReencode.thy ===== *)
theory ProtoReencode
  imports ProtoMessage
begin

text \<open>
  What decoding an unknown message and encoding the result again does to its bytes: nested messages keep theirs, and at the top level
  only fields of the same number move together.  The proofs go field by field; \<open>tidy\<close> says which messages.
\<close>

section \<open>Codecs that lose nothing\<close>

text \<open>What a field owes: each of its chunks decodes, to a value that is no list, which encodes to the chunk again.\<close>

locale lossless =
  fixes enc :: "('t, 'f) proto_value \<Rightarrow> proto_error + bytes"
    and dec :: "bytes \<Rightarrow> int \<Rightarrow> (('t, 'f) proto_value \<times> int) answer"
    and ok :: "bytes \<Rightarrow> bool"
  assumes restores: "ok c \<Longrightarrow> \<exists>v p. dec c 0 = Answer (v, p) \<and> enc v = Inr c \<and> elements v = [v]"
begin

lemma restores_each:
  "list_all ok cs \<Longrightarrow>
   \<exists>vs. decode_each dec cs = Answer vs \<and> encode_values enc vs = Inr cs \<and> length vs = length cs \<and> list_all (\<lambda>v. elements v = [v]) vs"
proof (induction cs)
  case (Cons c cs)
  then obtain vs where vs: "decode_each dec cs = Answer vs" "encode_values enc vs = Inr cs" "length vs = length cs"
    "list_all (\<lambda>v. elements v = [v]) vs" by auto
  from Cons.prems have "ok c" by simp
  then obtain v p where "dec c 0 = Answer (v, p)" "enc v = Inr c" "elements v = [v]" using restores by blast
  then show ?case using vs by (intro exI [of _ "v # vs"]) (simp add: andthen_def)
qed simp

end

lemma elements_simps [simp]:
  "elements (VInt i) = [VInt i]" "elements (VBytes b) = [VBytes b]" "elements (VText s) = [VText s]" "elements (VMsg m) = [VMsg m]"
  by (simp_all add: elements_def)

definition varint_chunk :: "bytes \<Rightarrow> bool" where
  "varint_chunk c \<longleftrightarrow> (\<exists>u. encode_uvarint u = Inr c)"

definition fixed_chunk :: "nat \<Rightarrow> bytes \<Rightarrow> bool" where
  "fixed_chunk width c \<longleftrightarrow> length c = width \<and> is_bytes c"

lemma varint_chunk_signed:
  assumes "varint_chunk c"
  shows "\<exists>v. encode_varint v = Inr c"
proof -
  obtain u where u: "encode_uvarint u = Inr c" "0 \<le> u" "u < 2 ^ 64" using assms by (auto simp: varint_chunk_def encode_uvarint_Inr)
  let ?v = "if 2 ^ 63 \<le> u then u - 2 ^ 64 else u"
  have "(if ?v < 0 then ?v + 2 ^ 64 else ?v) = u" using u(2,3) by auto
  then have "encode_varint ?v = Inr c" unfolding encode_varint_Inr using u by auto
  then show ?thesis by blast
qed

lemma zig_zag_back: "0 \<le> u \<Longrightarrow> encode_zig_zag (decode_zig_zag u) = u"
  unfolding decode_zig_zag_def encode_zig_zag_def by (cases "u mod 2 = 1") (simp_all, presburger+)

lemma varint_chunk_zig_zag:
  assumes "varint_chunk c"
  shows "\<exists>v. encode_svarint v = Inr c"
proof -
  obtain u where u: "encode_uvarint u = Inr c" "0 \<le> u" "u < 2 ^ 64" using assms by (auto simp: varint_chunk_def encode_uvarint_Inr)
  have "- (2 ^ 63) \<le> decode_zig_zag u" "decode_zig_zag u < 2 ^ 63" using u(2,3) by (auto simp: decode_zig_zag_def)
  then have "encode_svarint (decode_zig_zag u) = Inr c" unfolding encode_svarint_Inr using u by (simp add: zig_zag_back)
  then show ?thesis by blast
qed

lemma le_value_range: "is_bytes c \<Longrightarrow> le_value c < 256 ^ length c"
proof (induction c)
  case (Cons b c)
  then have "b < 256" "le_value c < 256 ^ length c" by simp_all
  then have "b + 256 * le_value c < 256 + 256 * (256 ^ length c - 1)" by linarith
  then show ?case by (simp add: right_diff_distrib')
qed simp

lemma le_bytes_value: "is_bytes c \<Longrightarrow> le_bytes (length c) (le_value c) = c"
  by (induction c) simp_all

lemma fixed_chunk_unsigned: "fixed_chunk w c \<Longrightarrow> \<exists>v. encode_fixed w v = Inr c"
  using le_value_range [of c] le_bytes_value [of c]
  by (intro exI [of _ "int (le_value c)"]) (auto simp: fixed_chunk_def encode_fixed_def)

lemma half_range:
  fixes u p :: int
  shows "0 \<le> u \<Longrightarrow> u < p \<Longrightarrow>
    - p \<le> 2 * (if p \<le> 2 * u then u - p else u) \<and> 2 * (if p \<le> 2 * u then u - p else u) < p"
  by auto

lemma fixed_chunk_signed:
  assumes "fixed_chunk w c"
  shows "\<exists>v. encode_sfixed w v = Inr c"
proof -
  let ?u = "int (le_value c)"
  let ?v = "if 256 ^ w \<le> 2 * ?u then ?u - 256 ^ w else ?u"
  have "?u < int (256 ^ length c)" using assms le_value_range [of c] unfolding fixed_chunk_def of_nat_less_iff by simp
  then have u: "?u < 256 ^ w" using assms by (simp add: fixed_chunk_def)
  have "?v mod 256 ^ w = ?u mod 256 ^ w" by simp
  then have "?v mod 256 ^ w = ?u" using u by simp
  moreover have "- (256 ^ w) \<le> 2 * ?v \<and> 2 * ?v < 256 ^ w" by (rule half_range) (use u in simp_all)
  ultimately have "encode_sfixed w ?v = Inr (le_bytes w (le_value c))" unfolding encode_sfixed_def by simp
  then show ?thesis using assms le_bytes_value [of c] by (auto simp: fixed_chunk_def)
qed

text \<open>A codec of the wire format restores the chunks that are encodings.\<close>

context wire_codec
begin

lemma reads_whole: "enc v = Inr c \<Longrightarrow> dec c 0 = Inr (v, int (length c))"
  using roundtrip [of v c "[]" "[]"] by simp

end

lemma int_restores:
  assumes "wire_codec enc dec" and "enc v = Inr c"
  shows "\<exists>v p. dec_int dec c 0 = Answer (v, p) \<and> enc_int enc v = Inr c \<and> elements v = [v]"
  using wire_codec.reads_whole [OF assms] assms(2)
  by (intro exI [of _ "VInt v"]) (simp add: dec_int_def decoded_def enc_int_def encoder_error_def)

interpretation uint_field: lossless "enc_int encode_uvarint" "dec_int decode_uvarint" varint_chunk
  by unfold_locales (unfold varint_chunk_def, blast intro: int_restores [OF uvarint.wire_codec_axioms])

interpretation int_field: lossless "enc_int encode_varint" "dec_int decode_varint" varint_chunk
  by unfold_locales (blast dest: varint_chunk_signed intro: int_restores [OF varint.wire_codec_axioms])

interpretation sint_field: lossless "enc_int encode_svarint" "dec_int decode_svarint" varint_chunk
  by unfold_locales (blast dest: varint_chunk_zig_zag intro: int_restores [OF svarint.wire_codec_axioms])

interpretation fixed_field: lossless "enc_int (encode_fixed (Suc k))" "dec_int (decode_fixed (Suc k))" "fixed_chunk (Suc k)" for k
  by unfold_locales (blast dest: fixed_chunk_unsigned intro: int_restores [OF fixed.wire_codec_axioms])

interpretation sfixed_field: lossless "enc_int (encode_sfixed (Suc k))" "dec_int (decode_sfixed (Suc k))" "fixed_chunk (Suc k)" for k
  by unfold_locales (blast dest: fixed_chunk_signed intro: int_restores [OF sfixed.wire_codec_axioms])

text \<open>Byte strings: raw, in hexadecimal, and as text where they are text.\<close>

definition bytes_chunk :: "bytes \<Rightarrow> bool" where
  "bytes_chunk c \<longleftrightarrow> (\<exists>w. encode_bytes w = Inr c \<and> is_bytes w)"

lemma unhexlify_hexlify: "is_bytes w \<Longrightarrow> unhexlify (hexlify w) = Some w"
proof (induction w)
  case (Cons x w)
  then have x: "x < 256" by simp
  have digit: "unhex_digit (hex_digit n) = Some n" if "n < 16" for n using that by (auto simp: unhex_digit_def hex_digit_def)
  have "unhex_digit (hex_digit (x div 16)) = Some (x div 16)" "unhex_digit (hex_digit (x mod 16)) = Some (x mod 16)"
    using x by (auto intro: digit)
  then show ?case using Cons by (simp add: hexlify_def)
qed (simp add: hexlify_def)

interpretation bytes_field: lossless "enc_bytes cfg" "\<lambda>buf pos. decoded VBytes (decode_bytes buf pos)" bytes_chunk for cfg
proof
  fix c assume "bytes_chunk c"
  then obtain w where w: "encode_bytes w = Inr c" by (auto simp: bytes_chunk_def)
  then show "\<exists>v p. decoded VBytes (decode_bytes c 0) = Answer (v, p) \<and> enc_bytes cfg v = Inr c \<and> elements v = [v]"
    using delimited.reads_whole [OF w]
    by (intro exI [of _ "VBytes w"]) (simp add: decoded_def enc_bytes_def encoder_error_def)
qed

interpretation hex_field: lossless "enc_bytes_hex cfg" "\<lambda>buf pos. decoded (VBytes \<circ> hexlify) (decode_bytes buf pos)" bytes_chunk for cfg
proof
  fix c assume "bytes_chunk c"
  then obtain w where w: "encode_bytes w = Inr c" "is_bytes w" by (auto simp: bytes_chunk_def)
  then show "\<exists>v p. decoded (VBytes \<circ> hexlify) (decode_bytes c 0) = Answer (v, p) \<and> enc_bytes_hex cfg v = Inr c \<and> elements v = [v]"
    using delimited.reads_whole [OF w(1)] unhexlify_hexlify [OF w(2)]
    by (intro exI [of _ "VBytes (hexlify w)"]) (simp add: decoded_def enc_bytes_hex_def encoder_error_def)
qed

section \<open>Groups of fields\<close>

text \<open>The members of a list, each at its first place.\<close>

definition firsts :: "'a list \<Rightarrow> 'a list" where
  "firsts xs = rev (remdups (rev xs))"

lemma firsts_simps [simp]: "firsts [] = []" "firsts (xs @ [x]) = (if x \<in> set xs then firsts xs else firsts xs @ [x])"
  by (simp_all add: firsts_def)

lemma firsts_set [simp]: "set (firsts xs) = set xs" and firsts_distinct [simp]: "distinct (firsts xs)"
  by (simp_all add: firsts_def)

definition chunks_of :: "wire_field list \<Rightarrow> nat \<Rightarrow> bytes list" where
  "chunks_of fs n = map (\<lambda>f. snd (snd f)) (filter (\<lambda>f. fst f = n) fs)"

definition same_number :: "wire_field list \<Rightarrow> wire_field list" where
  "same_number fs = concat (map (\<lambda>n. filter (\<lambda>f. fst f = n) fs) (firsts (map fst fs)))"

lemma dict_set_keyed:
  "inj h \<Longrightarrow> distinct ns \<Longrightarrow> k \<in> set ns \<Longrightarrow>
   dict_set (map (\<lambda>n. (h n, g n)) ns) (h k) v = map (\<lambda>n. (h n, if n = k then v else g n)) ns"
  by (induction ns) (auto simp: inj_eq)

lemma map_of_keyed: "inj h \<Longrightarrow> map_of (map (\<lambda>n. (h n, g n)) ns) (h k) = (if k \<in> set ns then Some (g k) else None)"
  by (induction ns) (auto simp: inj_eq)

lemma str_nat_inj_on: "inj str_nat"
  by (rule injI) simp

lemma dict_set_image:
  "distinct ns \<Longrightarrow> dict_set (map (\<lambda>n. (n, g n)) ns) k v =
     (if k \<in> set ns then map (\<lambda>n. (n, if n = k then v else g n)) ns else map (\<lambda>n. (n, g n)) ns @ [(k, v)])"
  by (induction ns) auto

lemma map_of_image: "map_of (map (\<lambda>n. (n, g n)) ns) k = (if k \<in> set ns then Some (g k) else None)"
  by (induction ns) auto

lemma groups_of:
  assumes "\<forall>(n, wt, c) \<in> set fs. wt = type_of n"
  shows "foldl add_field [] fs = map (\<lambda>n. (n, type_of n, chunks_of fs n)) (firsts (map fst fs))"
  using assms
proof (induction fs rule: rev_induct)
  case (snoc f fs)
  obtain n wt c where f: "f = (n, wt, c)" by (cases f)
  have wt: "wt = type_of n" using snoc.prems f by auto
  have IH: "foldl add_field [] fs = map (\<lambda>n. (n, type_of n, chunks_of fs n)) (firsts (map fst fs))"
    using snoc.prems by (intro snoc.IH) auto
  have other: "chunks_of (fs @ [f]) m = chunks_of fs m" if "m \<noteq> n" for m using that f by (simp add: chunks_of_def)
  have here: "chunks_of (fs @ [f]) n = chunks_of fs n @ [c]" using f by (simp add: chunks_of_def)
  have absent: "chunks_of fs n = []" if "n \<notin> fst ` set fs"
    using that by (auto simp: chunks_of_def filter_empty_conv)
  show ?case
  proof (cases "n \<in> fst ` set fs")
    case True
    have "map (\<lambda>m. (m, if m = n then (wt, chunks_of fs n @ [c]) else (type_of m, chunks_of fs m))) (firsts (map fst fs)) =
        map (\<lambda>m. (m, type_of m, chunks_of (fs @ [f]) m)) (firsts (map fst fs))"
      by (rule map_cong) (simp_all add: here other wt)
    then show ?thesis using True
      by (simp add: IH dict_set_image map_of_image) (simp add: add_field_def dict_set_image map_of_image f wt here [unfolded f wt] other [unfolded f wt])
  next
    case False
    have "map (\<lambda>m. (m, type_of m, chunks_of (fs @ [f]) m)) (firsts (map fst fs)) =
        map (\<lambda>m. (m, type_of m, chunks_of fs m)) (firsts (map fst fs))"
    proof (intro map_cong refl)
      fix m assume "m \<in> set (firsts (map fst fs))"
      then have "m \<noteq> n" using False by auto
      then show "(m, type_of m, chunks_of (fs @ [f]) m) = (m, type_of m, chunks_of fs m)" by (simp add: other)
    qed
    then show ?thesis using False
      by (simp add: IH) (simp add: add_field_def dict_set_image map_of_image f wt here [unfolded f wt] absent)
  qed
qed simp

text \<open>The bytes of a message, field by field.\<close>

definition tag_of :: "nat \<Rightarrow> nat \<Rightarrow> bytes" where
  "tag_of n wt = projr (encode_tag n wt)"

definition field_bytes :: "wire_field \<Rightarrow> bytes" where
  "field_bytes f = (case f of (n, wt, c) \<Rightarrow> tag_of n wt @ c)"

lemma message_bytes_fields:
  "message_bytes fs = Inr msg \<longleftrightarrow>
     (\<forall>(n, wt, c) \<in> set fs. encode_tag n wt = Inr (tag_of n wt)) \<and> msg = concat (map field_bytes fs)"
proof (induction fs arbitrary: msg)
  case (Cons f fs)
  obtain n wt c where f: "f = (n, wt, c)" by (cases f)
  show ?case
  proof (cases "encode_tag n wt")
    case (Inl e)
    then show ?thesis by (simp add: f)
  next
    case (Inr tag)
    then have tag: "tag_of n wt = tag" by (simp add: tag_of_def)
    show ?thesis
    proof (cases "message_bytes fs")
      case (Inl e)
      then have "\<not> (\<forall>(n, wt, c) \<in> set fs. encode_tag n wt = Inr (tag_of n wt))" using Cons.IH [of "concat (map field_bytes fs)"] by simp
      then show ?thesis using Inl Inr by (auto simp: f)
    next
      case (Inr rest)
      then have "\<forall>(n, wt, c) \<in> set fs. encode_tag n wt = Inr (tag_of n wt)" "rest = concat (map field_bytes fs)"
        using Cons.IH [of rest] by simp_all
      then show ?thesis using Inr \<open>encode_tag n wt = Inr tag\<close> tag by (simp add: f, auto simp: field_bytes_def)
    qed
  qed
qed auto

lemma message_bytes_same_number:
  assumes "message_bytes fs = Inr msg"
  shows "message_bytes (same_number fs) = Inr (concat (map field_bytes (same_number fs)))"
  using assms by (auto simp: message_bytes_fields same_number_def)

section \<open>Encoding a completed definition\<close>

text \<open>Numbers of fields are their own names.\<close>

lemma str_nat_no_dash: "CHR ''-'' \<notin> set (str_nat n)"
  using str_nat_digits [of n] by (auto simp: list_all_iff is_digit_def)

lemma before_dash_number [simp]: "before_dash (str_nat n) = str_nat n"
  using str_nat_no_dash [of n] by (auto simp: before_dash_def takeWhile_eq_all_conv)

lemma after_dash_number [simp]: "after_dash (str_nat n) = None"
  using str_nat_no_dash [of n] by (simp add: after_dash_def)

lemma field_number_str_nat [simp]: "field_number (str_nat n) = Some (int n)"
  using str_nat_no_dash [of n] by (cases "str_nat n") (auto simp: field_number_def simp flip: parse_str_nat [of n])

lemma field_tag_str_nat: "encode_tag n wt = Inr tag \<Longrightarrow> field_tag (str_nat n) wt = Inr tag"
  by (simp add: field_tag_def encoder_error_def)

text \<open>What a field of one type became when its values were encoded; \<open>solo\<close> is the value of its entry.\<close>

abbreviation nested_encoder ::
  "('t, 'f) proto_config \<Rightarrow> type_def \<Rightarrow> string list option \<Rightarrow> ('t, 'f) proto_value \<Rightarrow> proto_error + bytes" where
  "nested_encoder cfg \<equiv> \<lambda>td order v. lendelim (encode_message cfg td order v)"

definition type_encodes ::
  "('t, 'f) proto_config \<Rightarrow> field_type \<Rightarrow> string list option \<Rightarrow> ('t, 'f) proto_value list \<Rightarrow> nat \<Rightarrow> bytes list \<Rightarrow> bool" where
  "type_encodes cfg ty order vs wt cs \<longleftrightarrow>
     (case ty of
        Named t \<Rightarrow> t \<noteq> [] \<and> t \<noteq> ''message'' \<and> \<not> starts_with ''packed_'' t \<and> map_of wire_types t = Some wt \<and>
          (\<exists>enc. map_of (encoders cfg) t = Some enc \<and> encode_values enc vs = Inr cs)
      | Nested td \<Rightarrow> wt = 2 \<and> encode_values (nested_encoder cfg td order) vs = Inr cs)"

definition solo :: "('t, 'f) proto_value list \<Rightarrow> ('t, 'f) proto_value" where
  "solo vs = (case vs of [v] \<Rightarrow> v | _ \<Rightarrow> VList vs)"

lemma encode_values_tag:
  "encode_values (\<lambda>v. map_sum id ((@) tag) (enc v)) vs = map_sum id (map ((@) tag)) (encode_values enc vs)"
  by (induction vs) (auto split: sum.splits)

lemma encode_outputs_solo:
  assumes "list_all (\<lambda>v. elements v = [v]) vs"
  shows "encode_outputs tag False enc (solo vs) = map_sum id (map ((@) tag)) (encode_values enc vs)"
proof -
  consider (one) v where "vs = [v]" | (many) "solo vs = VList vs"
    by (cases vs rule: remdups_adj.cases) (simp_all add: solo_def)
  then show ?thesis
  proof cases
    case one
    then have "elements v = [v]" using assms by simp
    then have "encode_outputs tag False enc v = encode_values (\<lambda>v. map_sum id ((@) tag) (enc v)) [v]"
      by (cases v) (auto simp: encode_outputs_def elements_def)
    then show ?thesis using one by (simp only: encode_values_tag) (simp add: solo_def)
  next
    case many
    then show ?thesis by (simp add: encode_outputs_def encode_values_tag)
  qed
qed

lemma encode_plain_field:
  assumes "td_names td = []" and "map_of (td_fields td) (str_nat n) = Some (FieldDef None k None [(''0'', ty)] rep order)"
    and "type_encodes cfg ty order vs wt cs" and "encode_tag n wt = Inr tag" and "list_all (\<lambda>v. elements v = [v]) vs"
  shows "encode_message_field cfg (nested_encoder cfg) td (str_nat n, solo vs) = Inr (str_nat n, map ((@) tag) cs)"
proof (cases ty)
  case (Named t)
  then show ?thesis
    using assms field_tag_str_nat [OF assms(4)] encode_outputs_solo [OF assms(5)]
    by (auto simp: encode_message_field_def lookup_fielddef_def dict_get_def lookup_field_type_def lookup_type_number_def
        type_encodes_def)
next
  case (Nested td')
  then show ?thesis
    using assms field_tag_str_nat [OF assms(4)] encode_outputs_solo [OF assms(5)]
    by (auto simp: encode_message_field_def lookup_fielddef_def dict_get_def lookup_field_type_def lookup_type_number_def
        type_encodes_def)
qed

text \<open>Every entry of a message encodes to the fields of one number.\<close>

definition entries_encode ::
  "('t, 'f) proto_config \<Rightarrow> type_def \<Rightarrow> wire_field list \<Rightarrow> (string \<times> ('t, 'f) proto_value) list \<Rightarrow> bool" where
  "entries_encode cfg td fs items \<longleftrightarrow>
     list_all2 (\<lambda>n item. encode_message_field cfg (nested_encoder cfg) td item =
         Inr (str_nat n, map field_bytes (filter (\<lambda>f. fst f = n) fs)))
       (firsts (map fst fs)) items"

lemma collect_encoded:
  "list_all2 (\<lambda>n item. enc item = Inr (str_nat n, g n)) ns items \<Longrightarrow> distinct ns \<Longrightarrow>
   \<forall>n \<in> set ns. str_nat n \<notin> set (keys outs) \<Longrightarrow>
   collect_outputs enc items outs = Inr (outs @ map (\<lambda>n. (str_nat n, g n)) ns)"
proof (induction ns items arbitrary: outs rule: list_all2_induct)
  case (Cons n ns item items)
  have "str_nat n \<notin> set (keys outs)" using Cons.prems(2) by simp
  then have "dict_set outs (str_nat n) (dict_get outs (str_nat n) [] @ g n) = outs @ [(str_nat n, g n)]"
    by (simp add: dict_set_append_new dict_get_def map_of_eq_None_iff [THEN iffD2])
  moreover have "collect_outputs enc items (outs @ [(str_nat n, g n)]) =
      Inr ((outs @ [(str_nat n, g n)]) @ map (\<lambda>n. (str_nat n, g n)) ns)"
    using Cons.prems by (intro Cons.IH) auto
  ultimately show ?case using Cons.hyps(1) by simp
qed simp

lemma mset_by_number:
  "distinct ns \<Longrightarrow> mset (concat (map (\<lambda>n. filter (\<lambda>f. h f = n) fs) ns)) = mset (filter (\<lambda>f. h f \<in> set ns) fs)"
proof (induction ns)
  case (Cons n ns)
  then have "n \<notin> set ns" by simp
  then have "mset (filter (\<lambda>f. h f \<in> set (n # ns)) fs) = mset (filter (\<lambda>f. h f = n) fs) + mset (filter (\<lambda>f. h f \<in> set ns) fs)"
    by (induction fs) auto
  then show ?case using Cons by simp
qed simp

lemma same_number_mset: "mset (same_number fs) = mset fs"
proof -
  have "filter (\<lambda>f. fst f \<in> set (firsts (map fst fs))) fs = fs" by (simp add: filter_id_conv)
  then show ?thesis using mset_by_number [of "firsts (map fst fs)" fst fs] by (simp add: same_number_def del: firsts_set)
qed

text \<open>The loop over the order puts the fields back in theirs.\<close>

lemma ordered_all:
  "distinct ns \<Longrightarrow> fst ` set fs \<subseteq> set ns \<Longrightarrow>
   ordered_outputs (map (\<lambda>f. str_nat (fst f)) fs) (map (\<lambda>n. (str_nat n, map field_bytes (filter (\<lambda>f. fst f = n) fs))) ns) acc =
     (acc @ concat (map field_bytes fs), map (\<lambda>n. (str_nat n, [])) ns)"
proof (induction fs arbitrary: acc)
  case (Cons f fs)
  let ?g = "\<lambda>fs n. map field_bytes (filter (\<lambda>f. fst f = n) fs)"
  have "map_of (map (\<lambda>n. (str_nat n, ?g (f # fs) n)) ns) (str_nat (fst f)) = Some (field_bytes f # ?g fs (fst f))"
    using Cons.prems by (subst map_of_keyed [OF str_nat_inj_on]) simp
  moreover have "dict_set (map (\<lambda>n. (str_nat n, ?g (f # fs) n)) ns) (str_nat (fst f)) (?g fs (fst f)) =
      map (\<lambda>n. (str_nat n, ?g fs n)) ns"
    using Cons.prems by (subst dict_set_keyed [OF str_nat_inj_on]) (auto intro!: map_cong)
  ultimately show ?case using Cons by simp
qed simp

lemma entries_encode_outputs:
  assumes "entries_encode cfg td fs items"
  shows "encode_message cfg td order (VMsg items) =
    Inr (join_outputs (preserve_field_order cfg) order
      (map (\<lambda>n. (str_nat n, map field_bytes (filter (\<lambda>f. fst f = n) fs))) (firsts (map fst fs))))"
  using collect_encoded [OF assms [unfolded entries_encode_def], of "[]"] by simp

lemma outputs_of_numbers:
  "concat (map snd (map (\<lambda>n. (str_nat n, map field_bytes (filter (\<lambda>f. fst f = n) fs))) ns)) =
   map field_bytes (concat (map (\<lambda>n. filter (\<lambda>f. fst f = n) fs) ns))"
  by (induction ns) simp_all

lemma encode_in_order:
  assumes "entries_encode cfg td fs items" and "preserve_field_order cfg"
  shows "encode_message cfg td (Some (map (\<lambda>f. str_nat (fst f)) fs)) (VMsg items) = Inr (concat (map field_bytes fs))"
proof (cases "fs = []")
  case True
  then show ?thesis unfolding entries_encode_outputs [OF assms(1)] by (simp add: join_outputs_def)
next
  case False
  let ?outs = "map (\<lambda>n. (str_nat n, map field_bytes (filter (\<lambda>f. fst f = n) fs))) (firsts (map fst fs))"
  have "length (concat (map snd ?outs)) = length (same_number fs)" unfolding outputs_of_numbers by (simp add: same_number_def)
  also have "\<dots> = length fs" using same_number_mset mset_eq_length by blast
  finally have len: "length (concat (map snd ?outs)) = length fs" .
  have "ordered_outputs (map (\<lambda>f. str_nat (fst f)) fs) ?outs [] = ([] @ concat (map field_bytes fs), map (\<lambda>n. (str_nat n, [])) (firsts (map fst fs)))"
    by (rule ordered_all) simp_all
  moreover have "concat (concat (map snd (map (\<lambda>n. (str_nat n, [])) (firsts (map fst fs))))) = ([] :: bytes)" by simp
  ultimately show ?thesis using False assms(2)
    unfolding entries_encode_outputs [OF assms(1)] join_outputs_def Let_def len by simp
qed

lemma encode_unordered:
  assumes "entries_encode cfg td fs items"
  shows "encode_message cfg td None (VMsg items) = Inr (concat (map field_bytes (same_number fs)))"
  unfolding entries_encode_outputs [OF assms] join_outputs_def Let_def option.case prod.case outputs_of_numbers
  by (simp add: same_number_def)

section \<open>Decoding an unknown field\<close>

lemma str_nat_zero [simp]: "str_nat 0 = ''0''"
  by code_simp

lemma andthen_simps [simp]:
  "andthen (Answer x) f = f x" "andthen (Fails e) f = Fails e" "andthen Endless f = Endless"
  by (simp_all add: andthen_def)

text \<open>The default types of numbers that lose nothing; all but the floating-point ones.\<close>

definition lossless_defaults :: "('t, 'f) proto_config \<Rightarrow> bool" where
  "lossless_defaults cfg \<longleftrightarrow>
     (\<exists>t. get_default_type cfg 0 = Inr t \<and> t \<in> {''int'', ''uint'', ''sint''}) \<and>
     (\<exists>t. get_default_type cfg 1 = Inr t \<and> t \<in> {''fixed64'', ''sfixed64''}) \<and>
     (\<exists>t. get_default_type cfg 5 = Inr t \<and> t \<in> {''fixed32'', ''sfixed32''}) \<and>
     default_binary_type cfg \<in> {''bytes'', ''bytes_hex''}"

definition number_chunk :: "nat \<Rightarrow> bytes \<Rightarrow> bool" where
  "number_chunk wt c \<longleftrightarrow> wt = 0 \<and> varint_chunk c \<or> wt = 1 \<and> fixed_chunk 8 c \<or> wt = 5 \<and> fixed_chunk 4 c"

lemmas width_4 = fixed_field.restores_each [of 3, simplified] sfixed_field.restores_each [of 3, simplified]
lemmas width_8 = fixed_field.restores_each [of 7, simplified] sfixed_field.restores_each [of 7, simplified]
lemmas each_restored = uint_field.restores_each int_field.restores_each sint_field.restores_each width_4 width_8

lemma scalar_tables:
  "map_of (decoders cfg) ''uint'' = Some (dec_int decode_uvarint)" "map_of (encoders cfg) ''uint'' = Some (enc_int encode_uvarint)"
  "map_of (decoders cfg) ''int'' = Some (dec_int decode_varint)" "map_of (encoders cfg) ''int'' = Some (enc_int encode_varint)"
  "map_of (decoders cfg) ''sint'' = Some (dec_int decode_svarint)" "map_of (encoders cfg) ''sint'' = Some (enc_int encode_svarint)"
  "map_of (decoders cfg) ''fixed32'' = Some (dec_int (decode_fixed 4))" "map_of (encoders cfg) ''fixed32'' = Some (enc_int (encode_fixed 4))"
  "map_of (decoders cfg) ''sfixed32'' = Some (dec_int (decode_sfixed 4))" "map_of (encoders cfg) ''sfixed32'' = Some (enc_int (encode_sfixed 4))"
  "map_of (decoders cfg) ''fixed64'' = Some (dec_int (decode_fixed 8))" "map_of (encoders cfg) ''fixed64'' = Some (enc_int (encode_fixed 8))"
  "map_of (decoders cfg) ''sfixed64'' = Some (dec_int (decode_sfixed 8))" "map_of (encoders cfg) ''sfixed64'' = Some (enc_int (encode_sfixed 8))"
  by (simp_all add: decoders_def encoders_def base_encoders_def)

lemma binary_tables:
  "map_of (decoders cfg) ''string'' = Some (\<lambda>buf pos. decoded VText (decode_string (from_utf8 cfg) buf pos))"
  "map_of (encoders cfg) ''string'' = Some (enc_string cfg)"
  "map_of (decoders cfg) ''bytes'' = Some (\<lambda>buf pos. decoded VBytes (decode_bytes buf pos))"
  "map_of (encoders cfg) ''bytes'' = Some (enc_bytes cfg)"
  "map_of (decoders cfg) ''bytes_hex'' = Some (\<lambda>buf pos. decoded (VBytes \<circ> hexlify) (decode_bytes buf pos))"
  "map_of (encoders cfg) ''bytes_hex'' = Some (enc_bytes_hex cfg)"
  by (simp_all add: decoders_def encoders_def base_encoders_def)

lemma wire_type_table:
  "map_of wire_types ''uint'' = Some 0" "map_of wire_types ''int'' = Some 0" "map_of wire_types ''sint'' = Some 0"
  "map_of wire_types ''fixed32'' = Some 5" "map_of wire_types ''sfixed32'' = Some 5"
  "map_of wire_types ''fixed64'' = Some 1" "map_of wire_types ''sfixed64'' = Some 1"
  "map_of wire_types ''string'' = Some 2" "map_of wire_types ''bytes'' = Some 2" "map_of wire_types ''bytes_hex'' = Some 2"
  by (simp_all add: wire_types_def number_types_def)

text \<open>How an unknown field decodes: to the values of one type, under the number as its key, and so that they encode again, also under
  the type definition read back from its dictionary.\<close>

definition type_again :: "field_type \<Rightarrow> field_type" where
  "type_again ty = alt_from_dict (alt_to_dict ty)"

definition order_again :: "string list option \<Rightarrow> string list option" where
  "order_again order = (if truthy order then order else None)"

lemma field_again:
  assumes "ty \<noteq> Named []"
  shows "field_from_dict k (field_to_dict (FieldDef None k' None [(''0'', ty)] rep order)) =
    FieldDef None k None [(''0'', type_again ty)] rep (order_again order)"
  using assms by (cases ty) (simp_all add: truthy_def Let_def type_again_def order_again_def)

definition field_decodes ::
  "(type_def option \<Rightarrow> bytes \<Rightarrow> ('t, 'f) decoded_message answer) \<Rightarrow> ('t, 'f) proto_config \<Rightarrow> string \<Rightarrow> nat \<Rightarrow> bytes list \<Rightarrow>
   ('t, 'f) proto_value list \<times> field_type \<times> bool \<times> string list option \<Rightarrow> bool" where
  "field_decodes dec cfg k wt cs r \<longleftrightarrow>
     (case r of (vs, ty, rep, order) \<Rightarrow>
        decode_field dec cfg wt cs (new_field k) = Answer ([(k, vs)], FieldDef None k None [(''0'', ty)] rep order) \<and>
        list_all (\<lambda>v. elements v = [v]) vs \<and> (length vs = 1 \<longrightarrow> \<not> rep) \<and> ty \<noteq> Named [] \<and>
        type_encodes cfg ty order vs wt cs \<and> type_encodes cfg (type_again ty) (order_again order) vs wt cs)"

lemma number_types_restore:
  assumes "lossless_defaults cfg" and "wt \<in> {0, 1, 5}" and "list_all (number_chunk wt) cs"
  shows "\<exists>t dec enc vs. get_default_type cfg wt = Inr t \<and> map_of (decoders cfg) t = Some dec \<and> map_of (encoders cfg) t = Some enc \<and>
    map_of wire_types t = Some wt \<and> decode_each dec cs = Answer vs \<and> encode_values enc vs = Inr cs \<and> length vs = length cs \<and>
    list_all (\<lambda>v. elements v = [v]) vs \<and> t \<noteq> [] \<and> t \<noteq> ''message'' \<and> \<not> starts_with ''packed_'' t"
proof -
  have chunks: "wt = 0 \<Longrightarrow> list_all varint_chunk cs" "wt = 1 \<Longrightarrow> list_all (fixed_chunk 8) cs" "wt = 5 \<Longrightarrow> list_all (fixed_chunk 4) cs"
    using assms(3) by (auto simp: number_chunk_def list_all_iff)
  consider t where "wt = 0" "get_default_type cfg 0 = Inr t" "t = ''uint'' \<or> t = ''int'' \<or> t = ''sint''"
    | t where "wt = 1" "get_default_type cfg 1 = Inr t" "t = ''fixed64'' \<or> t = ''sfixed64''"
    | t where "wt = 5" "get_default_type cfg 5 = Inr t" "t = ''fixed32'' \<or> t = ''sfixed32''"
    using assms(1,2) unfolding lossless_defaults_def by blast
  then show ?thesis
  proof cases
    case 1
    then show ?thesis using each_restored(1-3) [OF chunks(1) [OF 1(1)]]
      by (elim disjE) (fastforce simp: scalar_tables wire_type_table)+
  next
    case 2
    then show ?thesis using width_8 [OF chunks(2) [OF 2(1)]]
      by (elim disjE) (fastforce simp: scalar_tables wire_type_table)+
  next
    case 3
    then show ?thesis using width_4 [OF chunks(3) [OF 3(1)]]
      by (elim disjE) (fastforce simp: scalar_tables wire_type_table)+
  qed
qed

lemma number_field_decodes:
  assumes "lossless_defaults cfg" and "wt \<in> {0, 1, 5}" and "list_all (number_chunk wt) cs"
  shows "\<exists>r. field_decodes dec cfg k wt cs r"
proof -
  obtain t d enc vs where t: "get_default_type cfg wt = Inr t" "map_of (decoders cfg) t = Some d" "map_of (encoders cfg) t = Some enc"
      "map_of wire_types t = Some wt" "decode_each d cs = Answer vs" "encode_values enc vs = Inr cs" "length vs = length cs"
      "list_all (\<lambda>v. elements v = [v]) vs" "t \<noteq> []" "t \<noteq> ''message''" "\<not> starts_with ''packed_'' t"
    using number_types_restore [OF assms] by blast
  have "decode_field dec cfg wt cs (new_field k) = Answer ([(k, vs)], FieldDef None k None [(''0'', Named t)] (1 < length vs) None)"
    using assms(2) t by (auto simp: decode_field_def decode_standard_field_def resolve_types_def new_field_def of_sum_def next_alt_def set_type_def field_key_def field_name_def Let_def)
  moreover have "type_encodes cfg (Named t) None vs wt cs" using t by (simp add: type_encodes_def)
  ultimately have "field_decodes dec cfg k wt cs (vs, Named t, 1 < length vs, None)"
    using t by (simp add: field_decodes_def type_again_def order_again_def truthy_def)
  then show ?thesis by blast
qed

text \<open>A delimited value that is no message, at any fuel that suffices for its bytes.\<close>

definition no_message :: "('t, 'f) proto_config \<Rightarrow> bytes \<Rightarrow> bool" where
  "no_message cfg c \<longleftrightarrow> (\<forall>fuel \<ge> length c. decode_lendelim (decode_message fuel) cfg None c = Fails DecoderError)"

text \<open>Text that decodes is what encodes to the same bytes.\<close>

definition utf8_faithful :: "('t, 'f) proto_config \<Rightarrow> bool" where
  "utf8_faithful cfg \<longleftrightarrow> (\<forall>b s. from_utf8 cfg b = Some s \<longrightarrow> utf8 cfg s = b)"

abbreviation text_decoder :: "('t, 'f) proto_config \<Rightarrow> bytes \<Rightarrow> int \<Rightarrow> (('t, 'f) proto_value \<times> int) answer" where
  "text_decoder cfg \<equiv> \<lambda>buf pos. decoded VText (decode_string (from_utf8 cfg) buf pos)"

lemma string_chunk:
  assumes "utf8_faithful cfg" and "bytes_chunk c"
  shows "text_decoder cfg c 0 = Fails DecoderError \<or>
    (\<exists>v p. text_decoder cfg c 0 = Answer (v, p) \<and> enc_string cfg v = Inr c \<and> elements v = [v])"
proof -
  obtain w where w: "encode_bytes w = Inr c" using assms(2) by (auto simp: bytes_chunk_def)
  obtain len p where d: "decode_varint c 0 = Inr (len, p)" "py_slice c p (p + len) = w"
    using delimited.reads_whole [OF w] by (auto simp: decode_bytes_def split: sum.splits)
  show ?thesis
  proof (cases "from_utf8 cfg w")
    case None
    then show ?thesis using d by (simp add: decode_string_def decoded_def)
  next
    case (Some s)
    then have "utf8 cfg s = w" using assms(1) by (simp add: utf8_faithful_def)
    then show ?thesis using d w Some
      by (simp add: decode_string_def decoded_def enc_string_def encode_string_def encoder_error_def)
  qed
qed

lemma string_chunks:
  assumes "utf8_faithful cfg"
  shows "list_all bytes_chunk cs \<Longrightarrow>
    decode_each (text_decoder cfg) cs = Fails DecoderError \<or>
    (\<exists>vs. decode_each (text_decoder cfg) cs = Answer vs \<and>
       encode_values (enc_string cfg) vs = Inr cs \<and> list_all (\<lambda>v. elements v = [v]) vs)"
proof (induction cs)
  case (Cons c cs)
  have "bytes_chunk c" using Cons.prems by simp
  from string_chunk [OF assms this] show ?case
  proof
    assume "text_decoder cfg c 0 = Fails DecoderError"
    then show ?thesis by simp
  next
    assume "\<exists>v p. text_decoder cfg c 0 = Answer (v, p) \<and> enc_string cfg v = Inr c \<and> elements v = [v]"
    then obtain v p where v: "text_decoder cfg c 0 = Answer (v, p)" "enc_string cfg v = Inr c" "elements v = [v]" by blast
    have "list_all bytes_chunk cs" using Cons.prems by simp
    from Cons.IH [OF this] show ?thesis
    proof
      assume "decode_each (text_decoder cfg) cs = Fails DecoderError"
      then show ?thesis using v by simp
    next
      assume "\<exists>vs. decode_each (text_decoder cfg) cs = Answer vs \<and> encode_values (enc_string cfg) vs = Inr cs \<and> list_all (\<lambda>v. elements v = [v]) vs"
      then obtain vs where "decode_each (text_decoder cfg) cs = Answer vs" "encode_values (enc_string cfg) vs = Inr cs"
        "list_all (\<lambda>v. elements v = [v]) vs" by blast
      then show ?thesis using v by (intro disjI2 exI [of _ "v # vs"]) simp
    qed
  qed
qed simp

lemma binary_types_restore:
  assumes "utf8_faithful cfg" and "lossless_defaults cfg" and "list_all bytes_chunk cs"
  shows "\<exists>t enc vs. as_binary cfg cs (new_field k) [''string'', default_binary_type cfg, ''bytes''] =
      Answer ([(k, vs)], FieldDef None k None [(''0'', Named t)] False None) \<and>
    map_of (encoders cfg) t = Some enc \<and> map_of wire_types t = Some 2 \<and> encode_values enc vs = Inr cs \<and>
    list_all (\<lambda>v. elements v = [v]) vs \<and> t \<noteq> [] \<and> t \<noteq> ''message'' \<and> \<not> starts_with ''packed_'' t"
proof -
  note defs = new_field_def resolve_types_def of_sum_def next_alt_def set_type_def field_key_def field_name_def
  have taken: "as_binary cfg cs (new_field k) (t # ts) = Answer ([(k, vs)], FieldDef None k None [(''0'', Named t)] False None)"
    if "map_of (decoders cfg) t = Some d" "decode_each d cs = Answer vs" for t ts d vs using that by (simp add: defs)
  have passed: "as_binary cfg cs (new_field k) (t # ts) = as_binary cfg cs (new_field k) ts"
    if "map_of (decoders cfg) t = Some d" "decode_each d cs = Fails DecoderError" for t ts d using that by simp
  obtain vb where b: "decode_each (\<lambda>buf pos. decoded VBytes (decode_bytes buf pos)) cs = Answer vb"
      "encode_values (enc_bytes cfg) vb = Inr cs" "list_all (\<lambda>v. elements v = [v]) vb"
    using bytes_field.restores_each [OF assms(3)] by blast
  obtain vh where h: "decode_each (\<lambda>buf pos. decoded (VBytes \<circ> hexlify) (decode_bytes buf pos)) cs = Answer vh"
      "encode_values (enc_bytes_hex cfg) vh = Inr cs" "list_all (\<lambda>v. elements v = [v]) vh"
    using hex_field.restores_each [OF assms(3)] by blast
  from string_chunks [OF assms(1,3)] show ?thesis
  proof
    assume "decode_each (text_decoder cfg) cs = Fails DecoderError"
    then have next_type: "as_binary cfg cs (new_field k) [''string'', default_binary_type cfg, ''bytes''] =
        as_binary cfg cs (new_field k) [default_binary_type cfg, ''bytes'']" by (rule passed [OF binary_tables(1)])
    have "default_binary_type cfg = ''bytes'' \<or> default_binary_type cfg = ''bytes_hex''"
      using assms(2) by (simp add: lossless_defaults_def)
    then show ?thesis
    proof
      assume "default_binary_type cfg = ''bytes''"
      then show ?thesis using b taken [OF binary_tables(3) b(1)] unfolding next_type
        by (intro exI [of _ "''bytes''"] exI [of _ "enc_bytes cfg"] exI [of _ vb]) (simp add: binary_tables wire_type_table)
    next
      assume "default_binary_type cfg = ''bytes_hex''"
      then show ?thesis using h taken [OF binary_tables(5) h(1)] unfolding next_type
        by (intro exI [of _ "''bytes_hex''"] exI [of _ "enc_bytes_hex cfg"] exI [of _ vh]) (simp add: binary_tables wire_type_table)
    qed
  next
    assume "\<exists>vs. decode_each (text_decoder cfg) cs = Answer vs \<and>
       encode_values (enc_string cfg) vs = Inr cs \<and> list_all (\<lambda>v. elements v = [v]) vs"
    then obtain vs where v: "decode_each (text_decoder cfg) cs = Answer vs"
      "encode_values (enc_string cfg) vs = Inr cs" "list_all (\<lambda>v. elements v = [v]) vs" by blast
    then show ?thesis using taken [OF binary_tables(1) v(1), of "[default_binary_type cfg, ''bytes'']"]
      by (intro exI [of _ "''string''"] exI [of _ "enc_string cfg"] exI [of _ vs]) (simp add: binary_tables wire_type_table)
  qed
qed

lemma as_messages_unknown:
  "as_messages dec cfg (c # cs) (new_field k) =
     andthen (andthen (dec None c) (\<lambda>(items, td, order, p).
        decode_messages dec cs [(''0'', Nested td)] 1 [(''0'', [VMsg items])] order))
       (\<lambda>(types, outs, order).
          let fd1 = set_types types (new_field k);
              fd2 = (if preserve_field_order cfg then set_field_order order fd1 else fd1);
              fd3 = (if list_ex (\<lambda>(alt, vs). 1 < length vs) outs then mark_repeated fd2 else fd2)
          in Answer (map (\<lambda>(alt, vs). (field_key fd2 alt, vs)) outs, fd3))"
proof (cases "dec None c")
  case (Answer m)
  obtain items td order p where m: "m = (items, td, order, p)" by (cases m)
  have "(if 0 < length order then order else []) = order" by simp
  then show ?thesis
    by (simp add: as_messages_def new_field_def next_alt_def resolve_types_def of_sum_def Answer m dict_get_def
        split del: if_split cong: if_cong)
qed (simp_all add: as_messages_def new_field_def next_alt_def resolve_types_def of_sum_def)

lemma unknown_delimited:
  "decode_field dec cfg 2 cs (new_field k) = try_decode_lendelim_fields dec cfg cs (new_field k)"
  by (simp add: decode_field_def lookup_type_number_def new_field_def of_sum_def is_named_def)

lemma raw_field_decodes:
  assumes "utf8_faithful cfg" "lossless_defaults cfg" "list_all bytes_chunk cs" "cs = c # cs'" and "dec None c = Fails DecoderError"
  shows "\<exists>r. field_decodes dec cfg k 2 cs r"
proof -
  obtain t enc vs where t: "as_binary cfg cs (new_field k) [''string'', default_binary_type cfg, ''bytes''] =
      Answer ([(k, vs)], FieldDef None k None [(''0'', Named t)] False None)" "map_of (encoders cfg) t = Some enc"
    "map_of wire_types t = Some 2" "encode_values enc vs = Inr cs" "list_all (\<lambda>v. elements v = [v]) vs" "t \<noteq> []" "t \<noteq> ''message''"
    "\<not> starts_with ''packed_'' t"
    using binary_types_restore [OF assms(1-3)] by blast
  have "as_messages dec cfg cs (new_field k) = Fails DecoderError" using assms(5) by (simp add: assms(4) as_messages_unknown)
  then have "decode_field dec cfg 2 cs (new_field k) = Answer ([(k, vs)], FieldDef None k None [(''0'', Named t)] False None)"
    using t(1) by (simp add: unknown_delimited try_decode_lendelim_fields_def)
  moreover have "type_encodes cfg (Named t) None vs 2 cs" using t by (simp add: type_encodes_def)
  ultimately have "field_decodes dec cfg k 2 cs (vs, Named t, False, None)"
    using t by (simp add: field_decodes_def type_again_def order_again_def truthy_def)
  then show ?thesis by blast
qed

lemma nested_field_decodes:
  assumes "preserve_field_order cfg" and "dec None c = Answer (items, td, order, p)"
    and "nested_encoder cfg td (Some order) (VMsg items) = Inr c"
    and "nested_encoder cfg (type_from_dict (type_to_dict td)) (order_again (Some order)) (VMsg items) = Inr c"
  shows "\<exists>r. field_decodes dec cfg k 2 [c] r"
proof -
  have "as_messages dec cfg [c] (new_field k) = Answer ([(k, [VMsg items])], FieldDef None k None [(''0'', Nested td)] False (Some order))"
    using assms(1,2) by (simp add: as_messages_unknown, simp add: new_field_def field_key_def field_name_def)
  then have "decode_field dec cfg 2 [c] (new_field k) =
      Answer ([(k, [VMsg items])], FieldDef None k None [(''0'', Nested td)] False (Some order))"
    by (simp add: unknown_delimited try_decode_lendelim_fields_def)
  then have "field_decodes dec cfg k 2 [c] ([VMsg items], Nested td, False, Some order)"
    using assms(3,4) by (simp add: field_decodes_def type_again_def type_encodes_def)
  then show ?thesis by blast
qed

section \<open>Decoding an unknown message\<close>

definition unknown_field ::
  "nat \<Rightarrow> ('t, 'f) proto_value list \<times> field_type \<times> bool \<times> string list option \<Rightarrow> field_def" where
  "unknown_field n r = (case r of (vs, ty, rep, order) \<Rightarrow> FieldDef None (str_nat n) None [(''0'', ty)] rep order)"

lemma decode_unknown_fields:
  "\<forall>n \<in> set ns. field_decodes dec cfg (str_nat n) (W n) (C n) (r n) \<Longrightarrow> distinct ns \<Longrightarrow>
   \<forall>n \<in> set ns. str_nat n \<notin> set (keys flds) \<and> str_nat n \<notin> set (keys out) \<and> str_nat n \<notin> set (keys seen) \<Longrightarrow>
   decode_fields dec cfg (map (\<lambda>n. (str_nat n, W n, C n)) ns) (TypeDef flds []) out seen =
     Answer (TypeDef (flds @ map (\<lambda>n. (str_nat n, unknown_field n (r n))) ns) [],
       out @ map (\<lambda>n. (str_nat n, fst (r n))) ns, seen @ map (\<lambda>n. (str_nat n, fst (snd (snd (r n))))) ns)"
proof (induction ns arbitrary: flds out seen)
  case (Cons n ns)
  obtain vs ty rep order where r: "r n = (vs, ty, rep, order)" by (cases "r n")
  let ?fd = "FieldDef None (str_nat n) None [(''0'', ty)] rep order"
  have d: "decode_field dec cfg (W n) (C n) (new_field (str_nat n)) = Answer ([(str_nat n, vs)], ?fd)"
    using Cons.prems(1) by (simp add: field_decodes_def r)
  have new: "str_nat n \<notin> set (keys flds)" "str_nat n \<notin> set (keys out)" "str_nat n \<notin> set (keys seen)" using Cons.prems(3) by auto
  have get: "dict_get flds (str_nat n) (new_field (str_nat n)) = new_field (str_nat n)" "dict_get out (str_nat n) [] = []"
    using new by (simp_all add: dict_get_def map_of_eq_None_iff [THEN iffD2])
  have set: "set_fielddef (TypeDef flds []) (str_nat n) ?fd = TypeDef (flds @ [(str_nat n, ?fd)]) []"
    "extend_output out [(str_nat n, vs)] = out @ [(str_nat n, vs)]"
    "dict_set seen (field_name (new_field (str_nat n))) rep = seen @ [(str_nat n, rep)]"
    using new get by (simp_all add: set_fielddef_def extend_output_def dict_set_append_new field_name_def new_field_def)
  have "decode_fields dec cfg (map (\<lambda>n. (str_nat n, W n, C n)) ns) (TypeDef (flds @ [(str_nat n, ?fd)]) []) (out @ [(str_nat n, vs)])
      (seen @ [(str_nat n, rep)]) =
    Answer (TypeDef ((flds @ [(str_nat n, ?fd)]) @ map (\<lambda>n. (str_nat n, unknown_field n (r n))) ns) [],
       (out @ [(str_nat n, vs)]) @ map (\<lambda>n. (str_nat n, fst (r n))) ns,
       (seen @ [(str_nat n, rep)]) @ map (\<lambda>n. (str_nat n, fst (snd (snd (r n))))) ns)"
    using Cons.prems by (intro Cons.IH) auto
  then show ?case by (simp add: d get set Let_def) (simp add: r unknown_field_def)
qed simp

lemma simplify_unknown:
  "\<forall>n \<in> set ns. map_of seen (str_nat n) = Some (rep n) \<and> (length (vs n) = 1 \<longrightarrow> \<not> rep n) \<Longrightarrow>
   simplify_output (map (\<lambda>n. (str_nat n, vs n)) ns) seen = Answer (map (\<lambda>n. (str_nat n, solo (vs n))) ns)"
proof (induction ns)
  case (Cons n ns)
  then show ?case by (cases "vs n" rule: remdups_adj.cases) (simp_all add: solo_def)
qed simp

lemma names_of_nameless: "\<forall>(k, fd) \<in> set flds. fd_name fd = None \<Longrightarrow> names_of flds = []"
  unfolding names_of_def by (induction flds) auto

lemma unknown_again:
  assumes "\<forall>n \<in> set ns. fst (snd (r n)) \<noteq> Named []"
  shows "type_from_dict (type_to_dict (TypeDef (map (\<lambda>n. (str_nat n, unknown_field n (r n))) ns) [])) =
    TypeDef (map (\<lambda>n. (str_nat n, case r n of (vs, ty, rep, order) \<Rightarrow>
      FieldDef None (str_nat n) None [(''0'', type_again ty)] rep (order_again order))) ns) []"
proof -
  let ?again = "map (\<lambda>n. (str_nat n, case r n of (vs, ty, rep, order) \<Rightarrow>
      FieldDef None (str_nat n) None [(''0'', type_again ty)] rep (order_again order))) ns"
  have read: "map (\<lambda>(k, d). (k, field_from_dict k d)) (map (\<lambda>(k, fd). (k, field_to_dict fd)) (map (\<lambda>n. (str_nat n, unknown_field n (r n))) ns)) = ?again"
    using assms by (auto simp: unknown_field_def field_again split: prod.splits simp del: field_to_dict.simps)
  have "names_of ?again = []" by (rule names_of_nameless) (auto split: prod.splits)
  then show ?thesis unfolding type_to_dict.simps type_from_dict.simps Let_def read by simp
qed

lemma field_bytes_of_chunks:
  assumes "\<And>wt c. (n, wt, c) \<in> set fs \<Longrightarrow> wt = type_of n"
  shows "map ((@) (tag_of n (type_of n))) (chunks_of fs n) = map field_bytes (filter (\<lambda>f. fst f = n) fs)"
  using assms unfolding chunks_of_def by (auto simp: field_bytes_def)

lemma unknown_entries_encode:
  assumes "\<And>n wt c. (n, wt, c) \<in> set fs \<Longrightarrow> wt = type_of n \<and> encode_tag n wt = Inr (tag_of n wt)"
    and "\<And>n. n \<in> fst ` set fs \<Longrightarrow> type_encodes cfg (ty n) (order n) (vs n) (type_of n) (chunks_of fs n) \<and>
      list_all (\<lambda>v. elements v = [v]) (vs n)"
  shows "entries_encode cfg (TypeDef (map (\<lambda>n. (str_nat n, FieldDef None (str_nat n) None [(''0'', ty n)] (rep n) (order n)))
      (firsts (map fst fs))) []) fs (map (\<lambda>n. (str_nat n, solo (vs n))) (firsts (map fst fs)))"
proof -
  let ?ns = "firsts (map fst fs)"
  let ?td = "TypeDef (map (\<lambda>n. (str_nat n, FieldDef None (str_nat n) None [(''0'', ty n)] (rep n) (order n))) ?ns) []"
  have "encode_message_field cfg (nested_encoder cfg) ?td (str_nat n, solo (vs n)) =
      Inr (str_nat n, map field_bytes (filter (\<lambda>f. fst f = n) fs))" if n: "n \<in> set ?ns" for n
  proof -
    obtain wt c where f: "(n, wt, c) \<in> set fs" using n by auto
    then have "encode_tag n (type_of n) = Inr (tag_of n (type_of n))" using assms(1) by blast
    moreover have "map_of (td_fields ?td) (str_nat n) = Some (FieldDef None (str_nat n) None [(''0'', ty n)] (rep n) (order n))"
      using n by (simp add: map_of_keyed [OF str_nat_inj_on])
    moreover have "type_encodes cfg (ty n) (order n) (vs n) (type_of n) (chunks_of fs n)" "list_all (\<lambda>v. elements v = [v]) (vs n)"
      using assms(2) [of n] n by simp_all
    ultimately have "encode_message_field cfg (nested_encoder cfg) ?td (str_nat n, solo (vs n)) =
        Inr (str_nat n, map ((@) (tag_of n (type_of n))) (chunks_of fs n))"
      by (intro encode_plain_field) simp_all
    then show ?thesis using field_bytes_of_chunks [of n fs type_of] assms(1) by auto
  qed
  then show ?thesis unfolding entries_encode_def list_all2_map2 by (intro list.rel_refl_strong)
qed

text \<open>
  The messages of which the theorems speak: each field is delimited as its wire type says and each number has one wire type; a
  delimited field is no message, however often it comes, or it comes once and is such a message.
\<close>

inductive tidy :: "('t, 'f) proto_config \<Rightarrow> wire_field list \<Rightarrow> bool" for cfg where
  "(\<And>n wt c. (n, wt, c) \<in> set fs \<Longrightarrow> wt = type_of n \<and> well_delimited wt c \<and> is_bytes c) \<Longrightarrow>
   (\<And>n c. (n, 2, c) \<in> set fs \<Longrightarrow>
      no_message cfg c \<or>
      chunks_of fs n = [c] \<and> (\<exists>sub msg. tidy cfg sub \<and> message_bytes sub = Inr msg \<and> encode_bytes msg = Inr c)) \<Longrightarrow>
   tidy cfg fs"

lemma message_lengths:
  assumes "message_bytes fs = Inr msg"
  shows "length fs \<le> length msg" and "(n, wt, c) \<in> set fs \<Longrightarrow> length c < length msg"
proof -
  have nonempty: "tag_of n wt \<noteq> []" if "(n, wt, c) \<in> set fs" for n wt c
    using assms that uvarint.nonempty unfolding message_bytes_fields encode_tag_def by blast
  have msg: "msg = concat (map field_bytes fs)" using assms by (simp add: message_bytes_fields)
  show "length fs \<le> length msg" unfolding msg using nonempty
  proof (induction fs)
    case (Cons f fs)
    have "tag_of (fst f) (fst (snd f)) \<noteq> []" using Cons.prems [of "fst f" "fst (snd f)" "snd (snd f)"] by simp
    then have "0 < length (field_bytes f)" by (auto simp: field_bytes_def split: prod.splits)
    moreover have "length fs \<le> length (concat (map field_bytes fs))" using Cons.prems by (intro Cons.IH) auto
    ultimately show ?case unfolding list.map concat.simps length_append length_Cons by linarith
  qed simp
  show "length c < length msg" if f: "(n, wt, c) \<in> set fs"
  proof -
    obtain us vs where "fs = us @ (n, wt, c) # vs" using split_list [OF f] by blast
    moreover have "0 < length (tag_of n wt)" using nonempty [OF f] by simp
    ultimately show ?thesis by (simp add: msg field_bytes_def)
  qed
qed

lemma delimited_chunk:
  assumes "well_delimited 2 c" and "is_bytes c"
  shows "bytes_chunk c"
proof -
  obtain w where w: "encode_bytes w = Inr c" using assms(1) by (auto simp: well_delimited_def)
  then obtain l where "c = l @ w" by (auto simp: encode_bytes_def split: sum.splits)
  then show ?thesis using w assms(2) by (auto simp: bytes_chunk_def)
qed

lemma chunks_nonempty:
  assumes "n \<in> fst ` set fs"
  obtains wt c cs where "chunks_of fs n = c # cs" and "(n, wt, c) \<in> set fs"
proof -
  have ne: "filter (\<lambda>f. fst f = n) fs \<noteq> []" using assms by (auto simp: filter_empty_conv)
  then obtain f gs where "filter (\<lambda>f. fst f = n) fs = f # gs" by (cases "filter (\<lambda>f. fst f = n) fs") auto
  moreover from this have "f \<in> set fs" "fst f = n" by (auto simp: filter_eq_Cons_iff)
  ultimately show ?thesis using that [of "snd (snd f)" _ "fst (snd f)"] by (cases f) (auto simp: chunks_of_def)
qed

text \<open>What a nested message owes its field.\<close>

definition message_decodes :: "('t, 'f) proto_config \<Rightarrow> wire_field list \<Rightarrow> bool" where
  "message_decodes cfg fs \<longleftrightarrow>
     (\<forall>fuel pre msg. message_bytes fs = Inr msg \<and> length msg < fuel \<longrightarrow>
        (\<exists>items td. decode_message fuel (pre @ msg) cfg None (int (length pre)) (int (length pre + length msg)) =
             Answer (items, td, map (\<lambda>f. str_nat (fst f)) fs, int (length pre + length msg)) \<and>
           entries_encode cfg td fs items \<and> entries_encode cfg (type_from_dict (type_to_dict td)) fs items))"

lemma sub_message_decodes:
  assumes "message_decodes cfg sub" and "message_bytes sub = Inr msg" and "encode_bytes msg = Inr c" and "length c \<le> fuel"
    and "preserve_field_order cfg"
  shows "\<exists>r. field_decodes (decode_lendelim (decode_message fuel) cfg) cfg k 2 [c] r"
proof -
  obtain l where l: "encode_varint (int (length msg)) = Inr l" "c = l @ msg"
    using assms(3) by (auto simp: encode_bytes_def split: sum.splits)
  have "l \<noteq> []" using varint.nonempty [OF l(1)] .
  then have "length msg < fuel" using assms(4) l(2) by (cases l) simp_all
  then obtain items td where d: "decode_message fuel (l @ msg) cfg None (int (length l)) (int (length l + length msg)) =
      Answer (items, td, map (\<lambda>f. str_nat (fst f)) sub, int (length l + length msg))"
    and enc: "entries_encode cfg td sub items" "entries_encode cfg (type_from_dict (type_to_dict td)) sub items"
    using assms(1,2) unfolding message_decodes_def by blast
  have "decode_varint c 0 = Inr (int (length msg), int (length l))" using varint.roundtrip [OF l(1), of "[]" msg] l(2) by simp
  then have dec: "decode_lendelim (decode_message fuel) cfg None c =
      Answer (items, td, map (\<lambda>f. str_nat (fst f)) sub, int (length l + length msg))"
    using d by (simp add: decode_lendelim_def l(2) add.commute)
  have msg: "msg = concat (map field_bytes sub)" using assms(2) by (simp add: message_bytes_fields)
  let ?order = "Some (map (\<lambda>f. str_nat (fst f)) sub)"
  have "nested_encoder cfg td ?order (VMsg items) = Inr c"
    unfolding encode_in_order [OF enc(1) assms(5)] using assms(3) by (simp add: lendelim_def encoder_error_def msg)
  moreover have "nested_encoder cfg (type_from_dict (type_to_dict td)) (order_again ?order) (VMsg items) = Inr c"
  proof (cases "sub = []")
    case True
    then show ?thesis unfolding order_again_def using encode_unordered [OF enc(2)] assms(3)
      by (simp add: truthy_def lendelim_def encoder_error_def msg same_number_def del: encode_message.simps)
  next
    case False
    then have "order_again ?order = ?order" by (simp add: order_again_def truthy_def)
    then show ?thesis using encode_in_order [OF enc(2) assms(5)] assms(3)
      by (simp add: lendelim_def encoder_error_def msg del: encode_message.simps)
  qed
  ultimately show ?thesis by (rule nested_field_decodes [where dec = "decode_lendelim (decode_message fuel) cfg", OF assms(5) dec])
qed

lemma tidy_field_decodes:
  assumes cfg: "utf8_faithful cfg" "lossless_defaults cfg" "preserve_field_order cfg"
    and msg: "message_bytes fs = Inr msg" "length msg \<le> fuel"
    and fields: "\<And>n wt c. (n, wt, c) \<in> set fs \<Longrightarrow> wt = type_of n \<and> well_delimited wt c \<and> is_bytes c"
    and delimited: "\<And>n c. (n, 2, c) \<in> set fs \<Longrightarrow> no_message cfg c \<or>
      chunks_of fs n = [c] \<and> (\<exists>sub msg. message_decodes cfg sub \<and> message_bytes sub = Inr msg \<and> encode_bytes msg = Inr c)"
    and n: "n \<in> fst ` set fs"
  shows "\<exists>r. field_decodes (decode_lendelim (decode_message fuel) cfg) cfg (str_nat n) (type_of n) (chunks_of fs n) r"
proof -
  have chunk: "well_delimited (type_of n) c \<and> is_bytes c" if "c \<in> set (chunks_of fs n)" for c
    using that fields unfolding chunks_of_def by fastforce
  obtain wt c cs where c: "chunks_of fs n = c # cs" "(n, wt, c) \<in> set fs" using chunks_nonempty [OF n] .
  have wt: "wt = type_of n" and "well_delimited wt c" using fields [OF c(2)] by blast+
  then have "well_delimited (type_of n) c" by simp
  then consider (number) "type_of n \<in> {0, 1, 5}" | (bytes) "type_of n = 2" by (auto simp: well_delimited_def)
  then show ?thesis
  proof cases
    case number
    have "list_all (number_chunk (type_of n)) (chunks_of fs n)"
      using chunk number by (auto simp: list_all_iff number_chunk_def well_delimited_def varint_chunk_def fixed_chunk_def)
    then show ?thesis by (rule number_field_decodes [OF cfg(2) number])
  next
    case bytes
    have all: "list_all bytes_chunk (chunks_of fs n)" using chunk bytes by (auto simp: list_all_iff intro: delimited_chunk)
    have f: "(n, 2, c) \<in> set fs" using c(2) wt(1) bytes by simp
    have len: "length c \<le> fuel" using message_lengths(2) [OF msg(1) f] msg(2) by simp
    from delimited [OF f] show ?thesis unfolding bytes
    proof
      assume "no_message cfg c"
      then have "decode_lendelim (decode_message fuel) cfg None c = Fails DecoderError" using len by (simp add: no_message_def)
      then show "\<exists>r. field_decodes (decode_lendelim (decode_message fuel) cfg) cfg (str_nat n) 2 (chunks_of fs n) r"
        by (rule raw_field_decodes [OF cfg(1,2) all c(1)])
    next
      assume "chunks_of fs n = [c] \<and> (\<exists>sub msg. message_decodes cfg sub \<and> message_bytes sub = Inr msg \<and> encode_bytes msg = Inr c)"
      then show "\<exists>r. field_decodes (decode_lendelim (decode_message fuel) cfg) cfg (str_nat n) 2 (chunks_of fs n) r"
        using sub_message_decodes [OF _ _ _ len cfg(3)] by auto
    qed
  qed
qed

lemma grouped_tidy:
  assumes "message_bytes fs = Inr msg" and "\<And>n wt c. (n, wt, c) \<in> set fs \<Longrightarrow> wt = type_of n \<and> well_delimited wt c"
    and "length fs \<le> fuel"
  shows "grouped_fields fuel (pre @ msg) (int (length pre)) (int (length pre + length msg)) =
    Answer (map (\<lambda>n. (str_nat n, type_of n, chunks_of fs n)) (firsts (map fst fs)), map (\<lambda>f. str_nat (fst f)) fs,
      int (length pre + length msg))"
proof -
  have "\<forall>(n, wt, chunk) \<in> set fs. well_delimited wt chunk \<and> wt = type_of n" using assms(2) by auto
  from group_reads [OF assms(1) this, of "[]" fuel pre "[]"] have
    "group_by_number fuel (pre @ msg) (int (length pre)) (int (length pre + length msg)) [] [] =
      Some (Inr (foldl add_field [] fs, map fst fs, int (length pre + length msg)))"
    using assms(3) by (simp add: one_type_def)
  moreover have "foldl add_field [] fs = map (\<lambda>n. (n, type_of n, chunks_of fs n)) (firsts (map fst fs))"
    using assms(2) by (intro groups_of) auto
  ultimately show ?thesis by (simp add: grouped_fields_def)
qed

lemma decoded_message:
  assumes fields: "\<And>n wt c. (n, wt, c) \<in> set fs \<Longrightarrow> wt = type_of n \<and> encode_tag n wt = Inr (tag_of n wt)"
    and r: "\<And>n. n \<in> fst ` set fs \<Longrightarrow> field_decodes dec cfg (str_nat n) (type_of n) (chunks_of fs n) (r n)"
  shows "\<exists>items td seen out. decode_fields dec cfg (map (\<lambda>n. (str_nat n, type_of n, chunks_of fs n)) (firsts (map fst fs)))
        (TypeDef [] []) [] [] = Answer (td, out, seen) \<and> simplify_output out seen = Answer items \<and>
      entries_encode cfg td fs items \<and> entries_encode cfg (type_from_dict (type_to_dict td)) fs items"
proof -
  let ?ns = "firsts (map fst fs)"
  let ?vs = "\<lambda>n. fst (r n)" and ?ty = "\<lambda>n. fst (snd (r n))" and ?rep = "\<lambda>n. fst (snd (snd (r n)))" and ?order = "\<lambda>n. snd (snd (snd (r n)))"
  have f: "?ty n \<noteq> Named [] \<and> list_all (\<lambda>v. elements v = [v]) (?vs n) \<and> (length (?vs n) = 1 \<longrightarrow> \<not> ?rep n) \<and>
      type_encodes cfg (?ty n) (?order n) (?vs n) (type_of n) (chunks_of fs n) \<and>
      type_encodes cfg (type_again (?ty n)) (order_again (?order n)) (?vs n) (type_of n) (chunks_of fs n)"
    if "n \<in> fst ` set fs" for n
    using r [OF that] by (auto simp: field_decodes_def split: prod.splits)
  let ?td = "TypeDef (map (\<lambda>n. (str_nat n, unknown_field n (r n))) ?ns) []"
  let ?out = "map (\<lambda>n. (str_nat n, ?vs n)) ?ns" and ?seen = "map (\<lambda>n. (str_nat n, ?rep n)) ?ns"
  let ?items = "map (\<lambda>n. (str_nat n, solo (?vs n))) ?ns"
  have "decode_fields dec cfg (map (\<lambda>n. (str_nat n, type_of n, chunks_of fs n)) ?ns) (TypeDef [] []) [] [] = Answer (?td, ?out, ?seen)"
    using decode_unknown_fields [of ?ns dec cfg type_of "chunks_of fs" r "[]" "[]" "[]"] r by simp
  moreover have "simplify_output ?out ?seen = Answer ?items"
    using f by (intro simplify_unknown [where rep = ?rep]) (simp add: map_of_keyed [OF str_nat_inj_on])
  moreover have "entries_encode cfg ?td fs ?items"
    using unknown_entries_encode [of fs type_of cfg ?ty ?order ?vs ?rep] fields f by (simp add: unknown_field_def split_def)
  moreover have "type_from_dict (type_to_dict ?td) =
      TypeDef (map (\<lambda>n. (str_nat n, FieldDef None (str_nat n) None [(''0'', type_again (?ty n))] (?rep n) (order_again (?order n)))) ?ns) []"
    using unknown_again [of ?ns r] f by (simp add: split_def del: type_to_dict.simps type_from_dict.simps)
  then have "entries_encode cfg (type_from_dict (type_to_dict ?td)) fs ?items"
    using unknown_entries_encode [of fs type_of cfg "\<lambda>n. type_again (?ty n)" "\<lambda>n. order_again (?order n)" ?vs ?rep] fields f by simp
  ultimately show ?thesis by blast
qed

lemma tidy_decodes:
  assumes "tidy cfg fs" and cfg: "utf8_faithful cfg" "lossless_defaults cfg" "preserve_field_order cfg"
  shows "message_decodes cfg fs"
  using assms(1)
proof (induction rule: tidy.induct)
  case (1 fs type_of)
  have delimited: "no_message cfg c \<or>
      chunks_of fs n = [c] \<and> (\<exists>sub msg. message_decodes cfg sub \<and> message_bytes sub = Inr msg \<and> encode_bytes msg = Inr c)"
    if "(n, 2, c) \<in> set fs" for n c using 1(2) [OF that] by blast
  show ?case unfolding message_decodes_def
  proof (intro allI impI, elim conjE)
    fix fuel :: nat and pre msg :: bytes
    assume msg: "message_bytes fs = Inr msg" and "length msg < fuel"
    then obtain k where k: "fuel = Suc k" "length msg \<le> k" by (cases fuel) simp_all
    have "\<forall>n \<in> fst ` set fs. \<exists>r. field_decodes (decode_lendelim (decode_message k) cfg) cfg (str_nat n) (type_of n) (chunks_of fs n) r"
      by (intro ballI tidy_field_decodes [OF cfg msg k(2)]) (use 1(1) delimited in blast)+
    then obtain r where r: "field_decodes (decode_lendelim (decode_message k) cfg) cfg (str_nat n) (type_of n) (chunks_of fs n) (r n)"
      if "n \<in> fst ` set fs" for n by metis
    have tags: "wt = type_of n \<and> encode_tag n wt = Inr (tag_of n wt)" if "(n, wt, c) \<in> set fs" for n wt c
      using that 1(1) msg unfolding message_bytes_fields by blast
    have len: "length fs \<le> k" using message_lengths(1) [OF msg] k(2) by simp
    have "\<exists>items td seen out. decode_fields (decode_lendelim (decode_message k) cfg) cfg
          (map (\<lambda>n. (str_nat n, type_of n, chunks_of fs n)) (firsts (map fst fs))) (TypeDef [] []) [] [] = Answer (td, out, seen) \<and>
        simplify_output out seen = Answer items \<and>
        entries_encode cfg td fs items \<and> entries_encode cfg (type_from_dict (type_to_dict td)) fs items"
      by (rule decoded_message [where r = r]) (use tags r in blast)+
    then obtain items td seen out where
      d: "decode_fields (decode_lendelim (decode_message k) cfg) cfg (map (\<lambda>n. (str_nat n, type_of n, chunks_of fs n)) (firsts (map fst fs)))
        (TypeDef [] []) [] [] = Answer (td, out, seen)" "simplify_output out seen = Answer items"
        "entries_encode cfg td fs items" "entries_encode cfg (type_from_dict (type_to_dict td)) fs items" by blast
    have grouped: "grouped_fields k (pre @ msg) (int (length pre)) (int (length pre + length msg)) =
        Answer (map (\<lambda>n. (str_nat n, type_of n, chunks_of fs n)) (firsts (map fst fs)), map (\<lambda>f. str_nat (fst f)) fs,
          int (length pre + length msg))"
      by (rule grouped_tidy [OF msg _ len]) (use 1(1) in blast)
    have "decode_message fuel (pre @ msg) cfg None (int (length pre)) (int (length pre + length msg)) =
        Answer (items, td, map (\<lambda>f. str_nat (fst f)) fs, int (length pre + length msg))"
      unfolding k(1) decode_message.simps grouped using d(1,2) by (simp add: type_mutable_def)
    then show "\<exists>items td. decode_message fuel (pre @ msg) cfg None (int (length pre)) (int (length pre + length msg)) =
         Answer (items, td, map (\<lambda>f. str_nat (fst f)) fs, int (length pre + length msg)) \<and>
       entries_encode cfg td fs items \<and> entries_encode cfg (type_from_dict (type_to_dict td)) fs items"
      using d(3,4) by blast
  qed
qed

section \<open>Properties\<close>

text \<open>A message decodes within a fuel of one more than its length, and the entries, under the completed definition and in the recorded
  order, encode to the same bytes.\<close>

theorem reencode_exact:
  assumes "tidy cfg fs" and "message_bytes fs = Inr msg" and "length msg < fuel"
    and "utf8_faithful cfg" and "lossless_defaults cfg" and "preserve_field_order cfg"
  shows "\<exists>items td order. decode_message fuel msg cfg None 0 (int (length msg)) = Answer (items, td, order, int (length msg)) \<and>
    encode_message cfg td (Some order) (VMsg items) = Inr msg"
proof -
  obtain items td where d: "decode_message fuel ([] @ msg) cfg None (int (length ([] :: bytes))) (int (length ([] :: bytes) + length msg)) =
      Answer (items, td, map (\<lambda>f. str_nat (fst f)) fs, int (length ([] :: bytes) + length msg))" and e: "entries_encode cfg td fs items"
    using tidy_decodes [OF assms(1,4-6)] assms(2,3) unfolding message_decodes_def by blast
  have "msg = concat (map field_bytes fs)" using assms(2) by (simp add: message_bytes_fields)
  then show ?thesis using d encode_in_order [OF e assms(6)]
    by (intro exI [of _ items] exI [of _ td] exI [of _ "map (\<lambda>f. str_nat (fst f)) fs"]) simp
qed

text \<open>The configuration of the witnesses: the defaults of the code, text that is ASCII.\<close>

definition plain_config :: "(bytes, unit) proto_config" where
  "plain_config = \<lparr>utf8 = id, from_utf8 = (\<lambda>b. if list_all (\<lambda>x. x < 128) b then Some b else None), pack_float = (\<lambda>_ _. None),
     unpack_float = (\<lambda>_. ()), float_of_int = (\<lambda>_. None), known_types = [], default_binary_type = ''bytes'', default_types = [],
     preserve_field_order = True\<rparr>"

lemma plain_config_ok: "utf8_faithful plain_config" "lossless_defaults plain_config" "preserve_field_order plain_config"
  by (auto simp: plain_config_def utf8_faithful_def lossless_defaults_def get_default_type_def wire_type_defaults_def split: if_splits)

lemma small_varint: "n < 128 \<Longrightarrow> encode_uvarint (int n) = Inr [n]" "n < 128 \<Longrightarrow> encode_varint (int n) = Inr [n]"
  by (simp_all add: encode_uvarint_def encode_varint_def uvarint_bytes.simps)

definition plain_fields :: "wire_field list" where
  "plain_fields = [(1, 0, [5]), (2, 2, [2, 8, 7]), (1, 0, [6]), (3, 2, [1, 255])]"

lemma no_message_255: "no_message plain_config [1, 255]"
  unfolding no_message_def
proof (intro allI impI)
  fix fuel :: nat assume "length [1, 255 :: nat] \<le> fuel"
  then obtain k where k: "fuel = Suc (Suc k)" by (cases fuel; cases "fuel - 1") auto
  have len: "decode_varint [1, 255] 0 = Inr (1, 1)" using varint.reads_whole [of 1 "[1]"] small_varint(2) [of 1]
      varint.roundtrip [of 1 "[1]" "[]" "[255]"] by simp
  have "decode_tag [1, 255] 1 = Inl ReadPastEnd" by (simp add: decode_tag_def decode_uvarint_def uvarint_loop.simps py_index_def)
  then have "grouped_fields (Suc k) [1, 255] 1 2 = Fails DecoderError" by (simp add: grouped_fields_def group_by_number.simps)
  then show "decode_lendelim (decode_message fuel) plain_config None [1, 255] = Fails DecoderError"
    by (simp add: decode_lendelim_def len decode_message.simps k del: One_nat_def)
qed

lemma plain_fields_tidy: "tidy plain_config plain_fields"
proof -
  have v: "encode_uvarint 5 = Inr [5]" "encode_uvarint 6 = Inr [6]" "encode_uvarint 7 = Inr [7]"
    using small_varint(1) [of 5] small_varint(1) [of 6] small_varint(1) [of 7] by simp_all
  have b: "encode_bytes [8, 7] = Inr [2, 8, 7]" "encode_bytes [255] = Inr [1, 255]"
    using small_varint(2) [of 2] small_varint(2) [of 1] by (simp_all add: encode_bytes_def)
  have sub: "tidy plain_config [(1, 0, [7])]"
    by (rule tidy.intros [where type_of = "\<lambda>_. 0"]) (auto simp: well_delimited_def v intro: exI [of _ "7 :: int"])
  have "message_bytes [(1, 0, [7])] = Inr [8, 7]" using small_varint(1) [of 8] by (simp add: encode_tag_def)
  then show ?thesis unfolding plain_fields_def
    by (intro tidy.intros [where type_of = "\<lambda>n. if n = 1 then 0 else 2"])
      (use v b sub no_message_255 in \<open>auto simp: well_delimited_def chunks_of_def\<close>)
qed

lemma plain_fields_bytes: "message_bytes plain_fields = Inr [8, 5, 18, 2, 8, 7, 8, 6, 26, 1, 255]"
  using small_varint(1) [of 8] small_varint(1) [of 18] small_varint(1) [of 26] by (simp add: plain_fields_def encode_tag_def)

theorem reencode_exact_witness:
  "\<exists>items td order. decode_message 12 [8, 5, 18, 2, 8, 7, 8, 6, 26, 1, 255] plain_config None 0 11 = Answer (items, td, order, 11) \<and>
    encode_message plain_config td (Some order) (VMsg items) = Inr [8, 5, 18, 2, 8, 7, 8, 6, 26, 1, 255]"
  using reencode_exact [OF plain_fields_tidy plain_fields_bytes _ plain_config_ok, of 12] by simp



text \<open>A definition that names a standard type cannot be decoded with: the name is looked up in the enumeration of base types, which has no such
  member, whatever the value and its wire type.\<close>

theorem named_type_raises:
  assumes "t \<in> set (keys (encoders cfg))"
  shows "decode_field dec cfg wt buffers (FieldDef name k type_name [(''0'', Named t)] rep order) = Fails OtherError"
proof -
  have "map_of base_wire_types t = None \<and> t \<noteq> ''message''"
    using assms by (auto simp: encoders_def base_encoders_def base_wire_types_def)
  then show ?thesis
    by (auto simp: decode_field_def decode_standard_field_def resolve_types_def standard_type_def of_sum_def lookup_type_number_def
        is_named_def Let_def)
qed

theorem named_type_raises_witness:
  "decode_field (\<lambda>_ _. Endless) plain_config 0 [[5]] (FieldDef None ''1'' None [(''0'', Named ''int'')] False None) = Fails OtherError"
  by (rule named_type_raises) (simp add: encoders_def base_encoders_def)

text \<open>So what decoding returns serves for encoding, and not for decoding the very same bytes again.\<close>

theorem decode_again_raises:
  "\<exists>v d. api_decode 3 plain_config NoType [8, 5] = Answer (v, d) \<and> api_decode 3 plain_config (TypeOf d) [8, 5] = Fails OtherError"
proof -
  let ?r = "api_decode 3 plain_config NoType [8, 5]"
  have "(case ?r of Answer (v, d) \<Rightarrow> api_decode 3 plain_config (TypeOf d) [8, 5] | _ \<Rightarrow> Endless) = Fails OtherError" by code_simp
  then show ?thesis by (cases ?r) (auto split: prod.splits)
qed

text \<open>A repeated message that is decoded with the definition found in an earlier value fails on the first number it has in common with it, and
  gets a definition of its own; a later value that has none joins the earlier ones.  Encoding puts it before what stood between.\<close>

theorem repeated_messages_reordered:
  "\<exists>v d. api_decode 20 plain_config NoType [10, 2, 8, 5, 10, 2, 8, 6, 10, 2, 16, 7] = Answer (v, d) \<and>
    api_encode plain_config (TypeOf d) v = Inr [10, 2, 8, 5, 10, 2, 16, 7, 10, 2, 8, 6]"
proof -
  let ?r = "api_decode 20 plain_config NoType [10, 2, 8, 5, 10, 2, 8, 6, 10, 2, 16, 7]"
  have "(case ?r of Answer (v, d) \<Rightarrow> api_encode plain_config (TypeOf d) v | _ \<Rightarrow> Inl OtherError) =
      Inr [10, 2, 8, 5, 10, 2, 16, 7, 10, 2, 8, 6]" by code_simp
  then show ?thesis by (cases ?r) (auto split: prod.splits)
qed

end
