(* ===== verification/GrpcFraming.thy ===== *)
theory GrpcFraming
  imports Prelude
begin

text \<open>
  gRPC frames around protobuf messages (\<open>platform/protobuf.py\<close>): one flag byte, the length of the payload in four bytes,
  most significant first, and the payload.  The payload codec and gzip are arguments.
\<close>

section \<open>Frames\<close>

datatype 'e grpc_error =
    LengthRange
  | LengthBytes
  | IncompleteHeader
  | UnsupportedFlag nat
  | IncompleteBody
  | BadGzip
  | BadMessage 'e

fun be_bytes :: "nat \<Rightarrow> nat \<Rightarrow> bytes" where
  "be_bytes 0 v = []"
| "be_bytes (Suc k) v = be_bytes k (v div 256) @ [v mod 256]"

definition be_value :: "bytes \<Rightarrow> nat" where
  "be_value bs = foldl (\<lambda>v b. v * 256 + b) 0 bs"

definition encode_message_length :: "int \<Rightarrow> 'e grpc_error + bytes" where
  "encode_message_length n = (if \<not> (0 \<le> n \<and> n \<le> 0xFFFFFFFF) then Inl LengthRange else Inr (be_bytes 4 (nat n)))"

definition decode_message_length :: "bytes \<Rightarrow> 'e grpc_error + nat" where
  "decode_message_length bs = (if length bs \<noteq> 4 then Inl LengthBytes else Inr (be_value bs))"

text \<open>The codec of the adapter, and gzip.\<close>

record ('m, 'd, 'e) grpc_codec =
  gc_encode :: "'m \<Rightarrow> 'd \<Rightarrow> 'e + bytes"
  gc_decode :: "bytes \<Rightarrow> 'e + 'm \<times> 'd"
  gc_compress :: "bytes \<Rightarrow> bytes"
  gc_decompress :: "bytes \<Rightarrow> bytes option"

definition grpc_encode :: "('m, 'd, 'e) grpc_codec \<Rightarrow> 'm \<Rightarrow> 'd \<Rightarrow> bool \<Rightarrow> 'e grpc_error + bytes" where
  "grpc_encode c m d is_gzip =
     (case gc_encode c m d of
        Inl e \<Rightarrow> Inl (BadMessage e)
      | Inr plain \<Rightarrow>
          let encoded = (if is_gzip then gc_compress c plain else plain)
          in (case encode_message_length (int (length encoded)) of
                Inl e \<Rightarrow> Inl e
              | Inr len \<Rightarrow> Inr ([if is_gzip then 1 else 0] @ len @ encoded)))"

fun grpc_stream_encode :: "('m, 'd, 'e) grpc_codec \<Rightarrow> ('m \<times> 'd) list \<Rightarrow> bool \<Rightarrow> 'e grpc_error + bytes" where
  "grpc_stream_encode c [] is_gzip = Inr []"
| "grpc_stream_encode c ((m, d) # ms) is_gzip =
     (case grpc_encode c m d is_gzip of
        Inl e \<Rightarrow> Inl e
      | Inr frame \<Rightarrow>
          (case grpc_stream_encode c ms is_gzip of Inl e \<Rightarrow> Inl e | Inr rest \<Rightarrow> Inr (frame @ rest)))"

definition read_payload :: "('m, 'd, 'e) grpc_codec \<Rightarrow> nat \<Rightarrow> bytes \<Rightarrow> 'e grpc_error + 'm \<times> 'd" where
  "read_payload c flag payload =
     (case (if flag = 1 then gc_decompress c payload else Some payload) of
        None \<Rightarrow> Inl BadGzip
      | Some plain \<Rightarrow> (case gc_decode c plain of Inl e \<Rightarrow> Inl (BadMessage e) | Inr r \<Rightarrow> Inr r))"

text \<open>The loop of \<open>grpc_decode\<close> from an offset, with the results so far.\<close>

function grpc_loop ::
  "('m, 'd, 'e) grpc_codec \<Rightarrow> bytes \<Rightarrow> nat \<Rightarrow> ('m \<times> 'd) list \<Rightarrow> 'e grpc_error + ('m \<times> 'd) list" where
  "grpc_loop c buf offset results =
     (if length buf \<le> offset then Inr results
      else if length buf - offset < 5 then Inl IncompleteHeader
      else if buf ! offset \<notin> {0, 1} then Inl (UnsupportedFlag (buf ! offset))
      else (case decode_message_length (take 4 (drop (offset + 1) buf)) of
              Inl e \<Rightarrow> Inl e
            | Inr n \<Rightarrow>
                (if length buf - (offset + 5) < n then Inl IncompleteBody
                 else (case read_payload c (buf ! offset) (take n (drop (offset + 5) buf)) of
                         Inl e \<Rightarrow> Inl e
                       | Inr r \<Rightarrow> grpc_loop c buf (offset + 5 + n) (results @ [r])))))"
  by pat_completeness auto

termination grpc_loop
  by (relation "measure (\<lambda>(c, buf, offset, results). length buf - offset)") auto

declare grpc_loop.simps [simp del]

datatype 'r grpc_result = OneMessage 'r | Messages "'r list"

definition grpc_decode :: "('m, 'd, 'e) grpc_codec \<Rightarrow> bytes \<Rightarrow> 'e grpc_error + ('m \<times> 'd) grpc_result" where
  "grpc_decode c buf =
     (case grpc_loop c buf 0 [] of
        Inl e \<Rightarrow> Inl e
      | Inr [r] \<Rightarrow> Inr (OneMessage r)
      | Inr rs \<Rightarrow> Inr (Messages rs))"

section \<open>Choosing the codec\<close>

text \<open>What importing the native package gives: its two functions, or why there are none.\<close>

datatype import_failure = ModuleMissing string | OtherFailure

datatype codec_backend = PythonBackend | RustBackend

definition select_protobuf_codec :: "import_failure + bool \<times> bool \<Rightarrow> codec_backend \<times> bool" where
  "select_protobuf_codec imported =
     (case imported of
        Inl (ModuleMissing name) \<Rightarrow> (PythonBackend, name \<noteq> ''pyblackboxprotobuf'')
      | Inl OtherFailure \<Rightarrow> (PythonBackend, True)
      | Inr (encode_callable, decode_callable) \<Rightarrow>
          (if \<not> encode_callable \<or> \<not> decode_callable then (PythonBackend, True) else (RustBackend, False)))"

section \<open>Lengths\<close>

lemma length_be_bytes [simp]: "length (be_bytes k v) = k"
  by (induction k arbitrary: v) auto

lemma be_bytes_4:
  "be_bytes 4 v = [v div 256 div 256 div 256 mod 256, v div 256 div 256 mod 256, v div 256 mod 256, v mod 256]"
proof -
  have "(4 :: nat) = Suc (Suc (Suc (Suc 0)))" by simp
  then show ?thesis by (simp only: be_bytes.simps append_Nil append_Cons)
qed

lemma be_value_snoc [simp]: "be_value (bs @ [b]) = be_value bs * 256 + b"
  by (simp add: be_value_def)

lemma be_value_bytes: "v < 256 ^ k \<Longrightarrow> be_value (be_bytes k v) = v"
proof (induction k arbitrary: v)
  case 0
  then show ?case by (simp add: be_value_def)
next
  case (Suc k)
  have "v div 256 < 256 ^ k" using Suc.prems by (simp add: less_mult_imp_div_less mult.commute)
  then show ?case by (simp add: Suc.IH)
qed

lemma encode_message_lengthD:
  assumes "encode_message_length (int n) = Inr bs"
  shows "bs = be_bytes 4 n" and "n < 2 ^ 32"
  using assms by (auto simp: encode_message_length_def split: if_splits)

section \<open>The stream as its frames\<close>

text \<open>A frame is its flag and its payload.\<close>

definition frame_bytes :: "nat \<times> bytes \<Rightarrow> bytes" where
  "frame_bytes f = [fst f] @ be_bytes 4 (length (snd f)) @ snd f"

definition frame_ok :: "nat \<times> bytes \<Rightarrow> bool" where
  "frame_ok f \<longleftrightarrow> fst f \<in> {0, 1} \<and> length (snd f) < 2 ^ 32"

abbreviation stream_bytes :: "(nat \<times> bytes) list \<Rightarrow> bytes" where
  "stream_bytes fs \<equiv> concat (map frame_bytes fs)"

fun read_frames :: "('m, 'd, 'e) grpc_codec \<Rightarrow> (nat \<times> bytes) list \<Rightarrow> 'e grpc_error + ('m \<times> 'd) list" where
  "read_frames c [] = Inr []"
| "read_frames c (f # fs) =
     (case read_payload c (fst f) (snd f) of
        Inl e \<Rightarrow> Inl e
      | Inr r \<Rightarrow> (case read_frames c fs of Inl e \<Rightarrow> Inl e | Inr rs \<Rightarrow> Inr (r # rs)))"

lemma length_frame [simp]: "length (frame_bytes f) = 5 + length (snd f)"
  by (simp add: frame_bytes_def)

lemma grpc_loop_step:
  fixes c :: "('m, 'd, 'e) grpc_codec"
  assumes "offset + 5 \<le> length buf" and "buf ! offset \<in> {0, 1}"
    and "decode_message_length (take 4 (drop (offset + 1) buf)) = (Inr n :: 'e grpc_error + nat)"
    and "offset + 5 + n \<le> length buf"
  shows "grpc_loop c buf offset results =
    (case read_payload c (buf ! offset) (take n (drop (offset + 5) buf)) of
       Inl e \<Rightarrow> Inl e
     | Inr r \<Rightarrow> grpc_loop c buf (offset + 5 + n) (results @ [r]))"
proof -
  have "\<not> length buf \<le> offset" "\<not> length buf - offset < 5" "\<not> length buf - (offset + 5) < n" using assms(1,4) by linarith+
  then show ?thesis unfolding grpc_loop.simps [of c buf offset] assms(3) using assms(2) by simp
qed

lemma grpc_loop_frame:
  fixes c :: "('m, 'd, 'e) grpc_codec"
  assumes "frame_ok f"
  shows "grpc_loop c (pre @ frame_bytes f @ post) (length pre) results =
    (case read_payload c (fst f) (snd f) of
       Inl e \<Rightarrow> Inl e
     | Inr r \<Rightarrow> grpc_loop c ((pre @ frame_bytes f) @ post) (length (pre @ frame_bytes f)) (results @ [r]))"
proof -
  let ?buf = "pre @ frame_bytes f @ post"
  have "take 4 (drop (length pre + 1) ?buf) = be_bytes 4 (length (snd f))" by (simp add: frame_bytes_def)
  then have size: "decode_message_length (take 4 (drop (length pre + 1) ?buf)) = (Inr (length (snd f)) :: 'e grpc_error + nat)"
    using assms be_value_bytes [of "length (snd f)" 4] by (simp add: decode_message_length_def frame_ok_def)
  have flag: "?buf ! length pre = fst f" by (simp add: frame_bytes_def nth_append)
  have body: "take (length (snd f)) (drop (length pre + 5) ?buf) = snd f" by (simp add: frame_bytes_def)
  have "?buf ! length pre \<in> {0, 1}" using assms flag by (simp add: frame_ok_def)
  from grpc_loop_step [OF _ this size, of c results]
  have "grpc_loop c ?buf (length pre) results =
      (case read_payload c (fst f) (snd f) of
         Inl e \<Rightarrow> Inl e | Inr r \<Rightarrow> grpc_loop c ?buf (length pre + 5 + length (snd f)) (results @ [r]))"
    unfolding flag body by simp
  moreover have "length pre + 5 + length (snd f) = length (pre @ frame_bytes f)" by simp
  ultimately show ?thesis by (simp only: append_assoc)
qed

lemma grpc_loop_end [simp]: "length buf \<le> offset \<Longrightarrow> grpc_loop c buf offset results = Inr results"
  by (subst grpc_loop.simps) simp

lemma grpc_loop_frames:
  "\<forall>f \<in> set fs. frame_ok f \<Longrightarrow>
   grpc_loop c (pre @ stream_bytes fs) (length pre) results =
     (case read_frames c fs of Inl e \<Rightarrow> Inl e | Inr rs \<Rightarrow> Inr (results @ rs))"
proof (induction fs arbitrary: pre results)
  case (Cons f fs)
  show ?case
    using grpc_loop_frame [of f c pre "stream_bytes fs" results] Cons.prems
      Cons.IH [of "pre @ frame_bytes f"]
    by (simp split: sum.splits)
qed simp

text \<open>Every stream that is read to its end is a sequence of whole frames.\<close>

lemma be_bytes_value: "\<forall>b \<in> set bs. b < 256 \<Longrightarrow> be_bytes (length bs) (be_value bs) = bs"
proof (induction bs rule: rev_induct)
  case (snoc b bs)
  then have "(be_value bs * 256 + b) div 256 = be_value bs" "(be_value bs * 256 + b) mod 256 = b" by simp_all
  then show ?case using snoc by simp
qed simp

lemma be_value_bound: "\<forall>b \<in> set bs. b < 256 \<Longrightarrow> be_value bs < 256 ^ length bs"
proof (induction bs rule: rev_induct)
  case Nil
  then show ?case by (simp add: be_value_def)
next
  case (snoc b bs)
  then have "be_value bs + 1 \<le> 256 ^ length bs" "b < 256" by auto
  then have "(be_value bs + 1) * 256 \<le> 256 ^ length bs * 256" by (intro mult_right_mono) auto
  then show ?case using \<open>b < 256\<close> by simp
qed

lemma grpc_loop_whole_frames:
  fixes c :: "('m, 'd, 'e) grpc_codec"
  shows "grpc_loop c buf offset results = Inr rs \<Longrightarrow> \<forall>b \<in> set buf. b < 256 \<Longrightarrow>
   \<exists>fs. (\<forall>f \<in> set fs. frame_ok f) \<and> drop offset buf = stream_bytes fs"
proof (induction c buf offset results rule: grpc_loop.induct)
  case (1 c buf offset results)
  show ?case
  proof (cases "length buf \<le> offset")
    case True
    then show ?thesis by (intro exI [of _ "[]"]) simp
  next
    case False
    let ?len = "take 4 (drop (offset + 1) buf)" and ?flag = "buf ! offset"
    note step = "1.prems"(1) [unfolded grpc_loop.simps [of c buf offset]]
    have long: "\<not> length buf - offset < 5" and flag: "?flag \<in> {0, 1}"
      using step False by (auto split: if_splits)
    define n where "n = be_value ?len"
    have four: "length ?len = 4" using long by simp
    then have size: "decode_message_length ?len = (Inr n :: 'e grpc_error + nat)" by (simp add: decode_message_length_def n_def)
    have body: "\<not> length buf - (offset + 5) < n"
      using step False long flag size by (auto split: if_splits)
    have turn: "grpc_loop c buf offset results =
        (case read_payload c ?flag (take n (drop (offset + 5) buf)) of
           Inl e \<Rightarrow> Inl e | Inr r \<Rightarrow> grpc_loop c buf (offset + 5 + n) (results @ [r]))"
      by (rule grpc_loop_step [OF _ flag size]) (use False long body in linarith)+
    obtain r where r: "read_payload c ?flag (take n (drop (offset + 5) buf)) = Inr r"
      and rest: "grpc_loop c buf (offset + 5 + n) (results @ [r]) = Inr rs"
      using "1.prems"(1) turn by (auto split: sum.splits)
    obtain fs where fs: "\<forall>f \<in> set fs. frame_ok f" "drop (offset + 5 + n) buf = stream_bytes fs"
      using "1.IH" [OF False long _ size body r rest "1.prems"(2)] flag by auto
    have bytes: "\<forall>b \<in> set ?len. b < 256" using "1.prems"(2) by (meson in_set_dropD in_set_takeD)
    let ?f = "(?flag, take n (drop (offset + 5) buf))"
    have "n < 2 ^ 32" using be_value_bound [OF bytes] unfolding n_def four by simp
    moreover have "length (take n (drop (offset + 5) buf)) = n" using body by simp
    ultimately have "frame_ok ?f" using flag by (simp add: frame_ok_def)
    moreover have "drop offset buf = frame_bytes ?f @ stream_bytes fs"
    proof -
      have "drop offset buf = [?flag] @ drop (offset + 1) buf" using False by (simp add: Cons_nth_drop_Suc)
      also have "drop (offset + 1) buf = ?len @ drop 4 (drop (offset + 1) buf)" by (rule append_take_drop_id [symmetric])
      also have "drop 4 (drop (offset + 1) buf) = drop (offset + 5) buf" by (simp add: add.commute)
      also have "drop (offset + 5) buf = take n (drop (offset + 5) buf) @ drop n (drop (offset + 5) buf)"
        by (rule append_take_drop_id [symmetric])
      also have "drop n (drop (offset + 5) buf) = stream_bytes fs" using fs(2) by (simp add: add.commute)
      also have "?len = be_bytes 4 n" using be_bytes_value [OF bytes] unfolding four n_def by simp
      finally show ?thesis using body frame_bytes_def [of ?f] by simp
    qed
    ultimately show ?thesis using fs(1) by (intro exI [of _ "?f # fs"]) simp
  qed
qed

definition packed_result :: "'r list \<Rightarrow> 'r grpc_result" where
  "packed_result rs = (case rs of [r] \<Rightarrow> OneMessage r | _ \<Rightarrow> Messages rs)"

lemma grpc_decode_stream:
  assumes "\<forall>f \<in> set fs. frame_ok f"
  shows "grpc_decode c (stream_bytes fs) = (case read_frames c fs of Inl e \<Rightarrow> Inl e | Inr rs \<Rightarrow> Inr (packed_result rs))"
  using grpc_loop_frames [OF assms, of c "[]" "[]"]
  by (simp add: grpc_decode_def packed_result_def split: sum.splits list.splits)

text \<open>A stream cut inside a frame: the whole frames are read, and then the header or the body is missing.\<close>

lemma grpc_loop_cut:
  assumes "frame_ok f" and "0 < k" and "k < length (frame_bytes f)"
  shows "grpc_loop c (pre @ take k (frame_bytes f)) (length pre) results = Inl (if k < 5 then IncompleteHeader else IncompleteBody)"
proof (cases "k < 5")
  case True
  then show ?thesis using assms by (subst grpc_loop.simps) simp
next
  case False
  let ?buf = "pre @ take k (frame_bytes f)"
  obtain j where j: "k = 5 + j" "j < length (snd f)" using False assms(3) by (metis add_diff_inverse_nat length_frame nat_add_left_cancel_less)
  have cut: "take k (frame_bytes f) = [fst f] @ be_bytes 4 (length (snd f)) @ take j (snd f)" by (simp add: frame_bytes_def j(1) take_Cons')
  have flag: "?buf ! length pre \<in> {0, 1}" using assms(1) by (simp add: cut nth_append frame_ok_def)
  have "take 4 (drop (length pre + 1) ?buf) = be_bytes 4 (length (snd f))" by (simp add: cut)
  then have size: "decode_message_length (take 4 (drop (length pre + 1) ?buf)) = Inr (length (snd f))"
    using assms(1) be_value_bytes [of "length (snd f)" 4] by (simp add: decode_message_length_def frame_ok_def)
  have len: "length ?buf = length pre + 5 + j" using j by (simp add: cut)
  show ?thesis
    unfolding grpc_loop.simps [of c ?buf "length pre"] size len using flag False j(2) by simp
qed

lemma grpc_loop_frames_then:
  "\<forall>f \<in> set fs. frame_ok f \<Longrightarrow>
   grpc_loop c (pre @ stream_bytes fs @ post) (length pre) results =
     (case read_frames c fs of
        Inl e \<Rightarrow> Inl e
      | Inr rs \<Rightarrow> grpc_loop c (pre @ stream_bytes fs @ post) (length (pre @ stream_bytes fs)) (results @ rs))"
proof (induction fs arbitrary: pre results)
  case (Cons f fs)
  show ?case
    using grpc_loop_frame [of f c pre "stream_bytes fs @ post" results] Cons.prems
      Cons.IH [of "pre @ frame_bytes f"]
    by (simp add: add.assoc split: sum.splits)
qed simp

section \<open>Properties\<close>

text \<open>C33.  The decoder accepts exactly the concatenations of whole frames whose payloads it can read, and returns their messages
  in order; one message is returned by itself.  Not a byte is skipped.\<close>

theorem grpc_decode_exact:
  assumes "\<forall>b \<in> set buf. b < 256"
  shows "grpc_decode c buf = Inr r \<longleftrightarrow>
    (\<exists>fs rs. (\<forall>f \<in> set fs. frame_ok f) \<and> buf = stream_bytes fs \<and> read_frames c fs = Inr rs \<and> r = packed_result rs)"
proof
  assume r: "grpc_decode c buf = Inr r"
  then obtain rs where "grpc_loop c buf 0 [] = Inr rs" by (auto simp: grpc_decode_def split: sum.splits)
  from grpc_loop_whole_frames [OF this assms] obtain fs where fs: "\<forall>f \<in> set fs. frame_ok f" "buf = stream_bytes fs" by auto
  with r show "\<exists>fs rs. (\<forall>f \<in> set fs. frame_ok f) \<and> buf = stream_bytes fs \<and> read_frames c fs = Inr rs \<and> r = packed_result rs"
    by (auto simp: grpc_decode_stream split: sum.splits)
next
  assume "\<exists>fs rs. (\<forall>f \<in> set fs. frame_ok f) \<and> buf = stream_bytes fs \<and> read_frames c fs = Inr rs \<and> r = packed_result rs"
  then show "grpc_decode c buf = Inr r" by (auto simp: grpc_decode_stream)
qed

text \<open>A codec that keeps messages as they are, bytes for bytes, with a one-byte mark for gzip.\<close>

definition plain_codec :: "(bytes, unit, unit) grpc_codec" where
  "plain_codec = \<lparr>gc_encode = (\<lambda>m _. Inr m), gc_decode = (\<lambda>b. Inr (b, ())), gc_compress = (\<lambda>b. 31 # b),
     gc_decompress = (\<lambda>b. case b of [] \<Rightarrow> None | x # xs \<Rightarrow> Some xs)\<rparr>"

theorem grpc_decode_exact_witness:
  "grpc_decode plain_codec [0, 0, 0, 0, 1, 9] = Inr (OneMessage ([9], ()))"
proof -
  have bytes: "\<forall>b \<in> set [0 :: nat, 0, 0, 0, 1, 9]. b < 256" by simp
  have "[0, 0, 0, 0, 1, 9] = stream_bytes [(0, [9])]" by (simp add: frame_bytes_def be_bytes_4)
  moreover have "read_frames plain_codec [(0, [9])] = Inr [([9], ())]" by (simp add: read_payload_def plain_codec_def)
  moreover have "\<forall>f \<in> set [(0, [9])]. frame_ok f" by (simp add: frame_ok_def)
  moreover have "OneMessage ([9], ()) = packed_result [([9], ())]" by (simp add: packed_result_def)
  ultimately have "\<exists>fs rs. (\<forall>f \<in> set fs. frame_ok f) \<and> [0, 0, 0, 0, 1, 9] = stream_bytes fs \<and>
      read_frames plain_codec fs = Inr rs \<and> OneMessage ([9], ()) = packed_result rs"
    by (intro exI [of _ "[(0, [9])]"] exI [of _ "[([9], ())]"]) simp
  then show ?thesis by (rule iffD2 [OF grpc_decode_exact [OF bytes]])
qed

text \<open>What \<open>grpc_stream_encode\<close> writes, \<open>grpc_decode\<close> reads back, compressed or not, for every codec that reads back its own
  messages and every compression that inverts.\<close>

theorem grpc_stream_roundtrip:
  fixes c :: "('m, 'd, 'e) grpc_codec"
  assumes "grpc_stream_encode c ms is_gzip = Inr buf"
    and "\<And>m d b. gc_encode c m d = Inr b \<Longrightarrow> gc_decode c b = Inr (m, d)"
    and "\<And>b. gc_decompress c (gc_compress c b) = Some b"
  shows "grpc_decode c buf = Inr (packed_result ms)"
proof -
  have "\<exists>fs. (\<forall>f \<in> set fs. frame_ok f) \<and> buf = stream_bytes fs \<and> read_frames c fs = Inr ms"
    using assms
  proof (induction c ms is_gzip arbitrary: buf rule: grpc_stream_encode.induct)
    case (1 c is_gzip)
    then show ?case by (intro exI [of _ "[]"]) simp
  next
    case (2 c m d ms is_gzip)
    obtain frame rest where parts: "grpc_encode c m d is_gzip = Inr frame" "grpc_stream_encode c ms is_gzip = Inr rest"
      "buf = frame @ rest"
      using 2(2) by (auto split: sum.splits)
    obtain plain where plain: "gc_encode c m d = Inr plain" using parts(1) by (auto simp: grpc_encode_def split: sum.splits)
    define payload where "payload = (if is_gzip then gc_compress c plain else plain)"
    define f where "f = (if is_gzip then 1 else 0 :: nat, payload)"
    have "(case encode_message_length (int (length payload)) of
        Inl e \<Rightarrow> Inl e | Inr len \<Rightarrow> Inr ([if is_gzip then 1 else 0] @ len @ payload)) = (Inr frame :: 'e grpc_error + bytes)"
      using parts(1) unfolding grpc_encode_def plain Let_def payload_def by (cases is_gzip) (simp_all only: sum.case if_True if_False)
    then obtain len where len: "encode_message_length (int (length payload)) = (Inr len :: 'e grpc_error + bytes)"
        "frame = [if is_gzip then 1 else 0] @ len @ payload"
      by (auto split: sum.splits)
    then have frame: "frame = frame_bytes f" "frame_ok f"
      using encode_message_lengthD [OF len(1)] by (simp_all add: f_def frame_bytes_def frame_ok_def)
    have "read_payload c (fst f) payload = Inr (m, d)"
      using 2(4) 2(3) [OF plain] by (simp add: read_payload_def f_def payload_def)
    moreover obtain fs where "\<forall>f \<in> set fs. frame_ok f" "rest = stream_bytes fs" "read_frames c fs = Inr ms"
      using 2(1) [OF parts(1,2) 2(3,4)] by blast
    ultimately show ?case using frame parts(3) by (intro exI [of _ "f # fs"]) (simp add: f_def)
  qed
  then show ?thesis by (auto simp: grpc_decode_stream)
qed

theorem grpc_stream_roundtrip_witness:
  "grpc_decode plain_codec [1, 0, 0, 0, 2, 31, 9, 1, 0, 0, 0, 1, 31] = Inr (Messages [([9], ()), ([], ())])"
proof -
  have "grpc_stream_encode plain_codec [([9], ()), ([], ())] True = Inr [1, 0, 0, 0, 2, 31, 9, 1, 0, 0, 0, 1, 31]"
    by (simp add: grpc_encode_def plain_codec_def encode_message_length_def be_bytes_4)
  then have "grpc_decode plain_codec [1, 0, 0, 0, 2, 31, 9, 1, 0, 0, 0, 1, 31] = Inr (packed_result [([9], ()), ([], ())])"
    by (rule grpc_stream_roundtrip) (simp_all add: plain_codec_def)
  then show ?thesis by (simp add: packed_result_def)
qed

text \<open>C34.  A stream that stops inside a frame is an error, whichever byte it stops at: the header is incomplete up to its fifth
  byte, the body after that; an earlier frame that cannot be read is reported first.\<close>

theorem grpc_truncation_detected:
  assumes "\<forall>f \<in> set (fs @ [g]). frame_ok f" and "0 < k" and "k < length (frame_bytes g)"
  shows "grpc_decode c (stream_bytes fs @ take k (frame_bytes g)) =
    (case read_frames c fs of Inl e \<Rightarrow> Inl e | Inr _ \<Rightarrow> Inl (if k < 5 then IncompleteHeader else IncompleteBody))"
proof -
  have "grpc_loop c (stream_bytes fs @ take k (frame_bytes g)) 0 [] =
      (case read_frames c fs of
         Inl e \<Rightarrow> Inl e
       | Inr rs \<Rightarrow> grpc_loop c (stream_bytes fs @ take k (frame_bytes g)) (length (stream_bytes fs)) rs)"
    using grpc_loop_frames_then [of fs c "[]" "take k (frame_bytes g)" "[]", unfolded append_Nil list.size(3)] assms(1)
    by simp
  moreover have "grpc_loop c (stream_bytes fs @ take k (frame_bytes g)) (length (stream_bytes fs)) rs =
      Inl (if k < 5 then IncompleteHeader else IncompleteBody)" for rs
    by (rule grpc_loop_cut) (use assms in simp_all)
  ultimately show ?thesis by (simp add: grpc_decode_def split: sum.splits)
qed

theorem grpc_truncation_detected_witness:
  "grpc_decode plain_codec [0, 0, 0, 0, 1] = Inl IncompleteBody"
  using grpc_truncation_detected [of "[]" "(0, [9])" 5 plain_codec] by (simp add: frame_bytes_def frame_ok_def be_bytes_4)

end
