(* ===== verification/MonitorStore.thy ===== *)
theory MonitorStore
  imports Prelude "HOL-Library.List_Lexorder" "HOL-Library.Char_ord"
begin

text \<open>
  The process-local observation store of the monitoring hub (\<open>monitoring/store.py\<close>, with the snapshot models of
  \<open>monitoring/models.py\<close> and the states of \<open>runtime/state.py\<close>).  Clock readings are integers and arguments of the
  operations that take them.  Dictionaries keep their insertion order, over which the code takes minima.
\<close>

section \<open>States, events and snapshots\<close>

datatype worker_state = WorkerRegistered | WorkerStarting | WorkerRunning | WorkerDraining | WorkerStopped

datatype worker_availability = Online | Unreachable

datatype run_state =
    RunAccepted | RunStarting | RunRunning | RunStopping | RunCompleted | RunFailed | RunWasCancelled | RunKilled

definition terminal :: "run_state \<Rightarrow> bool" where
  "terminal st \<longleftrightarrow> st \<in> {RunCompleted, RunFailed, RunWasCancelled, RunKilled}"

type_synonym worker_key = "string \<times> string"

record monitor_event =
  me_id :: string
  me_sequence :: nat
  me_worker :: string
  me_instance :: string
  me_run :: "string option"
  me_task :: "string option"
  me_type :: string
  me_event :: string
  me_timestamp :: int
  me_worker_state :: "worker_state option"
  me_run_state :: "run_state option"
  me_spider :: "string option"
  me_counters :: "(string, int) pydict"
  me_detail :: "string option"

record worker_snapshot =
  ws_worker :: string
  ws_instance :: string
  ws_type :: string
  ws_status :: worker_state
  ws_availability :: worker_availability
  ws_last_event :: string
  ws_last_seen :: int
  ws_observed :: int
  ws_active_runs :: nat
  ws_spiders :: "string list"
  ws_counters :: "(string, int) pydict"
  ws_detail :: "string option"

record run_snapshot =
  rs_run :: string
  rs_worker :: string
  rs_instance :: string
  rs_task :: "string option"
  rs_type :: string
  rs_state :: run_state
  rs_last_event :: string
  rs_last_seen :: int
  rs_observed :: int
  rs_sequence :: nat
  rs_spiders :: "string list"
  rs_counters :: "(string, int) pydict"
  rs_detail :: "string option"

record monitor_store =
  mo_stale_after :: int
  mo_max_workers :: nat
  mo_max_runs :: nat
  mo_workers :: "(worker_key, worker_snapshot) pydict"
  mo_runs :: "(string, run_snapshot) pydict"
  mo_engines :: "(worker_key, int) pydict"
  mo_run_engines :: "(string, int) pydict"
  mo_event_ids :: "(string, string) pydict"

datatype monitor_error = BadLimits | UnknownWorker worker_key

definition monitor_init :: "int \<Rightarrow> int \<Rightarrow> int \<Rightarrow> monitor_error + monitor_store" where
  "monitor_init stale_after max_workers max_runs =
     (if stale_after \<le> 0 then Inl BadLimits
      else if max_workers \<le> 0 \<or> max_runs \<le> 0 then Inl BadLimits
      else Inr \<lparr>mo_stale_after = stale_after, mo_max_workers = nat max_workers, mo_max_runs = nat max_runs, mo_workers = [],
        mo_runs = [], mo_engines = [], mo_run_engines = [], mo_event_ids = []\<rparr>)"

section \<open>Recording an event\<close>

definition worker_key_of :: "monitor_event \<Rightarrow> worker_key" where
  "worker_key_of ev = (me_worker ev, me_instance ev)"

definition release_terminal_engines :: "monitor_event \<Rightarrow> monitor_store \<Rightarrow> monitor_store" where
  "release_terminal_engines ev s =
     (case (me_run ev, me_run_state ev) of
        (Some run_id, Some st) \<Rightarrow>
          (if \<not> terminal st then s
           else
             let remaining = dict_get (mo_run_engines s) run_id 0; key = worker_key_of ev
             in if remaining = 0 then s
                else s\<lparr>mo_engines := dict_set (mo_engines s) key (max 0 (dict_get (mo_engines s) key 0 - remaining)),
                       mo_run_engines := dict_set (mo_run_engines s) run_id 0\<rparr>)
      | _ \<Rightarrow> s)"

definition accept_run_event :: "monitor_event \<Rightarrow> monitor_store \<Rightarrow> monitor_store \<times> bool" where
  "accept_run_event ev s =
     (case me_run ev of
        None \<Rightarrow> (s, True)
      | Some run_id \<Rightarrow>
          (if map_of (mo_event_ids s) run_id = Some (me_id ev) then (s, False)
           else if (case map_of (mo_runs s) run_id of
                      None \<Rightarrow> False | Some previous \<Rightarrow> 0 < me_sequence ev \<and> me_sequence ev \<le> rs_sequence previous)
           then (s, False)
           else (s\<lparr>mo_event_ids := dict_set (mo_event_ids s) run_id (me_id ev)\<rparr>, True)))"

text \<open>\<open>spider_name\<close> counts only when it is neither missing nor empty.\<close>

definition merge_spiders :: "string list \<Rightarrow> string option \<Rightarrow> string list" where
  "merge_spiders spiders name =
     sort (case name of
             None \<Rightarrow> spiders | Some n \<Rightarrow> if n \<noteq> [] \<and> n \<notin> set spiders then spiders @ [n] else spiders)"

text \<open>The engines counted after an event, for a worker and for a run alike.\<close>

definition next_engines :: "string \<Rightarrow> int \<Rightarrow> int" where
  "next_engines event n =
     (if event = ''engine_started'' then n + 1 else if event = ''engine_stopped'' then max 0 (n - 1) else n)"

definition record_worker :: "int \<Rightarrow> monitor_event \<Rightarrow> monitor_store \<Rightarrow> monitor_store \<times> worker_snapshot" where
  "record_worker now ev s =
     (let key = worker_key_of ev; previous = map_of (mo_workers s) key;
          engines = next_engines (me_event ev) (dict_get (mo_engines s) key 0);
          status0 = (case previous of None \<Rightarrow> WorkerRegistered | Some p \<Rightarrow> ws_status p);
          status = (case me_worker_state ev of
                      Some st \<Rightarrow> st
                    | None \<Rightarrow>
                        if me_event ev \<in> {''engine_started'', ''spider_opened''} then WorkerRunning
                        else if me_event ev = ''engine_stopped'' then (if engines \<noteq> 0 then WorkerRunning else WorkerStopped)
                        else status0);
          snapshot = \<lparr>ws_worker = me_worker ev, ws_instance = me_instance ev, ws_type = me_type ev, ws_status = status,
            ws_availability = Online, ws_last_event = me_event ev, ws_last_seen = me_timestamp ev, ws_observed = now,
            ws_active_runs = (case previous of None \<Rightarrow> 0 | Some p \<Rightarrow> ws_active_runs p),
            ws_spiders = merge_spiders (case previous of None \<Rightarrow> [] | Some p \<Rightarrow> ws_spiders p) (me_spider ev),
            ws_counters = me_counters ev, ws_detail = me_detail ev\<rparr>
      in (s\<lparr>mo_engines := dict_set (mo_engines s) key engines, mo_workers := dict_set (mo_workers s) key snapshot\<rparr>, snapshot))"

definition record_run :: "int \<Rightarrow> monitor_event \<Rightarrow> monitor_store \<Rightarrow> monitor_store" where
  "record_run now ev s =
     (case me_run ev of
        None \<Rightarrow> s
      | Some run_id \<Rightarrow>
          let previous = map_of (mo_runs s) run_id;
              engines = next_engines (me_event ev) (dict_get (mo_run_engines s) run_id 0);
              state0 = (case previous of None \<Rightarrow> RunAccepted | Some p \<Rightarrow> rs_state p);
              st = (case me_run_state ev of
                      Some st \<Rightarrow> st
                    | None \<Rightarrow>
                        if me_event ev \<in> {''engine_started'', ''spider_opened''} then RunRunning
                        else if me_event ev = ''engine_stopped'' \<and> engines = 0 then RunCompleted
                        else state0)
          in s\<lparr>mo_run_engines := dict_set (mo_run_engines s) run_id engines,
               mo_runs := dict_set (mo_runs s) run_id
                 \<lparr>rs_run = run_id, rs_worker = me_worker ev, rs_instance = me_instance ev, rs_task = me_task ev,
                  rs_type = me_type ev, rs_state = st, rs_last_event = me_event ev, rs_last_seen = me_timestamp ev,
                  rs_observed = now, rs_sequence = max (me_sequence ev) (case previous of None \<Rightarrow> 0 | Some p \<Rightarrow> rs_sequence p),
                  rs_spiders = merge_spiders (case previous of None \<Rightarrow> [] | Some p \<Rightarrow> rs_spiders p) (me_spider ev),
                  rs_counters = me_counters ev, rs_detail = me_detail ev\<rparr>\<rparr>)"

definition count_active_runs :: "worker_key \<Rightarrow> monitor_store \<Rightarrow> nat" where
  "count_active_runs key s =
     length (filter (\<lambda>(_, r). (rs_worker r, rs_instance r) = key \<and> \<not> terminal (rs_state r)) (mo_runs s))"

section \<open>Eviction\<close>

text \<open>What eviction compares: whether the snapshot is still live, then how long ago it was observed.\<close>

datatype evict_rank = EvictRank (rank_live: bool) (rank_observed: int)

instantiation evict_rank :: linorder
begin

definition less_eq_evict_rank :: "evict_rank \<Rightarrow> evict_rank \<Rightarrow> bool" where
  "x \<le> y \<longleftrightarrow> \<not> rank_live x \<and> rank_live y \<or> rank_live x = rank_live y \<and> rank_observed x \<le> rank_observed y"

definition less_evict_rank :: "evict_rank \<Rightarrow> evict_rank \<Rightarrow> bool" where
  "x < y \<longleftrightarrow> \<not> rank_live x \<and> rank_live y \<or> rank_live x = rank_live y \<and> rank_observed x < rank_observed (y :: evict_rank)"

instance
  by standard (auto simp: less_eq_evict_rank_def less_evict_rank_def evict_rank.expand)

end

text \<open>\<open>min(d, key=...)\<close>: the first key whose rank is least.\<close>

fun min_key :: "('a \<Rightarrow> 'k :: linorder) \<Rightarrow> 'a list \<Rightarrow> 'a option" where
  "min_key rank [] = None"
| "min_key rank (x # xs) =
     (case min_key rank xs of None \<Rightarrow> Some x | Some y \<Rightarrow> if rank y < rank x then Some y else Some x)"

definition run_rank :: "run_snapshot \<Rightarrow> evict_rank" where
  "run_rank r = EvictRank (\<not> terminal (rs_state r)) (rs_observed r)"

definition worker_rank :: "worker_snapshot \<Rightarrow> evict_rank" where
  "worker_rank w = EvictRank (ws_status w \<noteq> WorkerStopped) (ws_observed w)"

definition evict_run :: "string \<Rightarrow> monitor_store \<Rightarrow> monitor_store" where
  "evict_run k s =
     s\<lparr>mo_runs := dict_pop (mo_runs s) k, mo_run_engines := dict_pop (mo_run_engines s) k,
       mo_event_ids := dict_pop (mo_event_ids s) k\<rparr>"

definition evict_worker :: "worker_key \<Rightarrow> monitor_store \<Rightarrow> monitor_store" where
  "evict_worker k s = s\<lparr>mo_workers := dict_pop (mo_workers s) k, mo_engines := dict_pop (mo_engines s) k\<rparr>"

lemma length_dict_pop_less: "k \<in> set (keys d) \<Longrightarrow> length (dict_pop d k) < length d"
  unfolding dict_pop_def by (rule length_filter_less [where x = "(k, the (map_of d k))"]) (auto simp: map_of_SomeD dest: weak_map_of_SomeI)

lemma min_key_mem: "min_key rank xs = Some x \<Longrightarrow> x \<in> set xs"
  by (induction xs arbitrary: x) (auto split: option.splits if_splits)

lemma min_key_fst: "min_key rank d = Some p \<Longrightarrow> fst p \<in> set (keys d)"
  using min_key_mem by fastforce

lemma min_key_None [simp]: "min_key rank xs = None \<longleftrightarrow> xs = []"
  by (cases xs) (auto split: option.splits)

lemma min_key_le: "min_key rank xs = Some x \<Longrightarrow> y \<in> set xs \<Longrightarrow> rank x \<le> rank y"
  by (induction xs arbitrary: x) (auto split: option.splits if_splits intro: order.trans)

function enforce_runs :: "monitor_store \<Rightarrow> monitor_store" where
  "enforce_runs s =
     (if length (mo_runs s) \<le> mo_max_runs s then s
      else (case min_key (\<lambda>p. run_rank (snd p)) (mo_runs s) of None \<Rightarrow> s | Some p \<Rightarrow> enforce_runs (evict_run (fst p) s)))"
  by pat_completeness auto

termination enforce_runs
  by (relation "measure (\<lambda>s. length (mo_runs s))")
    (auto simp: evict_run_def intro!: length_dict_pop_less dest!: min_key_fst)

function enforce_workers :: "monitor_store \<Rightarrow> monitor_store" where
  "enforce_workers s =
     (if length (mo_workers s) \<le> mo_max_workers s then s
      else (case min_key (\<lambda>p. worker_rank (snd p)) (mo_workers s) of
              None \<Rightarrow> s | Some p \<Rightarrow> enforce_workers (evict_worker (fst p) s)))"
  by pat_completeness auto

termination enforce_workers
  by (relation "measure (\<lambda>s. length (mo_workers s))")
    (auto simp: evict_worker_def intro!: length_dict_pop_less dest!: min_key_fst)

declare enforce_runs.simps [simp del] enforce_workers.simps [simp del]

definition enforce_limits :: "monitor_store \<Rightarrow> monitor_store" where
  "enforce_limits s = enforce_workers (enforce_runs s)"

text \<open>The whole of \<open>record\<close>, with the clock read once for the worker and once for the run.\<close>

definition monitor_record ::
  "int \<Rightarrow> int \<Rightarrow> monitor_event \<Rightarrow> monitor_store \<Rightarrow> monitor_store \<times> (monitor_error + worker_snapshot)" where
  "monitor_record now_worker now_run ev s =
     (let key = worker_key_of ev
      in case accept_run_event ev s of
           (s1, False) \<Rightarrow>
             (s1, (case map_of (mo_workers s1) key of None \<Rightarrow> Inl (UnknownWorker key) | Some w \<Rightarrow> Inr w))
         | (s1, True) \<Rightarrow>
             (case record_worker now_worker ev (release_terminal_engines ev s1) of
                (s2, w) \<Rightarrow>
                  (case me_run ev of
                     None \<Rightarrow> (enforce_limits s2, Inr w)
                   | Some _ \<Rightarrow>
                       let s3 = record_run now_run ev s2; w' = w\<lparr>ws_active_runs := count_active_runs key s3\<rparr>
                       in (enforce_limits (s3\<lparr>mo_workers := dict_set (mo_workers s3) key w'\<rparr>), Inr w'))))"

section \<open>Listing\<close>

definition list_workers :: "int \<Rightarrow> monitor_store \<Rightarrow> worker_snapshot list" where
  "list_workers now s =
     sort_key (\<lambda>w. - ws_observed w)
       (map (\<lambda>(_, w). w\<lparr>ws_availability :=
          if ws_status w \<in> {WorkerRegistered, WorkerStarting, WorkerRunning, WorkerDraining} \<and>
            mo_stale_after s < now - ws_observed w
          then Unreachable else Online\<rparr>) (mo_workers s))"

definition list_runs :: "monitor_store \<Rightarrow> run_snapshot list" where
  "list_runs s = sort_key (\<lambda>r. - rs_observed r) (map snd (mo_runs s))"

section \<open>The invariant\<close>

text \<open>The dictionaries a worker or a run has an entry in have the same keys.\<close>

definition store_synced :: "monitor_store \<Rightarrow> bool" where
  "store_synced s \<longleftrightarrow>
     dict_wf (mo_workers s) \<and> dict_wf (mo_runs s) \<and> dict_wf (mo_engines s) \<and> dict_wf (mo_run_engines s) \<and>
     dict_wf (mo_event_ids s) \<and> set (keys (mo_engines s)) = set (keys (mo_workers s)) \<and>
     set (keys (mo_run_engines s)) = set (keys (mo_runs s)) \<and> set (keys (mo_event_ids s)) = set (keys (mo_runs s))"

definition monitor_inv :: "monitor_store \<Rightarrow> bool" where
  "monitor_inv s \<longleftrightarrow> store_synced s \<and> length (mo_runs s) \<le> mo_max_runs s \<and> length (mo_workers s) \<le> mo_max_workers s"

lemma evict_run_synced [inv_intros]: "store_synced s \<Longrightarrow> store_synced (evict_run k s)"
  by (simp add: store_synced_def evict_run_def del: set_map)

lemma evict_worker_synced [inv_intros]: "store_synced s \<Longrightarrow> store_synced (evict_worker k s)"
  by (simp add: store_synced_def evict_worker_def del: set_map)

lemma evict_simps [simp]:
  "mo_workers (evict_run k s) = mo_workers s" "mo_engines (evict_run k s) = mo_engines s"
  "mo_max_runs (evict_run k s) = mo_max_runs s" "mo_max_workers (evict_run k s) = mo_max_workers s"
  "mo_runs (evict_worker j s) = mo_runs s" "mo_run_engines (evict_worker j s) = mo_run_engines s"
  "mo_event_ids (evict_worker j s) = mo_event_ids s"
  "mo_max_runs (evict_worker j s) = mo_max_runs s" "mo_max_workers (evict_worker j s) = mo_max_workers s"
  by (simp_all add: evict_run_def evict_worker_def)

lemma enforce_runs_props:
  "store_synced s \<Longrightarrow>
   store_synced (enforce_runs s) \<and> length (mo_runs (enforce_runs s)) \<le> mo_max_runs s \<and>
   mo_workers (enforce_runs s) = mo_workers s \<and> mo_engines (enforce_runs s) = mo_engines s \<and>
   mo_max_runs (enforce_runs s) = mo_max_runs s \<and> mo_max_workers (enforce_runs s) = mo_max_workers s"
proof (induction s rule: enforce_runs.induct)
  case (1 s)
  show ?case
  proof (cases "length (mo_runs s) \<le> mo_max_runs s")
    case True
    then show ?thesis using 1(2) by (subst (1 2 3 4 5 6) enforce_runs.simps) simp
  next
    case False
    then obtain p where p: "min_key (\<lambda>p. run_rank (snd p)) (mo_runs s) = Some p"
      by (cases "min_key (\<lambda>p. run_rank (snd p)) (mo_runs s)") auto
    have eq: "enforce_runs s = enforce_runs (evict_run (fst p) s)" using False p by (subst enforce_runs.simps) simp
    show ?thesis using 1(1) [OF False p] evict_run_synced [OF 1(2)] unfolding eq by simp
  qed
qed

lemma enforce_workers_props:
  "store_synced s \<Longrightarrow>
   store_synced (enforce_workers s) \<and> length (mo_workers (enforce_workers s)) \<le> mo_max_workers s \<and>
   mo_runs (enforce_workers s) = mo_runs s \<and> mo_event_ids (enforce_workers s) = mo_event_ids s \<and>
   mo_run_engines (enforce_workers s) = mo_run_engines s \<and>
   mo_max_runs (enforce_workers s) = mo_max_runs s \<and> mo_max_workers (enforce_workers s) = mo_max_workers s"
proof (induction s rule: enforce_workers.induct)
  case (1 s)
  show ?case
  proof (cases "length (mo_workers s) \<le> mo_max_workers s")
    case True
    then show ?thesis using 1(2) by (subst (1 2 3 4 5 6 7) enforce_workers.simps) simp
  next
    case False
    then obtain p where p: "min_key (\<lambda>p. worker_rank (snd p)) (mo_workers s) = Some p"
      by (cases "min_key (\<lambda>p. worker_rank (snd p)) (mo_workers s)") auto
    have eq: "enforce_workers s = enforce_workers (evict_worker (fst p) s)" using False p by (subst enforce_workers.simps) simp
    show ?thesis using 1(1) [OF False p] evict_worker_synced [OF 1(2)] unfolding eq by simp
  qed
qed

lemma enforce_limits_inv: "store_synced s \<Longrightarrow> monitor_inv (enforce_limits s)"
  using enforce_runs_props [of s] enforce_workers_props [of "enforce_runs s"]
  by (simp add: monitor_inv_def enforce_limits_def)

text \<open>One accepted event, before the limits.\<close>

definition recorded :: "int \<Rightarrow> int \<Rightarrow> monitor_event \<Rightarrow> monitor_store \<Rightarrow> monitor_store \<times> worker_snapshot" where
  "recorded now_worker now_run ev s =
     (case record_worker now_worker ev (release_terminal_engines ev (fst (accept_run_event ev s))) of
        (s2, w) \<Rightarrow>
          (case me_run ev of
             None \<Rightarrow> (s2, w)
           | Some _ \<Rightarrow>
               let s3 = record_run now_run ev s2; w' = w\<lparr>ws_active_runs := count_active_runs (worker_key_of ev) s3\<rparr>
               in (s3\<lparr>mo_workers := dict_set (mo_workers s3) (worker_key_of ev) w'\<rparr>, w')))"

lemma monitor_record_cases:
  "monitor_record nw nr ev s =
     (if snd (accept_run_event ev s)
      then (case recorded nw nr ev s of (s', w) \<Rightarrow> (enforce_limits s', Inr w))
      else (s, (case map_of (mo_workers s) (worker_key_of ev) of None \<Rightarrow> Inl (UnknownWorker (worker_key_of ev)) | Some w \<Rightarrow> Inr w)))"
  by (auto simp: monitor_record_def recorded_def accept_run_event_def Let_def split: option.splits prod.splits)

lemma map_of_Some_key: "map_of d k = Some v \<Longrightarrow> k \<in> set (keys d)"
  by (force dest: map_of_SomeD)

lemma release_terminal_keys:
  "mo_workers (release_terminal_engines ev s) = mo_workers s" "mo_runs (release_terminal_engines ev s) = mo_runs s"
  "mo_event_ids (release_terminal_engines ev s) = mo_event_ids s"
  "set (keys (mo_run_engines (release_terminal_engines ev s))) = set (keys (mo_run_engines s))"
  "insert (worker_key_of ev) (set (keys (mo_engines (release_terminal_engines ev s)))) =
     insert (worker_key_of ev) (set (keys (mo_engines s)))"
  by (auto simp: release_terminal_engines_def Let_def dict_get_def split: option.splits simp del: set_map
      dest: map_of_Some_key)

lemma release_terminal_wf:
  "dict_wf (mo_engines s) \<Longrightarrow> dict_wf (mo_engines (release_terminal_engines ev s))"
  "dict_wf (mo_run_engines s) \<Longrightarrow> dict_wf (mo_run_engines (release_terminal_engines ev s))"
  "mo_max_runs (release_terminal_engines ev s) = mo_max_runs s"
  "mo_max_workers (release_terminal_engines ev s) = mo_max_workers s"
  by (auto simp: release_terminal_engines_def Let_def split: option.splits)

lemma accept_keys:
  "snd (accept_run_event ev s) \<Longrightarrow> fst (accept_run_event ev s) =
     (case me_run ev of None \<Rightarrow> s | Some r \<Rightarrow> s\<lparr>mo_event_ids := dict_set (mo_event_ids s) r (me_id ev)\<rparr>)"
  by (auto simp: accept_run_event_def split: option.splits if_splits)

lemma recorded_keys:
  fixes ev s
  defines "s1 \<equiv> release_terminal_engines ev (fst (accept_run_event ev s))"
  shows "set (keys (mo_workers (fst (recorded nw nr ev s)))) = insert (worker_key_of ev) (set (keys (mo_workers s1)))"
    and "set (keys (mo_engines (fst (recorded nw nr ev s)))) = insert (worker_key_of ev) (set (keys (mo_engines s1)))"
    and "set (keys (mo_runs (fst (recorded nw nr ev s)))) = set_option (me_run ev) \<union> set (keys (mo_runs s1))"
    and "set (keys (mo_run_engines (fst (recorded nw nr ev s)))) = set_option (me_run ev) \<union> set (keys (mo_run_engines s1))"
    and "mo_event_ids (fst (recorded nw nr ev s)) = mo_event_ids s1"
  by (cases "me_run ev"; simp add: recorded_def record_worker_def record_run_def Let_def s1_def del: set_map)+

lemma recorded_wf:
  fixes ev s
  defines "s1 \<equiv> release_terminal_engines ev (fst (accept_run_event ev s))"
  shows "dict_wf (mo_workers s1) \<Longrightarrow> dict_wf (mo_workers (fst (recorded nw nr ev s)))"
    and "dict_wf (mo_engines s1) \<Longrightarrow> dict_wf (mo_engines (fst (recorded nw nr ev s)))"
    and "dict_wf (mo_runs s1) \<Longrightarrow> dict_wf (mo_runs (fst (recorded nw nr ev s)))"
    and "dict_wf (mo_run_engines s1) \<Longrightarrow> dict_wf (mo_run_engines (fst (recorded nw nr ev s)))"
  by (cases "me_run ev"; simp add: recorded_def record_worker_def record_run_def Let_def s1_def del: set_map)+

lemma recorded_synced:
  assumes "store_synced s" and "snd (accept_run_event ev s)"
  shows "store_synced (fst (recorded nw nr ev s))"
proof -
  let ?s0 = "fst (accept_run_event ev s)"
  have s0: "mo_workers ?s0 = mo_workers s" "mo_runs ?s0 = mo_runs s" "mo_engines ?s0 = mo_engines s"
    "mo_run_engines ?s0 = mo_run_engines s" "dict_wf (mo_event_ids ?s0)"
    "set (keys (mo_event_ids ?s0)) = set_option (me_run ev) \<union> set (keys (mo_event_ids s))"
    using assms(1) unfolding accept_keys [OF assms(2)] store_synced_def
    by (cases "me_run ev"; simp del: set_map)+
  note rel = release_terminal_keys [where ev = ev and s = ?s0] release_terminal_wf [where ev = ev and s = ?s0]
  note wf = recorded_wf [where ev = ev and s = s and nw = nw and nr = nr]
  show ?thesis
    unfolding store_synced_def recorded_keys
  proof (intro conjI)
    show "dict_wf (mo_workers (fst (recorded nw nr ev s)))" by (rule wf(1)) (use assms(1) s0 rel in \<open>simp add: store_synced_def\<close>)
    show "dict_wf (mo_runs (fst (recorded nw nr ev s)))" by (rule wf(3)) (use assms(1) s0 rel in \<open>simp add: store_synced_def\<close>)
    show "dict_wf (mo_engines (fst (recorded nw nr ev s)))" by (rule wf(2)) (use assms(1) s0 rel in \<open>simp add: store_synced_def\<close>)
    show "dict_wf (mo_run_engines (fst (recorded nw nr ev s)))"
      by (rule wf(4)) (use assms(1) s0 rel in \<open>simp add: store_synced_def\<close>)
  qed (use assms(1) s0 rel in \<open>simp_all add: store_synced_def del: set_map\<close>)
qed

lemma recorded_max:
  "snd (accept_run_event ev s) \<Longrightarrow> mo_max_runs (fst (recorded nw nr ev s)) = mo_max_runs s \<and>
   mo_max_workers (fst (recorded nw nr ev s)) = mo_max_workers s"
  by (auto simp: recorded_def record_worker_def record_run_def Let_def release_terminal_wf accept_keys split: option.splits)

lemma monitor_record_max:
  "store_synced s \<Longrightarrow> mo_max_workers (fst (monitor_record nw nr ev s)) = mo_max_workers s \<and>
   mo_max_runs (fst (monitor_record nw nr ev s)) = mo_max_runs s"
  using recorded_synced [of s ev nw nr] recorded_max [of ev s nw nr] enforce_runs_props [of "fst (recorded nw nr ev s)"]
    enforce_workers_props [of "enforce_runs (fst (recorded nw nr ev s))"]
  by (auto simp: monitor_record_cases enforce_limits_def split: prod.split)

lemma monitor_record_inv [inv_intros]: "monitor_inv s \<Longrightarrow> monitor_inv (fst (monitor_record nw nr ev s))"
  using recorded_synced [of s ev nw nr]
  by (auto simp: monitor_record_cases monitor_inv_def [of s] split: prod.split intro: enforce_limits_inv)

section \<open>Properties\<close>

text \<open>Runs of the store: any events, in any order, at any readings of the clock.\<close>

fun monitor_run :: "(int \<times> int \<times> monitor_event) list \<Rightarrow> monitor_store \<Rightarrow> monitor_store" where
  "monitor_run [] s = s"
| "monitor_run ((nw, nr, ev) # evs) s = monitor_run evs (fst (monitor_record nw nr ev s))"

text \<open>C35.  However many events arrive, the store keeps at most the configured number of workers and runs, and its auxiliary
  counters and event ids hold an entry for exactly the runs and workers it keeps.\<close>

theorem monitor_bounded:
  assumes "monitor_init stale max_workers max_runs = Inr s0" and "s = monitor_run evs s0"
  shows "length (mo_workers s) \<le> nat max_workers \<and> length (mo_runs s) \<le> nat max_runs \<and>
    set (keys (mo_engines s)) = set (keys (mo_workers s)) \<and> set (keys (mo_run_engines s)) = set (keys (mo_runs s)) \<and>
    set (keys (mo_event_ids s)) = set (keys (mo_runs s))"
proof -
  have init: "monitor_inv s0" "mo_max_workers s0 = nat max_workers" "mo_max_runs s0 = nat max_runs"
    using assms(1) by (auto simp: monitor_init_def monitor_inv_def store_synced_def split: if_splits)
  have "monitor_inv (monitor_run evs t) \<and> mo_max_workers (monitor_run evs t) = mo_max_workers t \<and>
      mo_max_runs (monitor_run evs t) = mo_max_runs t" if "monitor_inv t" for t
    using that
  proof (induction evs t rule: monitor_run.induct)
    case (2 nw nr ev evs t)
    have "mo_max_workers (fst (monitor_record nw nr ev t)) = mo_max_workers t \<and>
        mo_max_runs (fst (monitor_record nw nr ev t)) = mo_max_runs t"
      by (rule monitor_record_max) (use 2(2) in \<open>simp add: monitor_inv_def\<close>)
    then show ?case using 2(1) monitor_record_inv [OF 2(2)] by simp
  qed simp
  from this [OF init(1)] show ?thesis using init(2,3) unfolding assms(2) by (simp add: monitor_inv_def store_synced_def del: set_map)
qed

definition sample_event :: monitor_event where
  "sample_event = \<lparr>me_id = ''e1'', me_sequence = 1, me_worker = ''w'', me_instance = ''i'', me_run = Some ''r'', me_task = None,
     me_type = ''crawler'', me_event = ''engine_started'', me_timestamp = 10, me_worker_state = None, me_run_state = None,
     me_spider = Some ''s'', me_counters = [], me_detail = None\<rparr>"

definition small_store :: monitor_store where
  "small_store = \<lparr>mo_stale_after = 45, mo_max_workers = 1, mo_max_runs = 2, mo_workers = [], mo_runs = [], mo_engines = [],
     mo_run_engines = [], mo_event_ids = []\<rparr>"

lemma small_store_init: "monitor_init 45 1 2 = Inr small_store"
  by (simp add: monitor_init_def small_store_def)

theorem monitor_bounded_witness:
  "length (mo_runs (monitor_run [(10, 10, sample_event)] small_store)) \<le> 2"
  using monitor_bounded [OF small_store_init refl, of "[(10, 10, sample_event)]"] by simp

lemma evict_step_order:
  fixes rank :: "'b \<Rightarrow> evict_rank"
  assumes "dict_wf d" and p: "min_key (\<lambda>p. rank (snd p)) d = Some p"
    and kept: "kept \<subseteq> set (dict_pop d (fst p))"
    and rest: "\<forall>x \<in> set (dict_pop d (fst p)) - kept. \<forall>q \<in> kept. rank (snd x) \<le> rank (snd q)"
  shows "kept \<subseteq> set d \<and> (\<forall>x \<in> set d - kept. \<forall>q \<in> kept. rank (snd x) \<le> rank (snd q))"
proof (intro conjI ballI)
  show sub: "kept \<subseteq> set d" using kept by (auto simp: dict_pop_def)
  fix x q
  assume x: "x \<in> set d - kept" and q: "q \<in> kept"
  show "rank (snd x) \<le> rank (snd q)"
  proof (cases "fst x = fst p")
    case True
    then have "x = p" using x min_key_mem [OF p] assms(1) by (metis DiffD1 eq_key_imp_eq_value prod.collapse)
    then show ?thesis using min_key_le [OF p] q sub by blast
  next
    case False
    then have "x \<in> set (dict_pop d (fst p)) - kept" using x by (simp add: dict_pop_def)
    then show ?thesis using rest q by blast
  qed
qed

lemma enforce_runs_order:
  "store_synced s \<Longrightarrow>
   set (mo_runs (enforce_runs s)) \<subseteq> set (mo_runs s) \<and>
   (\<forall>p \<in> set (mo_runs s) - set (mo_runs (enforce_runs s)). \<forall>q \<in> set (mo_runs (enforce_runs s)). run_rank (snd p) \<le> run_rank (snd q))"
proof (induction s rule: enforce_runs.induct)
  case (1 s)
  show ?case
  proof (cases "length (mo_runs s) \<le> mo_max_runs s")
    case True
    then have "enforce_runs s = s" by (subst enforce_runs.simps) simp
    then show ?thesis by simp
  next
    case False
    then obtain p where p: "min_key (\<lambda>p. run_rank (snd p)) (mo_runs s) = Some p"
      by (cases "min_key (\<lambda>p. run_rank (snd p)) (mo_runs s)") auto
    have eq: "enforce_runs s = enforce_runs (evict_run (fst p) s)" using False p by (subst enforce_runs.simps) simp
    have popped: "mo_runs (evict_run (fst p) s) = dict_pop (mo_runs s) (fst p)" by (simp add: evict_run_def)
    show ?thesis
      unfolding eq
      by (rule evict_step_order [OF _ p])
        (use 1(1) [OF False p evict_run_synced [OF 1(2)]] 1(2) popped in \<open>simp_all add: store_synced_def\<close>)
  qed
qed

lemma enforce_workers_order:
  "store_synced s \<Longrightarrow>
   set (mo_workers (enforce_workers s)) \<subseteq> set (mo_workers s) \<and>
   (\<forall>p \<in> set (mo_workers s) - set (mo_workers (enforce_workers s)).
      \<forall>q \<in> set (mo_workers (enforce_workers s)). worker_rank (snd p) \<le> worker_rank (snd q))"
proof (induction s rule: enforce_workers.induct)
  case (1 s)
  show ?case
  proof (cases "length (mo_workers s) \<le> mo_max_workers s")
    case True
    then have "enforce_workers s = s" by (subst enforce_workers.simps) simp
    then show ?thesis by simp
  next
    case False
    then obtain p where p: "min_key (\<lambda>p. worker_rank (snd p)) (mo_workers s) = Some p"
      by (cases "min_key (\<lambda>p. worker_rank (snd p)) (mo_workers s)") auto
    have eq: "enforce_workers s = enforce_workers (evict_worker (fst p) s)" using False p by (subst enforce_workers.simps) simp
    have popped: "mo_workers (evict_worker (fst p) s) = dict_pop (mo_workers s) (fst p)" by (simp add: evict_worker_def)
    show ?thesis
      unfolding eq
      by (rule evict_step_order [OF _ p])
        (use 1(1) [OF False p evict_worker_synced [OF 1(2)]] 1(2) popped in \<open>simp_all add: store_synced_def\<close>)
  qed
qed

text \<open>Eviction spares what is live: a run that is evicted ranks no higher than any run that stays, so a live run goes only
  when no finished one is kept, and the oldest observation goes first; the same for workers that have not stopped.\<close>

theorem eviction_order:
  assumes "store_synced s"
  shows "(\<forall>p \<in> set (mo_runs s) - set (mo_runs (enforce_limits s)).
      \<forall>q \<in> set (mo_runs (enforce_limits s)). run_rank (snd p) \<le> run_rank (snd q)) \<and>
    (\<forall>p \<in> set (mo_workers s) - set (mo_workers (enforce_limits s)).
      \<forall>q \<in> set (mo_workers (enforce_limits s)). worker_rank (snd p) \<le> worker_rank (snd q))"
  using enforce_runs_order [OF assms] enforce_runs_props [OF assms] enforce_workers_order [of "enforce_runs s"]
    enforce_workers_props [of "enforce_runs s"]
  by (simp add: enforce_limits_def)

lemma enforce_runs_submap:
  "map_of (mo_event_ids (enforce_runs s)) k = Some v \<Longrightarrow> map_of (mo_event_ids s) k = Some v"
proof (induction s rule: enforce_runs.induct)
  case (1 s)
  show ?case using 1 unfolding enforce_runs.simps [of s] by (auto simp: evict_run_def split: if_splits option.splits)
qed

lemma enforce_workers_submap:
  "map_of (mo_workers (enforce_workers s)) k = Some v \<Longrightarrow> map_of (mo_workers s) k = Some v"
proof (induction s rule: enforce_workers.induct)
  case (1 s)
  show ?case using 1 unfolding enforce_workers.simps [of s] by (auto simp: evict_worker_def split: if_splits option.splits)
qed

lemma key_map_of: "k \<in> set (keys d) \<Longrightarrow> \<exists>v. map_of d k = Some v"
  by (metis map_of_eq_None_iff not_None_eq image_set)

text \<open>An event that is a repetition, by its id or by its sequence number, changes nothing; and recording an event a second
  time changes nothing and answers as the first time, as long as its run and its worker are still kept.\<close>

theorem record_idempotent:
  assumes "monitor_inv s" and "me_run ev = Some run_id" and "monitor_record nw nr ev s = (s1, Inr w)"
    and "run_id \<in> set (keys (mo_runs s1))" and "worker_key_of ev \<in> set (keys (mo_workers s1))"
  shows "monitor_record nw' nr' ev s1 = (s1, Inr w)"
proof (cases "snd (accept_run_event ev s)")
  case False
  then have "s1 = s" "map_of (mo_workers s) (worker_key_of ev) = Some w"
    using assms(3) by (auto simp: monitor_record_cases split: option.splits)
  with False show ?thesis by (simp add: monitor_record_cases)
next
  case True
  let ?s' = "fst (recorded nw nr ev s)"
  have s1: "s1 = enforce_limits ?s'" and w: "w = snd (recorded nw nr ev s)"
    using assms(3) True by (auto simp: monitor_record_cases split: prod.splits)
  have synced: "store_synced ?s'" using assms(1) recorded_synced [OF _ True] by (simp add: monitor_inv_def)
  have kept: "mo_event_ids s1 = mo_event_ids (enforce_runs ?s')" "mo_workers (enforce_runs ?s') = mo_workers ?s'"
    unfolding s1 enforce_limits_def using enforce_runs_props [OF synced] enforce_workers_props [of "enforce_runs ?s'"] by simp_all
  have inv: "monitor_inv s1" unfolding s1 by (rule enforce_limits_inv [OF synced])
  have "run_id \<in> set (keys (mo_event_ids s1))" using inv assms(4) by (simp add: monitor_inv_def store_synced_def)
  then obtain i where i: "map_of (mo_event_ids s1) run_id = Some i" using key_map_of by metis
  then have "map_of (mo_event_ids ?s') run_id = Some i" unfolding kept(1) by (rule enforce_runs_submap)
  then have "i = me_id ev"
    using accept_keys [OF True] assms(2) by (simp add: recorded_keys release_terminal_keys)
  then have repeated: "accept_run_event ev s1 = (s1, False)" using i assms(2) by (simp add: accept_run_event_def)
  obtain w' where w': "map_of (mo_workers s1) (worker_key_of ev) = Some w'" using key_map_of [OF assms(5)] by blast
  then have "map_of (mo_workers ?s') (worker_key_of ev) = Some w'"
    unfolding s1 enforce_limits_def by (metis enforce_workers_submap kept(2))
  moreover have "map_of (mo_workers ?s') (worker_key_of ev) = Some w"
    unfolding w using assms(2) by (simp add: recorded_def record_worker_def Let_def)
  ultimately show ?thesis using repeated w' by (simp add: monitor_record_cases)
qed

theorem record_idempotent_witness:
  "monitor_record 99 99 sample_event (fst (monitor_record 10 11 sample_event small_store)) =
     monitor_record 10 11 sample_event small_store"
proof -
  let ?r = "monitor_record 10 11 sample_event small_store"
  have inv: "monitor_inv small_store" by (simp add: monitor_inv_def store_synced_def small_store_def)
  have run: "me_run sample_event = Some ''r''" by (simp add: sample_event_def)
  have kept: "fst ?r = fst (recorded 10 11 sample_event small_store)"
    by (simp add: monitor_record_def recorded_def accept_run_event_def release_terminal_engines_def record_worker_def record_run_def
        enforce_limits_def enforce_runs.simps enforce_workers.simps sample_event_def small_store_def Let_def)
  have r: "?r = (fst ?r, Inr (snd (recorded 10 11 sample_event small_store)))"
    by (simp add: monitor_record_cases accept_run_event_def sample_event_def small_store_def split: prod.split)
  have "''r'' \<in> set (keys (mo_runs (fst ?r)))" "worker_key_of sample_event \<in> set (keys (mo_workers (fst ?r)))"
    unfolding kept recorded_keys by (simp_all add: sample_event_def)
  from record_idempotent [OF inv run r this, of 99 99] show ?thesis using r by simp
qed

text \<open>The count of active runs in the answer is the number of the worker's runs that have not finished, after the event and
  before eviction; it is at least one exactly when such a run exists.\<close>

theorem active_runs_counted:
  assumes "monitor_record nw nr ev s = (s1, Inr w)" and "me_run ev = Some run_id" and "snd (accept_run_event ev s)"
  shows "ws_active_runs w = count_active_runs (worker_key_of ev) (fst (recorded nw nr ev s)) \<and>
    (0 < ws_active_runs w \<longleftrightarrow>
      (\<exists>(k, r) \<in> set (mo_runs (fst (recorded nw nr ev s))). (rs_worker r, rs_instance r) = worker_key_of ev \<and> \<not> terminal (rs_state r)))"
proof -
  have "w = snd (recorded nw nr ev s)" using assms(1,3) by (auto simp: monitor_record_cases split: prod.splits)
  then have "ws_active_runs w = count_active_runs (worker_key_of ev) (fst (recorded nw nr ev s))"
    using assms(2) by (auto simp: recorded_def count_active_runs_def Let_def split: prod.splits)
  then show ?thesis by (auto simp: count_active_runs_def filter_empty_conv)
qed

text \<open>A repetition is answered with the worker's snapshot, which eviction may have removed while the run stayed: the lookup
  then fails.\<close>

theorem repetition_after_eviction_fails:
  assumes "map_of (mo_event_ids s) run_id = Some (me_id ev)" and "me_run ev = Some run_id"
    and "worker_key_of ev \<notin> set (keys (mo_workers s))"
  shows "monitor_record nw nr ev s = (s, Inl (UnknownWorker (worker_key_of ev)))"
proof -
  have "map_of (mo_workers s) (worker_key_of ev) = None" using assms(3) by (simp add: map_of_eq_None_iff)
  then show ?thesis using assms(1,2) by (simp add: monitor_record_cases accept_run_event_def)
qed

definition other_worker :: monitor_event where
  "other_worker = sample_event\<lparr>me_id := ''e2'', me_worker := ''v'', me_run := None\<rparr>"

lemmas record_eval = monitor_record_def accept_run_event_def release_terminal_engines_def record_worker_def record_run_def
  enforce_limits_def enforce_runs.simps enforce_workers.simps worker_key_of_def evict_worker_def dict_pop_def worker_rank_def
  less_evict_rank_def next_engines_def dict_get_def terminal_def Let_def

theorem repetition_after_eviction_fails_witness:
  "snd (monitor_record 12 12 sample_event (monitor_run [(10, 10, sample_event), (11, 11, other_worker)] small_store)) =
     Inl (UnknownWorker (''w'', ''i''))"
proof -
  let ?s = "monitor_run [(10, 10, sample_event), (11, 11, other_worker)] small_store"
  have "map_of (mo_event_ids ?s) ''r'' = Some (me_id sample_event)" "me_run sample_event = Some ''r''"
    "worker_key_of sample_event \<notin> set (keys (mo_workers ?s))"
    by (simp_all add: record_eval sample_event_def other_worker_def small_store_def)
  from repetition_after_eviction_fails [OF this, of 12 12] show ?thesis by (simp add: worker_key_of_def sample_event_def)
qed

text \<open>The engines of a run that ends are released twice, once by its terminal state and once by the stop of its engine: with
  two runs of one engine each on a worker, the end of one leaves no engine counted while the other runs.\<close>

definition second_run :: monitor_event where
  "second_run = sample_event\<lparr>me_id := ''e2'', me_run := Some ''q''\<rparr>"

definition first_stops :: monitor_event where
  "first_stops = sample_event\<lparr>me_id := ''e3'', me_sequence := 2, me_event := ''engine_stopped'', me_run_state := Some RunCompleted\<rparr>"

theorem engines_released_twice:
  "let s = monitor_run [(10, 10, sample_event), (11, 11, second_run), (12, 12, first_stops)] small_store
   in map_of (mo_run_engines s) ''q'' = Some 1 \<and> map_of (mo_engines s) (''w'', ''i'') = Some 0"
  by (simp add: record_eval sample_event_def second_run_def first_stops_def small_store_def)

end
