(* ===== verification/MonitorExtension.thy ===== *)
theory MonitorExtension
  imports MonitorStore "HOL-Library.Sublist"
begin

text \<open>
  The crawler's side of monitoring (\<open>extensions/monitoring.py\<close>): the extension that counts signals and publishes
  numbered events, and what the store of the hub makes of them.  Identifiers of events and clock readings are arguments;
  whether the hub could be reached does not matter to the extension, which only logs a failure.
\<close>

section \<open>The extension\<close>

record monitor_ext =
  mx_worker :: string
  mx_instance :: string
  mx_run :: string
  mx_task :: "string option"
  mx_batch_size :: nat
  mx_sequence :: nat
  mx_counters :: "(string, int) pydict"
  mx_batched :: nat
  mx_engines :: nat
  mx_heartbeat :: bool

definition monitor_ext_init :: "string \<Rightarrow> string \<Rightarrow> string \<Rightarrow> string option \<Rightarrow> nat \<Rightarrow> monitor_ext" where
  "monitor_ext_init worker instance_id run task batch_size =
     \<lparr>mx_worker = worker, mx_instance = instance_id, mx_run = run, mx_task = task, mx_batch_size = batch_size, mx_sequence = 0,
      mx_counters = [(''request_scheduled'', 0), (''request_dropped'', 0), (''response_received'', 0), (''item_scraped'', 0),
        (''task_error'', 0), (''spider_error'', 0)],
      mx_batched = 0, mx_engines = 0, mx_heartbeat = False\<rparr>"

text \<open>Fresh identifiers by sequence number, and the clock by sequence number.\<close>

record event_source =
  es_id :: "nat \<Rightarrow> string"
  es_time :: "nat \<Rightarrow> int"

definition mx_publish ::
  "event_source \<Rightarrow> string \<Rightarrow> string option \<Rightarrow> string option \<Rightarrow> worker_state option \<Rightarrow> run_state option \<Rightarrow> monitor_ext \<Rightarrow>
   monitor_ext \<times> monitor_event list" where
  "mx_publish src event spider detail wst rst x =
     (let n = mx_sequence x + 1
      in (x\<lparr>mx_sequence := n\<rparr>,
          [\<lparr>me_id = es_id src n, me_sequence = n, me_worker = mx_worker x, me_instance = mx_instance x, me_run = Some (mx_run x),
            me_task = mx_task x, me_type = ''crawler'', me_event = event, me_timestamp = es_time src n, me_worker_state = wst,
            me_run_state = rst, me_spider = spider, me_counters = mx_counters x, me_detail = detail\<rparr>]))"

definition mx_count :: "string \<Rightarrow> monitor_ext \<Rightarrow> monitor_ext" where
  "mx_count k x = x\<lparr>mx_counters := dict_set (mx_counters x) k (dict_get (mx_counters x) k 0 + 1)\<rparr>"

definition count_batched :: "event_source \<Rightarrow> string \<Rightarrow> monitor_ext \<Rightarrow> monitor_ext \<times> monitor_event list" where
  "count_batched src k x =
     (let x1 = (mx_count k x)\<lparr>mx_batched := mx_batched x + 1\<rparr>
      in if mx_batch_size x1 \<le> mx_batched x1
         then mx_publish src ''counters_updated'' None None None None (x1\<lparr>mx_batched := 0\<rparr>) else (x1, []))"

datatype crawler_signal =
    EngineStarted | EngineStopped | SignalRunCompleted | SignalRunFailed string | SignalRunCancelled string
  | SpiderOpened "string option" | SpiderClosed "string option" | TaskError string | SpiderError "string option" string
  | RequestScheduled | RequestDropped | ResponseReceived | ItemScraped
  | HeartbeatTick

text \<open>A heartbeat ticks only while its task is running.\<close>

fun mx_handle :: "event_source \<Rightarrow> crawler_signal \<Rightarrow> monitor_ext \<Rightarrow> monitor_ext \<times> monitor_event list" where
  "mx_handle src EngineStarted x =
     (case mx_publish src ''engine_started'' None None (Some WorkerRunning) (Some RunRunning) (x\<lparr>mx_engines := mx_engines x + 1\<rparr>) of
        (x1, evs) \<Rightarrow> (x1\<lparr>mx_heartbeat := True\<rparr>, evs))"
| "mx_handle src EngineStopped x =
     (let n = mx_engines x - 1; x1 = x\<lparr>mx_engines := n, mx_heartbeat := (if n = 0 then False else mx_heartbeat x)\<rparr>
      in mx_publish src ''engine_stopped'' None None
           (Some (if n \<noteq> 0 then WorkerRunning else WorkerStopped)) (Some (if n \<noteq> 0 then RunRunning else RunCompleted)) x1)"
| "mx_handle src SignalRunCompleted x =
     mx_publish src ''run_completed'' None None (Some WorkerStopped) (Some RunCompleted) (x\<lparr>mx_heartbeat := False\<rparr>)"
| "mx_handle src (SignalRunFailed detail) x =
     mx_publish src ''run_failed'' None (Some (take 1000 detail)) (Some WorkerStopped) (Some RunFailed) (x\<lparr>mx_heartbeat := False\<rparr>)"
| "mx_handle src (SignalRunCancelled detail) x =
     mx_publish src ''run_cancelled'' None (Some (take 1000 detail)) (Some WorkerStopped) (Some RunWasCancelled)
       (x\<lparr>mx_heartbeat := False\<rparr>)"
| "mx_handle src (SpiderOpened name) x = mx_publish src ''spider_opened'' name None None None x"
| "mx_handle src (SpiderClosed name) x = mx_publish src ''spider_closed'' name None None None x"
| "mx_handle src (TaskError detail) x =
     mx_publish src ''task_error'' None (Some (take 1000 detail)) None None (mx_count ''task_error'' x)"
| "mx_handle src (SpiderError name detail) x =
     mx_publish src ''spider_error'' name (Some (take 1000 detail)) None None (mx_count ''spider_error'' x)"
| "mx_handle src RequestScheduled x = count_batched src ''request_scheduled'' x"
| "mx_handle src RequestDropped x = count_batched src ''request_dropped'' x"
| "mx_handle src ResponseReceived x = count_batched src ''response_received'' x"
| "mx_handle src ItemScraped x = count_batched src ''item_scraped'' x"
| "mx_handle src HeartbeatTick x =
     (if mx_heartbeat x then mx_publish src ''heartbeat'' None None (Some WorkerRunning) (Some RunRunning) x else (x, []))"

fun mx_run_signals :: "event_source \<Rightarrow> crawler_signal list \<Rightarrow> monitor_ext \<Rightarrow> monitor_ext \<times> monitor_event list" where
  "mx_run_signals src [] x = (x, [])"
| "mx_run_signals src (sg # sgs) x =
     (case mx_handle src sg x of
        (x1, evs) \<Rightarrow> (case mx_run_signals src sgs x1 of (x2, evs') \<Rightarrow> (x2, evs @ evs')))"

section \<open>Lemmas\<close>

text \<open>What every handler keeps: it publishes at most one event, whose number is the next one, of the extension's run.\<close>

definition published_next :: "event_source \<Rightarrow> monitor_ext \<Rightarrow> monitor_ext \<times> monitor_event list \<Rightarrow> bool" where
  "published_next src x r \<longleftrightarrow>
     mx_run (fst r) = mx_run x \<and> mx_worker (fst r) = mx_worker x \<and> mx_instance (fst r) = mx_instance x \<and>
     mx_batch_size (fst r) = mx_batch_size x \<and>
     (snd r = [] \<and> mx_sequence (fst r) = mx_sequence x \<or>
      (\<exists>ev. snd r = [ev] \<and> mx_sequence (fst r) = mx_sequence x + 1 \<and> me_sequence ev = mx_sequence x + 1 \<and>
        me_id ev = es_id src (mx_sequence x + 1) \<and> me_run ev = Some (mx_run x) \<and> worker_key_of ev = (mx_worker x, mx_instance x)))"

lemma mx_publish_next:
  "mx_sequence x' = mx_sequence x \<Longrightarrow> mx_run x' = mx_run x \<Longrightarrow> mx_worker x' = mx_worker x \<Longrightarrow> mx_instance x' = mx_instance x \<Longrightarrow>
   mx_batch_size x' = mx_batch_size x \<Longrightarrow> published_next src x (mx_publish src event spider detail wst rst x')"
  by (simp add: published_next_def mx_publish_def Let_def worker_key_of_def)

lemma mx_count_fields [simp]:
  "mx_sequence (mx_count k x) = mx_sequence x" "mx_run (mx_count k x) = mx_run x" "mx_worker (mx_count k x) = mx_worker x"
  "mx_instance (mx_count k x) = mx_instance x" "mx_batch_size (mx_count k x) = mx_batch_size x" "mx_batched (mx_count k x) = mx_batched x"
  "mx_counters (mx_count k x) = dict_set (mx_counters x) k (dict_get (mx_counters x) k 0 + 1)"
  by (simp_all add: mx_count_def)

lemma count_batched_next: "published_next src x (count_batched src k x)"
  by (auto simp: count_batched_def published_next_def mx_publish_def Let_def worker_key_of_def)

lemma mx_handle_next: "published_next src x (mx_handle src sg x)"
proof (cases sg)
  case EngineStarted
  have "published_next src x (mx_publish src ''engine_started'' None None (Some WorkerRunning) (Some RunRunning) (x\<lparr>mx_engines := mx_engines x + 1\<rparr>))"
    by (rule mx_publish_next) simp_all
  then show ?thesis using EngineStarted by (auto simp: published_next_def split: prod.splits)
qed (auto simp: Let_def intro!: mx_publish_next count_batched_next simp: published_next_def [of src x "(x, [])"])

lemma mx_run_signals_events:
  "mx_run_signals src sgs x = (x', evs) \<Longrightarrow>
   mx_run x' = mx_run x \<and> mx_batch_size x' = mx_batch_size x \<and>
   map me_sequence evs = [mx_sequence x + 1 ..< mx_sequence x + 1 + length evs] \<and>
   mx_sequence x' = mx_sequence x + length evs \<and>
   (\<forall>ev \<in> set evs. me_run ev = Some (mx_run x) \<and> me_id ev = es_id src (me_sequence ev) \<and> worker_key_of ev = (mx_worker x, mx_instance x))"
proof (induction sgs arbitrary: x x' evs)
  case (Cons sg sgs)
  obtain x1 evs1 x2 evs2 where r: "mx_handle src sg x = (x1, evs1)" "mx_run_signals src sgs x1 = (x2, evs2)"
    by (metis prod.exhaust)
  have out: "x' = x2" "evs = evs1 @ evs2" using Cons.prems r by simp_all
  note first = mx_handle_next [of src x sg, unfolded r(1) published_next_def fst_conv snd_conv]
  note rest = Cons.IH [OF r(2)]
  show ?case
  proof (cases evs1)
    case Nil
    then show ?thesis using first rest unfolding out by auto
  next
    case (Cons ev tl)
    then have "tl = []" "me_sequence ev = mx_sequence x + 1" "mx_sequence x1 = mx_sequence x + 1"
      "me_id ev = es_id src (mx_sequence x + 1)" "me_run ev = Some (mx_run x)" "worker_key_of ev = (mx_worker x, mx_instance x)"
      using first by auto
    then show ?thesis using first rest Cons unfolding out by (auto simp: upt_conv_Cons)
  qed
qed simp

text \<open>Hot signals are published one in a batch; the others at once.\<close>

fun hot :: "crawler_signal \<Rightarrow> string option" where
  "hot RequestScheduled = Some ''request_scheduled''"
| "hot RequestDropped = Some ''request_dropped''"
| "hot ResponseReceived = Some ''response_received''"
| "hot ItemScraped = Some ''item_scraped''"
| "hot sg = None"

fun counted :: "crawler_signal \<Rightarrow> string option" where
  "counted (TaskError d) = Some ''task_error''"
| "counted (SpiderError n d) = Some ''spider_error''"
| "counted sg = hot sg"

lemma mx_handle_counters:
  "dict_get (mx_counters (fst (mx_handle src sg x))) k 0 = dict_get (mx_counters x) k 0 + (if counted sg = Some k then 1 else 0)"
  by (cases sg) (auto simp: mx_publish_def count_batched_def Let_def)

lemma mx_handle_batched:
  assumes "0 < mx_batch_size x" and "mx_batched x < mx_batch_size x"
  shows "mx_batched (fst (mx_handle src sg x)) = (mx_batched x + (if hot sg = None then 0 else 1)) mod mx_batch_size x"
  using assms by (cases sg) (auto simp: mx_publish_def count_batched_def Let_def le_Suc_eq)

section \<open>Properties\<close>

text \<open>The counters a published event carries are exact, and batching loses none: after any signals each counter is the number of
  signals of its kind, and the hot signals not yet published are their number modulo the batch size.\<close>

theorem extension_counts_exact:
  assumes "mx_run_signals src sgs (monitor_ext_init w i r t batch_size) = (x, evs)"
  shows "dict_get (mx_counters x) k 0 = int (length (filter (\<lambda>sg. counted sg = Some k) sgs)) \<and>
    (0 < batch_size \<longrightarrow> mx_batched x = length (filter (\<lambda>sg. hot sg \<noteq> None) sgs) mod batch_size)"
proof -
  have counters: "dict_get (mx_counters (fst (mx_run_signals src sgs y))) k 0 =
      dict_get (mx_counters y) k 0 + int (length (filter (\<lambda>sg. counted sg = Some k) sgs))" for y
  proof (induction sgs arbitrary: y)
    case (Cons sg sgs)
    have "fst (mx_run_signals src (sg # sgs) y) = fst (mx_run_signals src sgs (fst (mx_handle src sg y)))"
      by (simp split: prod.split)
    then show ?case by (simp add: Cons.IH mx_handle_counters)
  qed simp
  have batched: "mx_batched (fst (mx_run_signals src sgs y)) =
      (mx_batched y + length (filter (\<lambda>sg. hot sg \<noteq> None) sgs)) mod mx_batch_size y"
    if "0 < mx_batch_size y" "mx_batched y < mx_batch_size y" for y
    using that
  proof (induction sgs arbitrary: y)
    case (Cons sg sgs)
    let ?y = "fst (mx_handle src sg y)"
    have size: "mx_batch_size ?y = mx_batch_size y" using mx_handle_next [of src y sg] by (simp add: published_next_def)
    have now: "mx_batched ?y = (mx_batched y + (if hot sg = None then 0 else 1)) mod mx_batch_size y"
      by (rule mx_handle_batched [OF Cons.prems])
    have "fst (mx_run_signals src (sg # sgs) y) = fst (mx_run_signals src sgs ?y)" by (simp split: prod.split)
    moreover have "mx_batched (fst (mx_run_signals src sgs ?y)) =
        (mx_batched ?y + length (filter (\<lambda>sg. hot sg \<noteq> None) sgs)) mod mx_batch_size ?y"
      by (rule Cons.IH) (use Cons.prems now size in simp_all)
    ultimately show ?case using Cons.prems by (simp add: now size mod_add_left_eq)
  qed simp
  have init: "dict_get (mx_counters (monitor_ext_init w i r t batch_size)) k 0 = 0"
    by (simp add: monitor_ext_init_def dict_get_def)
  show ?thesis
    using counters [of "monitor_ext_init w i r t batch_size"] batched [of "monitor_ext_init w i r t batch_size"] init assms
    by (simp add: monitor_ext_init_def)
qed

definition sample_source :: event_source where
  "sample_source = \<lparr>es_id = (\<lambda>n. replicate n CHR ''e''), es_time = int\<rparr>"

theorem extension_counts_exact_witness:
  "dict_get (mx_counters (fst (mx_run_signals sample_source [EngineStarted, RequestScheduled, RequestScheduled, RequestScheduled]
     (monitor_ext_init ''w'' ''i'' ''r'' None 2)))) ''request_scheduled'' 0 = 3"
  using extension_counts_exact [of sample_source "[EngineStarted, RequestScheduled, RequestScheduled, RequestScheduled]" "''w''" "''i''" "''r''" None 2
      _ _ "''request_scheduled''", OF prod.collapse [symmetric]] by simp

section \<open>Delivery\<close>

text \<open>Whether the store took each event for new.\<close>

fun delivery_log :: "(int \<times> int \<times> monitor_event) list \<Rightarrow> monitor_store \<Rightarrow> (monitor_event \<times> bool) list" where
  "delivery_log [] s = []"
| "delivery_log ((nw, nr, ev) # evs) s =
     (ev, snd (accept_run_event ev s)) # delivery_log evs (fst (monitor_record nw nr ev s))"

text \<open>What the store knows of a run whose events up to number \<open>n\<close> were delivered.\<close>

definition run_upto :: "(nat \<Rightarrow> string) \<Rightarrow> string \<Rightarrow> nat \<Rightarrow> monitor_store \<Rightarrow> bool" where
  "run_upto ids r n s \<longleftrightarrow>
     (\<forall>i. map_of (mo_event_ids s) r = Some i \<longrightarrow> (\<exists>m. 0 < m \<and> m \<le> n \<and> i = ids m)) \<and>
     (\<forall>snap. map_of (mo_runs s) r = Some snap \<longrightarrow> rs_sequence snap \<le> n)"

lemma enforce_runs_runs:
  "map_of (mo_runs (enforce_runs s)) k = Some v \<Longrightarrow> map_of (mo_runs s) k = Some v"
proof (induction s rule: enforce_runs.induct)
  case (1 s)
  show ?case using 1 unfolding enforce_runs.simps [of s] by (auto simp: evict_run_def split: if_splits option.splits)
qed

lemma run_upto_limits:
  assumes "store_synced s" and "run_upto ids r n s"
  shows "run_upto ids r n (enforce_limits s)"
proof -
  have "mo_event_ids (enforce_limits s) = mo_event_ids (enforce_runs s)" "mo_runs (enforce_limits s) = mo_runs (enforce_runs s)"
    using enforce_workers_props [of "enforce_runs s"] enforce_runs_props [OF assms(1)] by (simp_all add: enforce_limits_def)
  then show ?thesis using assms(2) unfolding run_upto_def by (metis enforce_runs_runs enforce_runs_submap)
qed

lemma recorded_other:
  assumes "snd (accept_run_event ev s)" and "me_run ev \<noteq> Some r"
  shows "map_of (mo_runs (fst (recorded nw nr ev s))) r = map_of (mo_runs s) r"
  using assms(2) unfolding recorded_def accept_keys [OF assms(1)]
  by (cases "me_run ev") (simp_all add: record_worker_def record_run_def release_terminal_keys Let_def)

lemma recorded_sequence:
  assumes "snd (accept_run_event ev s)" and "me_run ev = Some r"
  shows "\<exists>snap. map_of (mo_runs (fst (recorded nw nr ev s))) r = Some snap \<and>
      rs_sequence snap = max (me_sequence ev) (case map_of (mo_runs s) r of None \<Rightarrow> 0 | Some p \<Rightarrow> rs_sequence p)"
  using assms(2) unfolding recorded_def accept_keys [OF assms(1)]
  by (simp add: record_worker_def record_run_def release_terminal_keys Let_def)

lemma record_other_run:
  assumes "monitor_inv s" and "run_upto ids r n s" and "me_run ev \<noteq> Some r"
  shows "run_upto ids r n (fst (monitor_record nw nr ev s))"
proof (cases "snd (accept_run_event ev s)")
  case False
  then show ?thesis using assms(2) by (simp add: monitor_record_cases)
next
  case True
  have "run_upto ids r n (fst (recorded nw nr ev s))"
    using assms(2,3) accept_keys [OF True] recorded_other [OF True assms(3), of nw nr] recorded_keys(5) [of nw nr ev s]
    by (auto simp: run_upto_def release_terminal_keys split: option.splits)
  moreover have "store_synced (fst (recorded nw nr ev s))" using assms(1) True by (simp add: monitor_inv_def recorded_synced)
  ultimately show ?thesis using True by (simp add: monitor_record_cases run_upto_limits prod.case_eq_if)
qed

lemma record_next_event:
  assumes "monitor_inv s" and upto: "run_upto ids r n s" and "inj ids"
    and ev: "me_run ev = Some r" "me_id ev = ids (me_sequence ev)" "n < me_sequence ev"
  shows "snd (accept_run_event ev s)" and "run_upto ids r (me_sequence ev) (fst (monitor_record nw nr ev s))"
proof -
  have "map_of (mo_event_ids s) r \<noteq> Some (me_id ev)"
    using upto ev(2,3) injD [OF assms(3)] by (fastforce simp: run_upto_def)
  moreover have "\<not> me_sequence ev \<le> rs_sequence p" if "map_of (mo_runs s) r = Some p" for p
    using upto ev(3) that by (fastforce simp: run_upto_def)
  ultimately show acc: "snd (accept_run_event ev s)" using ev(1) by (auto simp: accept_run_event_def split: option.splits)
  obtain snap where snap: "map_of (mo_runs (fst (recorded nw nr ev s))) r = Some snap"
    "rs_sequence snap = max (me_sequence ev) (case map_of (mo_runs s) r of None \<Rightarrow> 0 | Some p \<Rightarrow> rs_sequence p)"
    using recorded_sequence [OF acc ev(1), of nw nr] by blast
  have "rs_sequence snap \<le> me_sequence ev"
    using snap(2) upto ev(3) by (fastforce simp: run_upto_def split: option.splits)
  then have "run_upto ids r (me_sequence ev) (fst (recorded nw nr ev s))"
    using snap(1) ev accept_keys [OF acc]
    by (auto simp: run_upto_def recorded_keys(5) release_terminal_keys intro!: exI [of _ "me_sequence ev"])
  moreover have "store_synced (fst (recorded nw nr ev s))" using assms(1) acc by (simp add: monitor_inv_def recorded_synced)
  ultimately show "run_upto ids r (me_sequence ev) (fst (monitor_record nw nr ev s))"
    using acc by (simp add: monitor_record_cases run_upto_limits prod.case_eq_if)
qed

lemma set_mono_subseq: "subseq xs ys \<Longrightarrow> set xs \<subseteq> set ys"
  by (induction rule: list_emb.induct) auto

lemma sorted_wrt_subseq: "subseq xs ys \<Longrightarrow> sorted_wrt R ys \<Longrightarrow> sorted_wrt R xs"
  by (induction rule: list_emb.induct) (auto dest: set_mono_subseq)

text \<open>The events of one run among those delivered.\<close>

abbreviation events_of :: "string \<Rightarrow> (int \<times> int \<times> monitor_event) list \<Rightarrow> monitor_event list" where
  "events_of r evs \<equiv> filter (\<lambda>ev. me_run ev = Some r) (map (snd \<circ> snd) evs)"

lemma delivery_in_order:
  "monitor_inv s \<Longrightarrow> run_upto ids r n s \<Longrightarrow> inj ids \<Longrightarrow>
   sorted_wrt (<) (n # map me_sequence (events_of r evs)) \<Longrightarrow>
   \<forall>ev \<in> set (events_of r evs). me_id ev = ids (me_sequence ev) \<Longrightarrow>
   \<forall>(ev, acc) \<in> set (delivery_log evs s). me_run ev = Some r \<longrightarrow> acc"
proof (induction evs s arbitrary: n rule: delivery_log.induct)
  case (2 nw nr ev evs s)
  let ?s = "fst (monitor_record nw nr ev s)"
  note inv = monitor_record_inv [OF 2(2), of nw nr ev]
  show ?case
  proof (cases "me_run ev = Some r")
    case True
    have evs: "events_of r ((nw, nr, ev) # evs) = ev # events_of r evs" using True by simp
    have here: "me_id ev = ids (me_sequence ev)" using 2(6) unfolding evs by (rule bspec) (rule list.set_intros)
    have tail: "\<forall>e \<in> set (events_of r evs). me_id e = ids (me_sequence e)"
      using 2(6) unfolding evs by (meson list.set_intros(2))
    have "(\<forall>y \<in> set (map me_sequence (ev # events_of r evs)). n < y) \<and> sorted_wrt (<) (map me_sequence (ev # events_of r evs))"
      using 2(5) unfolding evs by (rule iffD1 [OF sorted_wrt.simps(2)])
    then have order: "n < me_sequence ev" "sorted_wrt (<) (me_sequence ev # map me_sequence (events_of r evs))"
      by (simp_all only: list.map list.set ball_simps simp_thms)
    note step = record_next_event(1) [OF 2(2,3,4) True here order(1)]
      record_next_event(2) [OF 2(2,3,4) True here order(1), of nw nr]
    have "\<forall>(ev, acc) \<in> set (delivery_log evs ?s). me_run ev = Some r \<longrightarrow> acc"
      by (rule 2(1) [OF inv step(2) 2(4) order(2) tail])
    then show ?thesis using step(1) by simp
  next
    case False
    have evs: "events_of r ((nw, nr, ev) # evs) = events_of r evs" using False by simp
    have "\<forall>(ev, acc) \<in> set (delivery_log evs ?s). me_run ev = Some r \<longrightarrow> acc"
      by (rule 2(1) [OF inv record_other_run [OF 2(2,3) False] 2(4) 2(5) [unfolded evs] 2(6) [unfolded evs]])
    then show ?thesis using False by simp
  qed
qed simp

text \<open>Whatever the extension publishes, the hub accepts: when some of a run's events arrive in the order they were published,
  others being lost, and events of other runs come between, none of them is taken for a repetition.\<close>

theorem published_events_accepted:
  assumes "mx_run_signals src sgs (monitor_ext_init w i r t batch_size) = (x, published)" and "inj (es_id src)"
    and "subseq (events_of r evs) published"
    and "monitor_inv s" and "r \<notin> set (keys (mo_runs s))"
  shows "\<forall>(ev, acc) \<in> set (delivery_log evs s). me_run ev = Some r \<longrightarrow> acc"
proof -
  note pub = mx_run_signals_events [OF assms(1)]
  have numbers: "map me_sequence published = [1 ..< 1 + length published]" using pub by (simp add: monitor_ext_init_def del: upt_Suc)
  have new: "map_of (mo_runs s) r = None" "map_of (mo_event_ids s) r = None"
    using assms(4,5) by (simp_all add: map_of_eq_None_iff monitor_inv_def store_synced_def)
  show ?thesis
  proof (rule delivery_in_order [OF assms(4) _ assms(2)])
    show "run_upto (es_id src) r 0 s" using new by (simp add: run_upto_def)
    have "sorted_wrt (<) (map me_sequence published)" unfolding numbers by (rule sorted_wrt_upt)
    then have "sorted_wrt (<) (map me_sequence (events_of r evs))"
      by (rule sorted_wrt_subseq [OF subseq_map [OF assms(3)]])
    moreover have "0 < me_sequence ev" if "ev \<in> set (events_of r evs)" for ev
    proof -
      have "ev \<in> set published" using that set_mono_subseq [OF assms(3)] by blast
      then have "me_sequence ev \<in> set (map me_sequence published)" by simp
      then show ?thesis unfolding numbers by (simp del: upt_Suc)
    qed
    ultimately show "sorted_wrt (<) (0 # map me_sequence (events_of r evs))" by simp
    show "\<forall>ev \<in> set (events_of r evs). me_id ev = es_id src (me_sequence ev)"
      using pub set_mono_subseq [OF assms(3)] by blast
  qed
qed

definition sample_signals :: "crawler_signal list" where
  "sample_signals = [EngineStarted, TaskError ''x'', SignalRunCompleted]"

definition sample_ext :: monitor_ext where
  "sample_ext = monitor_ext_init ''w'' ''i'' ''r'' None 2"

text \<open>The second of the three published events is lost.\<close>

definition sample_delivery :: "(int \<times> int \<times> monitor_event) list" where
  "sample_delivery = (case snd (mx_run_signals sample_source sample_signals sample_ext) of
     [a, b, c] \<Rightarrow> [(10, 10, a), (11, 11, other_worker), (12, 12, c)] | _ \<Rightarrow> [])"

lemma delivery_log_fst: "map fst (delivery_log evs s) = map (\<lambda>e. snd (snd e)) evs"
  by (induction evs s rule: delivery_log.induct) simp_all

theorem published_events_accepted_witness: "snd (last (delivery_log sample_delivery small_store))"
proof -
  let ?log = "delivery_log sample_delivery small_store"
  have all: "\<forall>(ev, acc) \<in> set ?log. me_run ev = Some ''r'' \<longrightarrow> acc"
  proof (rule published_events_accepted)
    show "mx_run_signals sample_source sample_signals (monitor_ext_init ''w'' ''i'' ''r'' None 2) =
        (fst (mx_run_signals sample_source sample_signals sample_ext), snd (mx_run_signals sample_source sample_signals sample_ext))"
      by (simp add: sample_ext_def)
    show "inj (es_id sample_source)" by (rule injI) (simp add: sample_source_def replicate_eq_replicate)
    show "subseq (events_of ''r'' sample_delivery) (snd (mx_run_signals sample_source sample_signals sample_ext))"
      by (simp add: sample_delivery_def sample_signals_def sample_ext_def monitor_ext_init_def mx_publish_def other_worker_def Let_def)
    show "monitor_inv small_store" by (simp add: monitor_inv_def store_synced_def small_store_def)
    show "''r'' \<notin> set (keys (mo_runs small_store))" by (simp add: small_store_def)
  qed
  have events: "sample_delivery \<noteq> []" "me_run (snd (snd (last sample_delivery))) = Some ''r''"
    by (simp_all add: sample_delivery_def sample_signals_def sample_ext_def monitor_ext_init_def mx_publish_def Let_def)
  have log: "?log \<noteq> []" using delivery_log_fst [of sample_delivery small_store] events(1) by (metis map_is_Nil_conv)
  have "fst (last ?log) = last (map fst ?log)" using log by (simp add: last_map)
  also have "\<dots> = snd (snd (last sample_delivery))" unfolding delivery_log_fst using events(1) by (simp add: last_map)
  finally have "me_run (fst (last ?log)) = Some ''r''" using events(2) by simp
  moreover have "case last ?log of (ev, acc) \<Rightarrow> me_run ev = Some ''r'' \<longrightarrow> acc" using all last_in_set [OF log] by (rule bspec)
  ultimately show ?thesis by (simp add: case_prod_beta)
qed

text \<open>The heartbeat ends with the run: after a terminal signal nothing but a new engine start makes the extension publish a
  heartbeat, so no beat can report a finished run as running.\<close>

fun ends_run :: "crawler_signal \<Rightarrow> bool" where
  "ends_run SignalRunCompleted = True"
| "ends_run (SignalRunFailed d) = True"
| "ends_run (SignalRunCancelled d) = True"
| "ends_run sg = False"

theorem no_heartbeat_after_end:
  assumes "ends_run sg" and "EngineStarted \<notin> set sgs" and "mx_run_signals src sgs (fst (mx_handle src sg x)) = (x', evs)"
  shows "\<forall>ev \<in> set evs. me_event ev \<noteq> ''heartbeat''"
proof -
  have silent: "\<not> mx_heartbeat (fst (mx_handle src g y)) \<and> (\<forall>ev \<in> set (snd (mx_handle src g y)). me_event ev \<noteq> ''heartbeat'')"
    if "\<not> mx_heartbeat y" "g \<noteq> EngineStarted" for g y
    using that by (cases g) (auto simp: mx_publish_def count_batched_def mx_count_def Let_def)
  have "\<forall>ev \<in> set (snd (mx_run_signals src sgs y)). me_event ev \<noteq> ''heartbeat''" if "\<not> mx_heartbeat y" for y
    using assms(2) that
  proof (induction sgs arbitrary: y)
    case (Cons g sgs)
    have "snd (mx_run_signals src (g # sgs) y) = snd (mx_handle src g y) @ snd (mx_run_signals src sgs (fst (mx_handle src g y)))"
      by (simp split: prod.split)
    then show ?case using Cons silent [of y g] by auto
  qed simp
  moreover have "\<not> mx_heartbeat (fst (mx_handle src sg x))" using assms(1) by (cases sg) (auto simp: mx_publish_def Let_def)
  ultimately show ?thesis using assms(3) by (metis snd_conv)
qed

theorem no_heartbeat_after_end_witness:
  "\<forall>ev \<in> set (snd (mx_run_signals sample_source [HeartbeatTick] (fst (mx_handle sample_source SignalRunCompleted sample_ext)))).
     me_event ev \<noteq> ''heartbeat''"
  by (rule no_heartbeat_after_end [OF _ _ prod.collapse [symmetric]]) simp_all

end
