(* ===== verification/SignalQueue.thy ===== *)
theory SignalQueue
  imports Prelude
begin

text \<open>
  The signal manager (\<open>extensions/signal_manager.py\<close>) and the statistics extension that listens to it
  (\<open>extensions/statistics.py\<close>).  The asyncio tasks interleave at their awaits: a step relation over the manager's state,
  with the tasks that still have to enqueue their signal numbered in the order they were made.
\<close>

section \<open>State\<close>

datatype stop_phase = Accepting | Gathering "nat set" | Draining | Stopped

text \<open>
  \<open>None\<close> in the queue is the sentinel.  The last three fields record what happened: the signals a task was made for, those
  dispatched with the callbacks they went to, and those dropped because the queue stayed full.
\<close>

record ('s, 'd, 'c) signal_manager =
  sq_listeners :: "('s, 'c list) pydict"
  sq_maxsize :: int
  sq_stop_event :: bool
  sq_puts :: "(nat \<times> 's \<times> 'd) list"
  sq_next :: nat
  sq_queue :: "('s \<times> 'd) option list"
  sq_running :: bool
  sq_phase :: stop_phase
  sq_sent :: "('s \<times> 'd) list"
  sq_handled :: "(('s \<times> 'd) \<times> 'c list) list"
  sq_dropped :: "('s \<times> 'd) list"

definition sq_init :: "int \<Rightarrow> ('s, 'd, 'c) signal_manager" where
  "sq_init maxsize =
     \<lparr>sq_listeners = [], sq_maxsize = maxsize, sq_stop_event = False, sq_puts = [], sq_next = 0, sq_queue = [],
      sq_running = False, sq_phase = Accepting, sq_sent = [], sq_handled = [], sq_dropped = []\<rparr>"

definition listeners_of :: "('s, 'd, 'c) signal_manager \<Rightarrow> 's \<Rightarrow> 'c list" where
  "listeners_of m s = dict_get (sq_listeners m) s []"

definition sq_connect :: "'s \<Rightarrow> 'c \<Rightarrow> ('s, 'd, 'c) signal_manager \<Rightarrow> ('s, 'd, 'c) signal_manager" where
  "sq_connect s c m = m\<lparr>sq_listeners := dict_set (sq_listeners m) s (listeners_of m s @ [c])\<rparr>"

definition sq_send :: "'s \<Rightarrow> 'd \<Rightarrow> ('s, 'd, 'c) signal_manager \<Rightarrow> ('s, 'd, 'c) signal_manager" where
  "sq_send s d m =
     (if sq_stop_event m \<or> listeners_of m s = [] then m
      else m\<lparr>sq_puts := sq_puts m @ [(sq_next m, s, d)], sq_next := sq_next m + 1, sq_sent := sq_sent m @ [(s, d)]\<rparr>)"

text \<open>\<open>asyncio.Queue\<close>: a size of zero or less is no bound.\<close>

definition queue_full :: "('s, 'd, 'c) signal_manager \<Rightarrow> bool" where
  "queue_full m \<longleftrightarrow> 0 < sq_maxsize m \<and> sq_maxsize m \<le> int (length (sq_queue m))"

text \<open>A put task runs to its end: its signal is queued if there is room, now or within the tenth of a second it waits, and
  dropped with a warning otherwise.\<close>

definition put_done :: "nat \<Rightarrow> ('s, 'd, 'c) signal_manager \<Rightarrow> ('s, 'd, 'c) signal_manager" where
  "put_done i m = m\<lparr>sq_puts := filter (\<lambda>p. fst p \<noteq> i) (sq_puts m)\<rparr>"

definition safe_put :: "nat \<times> 's \<times> 'd \<Rightarrow> ('s, 'd, 'c) signal_manager \<Rightarrow> ('s, 'd, 'c) signal_manager" where
  "safe_put p m =
     (case p of (i, s, d) \<Rightarrow>
        if listeners_of m s = [] then put_done i m
        else if queue_full m then (put_done i m)\<lparr>sq_dropped := sq_dropped m @ [(s, d)]\<rparr>
        else (put_done i m)\<lparr>sq_queue := sq_queue m @ [Some (s, d)]\<rparr>)"

text \<open>One turn of the consumer.\<close>

definition consume :: "('s, 'd, 'c) signal_manager \<Rightarrow> ('s, 'd, 'c) signal_manager" where
  "consume m =
     (case sq_queue m of
        [] \<Rightarrow> m
      | None # q \<Rightarrow> m\<lparr>sq_queue := q, sq_running := False\<rparr>
      | Some (s, d) # q \<Rightarrow> m\<lparr>sq_queue := q, sq_handled := sq_handled m @ [((s, d), listeners_of m s)]\<rparr>)"

definition sq_start :: "('s, 'd, 'c) signal_manager \<Rightarrow> ('s, 'd, 'c) signal_manager" where
  "sq_start m = m\<lparr>sq_running := True\<rparr>"

section \<open>Steps\<close>

text \<open>
  The steps of the tasks.  \<open>stop\<close> first waits for the put tasks it finds, then puts the sentinel as soon as there is room, and
  ends when the consumer has taken it.  A crawler is \<open>orderly\<close>: it sets the stop event before it calls \<open>stop\<close>.
\<close>

inductive sq_step :: "bool \<Rightarrow> ('s, 'd, 'c) signal_manager \<Rightarrow> ('s, 'd, 'c) signal_manager \<Rightarrow> bool" for orderly where
  Connect: "sq_step orderly m (sq_connect s c m)"
| Send: "sq_step orderly m (sq_send s d m)"
| Put: "p \<in> set (sq_puts m) \<Longrightarrow> sq_step orderly m (safe_put p m)"
| Start: "sq_phase m = Accepting \<Longrightarrow> \<not> sq_running m \<Longrightarrow> sq_step orderly m (sq_start m)"
| Consume: "sq_running m \<Longrightarrow> sq_queue m \<noteq> [] \<Longrightarrow> sq_step orderly m (consume m)"
| SetStop: "sq_step orderly m (m\<lparr>sq_stop_event := True\<rparr>)"
| StopCalled: "orderly \<longrightarrow> sq_stop_event m \<Longrightarrow> sq_phase m = Accepting \<Longrightarrow> sq_running m \<Longrightarrow> sq_step orderly m (m\<lparr>sq_phase := Gathering (fst ` set (sq_puts m))\<rparr>)"
| Sentinel: "sq_phase m = Gathering ids \<Longrightarrow> ids \<inter> fst ` set (sq_puts m) = {} \<Longrightarrow> \<not> queue_full m \<Longrightarrow>
    sq_step orderly m (m\<lparr>sq_queue := sq_queue m @ [None], sq_phase := Draining\<rparr>)"
| Finished: "sq_phase m = Draining \<Longrightarrow> \<not> sq_running m \<Longrightarrow> sq_step orderly m (m\<lparr>sq_phase := Stopped\<rparr>)"

inductive sq_reach :: "bool \<Rightarrow> int \<Rightarrow> ('s, 'd, 'c) signal_manager \<Rightarrow> bool" for orderly maxsize where
  Init: "sq_reach orderly maxsize (sq_init maxsize)"
| Step: "sq_reach orderly maxsize m \<Longrightarrow> sq_step orderly m m' \<Longrightarrow> sq_reach orderly maxsize m'"

section \<open>Statistics\<close>

definition statistics_signals :: "string list" where
  "statistics_signals = [''engine_started'', ''engine_stopped'', ''scheduler_empty'', ''task_error'', ''spider_opened'', ''spider_closed'',
     ''spider_error'', ''request_scheduled'', ''request_dropped'', ''request_reached_downloader'', ''response_received'', ''item_scraped'']"

definition statistics_init :: "(string, int) pydict" where
  "statistics_init = map (\<lambda>k. (k, 0)) statistics_signals"

text \<open>\<open>from_crawler\<close>: the extension subscribes one handler per signal, named like it.\<close>

definition statistics_connect :: "(string, 'd, string) signal_manager \<Rightarrow> (string, 'd, string) signal_manager" where
  "statistics_connect m = foldl (\<lambda>m k. sq_connect k k m) m statistics_signals"

definition statistics_handler :: "string \<Rightarrow> (string, int) pydict \<Rightarrow> (string, int) pydict" where
  "statistics_handler k counts = dict_set counts k (dict_get counts k 0 + 1)"

text \<open>The counts after the callbacks of the handled signals ran, in any order the lock admits them.\<close>

definition statistics_after :: "string list \<Rightarrow> (string, int) pydict" where
  "statistics_after calls = foldl (\<lambda>counts k. statistics_handler k counts) statistics_init calls"

section \<open>Invariants\<close>

definition queued :: "('s, 'd, 'c) signal_manager \<Rightarrow> ('s \<times> 'd) list" where
  "queued m = List.map_filter id (sq_queue m)"

definition sq_inv :: "int \<Rightarrow> ('s, 'd, 'c) signal_manager \<Rightarrow> bool" where
  "sq_inv maxsize m \<longleftrightarrow>
     sq_maxsize m = maxsize \<and>
     (\<forall>p \<in> set (sq_puts m). fst p < sq_next m) \<and> distinct (map fst (sq_puts m)) \<and>
     (\<forall>sd \<in> set (map snd (sq_puts m)) \<union> set (queued m). listeners_of m (fst sd) \<noteq> []) \<and> (\<forall>h \<in> set (sq_handled m). snd h \<noteq> []) \<and>
     (0 < maxsize \<longrightarrow> int (length (sq_queue m)) \<le> maxsize) \<and>
     mset (sq_sent m) = mset (map snd (sq_puts m)) + mset (queued m) + mset (map fst (sq_handled m)) + mset (sq_dropped m)"

lemma map_filter_id_simps [simp]:
  "List.map_filter id [] = []" "List.map_filter id (None # q) = List.map_filter id q"
  "List.map_filter id (Some x # q) = x # List.map_filter id q"
  "List.map_filter id (q @ q') = List.map_filter id q @ List.map_filter id q'"
  by (simp_all add: List.map_filter_def)

lemma listeners_of_connect [simp]:
  "listeners_of (sq_connect s c m) s' = (if s' = s then listeners_of m s @ [c] else listeners_of m s')"
  by (simp add: listeners_of_def sq_connect_def)

lemma listeners_of_cong: "sq_listeners m' = sq_listeners m \<Longrightarrow> listeners_of m' s = listeners_of m s"
  by (simp add: listeners_of_def)

lemma mset_remove_put:
  "distinct (map fst ps) \<Longrightarrow> (i, sd) \<in> set ps \<Longrightarrow>
   mset (map snd ps) = add_mset sd (mset (map snd (filter (\<lambda>p. fst p \<noteq> i) ps)))"
proof (induction ps)
  case (Cons p ps)
  show ?case
  proof (cases "fst p = i")
    case True
    then have "filter (\<lambda>p. fst p \<noteq> i) ps = ps" using Cons.prems(1) by (auto simp: filter_id_conv image_iff)
    moreover have "p = (i, sd)" using True Cons.prems by (auto simp: image_iff intro: prod_eqI)
    ultimately show ?thesis by simp
  next
    case False
    then show ?thesis using Cons by auto
  qed
qed simp

lemma sq_connect_fields [simp]:
  "sq_maxsize (sq_connect s c m) = sq_maxsize m" "sq_puts (sq_connect s c m) = sq_puts m" "sq_next (sq_connect s c m) = sq_next m"
  "sq_queue (sq_connect s c m) = sq_queue m" "sq_sent (sq_connect s c m) = sq_sent m" "sq_handled (sq_connect s c m) = sq_handled m"
  "sq_dropped (sq_connect s c m) = sq_dropped m" "queued (sq_connect s c m) = queued m"
  by (simp_all add: sq_connect_def queued_def)

lemma sq_step_inv: "sq_step orderly m m' \<Longrightarrow> sq_inv maxsize m \<Longrightarrow> sq_inv maxsize m'"
proof (induction rule: sq_step.induct)
  case (Connect m s c)
  then show ?case unfolding sq_inv_def by simp
next
  case (Send m s d)
  then show ?case
    unfolding sq_inv_def sq_send_def by (auto simp: queued_def listeners_of_def less_SucI dest: less_irrefl_nat)
next
  case (Put p m)
  obtain i s d where p: "p = (i, s, d)" by (cases p) auto
  have "mset (map snd (sq_puts m)) = add_mset (s, d) (mset (map snd (filter (\<lambda>p. fst p \<noteq> i) (sq_puts m))))"
    by (rule mset_remove_put) (use Put p in \<open>simp_all add: sq_inv_def\<close>)
  moreover have "listeners_of m s \<noteq> []" using Put p by (force simp: sq_inv_def)
  moreover have "distinct (map fst (filter (\<lambda>p. fst p \<noteq> i) (sq_puts m)))"
    using Put(2) by (auto simp: sq_inv_def intro: distinct_map_filter)
  ultimately show ?case using Put(2) p
    by (auto simp: sq_inv_def safe_put_def put_done_def queued_def listeners_of_def queue_full_def)
next
  case (Consume m)
  obtain y q where q: "sq_queue m = y # q" using Consume(2) by (cases "sq_queue m") auto
  show ?case
  proof (cases y)
    case None
    then show ?thesis using Consume(3) q by (simp add: sq_inv_def consume_def queued_def listeners_of_def) linarith
  next
    case (Some sd)
    then show ?thesis using Consume(3) q
      by (cases sd) (simp add: sq_inv_def consume_def queued_def listeners_of_def ball_Un, linarith)
  qed
qed (auto simp: sq_inv_def sq_start_def queued_def listeners_of_def queue_full_def)

lemma sq_init_inv: "sq_inv maxsize (sq_init maxsize)"
  by (simp add: sq_inv_def sq_init_def queued_def)

lemma sq_reach_inv: "sq_reach orderly maxsize m \<Longrightarrow> sq_inv maxsize m"
  by (induction rule: sq_reach.induct) (auto simp: sq_init_inv intro: sq_step_inv)

definition drained_inv :: "('s, 'd, 'c) signal_manager \<Rightarrow> bool" where
  "drained_inv m \<longleftrightarrow>
     (case sq_phase m of
        Accepting \<Rightarrow> None \<notin> set (sq_queue m)
      | Gathering ids \<Rightarrow> sq_stop_event m \<and> sq_running m \<and> fst ` set (sq_puts m) \<subseteq> ids \<and> None \<notin> set (sq_queue m)
      | Draining \<Rightarrow> sq_stop_event m \<and> sq_puts m = [] \<and>
          (if sq_running m then \<exists>q. sq_queue m = map Some q @ [None] else sq_queue m = [])
      | Stopped \<Rightarrow> sq_stop_event m \<and> \<not> sq_running m \<and> sq_puts m = [] \<and> sq_queue m = [])"

lemma no_sentinel: "None \<notin> set q \<Longrightarrow> \<exists>xs. q = map Some xs"
  by (induction q) (auto simp: Cons_eq_map_conv, metis not_None_eq)

lemma safe_put_fields:
  "sq_phase (safe_put p m) = sq_phase m" "sq_stop_event (safe_put p m) = sq_stop_event m" "sq_running (safe_put p m) = sq_running m"
  "None \<in> set (sq_queue (safe_put p m)) \<longleftrightarrow> None \<in> set (sq_queue m)" "set (sq_puts (safe_put p m)) \<subseteq> set (sq_puts m)"
  by (cases p; auto simp: safe_put_def put_done_def)+

lemma sq_step_drained: "sq_step True m m' \<Longrightarrow> drained_inv m \<Longrightarrow> drained_inv m'"
proof (induction rule: sq_step.induct)
  case (Connect m s c)
  then show ?case by (auto simp: drained_inv_def sq_connect_def split: stop_phase.splits)
next
  case (Send m s d)
  then show ?case by (auto simp: drained_inv_def sq_send_def split: stop_phase.splits)
next
  case (Put p m)
  then show ?case using safe_put_fields [of p m] by (auto simp: drained_inv_def split: stop_phase.splits)
next
  case (Consume m)
  obtain y q where q: "sq_queue m = y # q" using Consume(2) by (cases "sq_queue m") auto
  show ?case
    using Consume(3) q
    by (cases y; cases "sq_phase m") (force simp: drained_inv_def consume_def Cons_eq_append_conv Cons_eq_map_conv split: if_splits)+
next
  case (Sentinel m ids)
  have "fst ` set (sq_puts m) \<subseteq> ids" using Sentinel(1,4) by (simp add: drained_inv_def)
  with Sentinel(2) have "fst ` set (sq_puts m) = {}" by (metis inf.absorb2)
  then show ?case using Sentinel no_sentinel [of "sq_queue m"] by (auto simp: drained_inv_def)
qed (auto simp: drained_inv_def sq_start_def split: stop_phase.splits if_splits)

lemma sq_init_drained: "drained_inv (sq_init maxsize)"
  by (simp add: drained_inv_def sq_init_def)

lemma sq_reach_drained: "sq_reach True maxsize m \<Longrightarrow> drained_inv m"
  by (induction rule: sq_reach.induct) (auto simp: sq_init_drained intro: sq_step_drained)

section \<open>Properties\<close>

text \<open>No signal disappears unnoticed: whatever the tasks' interleaving, each signal taken by \<open>send\<close> is in a put task, in the queue,
  dispatched once, or dropped because the queue was full; the queue keeps its bound, and each dispatch had a listener.\<close>

theorem signals_conserved:
  assumes "sq_reach orderly maxsize m"
  shows "mset (sq_sent m) = mset (map snd (sq_puts m)) + mset (queued m) + mset (map fst (sq_handled m)) + mset (sq_dropped m) \<and>
    (0 < maxsize \<longrightarrow> int (length (sq_queue m)) \<le> maxsize) \<and> (\<forall>h \<in> set (sq_handled m). snd h \<noteq> [])"
  using sq_reach_inv [OF assms] by (simp add: sq_inv_def)

definition sent_once :: "(string, nat, string) signal_manager" where
  "sent_once = sq_send ''a'' 7 (sq_connect ''a'' ''h'' (sq_init 10))"

lemmas sq_eval = sq_start_def sq_connect_def sq_init_def sq_send_def safe_put_def put_done_def consume_def queue_full_def
  listeners_of_def dict_get_def sent_once_def

lemma sent_once_reach: "sq_reach orderly 10 sent_once"
  unfolding sent_once_def
  by (rule sq_reach.Step [OF sq_reach.Step [OF sq_reach.Init sq_step.Connect] sq_step.Send])

theorem signals_conserved_witness: "mset (sq_sent sent_once) = {#(''a'', 7)#} \<and> length (sq_queue sent_once) \<le> 10"
  using signals_conserved [OF sent_once_reach [where orderly = True]] by (simp add: sq_eval queued_def)


definition drained_manager :: "(string, nat, string) signal_manager" where
  "drained_manager =
     (let m1 = consume ((sq_start (safe_put (0, ''a'', 7) sent_once))\<lparr>sq_stop_event := True\<rparr>);
          m2 = m1\<lparr>sq_phase := Gathering (fst ` set (sq_puts m1))\<rparr>
      in (consume (m2\<lparr>sq_queue := sq_queue m2 @ [None], sq_phase := Draining\<rparr>))\<lparr>sq_phase := Stopped\<rparr>)"

lemma drained_manager_reach: "sq_reach True 10 drained_manager"
proof -
  let ?m1 = "safe_put (0, ''a'', 7) sent_once" and ?m2 = "sq_start (safe_put (0, ''a'', 7) sent_once)"
  let ?m3 = "?m2\<lparr>sq_stop_event := True\<rparr>"
  let ?m4 = "consume ?m3"
  let ?m5 = "?m4\<lparr>sq_phase := Gathering (fst ` set (sq_puts ?m4))\<rparr>"
  let ?m6 = "?m5\<lparr>sq_queue := sq_queue ?m5 @ [None], sq_phase := Draining\<rparr>"
  have "sq_reach True 10 ?m1" by (rule sq_reach.Step [OF sent_once_reach]) (rule sq_step.Put, simp add: sq_eval)
  then have "sq_reach True 10 ?m2" by (rule sq_reach.Step) (rule sq_step.Start, simp_all add: sq_eval)
  then have "sq_reach True 10 ?m3" by (rule sq_reach.Step) (rule sq_step.SetStop)
  then have "sq_reach True 10 ?m4" by (rule sq_reach.Step) (rule sq_step.Consume, simp_all add: sq_eval)
  then have "sq_reach True 10 ?m5" by (rule sq_reach.Step) (rule sq_step.StopCalled, simp_all add: sq_eval)
  then have "sq_reach True 10 ?m6" by (rule sq_reach.Step) (rule sq_step.Sentinel [where ids = "{}"], simp_all add: sq_eval)
  then have "sq_reach True 10 (consume ?m6)" by (rule sq_reach.Step) (rule sq_step.Consume, simp_all add: sq_eval)
  then have "sq_reach True 10 ((consume ?m6)\<lparr>sq_phase := Stopped\<rparr>)"
    by (rule sq_reach.Step) (rule sq_step.Finished, simp_all add: sq_eval)
  then show ?thesis by (simp only: drained_manager_def Let_def)
qed


text \<open>Without the stop event the order does not hold: a signal sent while \<open>stop\<close> waits for the consumer is queued behind the
  sentinel, and the stopped manager keeps it.\<close>

theorem early_stop_strands_signal:
  "\<exists>m :: (string, nat, string) signal_manager. sq_reach False 10 m \<and> sq_phase m = Stopped \<and> queued m = [(''a'', 7)]"
proof -
  let ?m0 = "sq_start (sq_connect ''a'' ''h'' (sq_init 10)) :: (string, nat, string) signal_manager"
  let ?m1 = "?m0\<lparr>sq_phase := Gathering (fst ` set (sq_puts ?m0))\<rparr>"
  let ?m2 = "?m1\<lparr>sq_queue := sq_queue ?m1 @ [None], sq_phase := Draining\<rparr>"
  let ?m3 = "sq_send ''a'' 7 ?m2"
  let ?m4 = "safe_put (0, ''a'', 7) ?m3"
  let ?m5 = "consume ?m4"
  note defs = sq_start_def sq_connect_def sq_init_def sq_send_def safe_put_def put_done_def consume_def queue_full_def listeners_of_def
    dict_get_def
  have "sq_reach False 10 (sq_connect ''a'' ''h'' (sq_init 10) :: (string, nat, string) signal_manager)"
    by (rule sq_reach.Step [OF sq_reach.Init sq_step.Connect])
  then have "sq_reach False 10 ?m0" by (rule sq_reach.Step) (rule sq_step.Start, simp_all add: defs)
  then have "sq_reach False 10 ?m1" by (rule sq_reach.Step) (rule sq_step.StopCalled, simp_all add: defs)
  then have "sq_reach False 10 ?m2"
    by (rule sq_reach.Step) (rule sq_step.Sentinel [where ids = "{}"], simp_all add: defs)
  then have "sq_reach False 10 ?m3" by (rule sq_reach.Step) (rule sq_step.Send)
  then have "sq_reach False 10 ?m4" by (rule sq_reach.Step) (rule sq_step.Put, simp add: defs)
  then have "sq_reach False 10 ?m5" by (rule sq_reach.Step) (rule sq_step.Consume, simp_all add: defs)
  then have "sq_reach False 10 (?m5\<lparr>sq_phase := Stopped\<rparr>)"
    by (rule sq_reach.Step) (rule sq_step.Finished, simp_all add: defs)
  moreover have "queued (?m5\<lparr>sq_phase := Stopped\<rparr>) = [(''a'', 7)]" by (simp add: defs queued_def)
  ultimately show ?thesis by (intro exI [of _ "?m5\<lparr>sq_phase := Stopped\<rparr>"]) simp
qed

lemma statistics_handler_get [simp]:
  "dict_get (statistics_handler k counts) k' 0 = dict_get counts k' 0 + (if k' = k then 1 else 0)"
  by (simp add: statistics_handler_def)

lemma statistics_foldl:
  "dict_get (foldl (\<lambda>counts k. statistics_handler k counts) counts calls) k 0 = dict_get counts k 0 + int (count_list calls k)"
  by (induction calls arbitrary: counts) simp_all

lemma listeners_foldl_connect:
  "k \<notin> set ks \<Longrightarrow> listeners_of (foldl (\<lambda>m k. sq_connect k k m) m ks) k = listeners_of m k"
  by (induction ks arbitrary: m) auto

lemma listeners_connect_each:
  "distinct ks \<Longrightarrow> k \<in> set ks \<Longrightarrow> listeners_of (foldl (\<lambda>m k. sq_connect k k m) m ks) k = listeners_of m k @ [k]"
  by (induction ks arbitrary: m) (auto simp: listeners_foldl_connect)

text \<open>The statistics extension has one handler behind each of its twelve signals and none behind another, and whatever order the
  handlers run in, each count is the number of its calls.\<close>

theorem statistics_exact:
  "listeners_of (statistics_connect (sq_init maxsize)) k = (if k \<in> set statistics_signals then [k] else []) \<and>
   dict_get (statistics_after calls) k 0 = int (count_list calls k) \<and>
   (mset calls = mset calls' \<longrightarrow> dict_get (statistics_after calls') k 0 = dict_get (statistics_after calls) k 0)"
proof (intro conjI impI)
  have init: "listeners_of (sq_init maxsize) k = ([] :: string list)" by (simp add: listeners_of_def sq_init_def dict_get_def)
  have "distinct statistics_signals" by (simp add: statistics_signals_def)
  then show "listeners_of (statistics_connect (sq_init maxsize)) k = (if k \<in> set statistics_signals then [k] else [])"
    unfolding statistics_connect_def using init by (simp add: listeners_connect_each listeners_foldl_connect)
  have zero: "dict_get statistics_init k 0 = 0"
    by (simp add: statistics_init_def dict_get_def statistics_signals_def)
  show "dict_get (statistics_after calls) k 0 = int (count_list calls k)"
    by (simp add: statistics_after_def statistics_foldl zero)
  assume "mset calls = mset calls'"
  then have "count_list calls k = count_list calls' k" by (metis count_mset)
  then show "dict_get (statistics_after calls') k 0 = dict_get (statistics_after calls) k 0"
    by (simp add: statistics_after_def statistics_foldl)
qed

theorem statistics_exact_witness: "dict_get (statistics_after [''item_scraped'', ''task_error'', ''item_scraped'']) ''item_scraped'' 0 = 2"
  using statistics_exact [of 0 "''item_scraped''" "[''item_scraped'', ''task_error'', ''item_scraped'']"
    "[''item_scraped'', ''task_error'', ''item_scraped'']"] by (elim conjE) simp

end
