(* ===== verification/Downloader.thy ===== *)
theory Downloader
  imports Resilience Complex_Main
begin

unbundle bit_operations_syntax

text \<open>
  Fetching requests (\<open>core/downloader/fetch.py\<close>) and the ownership of live streams (\<open>StreamResponse\<close> of
  \<open>core/downloader/internet/response.py\<close>).  How the awaited calls end, the callback's included, is an argument; the order
  in which the downloader calls them is a trace.
\<close>

section \<open>Live streams\<close>

record stream_response =
  sr_release :: bool
  sr_closed :: bool

datatype 'm fetch_event =
    SignalReached
  | SignalResponse
  | SlotTaken
  | SlotFreed
  | StreamSlotTaken
  | StreamSlotFreed
  | StreamClosed
  | CallbackRun 'm
  | SessionReleased

definition stream_init :: "bool \<Rightarrow> stream_response" where
  "stream_init bounded = \<lparr>sr_release = bounded, sr_closed = False\<rparr>"

text \<open>\<open>aclose\<close>: the platform stream is closed once, and the slot is freed even when closing fails.\<close>

definition aclose :: "('e, unit) outcome \<Rightarrow> stream_response \<Rightarrow> stream_response \<times> 'm fetch_event list \<times> ('e, unit) outcome" where
  "aclose closing r =
     (if sr_closed r then (r, [], Done ())
      else (r\<lparr>sr_closed := True, sr_release := False\<rparr>, StreamClosed # (if sr_release r then [StreamSlotFreed] else []), closing))"

section \<open>Deadlines and failures\<close>

text \<open>What a request says of its time, and the settings it falls back to; a zero or missing number falls back.\<close>

record request_timing =
  rt_timeout :: "rat option"
  rt_attempts :: "int option"
  rt_delay :: "rat option"
  rt_media :: bool
  rt_stream :: bool

record fetch_settings =
  fs_timeout :: "rat option"
  fs_attempts :: "int option"
  fs_delay :: "rat option"

definition or_else :: "'a :: zero option \<Rightarrow> 'a \<Rightarrow> 'a" where
  "or_else x y = (case x of None \<Rightarrow> y | Some v \<Rightarrow> if v = 0 then y else v)"

definition timeout_of :: "fetch_settings \<Rightarrow> request_timing \<Rightarrow> rat" where
  "timeout_of st r = or_else (rt_timeout r) (or_else (fs_timeout st) 30)"

definition attempts_of :: "fetch_settings \<Rightarrow> request_timing \<Rightarrow> int" where
  "attempts_of st r = or_else (rt_attempts r) (or_else (fs_attempts st) 1)"

definition request_deadline :: "fetch_settings \<Rightarrow> request_timing \<Rightarrow> rat option" where
  "request_deadline st r =
     (if rt_media r \<and> \<not> rt_stream r then None
      else
        let timeout = max (timeout_of st r) 1; attempts = attempts_of st r;
            retry_delay = (case rt_delay r of Some d \<Rightarrow> d | None \<Rightarrow> or_else (fs_delay st) 0)
        in Some (timeout * of_int attempts + retry_delay * of_int (max (attempts - 1) 0) + 2))"

section \<open>One HTTP request\<close>

datatype fetch_exception = TimedOut | OtherException

text \<open>What the callback is given.\<close>

datatype fetch_result = GotResponse | GotStream | TimeoutFailure rat int | FetchFailure

text \<open>The ends of the awaited calls: taking a slot, the transport, opening a stream, closing it, and the callback by the number
  of its call.  A response may be falsy.\<close>

record fetch_world =
  fw_session :: "(fetch_exception, unit) outcome"
  fw_slot :: "(fetch_exception, unit) outcome"
  fw_transport :: "(fetch_exception, bool) outcome"
  fw_stream_slot :: "(fetch_exception, unit) outcome"
  fw_open :: "(fetch_exception, unit) outcome"
  fw_closing :: "(fetch_exception, unit) outcome"
  fw_callback :: "nat \<Rightarrow> (fetch_exception, unit) outcome"

type_synonym fetch_log = "fetch_result fetch_event list"

text \<open>\<open>_fetch_stream\<close>: with a bound on streams the slot stays taken until the response is closed.\<close>

definition fetch_stream :: "bool \<Rightarrow> fetch_world \<Rightarrow> fetch_log \<times> (fetch_exception, unit) outcome" where
  "fetch_stream bounded w =
     (let taken = (if bounded then [StreamSlotTaken] else []); freed = (if bounded then [StreamSlotFreed] else [])
      in case (if bounded then fw_stream_slot w else Done ()) of
           Raised e \<Rightarrow> ([], Raised e)
         | Cancelled \<Rightarrow> ([], Cancelled)
         | Done _ \<Rightarrow>
             (case fw_open w of
                Raised e \<Rightarrow> (taken @ freed, Raised e)
              | Cancelled \<Rightarrow> (taken @ freed, Cancelled)
              | Done _ \<Rightarrow>
                  let trace = taken @ [SignalResponse, CallbackRun GotStream]
                  in (case fw_callback w 0 of
                        Done _ \<Rightarrow> (trace, Done ())
                      | failure \<Rightarrow>
                          (case aclose (fw_closing w) (stream_init bounded) of
                             (_, evs, Done _) \<Rightarrow> (trace @ evs, failure)
                           | (_, evs, Raised e) \<Rightarrow> (trace @ evs, Raised e)
                           | (_, evs, Cancelled) \<Rightarrow> (trace @ evs, Cancelled)))))"

text \<open>The body of the \<open>try\<close>, and the number of callbacks it ran.\<close>

definition fetch_body :: "bool \<Rightarrow> bool \<Rightarrow> fetch_world \<Rightarrow> fetch_log \<times> (fetch_exception, unit) outcome" where
  "fetch_body bounded is_stream w =
     (case fw_session w of
        Raised e \<Rightarrow> ([SignalReached], Raised e)
      | Cancelled \<Rightarrow> ([SignalReached], Cancelled)
      | Done _ \<Rightarrow>
          if is_stream then (case fetch_stream bounded w of (trace, r) \<Rightarrow> (SignalReached # trace, r))
          else
            (case fw_slot w of
               Raised e \<Rightarrow> ([SignalReached], Raised e)
             | Cancelled \<Rightarrow> ([SignalReached], Cancelled)
             | Done _ \<Rightarrow>
                 let trace = [SignalReached, SlotTaken, SlotFreed]
                 in (case fw_transport w of
                       Raised e \<Rightarrow> (trace, Raised e)
                     | Cancelled \<Rightarrow> (trace, Cancelled)
                     | Done False \<Rightarrow> (trace, Done ())
                     | Done True \<Rightarrow> (trace @ [SignalResponse, CallbackRun GotResponse], fw_callback w 0))))"

definition callback_count :: "'m fetch_event list \<Rightarrow> nat" where
  "callback_count trace = length (filter (\<lambda>ev. case ev of CallbackRun _ \<Rightarrow> True | _ \<Rightarrow> False) trace)"

definition failure_for :: "fetch_settings \<Rightarrow> request_timing \<Rightarrow> fetch_exception \<Rightarrow> fetch_result" where
  "failure_for st r e = (case e of TimedOut \<Rightarrow> TimeoutFailure (timeout_of st r) (attempts_of st r) | OtherException \<Rightarrow> FetchFailure)"

text \<open>\<open>fetch_http\<close>: an exception of the body, the callback's own included, is handed to the callback; the session reference is
  released whatever happens.\<close>

definition fetch_http ::
  "fetch_settings \<Rightarrow> bool \<Rightarrow> request_timing \<Rightarrow> fetch_world \<Rightarrow> fetch_log \<times> (fetch_exception, unit) outcome" where
  "fetch_http st bounded r w =
     (case fetch_body bounded (rt_stream r) w of
        (trace, Raised e) \<Rightarrow> (trace @ [CallbackRun (failure_for st r e), SessionReleased], fw_callback w (callback_count trace))
      | (trace, res) \<Rightarrow> (trace @ [SessionReleased], res))"

section \<open>WebSocket listeners\<close>

text \<open>The bit of a close frame in the flags a message carries; messages of other shapes have none.\<close>

definition is_websocket_close_message :: "nat \<Rightarrow> nat option \<Rightarrow> bool" where
  "is_websocket_close_message close_flag flags = (case flags of None \<Rightarrow> False | Some f \<Rightarrow> f AND close_flag \<noteq> 0)"

text \<open>One turn of the listener's loop: a message with whether it is a close frame, whether it names a keepalive timeout and how
  its callback ends; a stop event; a failure to receive; a cancellation.\<close>

datatype listener_turn =
    Received nat bool bool "(fetch_exception, unit) outcome"
  | StopSeen
  | ReceiveFailed fetch_exception "(fetch_exception, unit) outcome"
  | TurnCancelled

datatype listener_event = Delivered nat | FailureDelivered fetch_exception | StopRequested | EntryClosed

text \<open>An exception of a message's callback is reported by a second callback, whose end the turn leaves to \<open>second\<close>.\<close>

fun listener_loop ::
  "(nat \<Rightarrow> (fetch_exception, unit) outcome) \<Rightarrow> listener_turn list \<Rightarrow> listener_event list \<times> (fetch_exception, unit) outcome" where
  "listener_loop second [] = ([], Done ())"
| "listener_loop second (StopSeen # ts) = ([], Done ())"
| "listener_loop second (TurnCancelled # ts) = ([], Cancelled)"
| "listener_loop second (ReceiveFailed e r # ts) = ([FailureDelivered e], r)"
| "listener_loop second (Received i is_close keepalive r # ts) =
     (if is_close then ([StopRequested], Done ())
      else (case r of
              Cancelled \<Rightarrow> ([Delivered i], Cancelled)
            | Raised e \<Rightarrow> ([Delivered i, FailureDelivered e], second i)
            | Done _ \<Rightarrow>
                if keepalive then ([Delivered i, StopRequested], Done ())
                else (case listener_loop second ts of (trace, res) \<Rightarrow> (Delivered i # trace, res))))"

text \<open>\<open>_websocket_listener\<close> after its connection: an exception that leaves the loop is reported once more, in a callback whose own
  exception is only logged, and the entry is closed in any case.  The second component: the listener ends cancelled.\<close>

definition websocket_listener ::
  "(fetch_exception, unit) outcome \<Rightarrow> bool \<Rightarrow> (nat \<Rightarrow> (fetch_exception, unit) outcome) \<Rightarrow> (fetch_exception, unit) outcome \<Rightarrow>
   listener_turn list \<Rightarrow> listener_event list \<times> bool" where
  "websocket_listener conn stopped second last_callback turns =
     (case (case conn of
              Done _ \<Rightarrow> if stopped then ([], Done ()) else listener_loop second turns
            | Raised e \<Rightarrow> ([], Raised e)
            | Cancelled \<Rightarrow> ([], Cancelled)) of
        (trace, Done _) \<Rightarrow> (trace @ [EntryClosed], False)
      | (trace, Raised e) \<Rightarrow> (trace @ [FailureDelivered e, EntryClosed], last_callback = Cancelled)
      | (trace, Cancelled) \<Rightarrow> (trace @ [EntryClosed], True))"

section \<open>Lemmas\<close>

lemma callback_count_simps [simp]:
  "callback_count [] = 0" "callback_count (ev # trace) = (case ev of CallbackRun _ \<Rightarrow> 1 | _ \<Rightarrow> 0) + callback_count trace"
  "callback_count (trace @ trace') = callback_count trace + callback_count trace'"
  by (simp_all add: callback_count_def split: fetch_event.split)

definition count_event :: "'m fetch_event \<Rightarrow> 'm fetch_event list \<Rightarrow> nat" where
  "count_event ev trace = count_list trace ev"

lemma aclose_trace:
  "aclose closing (stream_init bounded) =
     (\<lparr>sr_release = False, sr_closed = True\<rparr>, StreamClosed # (if bounded then [StreamSlotFreed] else []), closing)"
  by (simp add: aclose_def stream_init_def)

text \<open>How many stream slots a fetch leaves taken: one exactly when it handed a live stream to a callback that returned.\<close>

definition hands_over :: "fetch_world \<Rightarrow> bool" where
  "hands_over w \<longleftrightarrow> fw_open w = Done () \<and> fw_callback w 0 = Done () \<and> fw_stream_slot w = Done ()"

lemmas fetch_defs = fetch_http_def fetch_body_def fetch_stream_def aclose_trace hands_over_def Let_def

text \<open>The ends of a body, with the slots and callbacks its trace counts.\<close>

definition body_counts :: "bool \<Rightarrow> fetch_world \<Rightarrow> fetch_log \<Rightarrow> bool" where
  "body_counts kept w trace \<longleftrightarrow>
     count_list trace SessionReleased = 0 \<and> count_list trace SlotTaken = count_list trace SlotFreed \<and>
     count_list trace StreamSlotTaken = count_list trace StreamSlotFreed + (if kept then 1 else 0)"

lemma fetch_stream_counts:
  assumes "fetch_stream bounded w = (trace, res)"
  shows "body_counts (bounded \<and> hands_over w) w trace \<and> callback_count trace \<le> 1 \<and>
    (res = Done () \<longleftrightarrow> callback_count trace = 1 \<and> fw_callback w 0 = Done ())"
proof (cases bounded)
  case True
  then show ?thesis using assms
    by (cases "fw_stream_slot w"; cases "fw_open w"; cases "fw_callback w 0"; cases "fw_closing w")
      (auto simp: fetch_defs body_counts_def)
next
  case False
  then show ?thesis using assms
    by (cases "fw_open w"; cases "fw_callback w 0"; cases "fw_closing w") (auto simp: fetch_defs body_counts_def)
qed

lemma fetch_body_counts:
  assumes "fetch_body bounded is_stream w = (trace, res)"
  shows "body_counts (bounded \<and> is_stream \<and> fw_session w = Done () \<and> hands_over w) w trace \<and> callback_count trace \<le> 1 \<and>
    (callback_count trace = 1 \<and> fw_callback w 0 = Done () \<longrightarrow> res = Done ())"
proof (cases "is_stream \<and> fw_session w = Done ()")
  case True
  obtain t r where t: "fetch_stream bounded w = (t, r)" by (metis prod.exhaust)
  then show ?thesis using fetch_stream_counts [OF t] True assms by (auto simp: fetch_body_def body_counts_def)
next
  case False
  then show ?thesis using assms
    by (cases "fw_session w"; cases "fw_slot w"; cases "fw_transport w")
      (auto simp: fetch_body_def body_counts_def Let_def split: bool.splits)
qed

section \<open>Properties\<close>

text \<open>Whatever fails and whatever is cancelled, a fetch releases its session reference exactly once, as the last thing it does.\<close>

theorem session_released_once:
  "\<exists>trace res. fetch_http st bounded r w = (trace @ [SessionReleased], res) \<and> count_list trace SessionReleased = 0"
proof -
  obtain t res where t: "fetch_body bounded (rt_stream r) w = (t, res)" by (metis prod.exhaust)
  have none: "count_list t SessionReleased = 0" using fetch_body_counts [OF t] by (simp add: body_counts_def)
  show ?thesis
  proof (cases res)
    case (Raised e)
    then show ?thesis using t none by (intro exI [of _ "t @ [CallbackRun (failure_for st r e)]"]) (simp add: fetch_http_def)
  qed (use t none in \<open>auto simp: fetch_http_def\<close>)
qed

text \<open>C20.  Slots balance: a request slot is freed as often as it is taken, and a stream slot likewise, unless a live stream was handed to
  a callback that returned: then one slot stays with the response.\<close>

theorem slots_balanced:
  assumes "fetch_http st bounded r w = (trace, res)"
  shows "count_list trace SlotTaken = count_list trace SlotFreed \<and>
    count_list trace StreamSlotTaken =
      count_list trace StreamSlotFreed + (if bounded \<and> rt_stream r \<and> fw_session w = Done () \<and> hands_over w then 1 else 0)"
proof -
  obtain t r' where t: "fetch_body bounded (rt_stream r) w = (t, r')" by (metis prod.exhaust)
  show ?thesis using fetch_body_counts [OF t] assms t by (cases r') (auto simp: fetch_http_def body_counts_def)
qed

definition sample_world :: fetch_world where
  "sample_world = \<lparr>fw_session = Done (), fw_slot = Done (), fw_transport = Done True, fw_stream_slot = Done (), fw_open = Done (),
     fw_closing = Done (), fw_callback = (\<lambda>n. if n = 0 then Raised OtherException else Done ())\<rparr>"

definition sample_timing :: request_timing where
  "sample_timing = \<lparr>rt_timeout = Some 5, rt_attempts = Some 3, rt_delay = None, rt_media = False, rt_stream = True\<rparr>"

definition sample_settings :: fetch_settings where
  "sample_settings = \<lparr>fs_timeout = None, fs_attempts = None, fs_delay = Some 1\<rparr>"

lemmas sample_defs = sample_world_def sample_timing_def sample_settings_def

theorem slots_balanced_witness:
  "count_list (fst (fetch_http sample_settings True sample_timing sample_world)) StreamSlotTaken =
     count_list (fst (fetch_http sample_settings True sample_timing sample_world)) StreamSlotFreed"
  using slots_balanced [OF prod.collapse [symmetric], of sample_settings True sample_timing sample_world]
  by (simp add: hands_over_def sample_defs)

text \<open>A request's callback runs at most twice: a second time exactly when its first run raised, to report that.  A callback that
  returns is not run again.\<close>

theorem callback_at_most_twice:
  assumes "fetch_http st bounded r w = (trace, res)"
  shows "callback_count trace \<le> 2 \<and> (callback_count trace = 2 \<longrightarrow> fw_callback w 0 \<noteq> Done ())"
proof -
  obtain t r' where t: "fetch_body bounded (rt_stream r) w = (t, r')" by (metis prod.exhaust)
  note body = fetch_body_counts [OF t]
  show ?thesis
  proof (cases r')
    case (Raised e)
    then have "trace = t @ [CallbackRun (failure_for st r e), SessionReleased]" using assms t by (simp add: fetch_http_def)
    then show ?thesis using body Raised by auto
  next
    case (Done u)
    then have "trace = t @ [SessionReleased]" using assms t by (simp add: fetch_http_def)
    then show ?thesis using body by simp
  next
    case Cancelled
    then have "trace = t @ [SessionReleased]" using assms t by (simp add: fetch_http_def)
    then show ?thesis using body by simp
  qed
qed

theorem callback_at_most_twice_witness:
  "callback_count (fst (fetch_http sample_settings True sample_timing sample_world)) = 2 \<and> fw_callback sample_world 0 \<noteq> Done ()"
proof -
  have "callback_count (fst (fetch_http sample_settings True sample_timing sample_world)) = 2"
    by (simp add: fetch_defs sample_defs)
  then show ?thesis using callback_at_most_twice [OF prod.collapse [symmetric], of sample_settings True sample_timing sample_world] by blast
qed

text \<open>Within its deadline a request can run every attempt to its timeout and pause between them.\<close>

theorem deadline_covers_attempts:
  assumes "request_deadline st r = Some d" and "1 \<le> attempts_of st r"
  shows "timeout_of st r * of_int (attempts_of st r) +
      (case rt_delay r of Some x \<Rightarrow> x | None \<Rightarrow> or_else (fs_delay st) 0) * of_int (attempts_of st r - 1) < d"
proof -
  have "timeout_of st r * of_int (attempts_of st r) \<le> max (timeout_of st r) 1 * of_int (attempts_of st r)"
    by (rule mult_right_mono) (use assms(2) in auto)
  moreover have "max (attempts_of st r - 1) 0 = attempts_of st r - 1" using assms(2) by simp
  ultimately show ?thesis using assms(1) by (auto simp: request_deadline_def Let_def split: if_splits)
qed

theorem deadline_covers_attempts_witness: "(5 :: rat) * 3 + 1 * 2 < 19"
  using deadline_covers_attempts [of sample_settings sample_timing 19]
  by (simp add: request_deadline_def timeout_of_def attempts_of_def or_else_def sample_defs)

text \<open>A listener delivers the messages it received in their order, each once, up to the first that ends it; then, and once, it closes
  its entry, also when it failed to connect or was cancelled.\<close>

definition delivered :: "listener_event list \<Rightarrow> nat list" where
  "delivered evs = List.map_filter (\<lambda>ev. case ev of Delivered i \<Rightarrow> Some i | _ \<Rightarrow> None) evs"

definition received :: "listener_turn list \<Rightarrow> nat list" where
  "received turns = List.map_filter (\<lambda>t. case t of Received i c k r \<Rightarrow> Some i | _ \<Rightarrow> None) turns"

lemma delivered_simps [simp]:
  "delivered [] = []" "delivered (Delivered i # evs) = i # delivered evs" "delivered (FailureDelivered e # evs) = delivered evs"
  "delivered (StopRequested # evs) = delivered evs" "delivered (EntryClosed # evs) = delivered evs"
  "delivered (evs @ evs') = delivered evs @ delivered evs'"
  by (simp_all add: delivered_def List.map_filter_def)

lemma received_simps [simp]: "received [] = []" "received (Received i c k r # ts) = i # received ts"
  by (simp_all add: received_def List.map_filter_def)

lemma listener_loop_prefix:
  "listener_loop second turns = (evs, res) \<Longrightarrow> (\<exists>rest. received turns = delivered evs @ rest) \<and> EntryClosed \<notin> set evs"
proof (induction second turns arbitrary: evs res rule: listener_loop.induct)
  case (5 second i is_close keepalive r ts)
  obtain evs' res' where sub: "listener_loop second ts = (evs', res')" by (metis prod.exhaust)
  show ?case using 5 sub by (cases r) (auto split: if_splits)
qed auto

theorem listener_delivers_in_order:
  assumes "websocket_listener conn stopped second last_callback turns = (evs, cancelled)"
  shows "(\<exists>rest. received turns = delivered evs @ rest) \<and> (\<exists>before. evs = before @ [EntryClosed] \<and> EntryClosed \<notin> set before)"
proof -
  define r where "r = (case conn of Done _ \<Rightarrow> if stopped then ([], Done ()) else listener_loop second turns
      | Raised e \<Rightarrow> ([], Raised e) | Cancelled \<Rightarrow> ([], Cancelled))"
  have r: "(\<exists>rest. received turns = delivered (fst r) @ rest) \<and> EntryClosed \<notin> set (fst r)"
    using listener_loop_prefix [of second turns "fst (listener_loop second turns)" "snd (listener_loop second turns)"]
    by (cases conn) (auto simp: r_def)
  have "evs = fst r @ [EntryClosed] \<or> (\<exists>e. evs = fst r @ [FailureDelivered e, EntryClosed])"
    using assms unfolding websocket_listener_def r_def [symmetric] by (cases r; cases "snd r") auto
  then show ?thesis using r by auto
qed

theorem listener_delivers_in_order_witness:
  "delivered (fst (websocket_listener (Done ()) False (\<lambda>_. Done ()) (Done ())
     [Received 1 False False (Done ()), Received 2 True False (Done ()), Received 3 False False (Done ())])) = [1]"
  using listener_delivers_in_order [of "Done ()" False "\<lambda>_. Done ()" "Done ()"
    "[Received 1 False False (Done ()), Received 2 True False (Done ()), Received 3 False False (Done ())]", OF prod.collapse [symmetric]]
  by (simp add: websocket_listener_def)

end
