(* ===== verification/SseStream.thy ===== *)
theory SseStream
  imports PyStrings
begin

text \<open>
  Parsing of Server-Sent Events (\<open>StreamResponse.aiter_sse\<close> of \<open>core/downloader/internet/response.py\<close>).  The lines of the stream are
  the argument; their characters are code points, of which the model's strings hold the first 256.
\<close>

section \<open>The parser\<close>

record sse_event =
  se_data :: string
  se_event :: string
  se_id :: "string option"
  se_retry :: "nat option"

record sse_state =
  ss_data :: "string list"
  ss_name :: string
  ss_id :: "string option"
  ss_retry :: "nat option"
  ss_size :: nat

datatype sse_error = EventTooLarge | BadRetry

definition sse_init :: sse_state where
  "sse_init = \<lparr>ss_data = [], ss_name = ''message'', ss_id = None, ss_retry = None, ss_size = 0\<rparr>"

definition rstrip_cr :: "string \<Rightarrow> string" where
  "rstrip_cr s = rev (dropWhile (\<lambda>c. c = CHR 0x0D) (rev s))"

definition utf8_length :: "string \<Rightarrow> nat" where
  "utf8_length s = sum_list (map (\<lambda>c. if (of_char c :: nat) < 128 then 1 else 2) s)"

text \<open>\<open>str.isdigit\<close> also holds for the superscript digits, which \<open>int\<close> refuses.\<close>

definition is_unicode_digit :: "char \<Rightarrow> bool" where
  "is_unicode_digit c \<longleftrightarrow> is_digit c \<or> (of_char c :: nat) \<in> {178, 179, 185}"

definition isdigit :: "string \<Rightarrow> bool" where
  "isdigit s \<longleftrightarrow> s \<noteq> [] \<and> list_all is_unicode_digit s"

definition partition_colon :: "string \<Rightarrow> string \<times> bool \<times> string" where
  "partition_colon s =
     (let field = takeWhile (\<lambda>c. c \<noteq> CHR '':'') s; rest = dropWhile (\<lambda>c. c \<noteq> CHR '':'') s
      in (field, rest \<noteq> [], drop 1 rest))"

definition sse_dispatch :: "sse_state \<Rightarrow> sse_event list" where
  "sse_dispatch st =
     (if ss_data st = [] then []
      else [\<lparr>se_data = join [CHR 0x0A] (ss_data st), se_event = ss_name st, se_id = ss_id st, se_retry = ss_retry st\<rparr>])"

definition sse_field :: "nat \<Rightarrow> string \<Rightarrow> string \<Rightarrow> sse_state \<Rightarrow> sse_error + sse_state" where
  "sse_field max_size field value st =
     (let size = ss_size st + utf8_length value; st1 = st\<lparr>ss_size := size\<rparr>
      in if max_size < size then Inl EventTooLarge
         else if field = ''data'' then Inr (st1\<lparr>ss_data := ss_data st1 @ [value]\<rparr>)
         else if field = ''event'' then Inr (st1\<lparr>ss_name := (if value = [] then ''message'' else value)\<rparr>)
         else if field = ''id'' \<and> CHR 0x00 \<notin> set value then Inr (st1\<lparr>ss_id := Some value\<rparr>)
         else if field = ''retry'' \<and> isdigit value then
           (case parse_nat value of None \<Rightarrow> Inl BadRetry | Some n \<Rightarrow> Inr (st1\<lparr>ss_retry := Some n\<rparr>))
         else Inr st1)"

definition sse_line :: "nat \<Rightarrow> string \<Rightarrow> sse_state \<Rightarrow> sse_error + sse_state \<times> sse_event list" where
  "sse_line max_size raw st =
     (let line = rstrip_cr raw
      in if line = [] then
           Inr (st\<lparr>ss_data := [], ss_name := ''message'', ss_retry := None, ss_size := 0\<rparr>, sse_dispatch st)
         else if starts_with '':'' line then Inr (st, [])
         else
           (case partition_colon line of
              (field, separator, v) \<Rightarrow>
                let value = (if separator \<and> starts_with '' '' v then drop 1 v else v)
                in (case sse_field max_size field value st of Inl e \<Rightarrow> Inl e | Inr st' \<Rightarrow> Inr (st', []))))"

text \<open>The events yielded before the lines end or one of them raises; an event begun at the end is yielded too.\<close>

fun sse_lines :: "nat \<Rightarrow> string list \<Rightarrow> sse_state \<Rightarrow> sse_event list \<times> sse_error option" where
  "sse_lines max_size [] st = (sse_dispatch st, None)"
| "sse_lines max_size (l # ls) st =
     (case sse_line max_size l st of
        Inl e \<Rightarrow> ([], Some e)
      | Inr (st', evs) \<Rightarrow> (case sse_lines max_size ls st' of (evs', e) \<Rightarrow> (evs @ evs', e)))"

definition aiter_sse :: "nat \<Rightarrow> string list \<Rightarrow> sse_event list \<times> sse_error option" where
  "aiter_sse max_size ls = sse_lines max_size ls sse_init"

section \<open>Writing events\<close>

text \<open>The lines a server writes for an event, one \<open>data\<close> line for each line of its text.\<close>

definition event_lines :: "sse_event \<Rightarrow> string list" where
  "event_lines ev =
     [''event: '' @ se_event ev] @ (case se_id ev of None \<Rightarrow> [] | Some i \<Rightarrow> [''id: '' @ i]) @
     (case se_retry ev of None \<Rightarrow> [] | Some n \<Rightarrow> [''retry: '' @ str_nat n]) @
     map (\<lambda>l. ''data: '' @ l) (split_on (CHR 0x0A) (se_data ev)) @ [[]]"

definition event_size :: "sse_event \<Rightarrow> nat" where
  "event_size ev =
     utf8_length (se_event ev) + (case se_id ev of None \<Rightarrow> 0 | Some i \<Rightarrow> utf8_length i) +
     (case se_retry ev of None \<Rightarrow> 0 | Some n \<Rightarrow> utf8_length (str_nat n)) +
     sum_list (map utf8_length (split_on (CHR 0x0A) (se_data ev)))"

text \<open>What survives the line format: no line ends in a carriage return, and an id has no null character.\<close>

definition line_safe :: "string \<Rightarrow> bool" where
  "line_safe s \<longleftrightarrow> s = [] \<or> last s \<noteq> CHR 0x0D"

definition event_ok :: "nat \<Rightarrow> sse_event \<Rightarrow> bool" where
  "event_ok max_size ev \<longleftrightarrow>
     se_event ev \<noteq> [] \<and> line_safe (se_event ev) \<and> (\<forall>i. se_id ev = Some i \<longrightarrow> line_safe i \<and> CHR 0x00 \<notin> set i) \<and>
     (\<forall>l \<in> set (split_on (CHR 0x0A) (se_data ev)). line_safe l) \<and> event_size ev \<le> max_size"

section \<open>Lemmas\<close>

lemma rstrip_safe: "line_safe s \<Longrightarrow> rstrip_cr s = s"
  by (cases s rule: rev_cases) (simp_all add: line_safe_def rstrip_cr_def)

lemma field_line:
  assumes "line_safe v" and "CHR '':'' \<notin> set name" and "name \<noteq> []" and "line_safe name"
  shows "sse_line max_size (name @ '': '' @ v) st = (case sse_field max_size name v st of Inl e \<Rightarrow> Inl e | Inr st' \<Rightarrow> Inr (st', []))"
proof -
  have safe: "line_safe (name @ '': '' @ v)" using assms(1) by (auto simp: line_safe_def)
  have colon: "\<not> starts_with '':'' (name @ '': '' @ v)" using assms(2,3) by (cases name) auto
  have part: "partition_colon (name @ '': '' @ v) = (name, True, '' '' @ v)"
  proof -
    have "takeWhile (\<lambda>c. c \<noteq> CHR '':'') (name @ '': '' @ v) = name" "dropWhile (\<lambda>c. c \<noteq> CHR '':'') (name @ '': '' @ v) = '': '' @ v"
      using assms(2) by (induction name) auto
    then show ?thesis by (simp add: partition_colon_def)
  qed
  show ?thesis using colon unfolding sse_line_def rstrip_safe [OF safe] Let_def part by simp
qed

lemma blank_line: "sse_line max_size [] st = Inr (st\<lparr>ss_data := [], ss_name := ''message'', ss_retry := None, ss_size := 0\<rparr>, sse_dispatch st)"
  by (simp add: sse_line_def rstrip_cr_def)

lemma sse_lines_field:
  assumes "line_safe v" and "name \<in> {''event'', ''id'', ''retry'', ''data''}"
  shows "sse_lines max_size ((name @ '': '' @ v) # ls) st =
    (case sse_field max_size name v st of Inl e \<Rightarrow> ([], Some e) | Inr st' \<Rightarrow> sse_lines max_size ls st')"
proof -
  have "CHR '':'' \<notin> set name" "name \<noteq> []" "line_safe name" using assms(2) by (auto simp: line_safe_def)
  from field_line [OF assms(1) this] show ?thesis by (simp split: sum.split)
qed

lemma isdigit_str_nat: "isdigit (str_nat n)"
  using str_nat_digits [of n] by (simp add: isdigit_def is_unicode_digit_def list_all_iff)

lemma line_safe_str_nat: "line_safe (str_nat n)"
proof -
  have "is_digit (last (str_nat n))" using str_nat_digits [of n] by (simp add: list_all_iff)
  then show ?thesis by (auto simp: line_safe_def is_digit_def)
qed

lemma sse_data_lines:
  "\<forall>l \<in> set ds. line_safe l \<Longrightarrow> ss_size st + sum_list (map utf8_length ds) \<le> max_size \<Longrightarrow>
   sse_lines max_size (map (\<lambda>l. ''data: '' @ l) ds @ ls) st =
     sse_lines max_size ls (st\<lparr>ss_data := ss_data st @ ds, ss_size := ss_size st + sum_list (map utf8_length ds)\<rparr>)"
proof (induction ds arbitrary: st)
  case (Cons d ds)
  have "sse_lines max_size ((''data'' @ '': '' @ d) # map (\<lambda>l. ''data: '' @ l) ds @ ls) st =
      sse_lines max_size (map (\<lambda>l. ''data: '' @ l) ds @ ls) (st\<lparr>ss_size := ss_size st + utf8_length d, ss_data := ss_data st @ [d]\<rparr>)"
    by (subst sse_lines_field) (use Cons.prems in \<open>auto simp: sse_field_def Let_def\<close>)
  also have "\<dots> = sse_lines max_size ls (st\<lparr>ss_data := ss_data st @ d # ds, ss_size := ss_size st + sum_list (map utf8_length (d # ds))\<rparr>)"
    by (subst Cons.IH) (use Cons.prems in \<open>auto simp: add.assoc\<close>)
  finally show ?case by simp
qed simp

definition fresh_state :: "string option \<Rightarrow> sse_state" where
  "fresh_state i = \<lparr>ss_data = [], ss_name = ''message'', ss_id = i, ss_retry = None, ss_size = 0\<rparr>"

text \<open>An event without an id inherits the last one.\<close>

definition inherit_id :: "string option \<Rightarrow> sse_event \<Rightarrow> sse_event" where
  "inherit_id i ev = ev\<lparr>se_id := (case se_id ev of None \<Rightarrow> i | Some j \<Rightarrow> Some j)\<rparr>"

lemma join_split: "join [c] (split_on c s) = s"
proof (induction s)
  case (Cons x xs)
  then show ?case by (cases "split_on c xs"; cases "tl (split_on c xs)") (auto split: list.splits)
qed simp

lemma sse_lines_event:
  assumes "event_ok max_size ev"
  shows "sse_lines max_size (event_lines ev @ ls) (fresh_state i) =
    (case sse_lines max_size ls (fresh_state (se_id (inherit_id i ev))) of (evs, e) \<Rightarrow> (inherit_id i ev # evs, e))"
proof -
  let ?ds = "split_on (CHR 0x0A) (se_data ev)"
  define st1 where "st1 = (fresh_state i)\<lparr>ss_name := se_event ev, ss_size := utf8_length (se_event ev)\<rparr>"
  define st2 where "st2 = (case se_id ev of None \<Rightarrow> st1 | Some j \<Rightarrow> st1\<lparr>ss_size := ss_size st1 + utf8_length j, ss_id := Some j\<rparr>)"
  define st3 where "st3 = (case se_retry ev of None \<Rightarrow> st2
    | Some n \<Rightarrow> st2\<lparr>ss_size := ss_size st2 + utf8_length (str_nat n), ss_retry := Some n\<rparr>)"
  note ok = assms [unfolded event_ok_def event_size_def]
  have 1: "sse_lines max_size ((''event: '' @ se_event ev) # ls') (fresh_state i) = sse_lines max_size ls' st1" for ls'
    using sse_lines_field [of "se_event ev" "''event''" max_size ls' "fresh_state i"] ok
    by (simp add: sse_field_def st1_def fresh_state_def Let_def)
  have 2: "sse_lines max_size ((case se_id ev of None \<Rightarrow> [] | Some j \<Rightarrow> [''id: '' @ j]) @ ls') st1 = sse_lines max_size ls' st2" for ls'
  proof (cases "se_id ev")
    case (Some j)
    then show ?thesis using sse_lines_field [of j "''id''" max_size ls' st1] ok
      by (simp add: sse_field_def st2_def st1_def Let_def)
  qed (simp add: st2_def)
  have size2: "ss_size st2 = utf8_length (se_event ev) + (case se_id ev of None \<Rightarrow> 0 | Some j \<Rightarrow> utf8_length j)"
    by (simp add: st2_def st1_def split: option.split)
  have 3: "sse_lines max_size ((case se_retry ev of None \<Rightarrow> [] | Some n \<Rightarrow> [''retry: '' @ str_nat n]) @ ls') st2 =
      sse_lines max_size ls' st3" for ls'
  proof (cases "se_retry ev")
    case (Some n)
    then show ?thesis using sse_lines_field [OF line_safe_str_nat, of "''retry''" max_size n ls' st2] ok size2
      by (simp add: sse_field_def st3_def isdigit_str_nat Let_def)
  qed (simp add: st3_def)
  have size3: "ss_size st3 + sum_list (map utf8_length ?ds) \<le> max_size"
    using ok size2 by (simp add: st3_def split: option.splits)
  have st3: "ss_data st3 = []" "ss_name st3 = se_event ev" "ss_id st3 = se_id (inherit_id i ev)" "ss_retry st3 = se_retry ev"
    by (simp_all add: st3_def st2_def st1_def fresh_state_def inherit_id_def split: option.splits)
  have "sse_lines max_size (event_lines ev @ ls) (fresh_state i) =
      sse_lines max_size (map (\<lambda>l. ''data: '' @ l) ?ds @ [] # ls) st3"
    using 1 2 3 by (simp add: event_lines_def)
  also have "\<dots> = sse_lines max_size ([] # ls) (st3\<lparr>ss_data := ss_data st3 @ ?ds, ss_size := ss_size st3 + sum_list (map utf8_length ?ds)\<rparr>)"
    by (rule sse_data_lines) (use ok size3 in simp_all)
  finally have "sse_lines max_size (event_lines ev @ ls) (fresh_state i) =
      sse_lines max_size ([] # ls) (st3\<lparr>ss_data := ss_data st3 @ ?ds, ss_size := ss_size st3 + sum_list (map utf8_length ?ds)\<rparr>)" .
  moreover have "st3\<lparr>ss_data := [], ss_name := ''message'', ss_retry := None, ss_size := 0\<rparr> = fresh_state (se_id (inherit_id i ev))"
    by (rule sse_state.equality) (simp_all add: fresh_state_def st3)
  ultimately show ?thesis
    by (simp add: blank_line sse_dispatch_def st3 join_split) (simp add: inherit_id_def split: prod.split)
qed

section \<open>Properties\<close>

fun inherit_ids :: "string option \<Rightarrow> sse_event list \<Rightarrow> sse_event list" where
  "inherit_ids i [] = []"
| "inherit_ids i (ev # evs) = inherit_id i ev # inherit_ids (se_id (inherit_id i ev)) evs"

text \<open>C37.  Events a server writes come out as they were, in order, their text lines joined again and an id standing until the next, as long
  as each fits the size bound.\<close>

theorem sse_roundtrip:
  assumes "\<forall>ev \<in> set evs. event_ok max_size ev"
  shows "aiter_sse max_size (concat (map event_lines evs)) = (inherit_ids None evs, None)"
proof -
  have "sse_lines max_size (concat (map event_lines evs)) (fresh_state i) = (inherit_ids i evs, None)" for i
    using assms
  proof (induction evs arbitrary: i)
    case Nil
    then show ?case by (simp add: sse_dispatch_def fresh_state_def)
  next
    case (Cons ev evs)
    then show ?case using sse_lines_event [of max_size ev "concat (map event_lines evs)" i] by simp
  qed
  from this [of None] show ?thesis by (simp add: aiter_sse_def fresh_state_def sse_init_def)
qed

definition sample_sse :: sse_event where
  "sample_sse = \<lparr>se_data = ''a'' @ [CHR 0x0A] @ ''b'', se_event = ''tick'', se_id = Some ''7'', se_retry = Some 30\<rparr>"

theorem sse_roundtrip_witness:
  "aiter_sse 100 (event_lines sample_sse @ event_lines (sample_sse\<lparr>se_id := None, se_retry := None\<rparr>)) =
     ([sample_sse, sample_sse\<lparr>se_retry := None\<rparr>], None)"
proof -
  have num: "str_nat 30 = ''30''" by code_simp
  have "\<forall>ev \<in> set [sample_sse, sample_sse\<lparr>se_id := None, se_retry := None\<rparr>]. event_ok 100 ev"
    by (simp add: sample_sse_def event_ok_def event_size_def line_safe_def utf8_length_def num)
  from sse_roundtrip [OF this] show ?thesis by (simp add: inherit_id_def sample_sse_def)
qed

text \<open>A value that \<open>str.isdigit\<close> takes for a number and \<open>int\<close> does not, a superscript digit, ends the stream with an exception.\<close>

theorem superscript_retry_raises:
  "10 \<le> max_size \<Longrightarrow> aiter_sse max_size (''data: x'' # (''retry: '' @ [CHR 0xB2]) # ls) = ([], Some BadRetry)"
  by (simp add: aiter_sse_def sse_init_def sse_line_def rstrip_cr_def partition_colon_def sse_field_def utf8_length_def isdigit_def
      is_unicode_digit_def parse_nat_def is_digit_def Let_def)

end
