(* ===== verification/EnvConfig.thy ===== *)
theory EnvConfig
  imports ClientHints "HOL-Library.Sublist"
begin

text \<open>
  Settings from dotenv files and the environment (\<open>utils/envConfig.py\<close>).  Settings are JSON values; reading JSON text and
  writing it are arguments.  What pydantic makes of the merged values is not modelled.
\<close>

section \<open>Reading\<close>

type_synonym settings = "(string, json) pydict"

definition parse_env_value :: "(string \<Rightarrow> json option) \<Rightarrow> string \<Rightarrow> json" where
  "parse_env_value loads text =
     (let stripped = strip text
      in if stripped = [] then JStr []
         else if starts_with ''{'' stripped \<or> starts_with ''['' stripped then
           (case loads stripped of None \<Rightarrow> JStr stripped | Some v \<Rightarrow> v)
         else if stripped = ''null'' then JNull
         else JStr stripped)"

fun deep_merge :: "settings \<Rightarrow> settings \<Rightarrow> settings" where
  "deep_merge base [] = base"
| "deep_merge base ((k, v) # overlay) =
     deep_merge
       (dict_set base k
         (case v of
            JObj sub \<Rightarrow> (case map_of base k of Some (JObj current) \<Rightarrow> JObj (deep_merge current sub) | _ \<Rightarrow> v)
          | _ \<Rightarrow> v))
       overlay"

fun set_nested :: "settings \<Rightarrow> string list \<Rightarrow> json \<Rightarrow> settings" where
  "set_nested target [] v = target"
| "set_nested target [k] v = dict_set target k v"
| "set_nested target (k # k' # ks) v =
     dict_set target k (JObj (set_nested (case map_of target k of Some (JObj d) \<Rightarrow> d | _ \<Rightarrow> []) (k' # ks) v))"

text \<open>\<open>key.split("__")\<close>.\<close>

fun split_delim :: "string \<Rightarrow> string list" where
  "split_delim [] = [[]]"
| "split_delim [c] = [[c]]"
| "split_delim (c # c' # s) =
     (if c = CHR ''_'' \<and> c' = CHR ''_'' then [] # split_delim s
      else (case split_delim (c' # s) of [] \<Rightarrow> [[c]] | f # fs \<Rightarrow> (c # f) # fs))"

definition is_alpha :: "char \<Rightarrow> bool" where
  "is_alpha c \<longleftrightarrow> (let n = (of_char c :: nat) in 65 \<le> n \<and> n \<le> 90 \<or> 97 \<le> n \<and> n \<le> 122)"

definition env_path :: "string \<Rightarrow> string list" where
  "env_path key = map upper (filter (\<lambda>p. p \<noteq> []) (split_delim key))"

text \<open>The path a variable assigns, if it is accepted at all.\<close>

definition accepted_path :: "string \<Rightarrow> bool \<Rightarrow> string set option \<Rightarrow> string \<Rightarrow> string list option" where
  "accepted_path pfx accept_legacy_names allowed raw_key =
     (let prefixed = starts_with pfx raw_key; key = (if prefixed then drop (length pfx) raw_key else raw_key);
          path = env_path key
      in if \<not> prefixed \<and> \<not> accept_legacy_names then None
         else if key = [] \<or> \<not> is_alpha (hd key) then None
         else if path \<noteq> [] \<and> (case allowed of None \<Rightarrow> True | Some roots \<Rightarrow> hd path \<in> roots) then Some path
         else None)"

definition overlay_step ::
  "(string \<Rightarrow> json option) \<Rightarrow> string \<Rightarrow> bool \<Rightarrow> string set option \<Rightarrow> settings \<Rightarrow> string \<times> string option \<Rightarrow> settings" where
  "overlay_step loads pfx accept_legacy_names allowed overlay kv =
     (case kv of
        (k, None) \<Rightarrow> overlay
      | (k, Some text) \<Rightarrow>
          (case accepted_path pfx accept_legacy_names allowed k of
             None \<Rightarrow> overlay | Some path \<Rightarrow> set_nested overlay path (parse_env_value loads text)))"

definition environment_overlay ::
  "(string \<Rightarrow> json option) \<Rightarrow> string \<Rightarrow> bool \<Rightarrow> string set option \<Rightarrow> (string, string option) pydict \<Rightarrow> settings" where
  "environment_overlay loads pfx accept_legacy_names allowed vals =
     foldl (overlay_step loads pfx accept_legacy_names allowed) [] vals"

definition unprefixed :: "string \<Rightarrow> (string, string option) pydict \<Rightarrow> (string, string option) pydict" where
  "unprefixed pfx vals = filter (\<lambda>kv. \<not> starts_with pfx (fst kv)) vals"

text \<open>The overlays of \<open>load_env_settings\<close>, from the lowest precedence to the highest.\<close>

definition env_overlays ::
  "(string \<Rightarrow> json option) \<Rightarrow> string \<Rightarrow> string set \<Rightarrow> (string, string option) pydict \<Rightarrow> (string, string option) pydict \<Rightarrow> settings list" where
  "env_overlays loads pfx model_fields dotenv process =
     [environment_overlay loads pfx False (Some model_fields) dotenv,
      environment_overlay loads pfx True (Some model_fields) (unprefixed pfx dotenv),
      environment_overlay loads pfx False (Some model_fields) process,
      environment_overlay loads pfx True (Some model_fields) (unprefixed pfx process)]"

definition load_env_settings ::
  "(string \<Rightarrow> json option) \<Rightarrow> string \<Rightarrow> settings \<Rightarrow> string set \<Rightarrow> (string, string option) pydict \<Rightarrow> (string, string option) pydict \<Rightarrow> settings" where
  "load_env_settings loads pfx defaults model_fields dotenv process =
     foldl deep_merge defaults (env_overlays loads pfx model_fields dotenv process)"

section \<open>Writing\<close>

text \<open>Settings to be written: a nested model, or a value.\<close>

datatype setting = Plain json | Nested "(string \<times> setting) list"

definition dotenv_quote :: "string \<Rightarrow> string" where
  "dotenv_quote s =
     [CHR 0x27] @ concat (map (\<lambda>c. if c = CHR 0x5C then [CHR 0x5C, CHR 0x5C] else if c = CHR 0x27 then [CHR 0x5C, CHR 0x27] else [c]) s) @
     [CHR 0x27]"

definition dotenv_value :: "(json \<Rightarrow> string) \<Rightarrow> json \<Rightarrow> string" where
  "dotenv_value dumps v =
     (case v of
        JObj _ \<Rightarrow> dotenv_quote (dumps v)
      | JList _ \<Rightarrow> dotenv_quote (dumps v)
      | JBool b \<Rightarrow> (if b then ''true'' else ''false'')
      | JInt i \<Rightarrow> str_int i
      | JStr s \<Rightarrow> dotenv_quote s
      | JNull \<Rightarrow> dotenv_quote ''None'')"

text \<open>The variables of one field: fields of a nested model follow it after the delimiter; private and missing ones are left out.\<close>

fun append_env_field :: "string \<Rightarrow> setting \<Rightarrow> (string \<times> json) list" where
  "append_env_field key (Plain v) = [(key, v)]"
| "append_env_field key (Nested members) =
     concat (map (\<lambda>(child, s). if starts_with ''_'' child \<or> s = Plain JNull then [] else append_env_field (key @ ''__'' @ child) s) members)"

definition settings_vars :: "(string \<times> setting) list \<Rightarrow> (string \<times> json) list" where
  "settings_vars members = concat (map (\<lambda>(k, s). if starts_with ''_'' k \<or> s = Plain JNull then [] else append_env_field k s) members)"

text \<open>The lines of the file: a nested model is set off by a blank line.\<close>

fun settings_lines :: "(json \<Rightarrow> string) \<Rightarrow> string list \<Rightarrow> (string \<times> setting) list \<Rightarrow> string list" where
  "settings_lines dumps lines [] = lines"
| "settings_lines dumps lines ((k, s) # members) =
     (if starts_with ''_'' k \<or> s = Plain JNull then settings_lines dumps lines members
      else settings_lines dumps
        ((case s of Nested _ \<Rightarrow> if last lines \<noteq> [] then lines @ [[]] else lines | Plain _ \<Rightarrow> lines) @
         map (\<lambda>(key, v). key @ ''='' @ dotenv_value dumps v) (append_env_field k s))
        members)"

definition settings_to_env :: "(json \<Rightarrow> string) \<Rightarrow> (string \<times> setting) list \<Rightarrow> string list" where
  "settings_to_env dumps members =
     settings_lines dumps [''# Generated by scrapy_cffi; nested model fields use a double underscore.''] members"

section \<open>Lookups\<close>

text \<open>The value at a path of keys.\<close>

fun json_at :: "settings \<Rightarrow> string list \<Rightarrow> json option" where
  "json_at d [] = None"
| "json_at d [k] = map_of d k"
| "json_at d (k # k' # ks) = (case map_of d k of Some (JObj d') \<Rightarrow> json_at d' (k' # ks) | _ \<Rightarrow> None)"

fun is_object :: "json \<Rightarrow> bool" where
  "is_object (JObj d) = True"
| "is_object v = False"

lemma json_at_Nil [simp]: "json_at [] p = None"
  by (cases p; cases "tl p") auto

text \<open>An overlay says nothing about a path: neither about it, nor about a path it begins with.\<close>

fun untouched :: "settings \<Rightarrow> string list \<Rightarrow> bool" where
  "untouched d [] = False"
| "untouched d (k # ks) = (case map_of d k of None \<Rightarrow> True | Some (JObj d') \<Rightarrow> untouched d' ks | Some v \<Rightarrow> False)"

text \<open>Keys are distinct at every level, as in Python's dictionaries.\<close>

fun json_wf :: "json \<Rightarrow> bool" where
  "json_wf (JObj d) = (dict_wf d \<and> (\<forall>kv \<in> set d. json_wf (snd kv)))"
| "json_wf v = True"

definition settings_wf :: "settings \<Rightarrow> bool" where
  "settings_wf d \<longleftrightarrow> json_wf (JObj d)"

lemma settings_wf_Nil [simp]: "settings_wf []"
  by (simp add: settings_wf_def)

lemma settings_wf_sub: "settings_wf d \<Longrightarrow> map_of d k = Some (JObj d') \<Longrightarrow> settings_wf d'"
  by (fastforce simp: settings_wf_def dest: map_of_SomeD)

lemma settings_wf_set: "settings_wf d \<Longrightarrow> json_wf v \<Longrightarrow> settings_wf (dict_set d k v)"
  using dict_wf_dict_set [of d k v] by (auto simp: settings_wf_def dest!: in_set_dict_setD simp del: dict_wf_dict_set)

text \<open>What a merge leaves under one key.\<close>

definition merged :: "json option \<Rightarrow> json \<Rightarrow> json" where
  "merged current v =
     (case v of JObj sub \<Rightarrow> (case current of Some (JObj d) \<Rightarrow> JObj (deep_merge d sub) | _ \<Rightarrow> v) | _ \<Rightarrow> v)"

lemma map_of_deep_merge:
  "dict_wf overlay \<Longrightarrow> map_of (deep_merge base overlay) k =
     (case map_of overlay k of None \<Rightarrow> map_of base k | Some v \<Rightarrow> Some (merged (map_of base k) v))"
proof (induction overlay arbitrary: base)
  case (Cons kv overlay)
  obtain k' v where kv: "kv = (k', v)" by (cases kv)
  have wf: "dict_wf overlay" "map_of overlay k' = None" using Cons.prems kv by (auto simp: map_of_eq_None_iff)
  have "deep_merge base (kv # overlay) = deep_merge (dict_set base k' (merged (map_of base k') v)) overlay"
    by (simp add: kv merged_def)
  then show ?case using Cons.IH [OF wf(1)] wf(2) by (auto simp: kv split: option.split)
qed simp

lemma untouched_at: "untouched d p \<Longrightarrow> json_at d p = None"
  by (induction d p rule: json_at.induct) (auto split: option.splits json.splits)

lemma merge_leaf:
  "settings_wf overlay \<Longrightarrow> json_at overlay p = Some v \<Longrightarrow> \<not> is_object v \<Longrightarrow> json_at (deep_merge base overlay) p = Some v"
proof (induction overlay p arbitrary: base rule: json_at.induct)
  case (2 d k)
  then show ?case by (cases v) (auto simp: map_of_deep_merge settings_wf_def merged_def)
next
  case (3 d k k' ks)
  obtain d' where d': "map_of d k = Some (JObj d')" "json_at d' (k' # ks) = Some v"
    using 3(3) by (auto split: option.splits json.splits)
  have wf: "dict_wf d" using 3(2) by (simp add: settings_wf_def)
  show ?case
  proof (cases "\<exists>c. map_of base k = Some (JObj c)")
    case True
    then obtain c where c: "map_of base k = Some (JObj c)" by blast
    then have "map_of (deep_merge base d) k = Some (JObj (deep_merge c d'))" by (simp add: map_of_deep_merge [OF wf] d'(1) merged_def)
    then show ?thesis using 3(1) [OF d'(1) refl settings_wf_sub [OF 3(2) d'(1)] d'(2) 3(4)] by simp
  next
    case False
    then have "map_of (deep_merge base d) k = Some (JObj d')"
      by (auto simp: map_of_deep_merge [OF wf] d'(1) merged_def split: option.splits json.splits)
    then show ?thesis using d'(2) by simp
  qed
qed simp

lemma merge_untouched:
  "settings_wf overlay \<Longrightarrow> untouched overlay p \<Longrightarrow> json_at (deep_merge base overlay) p = json_at base p"
proof (induction overlay p arbitrary: base rule: json_at.induct)
  case (2 d k)
  then show ?case by (auto simp: map_of_deep_merge settings_wf_def split: option.splits json.splits)
next
  case (3 d k k' ks)
  have wf: "dict_wf d" using 3(2) by (simp add: settings_wf_def)
  show ?case
  proof (cases "map_of d k")
    case None
    then show ?thesis by (simp add: map_of_deep_merge [OF wf])
  next
    case (Some v)
    then obtain d' where d': "v = JObj d'" "untouched d' (k' # ks)" using 3(3) by (cases v) auto
    show ?thesis
    proof (cases "\<exists>c. map_of base k = Some (JObj c)")
      case True
      then obtain c where c: "map_of base k = Some (JObj c)" by blast
      then have "map_of (deep_merge base d) k = Some (JObj (deep_merge c d'))" by (simp add: map_of_deep_merge [OF wf] Some d'(1) merged_def)
      then show ?thesis using c 3(1) [OF Some [unfolded d'(1)] refl settings_wf_sub [OF 3(2) Some [unfolded d'(1)]] d'(2)] by simp
    next
      case False
      then have "map_of (deep_merge base d) k = Some (JObj d')" "json_at base (k # k' # ks) = None"
        by (auto simp: map_of_deep_merge [OF wf] Some d'(1) merged_def split: option.splits json.splits)
      then show ?thesis using untouched_at [OF d'(2)] by simp
    qed
  qed
qed simp

section \<open>Assignments\<close>

abbreviation apart :: "string list \<Rightarrow> string list \<Rightarrow> bool" where
  "apart p q \<equiv> \<not> prefix p q \<and> \<not> prefix q p"

lemma settings_wf_nested: "settings_wf t \<Longrightarrow> json_wf v \<Longrightarrow> settings_wf (set_nested t p v)"
proof (induction t p v rule: set_nested.induct)
  case (3 t k k' ks v)
  define d where "d = (case map_of t k of Some (JObj d) \<Rightarrow> d | _ \<Rightarrow> [])"
  have "settings_wf d" using settings_wf_sub [OF 3(2)] by (auto simp: d_def split: option.splits json.splits)
  then have "settings_wf (set_nested d (k' # ks) v)" using 3 by (simp add: d_def)
  then have "json_wf (JObj (set_nested d (k' # ks) v))" by (simp only: settings_wf_def)
  then show ?case unfolding set_nested.simps d_def [symmetric] by (rule settings_wf_set [OF 3(2)])
qed (auto intro: settings_wf_set)

lemma set_nested_same: "p \<noteq> [] \<Longrightarrow> json_at (set_nested t p v) p = Some v"
  by (induction t p v rule: set_nested.induct) simp_all

lemma set_nested_apart: "apart p q \<Longrightarrow> json_at (set_nested t p v) q = json_at t q"
proof (induction t p v arbitrary: q rule: set_nested.induct)
  case (2 t k v)
  then show ?case by (cases q; cases "tl q") (auto split: option.split)
next
  case (3 t k k' ks v)
  let ?d = "case map_of t k of Some (JObj d) \<Rightarrow> d | _ \<Rightarrow> []"
  show ?case
  proof (cases q)
    case (Cons x xs)
    then obtain y ys where xs: "x = k \<Longrightarrow> xs = y # ys" using 3(2) by (cases xs) auto
    show ?thesis
    proof (cases "x = k")
      case True
      then have "json_at (set_nested ?d (k' # ks) v) xs = json_at ?d xs" using 3(1) [of xs] 3(2) Cons by simp
      then show ?thesis using Cons True xs by (auto split: option.splits json.splits)
    next
      case False
      then show ?thesis using Cons by (cases xs) (simp_all split: option.split)
    qed
  qed (use 3(2) in simp)
qed simp

definition loads_ok :: "(string \<Rightarrow> json option) \<Rightarrow> bool" where
  "loads_ok loads \<longleftrightarrow> (\<forall>t v. loads t = Some v \<longrightarrow> json_wf v)"

lemma parse_env_wf: "loads_ok loads \<Longrightarrow> json_wf (parse_env_value loads t)"
  by (auto simp: parse_env_value_def loads_ok_def Let_def split: option.split)

lemma overlay_step_wf: "loads_ok loads \<Longrightarrow> settings_wf t \<Longrightarrow> settings_wf (overlay_step loads pfx accept allowed t kv)"
  by (auto simp: overlay_step_def settings_wf_nested parse_env_wf split: prod.split option.split)

lemma foldl_overlay_wf: "loads_ok loads \<Longrightarrow> settings_wf t \<Longrightarrow> settings_wf (foldl (overlay_step loads pfx accept allowed) t vals)"
  by (induction vals arbitrary: t) (auto intro: overlay_step_wf)

lemma environment_overlay_wf: "loads_ok loads \<Longrightarrow> settings_wf (environment_overlay loads pfx accept allowed vals)"
  by (simp add: environment_overlay_def foldl_overlay_wf)

text \<open>The variables of a source that could disturb a path.\<close>

definition disturbs :: "string \<Rightarrow> bool \<Rightarrow> string set option \<Rightarrow> string list \<Rightarrow> string \<times> string option \<Rightarrow> bool" where
  "disturbs pfx accept allowed p kv \<longleftrightarrow>
     snd kv \<noteq> None \<and> (\<exists>q. accepted_path pfx accept allowed (fst kv) = Some q \<and> \<not> apart q p)"

lemma foldl_overlay_undisturbed:
  "\<forall>kv \<in> set vals. \<not> disturbs pfx accept allowed p kv \<Longrightarrow>
   json_at (foldl (overlay_step loads pfx accept allowed) t vals) p = json_at t p"
proof (induction vals arbitrary: t)
  case (Cons kv vals)
  have "json_at (overlay_step loads pfx accept allowed t kv) p = json_at t p"
    using Cons.prems set_nested_apart [of _ p t]
    by (auto simp: overlay_step_def disturbs_def split: prod.split option.split)
  then show ?case using Cons by simp
qed simp

lemma overlay_last:
  assumes "accepted_path pfx accept allowed k = Some p" and "\<forall>kv \<in> set post. \<not> disturbs pfx accept allowed p kv"
  shows "json_at (environment_overlay loads pfx accept allowed (pre @ (k, Some text) # post)) p = Some (parse_env_value loads text)"
proof -
  have "p \<noteq> []" using assms(1) by (auto simp: accepted_path_def Let_def split: if_splits)
  then show ?thesis
    using foldl_overlay_undisturbed [OF assms(2)] assms(1)
    by (simp add: environment_overlay_def overlay_step_def set_nested_same)
qed

section \<open>Properties\<close>

definition assigns :: "settings \<Rightarrow> string list \<Rightarrow> json \<Rightarrow> bool" where
  "assigns overlay p v \<longleftrightarrow> json_at overlay p = Some v \<and> \<not> is_object v"

definition no_json :: "string \<Rightarrow> json option" where
  "no_json t = (if t = ''{}'' then Some (JObj []) else None)"

lemma no_json_ok: "loads_ok no_json"
  by (auto simp: loads_ok_def no_json_def split: if_splits)



text \<open>A variable of the environment decides the setting it names: when no later variable names a part of it or something inside it,
  its parsed text is what the settings hold, whatever the dotenv file, the prefixed variables and the defaults say.\<close>

theorem direct_variable_decides:
  assumes "loads_ok loads" and "unprefixed pfx process = pre @ (k, Some text) # post"
    and "accepted_path pfx True (Some model_fields) k = Some p"
    and "\<forall>kv \<in> set post. \<not> disturbs pfx True (Some model_fields) p kv"
    and "\<not> is_object (parse_env_value loads text)"
  shows "json_at (load_env_settings loads pfx defaults model_fields dotenv process) p = Some (parse_env_value loads text)"
  using merge_leaf [OF environment_overlay_wf [OF assms(1)] overlay_last [OF assms(3,4)] assms(5)]
  by (simp add: load_env_settings_def env_overlays_def assms(2))

theorem direct_variable_decides_witness:
  "json_at (load_env_settings no_json ''P_'' [(''A'', JObj [(''B'', JInt 1)])] {''A''} [(''A__B'', Some ''2'')]
     [(''P_A__B'', Some ''3''), (''a__b'', Some '' 4 '')]) [''A'', ''B''] = Some (JStr ''4'')"
proof -
  have a: "unprefixed ''P_'' [(''P_A__B'', Some ''3''), (''a__b'', Some '' 4 '')] = [] @ (''a__b'', Some '' 4 '') # []"
    by (simp add: unprefixed_def)
  have b: "accepted_path ''P_'' True (Some {''A''}) ''a__b'' = Some [''A'', ''B'']"
    by code_simp
  have c: "parse_env_value no_json '' 4 '' = JStr ''4''" by code_simp
  from direct_variable_decides [OF no_json_ok a b, of "[(''A'', JObj [(''B'', JInt 1)])]" "[(''A__B'', Some ''2'')]"]
  show ?thesis by (simp add: c)
qed

text \<open>Within one source the order of the variables counts: a whole object named after one of its fields erases the field.\<close>

theorem whole_object_erases_field:
  "json_at (environment_overlay no_json ''P_'' True None [(''A__B'', Some ''2''), (''A'', Some ''{}'')]) [''A'', ''B''] = None \<and>
   json_at (environment_overlay no_json ''P_'' True None [(''A'', Some ''{}''), (''A__B'', Some ''2'')]) [''A'', ''B''] = Some (JStr ''2'')"
  by code_simp

section \<open>Writing and reading back\<close>

text \<open>The settings a tree holds, by their path.\<close>

fun leaves :: "setting \<Rightarrow> (string list \<times> json) list" where
  "leaves (Plain v) = [([], v)]"
| "leaves (Nested members) =
     concat (map (\<lambda>(n, s). if starts_with ''_'' n \<or> s = Plain JNull then [] else map (\<lambda>(p, v). (n # p, v)) (leaves s)) members)"

text \<open>Names that survive the delimiter: upper case, beginning with a letter, with no underscore at the end and no two in a row.\<close>

definition env_name :: "string \<Rightarrow> bool" where
  "env_name n \<longleftrightarrow> n \<noteq> [] \<and> is_alpha (hd n) \<and> upper n = n \<and> split_delim n = [n] \<and> last n \<noteq> CHR ''_''"

fun tree_ok :: "setting \<Rightarrow> bool" where
  "tree_ok (Plain v) = True"
| "tree_ok (Nested members) = (distinct (map fst members) \<and> (\<forall>ns \<in> set members. env_name (fst ns) \<and> tree_ok (snd ns)))"

lemma split_delim_nonempty [simp]: "split_delim s \<noteq> []"
  by (induction s rule: split_delim.induct) (auto split: list.splits)

lemma split_delim_name:
  "split_delim n = [n] \<Longrightarrow> n \<noteq> [] \<Longrightarrow> last n \<noteq> CHR ''_'' \<Longrightarrow> split_delim (n @ ''__'' @ s) = n # split_delim s"
proof (induction n rule: split_delim.induct)
  case (3 c c' n)
  have "\<not> (c = CHR ''_'' \<and> c' = CHR ''_'')" using 3(3) by (auto split: list.splits)
  moreover then have "split_delim (c' # n) = [c' # n]" using 3(3) by (auto split: list.splits)
  ultimately show ?case using 3(2) 3(5) by simp
qed simp_all

lemma env_path_join: "\<forall>n \<in> set p. env_name n \<Longrightarrow> p \<noteq> [] \<Longrightarrow> split_delim (join ''__'' p) = p \<and> env_path (join ''__'' p) = p"
proof (induction "''__''" p rule: join.induct)
  case (3 n m p)
  then have "split_delim (join ''__'' (n # m # p)) = n # m # p"
    using split_delim_name [of n "join ''__'' (m # p)"] by (simp add: env_name_def)
  then show ?case using 3(2) by (auto simp: env_path_def env_name_def intro: map_idI)
qed (auto simp: env_path_def env_name_def)

lemma join_head: "join sep ((a @ sep @ b) # p) = join sep (a # b # p)"
  by (cases p) simp_all

lemma append_env_field_leaves: "append_env_field key s = map (\<lambda>pv. (join ''__'' (key # fst pv), snd pv)) (leaves s)"
proof (induction key s rule: append_env_field.induct)
  case (2 key members)
  have "(if starts_with ''_'' n \<or> s = Plain JNull then [] else append_env_field (key @ ''__'' @ n) s) =
      map (\<lambda>pv. (join ''__'' (key # fst pv), snd pv))
        (if starts_with ''_'' n \<or> s = Plain JNull then [] else map (\<lambda>(p, v). (n # p, v)) (leaves s))" if "(n, s) \<in> set members" for n s
    using 2 [OF that refl] join_head [of "''__''" key n] by (auto simp: case_prod_beta)
  then show ?case by (auto simp: map_concat comp_def intro!: arg_cong [where f = concat] map_cong)
qed simp

lemma settings_vars_leaves: "settings_vars members = map (\<lambda>pv. (join ''__'' (fst pv), snd pv)) (leaves (Nested members))"
proof -
  have "(if starts_with ''_'' n \<or> s = Plain JNull then [] else append_env_field n s) =
      map (\<lambda>pv. (join ''__'' (fst pv), snd pv))
        (if starts_with ''_'' n \<or> s = Plain JNull then [] else map (\<lambda>(p, v). (n # p, v)) (leaves s))" for n s
    by (auto simp: append_env_field_leaves case_prod_beta)
  then show ?thesis by (auto simp: settings_vars_def map_concat comp_def intro!: arg_cong [where f = concat] map_cong)
qed

lemma leaves_names: "tree_ok s \<Longrightarrow> pv \<in> set (leaves s) \<Longrightarrow> \<forall>n \<in> set (fst pv). env_name n"
proof (induction s arbitrary: pv rule: leaves.induct)
  case (2 members)
  obtain n s p v where m: "(n, s) \<in> set members" "\<not> (starts_with ''_'' n \<or> s = Plain JNull)" "pv = (n # p, v)" "(p, v) \<in> set (leaves s)"
    using 2(3) by (auto split: if_splits)
  have "env_name n" "tree_ok s" using 2(2) m(1) by fastforce+
  then show ?case using 2(1) [OF m(1) refl m(2) _ m(4)] m(3) by simp
qed simp

lemma leaves_apart: "tree_ok s \<Longrightarrow> sorted_wrt (\<lambda>x y. apart (fst x) (fst y)) (leaves s)"
proof (induction s rule: leaves.induct)
  case (2 members)
  have "sorted_wrt (\<lambda>x y. apart (fst x) (fst y))
      (concat (map (\<lambda>(n, s). if starts_with ''_'' n \<or> s = Plain JNull then [] else map (\<lambda>(p, v). (n # p, v)) (leaves s)) ms))"
    if "set ms \<subseteq> set members" "distinct (map fst ms)" for ms
    using that
  proof (induction ms)
    case (Cons ns ms)
    obtain n s where ns: "ns = (n, s)" by (cases ns)
    have heads: "\<And>x s'. (x, s') \<in> set ms \<Longrightarrow> x \<noteq> n" using Cons.prems(2) ns by force
    have block: "sorted_wrt (\<lambda>x y. apart (fst x) (fst y)) (map (\<lambda>(p, v). (n # p, v)) (leaves s))" if "\<not> (starts_with ''_'' n \<or> s = Plain JNull)"
    proof -
      have "tree_ok s" using 2(2) Cons.prems(1) ns by force
      then have "sorted_wrt (\<lambda>x y. apart (fst x) (fst y)) (leaves s)" using 2(1) [of "(n, s)" n s] Cons.prems(1) ns that by simp
      then show ?thesis by (simp add: sorted_wrt_map case_prod_beta)
    qed
    have cross: "apart (fst x) (fst y)" if x_in: "x \<in> set (map (\<lambda>(p, v). (n # p, v)) (leaves s))"
      and y_in: "y \<in> set (concat (map (\<lambda>(n, s). if starts_with ''_'' n \<or> s = Plain JNull then [] else map (\<lambda>(p, v). (n # p, v)) (leaves s)) ms))" for x y
    proof -
      have x: "\<exists>p. fst x = n # p" using x_in by auto
      obtain n' s' q where y: "(n', s') \<in> set ms" "fst y = n' # q" using y_in by (auto split: if_splits)
      from heads [OF y(1)] x y(2) show ?thesis by auto
    qed
    have rest: "sorted_wrt (\<lambda>x y. apart (fst x) (fst y))
      (concat (map (\<lambda>(n, s). if starts_with ''_'' n \<or> s = Plain JNull then [] else map (\<lambda>(p, v). (n # p, v)) (leaves s)) ms))"
      using Cons by simp
    show ?case
    proof (cases "starts_with ''_'' n \<or> s = Plain JNull")
      case True
      then show ?thesis using rest by (simp add: ns)
    next
      case False
      then show ?thesis using rest block [OF False] cross by (simp add: ns sorted_wrt_append)
    qed
  qed simp
  then show ?case using 2(2) by simp
qed simp

text \<open>The text a dotenv parser hands back for a written value: what stands between the quotes, unescaped.\<close>

definition text_of :: "(json \<Rightarrow> string) \<Rightarrow> json \<Rightarrow> string" where
  "text_of dumps v =
     (case v of JObj _ \<Rightarrow> dumps v | JList _ \<Rightarrow> dumps v | JBool b \<Rightarrow> (if b then ''true'' else ''false'')
      | JInt i \<Rightarrow> str_int i | JStr s \<Rightarrow> s | JNull \<Rightarrow> ''None'')"

definition written_vars :: "(json \<Rightarrow> string) \<Rightarrow> (string \<times> setting) list \<Rightarrow> (string, string option) pydict" where
  "written_vars dumps members = map (\<lambda>kv. (fst kv, Some (text_of dumps (snd kv)))) (settings_vars members)"

definition members_ok :: "string \<Rightarrow> string set \<Rightarrow> (string \<times> setting) list \<Rightarrow> bool" where
  "members_ok pfx roots members \<longleftrightarrow>
     tree_ok (Nested members) \<and> fst ` set members \<subseteq> roots \<and> (\<forall>kv \<in> set (settings_vars members). \<not> starts_with pfx (fst kv))"

lemma leaf_path: "pv \<in> set (leaves (Nested members)) \<Longrightarrow> fst pv \<noteq> [] \<and> hd (fst pv) \<in> fst ` set members"
  by (force split: if_splits)

lemma join_first: "p \<noteq> [] \<Longrightarrow> hd p \<noteq> [] \<Longrightarrow> join sep p \<noteq> [] \<and> hd (join sep p) = hd (hd p)"
  by (induction sep p rule: join.induct) auto

lemma settings_var_leaf: "pv \<in> set (leaves (Nested members)) \<Longrightarrow> (join ''__'' (fst pv), snd pv) \<in> set (settings_vars members)"
  unfolding settings_vars_leaves by (simp only: set_map) (rule image_eqI [where x = pv], rule refl)

lemma written_path:
  assumes "members_ok pfx roots members" and "pv \<in> set (leaves (Nested members))"
  shows "accepted_path pfx True (Some roots) (join ''__'' (fst pv)) = Some (fst pv)"
proof -
  note ok = assms(1) [unfolded members_ok_def]
  have p: "fst pv \<noteq> []" "hd (fst pv) \<in> roots" using leaf_path [OF assms(2)] ok by blast+
  have names: "\<forall>n \<in> set (fst pv). env_name n" using leaves_names [OF _ assms(2)] ok by blast
  then have head: "hd (fst pv) \<noteq> []" "is_alpha (hd (hd (fst pv)))" using hd_in_set [OF p(1)] by (auto simp: env_name_def)
  have "\<not> starts_with pfx (join ''__'' (fst pv))"
    using settings_var_leaf [OF assms(2)] ok by (metis fst_conv)
  moreover have "env_path (join ''__'' (fst pv)) = fst pv" using env_path_join [OF names p(1)] by blast
  moreover have "join ''__'' (fst pv) \<noteq> []" "is_alpha (hd (join ''__'' (fst pv)))"
    using join_first [OF p(1) head(1)] head(2) by simp_all
  ultimately show ?thesis using p by (simp add: accepted_path_def Let_def)
qed

text \<open>Writing settings and reading the file back gives every leaf of the settings its text, parsed, at its own path: the flattened names are
  split back into the same path and no variable disturbs another, for names in upper case that begin with a letter and hold no
  delimiter.\<close>

theorem settings_roundtrip:
  assumes "members_ok pfx roots members" and "(p, v) \<in> set (leaves (Nested members))"
  shows "json_at (environment_overlay loads pfx True (Some roots) (written_vars dumps members)) p =
    Some (parse_env_value loads (text_of dumps v))"
proof -
  obtain a b where ab: "leaves (Nested members) = a @ (p, v) # b" using split_list [OF assms(2)] by blast
  let ?w = "map (\<lambda>pv. (join ''__'' (fst pv), Some (text_of dumps (snd pv))))"
  have w: "written_vars dumps members = ?w a @ (join ''__'' p, Some (text_of dumps v)) # ?w b"
    by (simp only: written_vars_def settings_vars_leaves ab map_append list.map map_map comp_def fst_conv snd_conv)
  have "sorted_wrt (\<lambda>x y. apart (fst x) (fst y)) (leaves (Nested members))"
    using assms(1) leaves_apart members_ok_def by blast
  then have later: "apart p (fst pv)" if "pv \<in> set b" for pv using that by (auto simp only: ab sorted_wrt_append sorted_wrt.simps fst_conv)
  have "\<not> disturbs pfx True (Some roots) p kv" if kv_in: "kv \<in> set (?w b)" for kv
  proof -
    obtain pv where pv: "pv \<in> set b" "kv = (join ''__'' (fst pv), Some (text_of dumps (snd pv)))" using kv_in by auto
    have "pv \<in> set (leaves (Nested members))" using pv(1) by (simp del: leaves.simps add: ab)
    then show ?thesis using written_path [OF assms(1)] later [OF pv(1)] by (auto simp: disturbs_def pv(2))
  qed
  then show ?thesis unfolding w using overlay_last written_path [OF assms] by simp
qed

theorem settings_roundtrip_witness:
  "json_at (environment_overlay no_json ''P_'' True (Some {''A'', ''C''})
      (written_vars (\<lambda>v. ''{}'') [(''A'', Nested [(''B'', Plain (JInt 1)), (''D'', Plain (JStr '' x ''))]), (''C'', Plain (JObj []))])) [''A'', ''D''] =
    Some (JStr ''x'')"
proof -
  let ?m = "[(''A'', Nested [(''B'', Plain (JInt 1)), (''D'', Plain (JStr '' x ''))]), (''C'', Plain (JObj []))]"
  have ok: "members_ok ''P_'' {''A'', ''C''} ?m" by code_simp
  have leaf: "([''A'', ''D''], JStr '' x '') \<in> set (leaves (Nested ?m))" by code_simp
  have t: "parse_env_value no_json (text_of (\<lambda>v. ''{}'') (JStr '' x '')) = JStr ''x''" by code_simp
  show ?thesis using settings_roundtrip [OF ok leaf, of no_json "\<lambda>v. ''{}''"] by (simp only: t)
qed

text \<open>Strings are read back as they were written only when they look like neither blank-padded text nor JSON: the string \<open>null\<close> comes back
  as a missing value, and padding is lost.\<close>

theorem null_string_not_preserved:
  "parse_env_value loads (text_of dumps (JStr ''null'')) = JNull \<and> parse_env_value loads (text_of dumps (JStr '' x '')) = JStr ''x''"
proof -
  have "strip ''null'' = ''null''" "strip '' x '' = ''x''" by code_simp+
  then show ?thesis by (simp add: parse_env_value_def text_of_def)
qed

end
