(* ===== verification/CrawlerRun.thy ===== *)
theory CrawlerRun
  imports Resilience MonitorStore
begin

text \<open>
  The life of one crawler run (\<open>crawler.py\<close>: \<open>start_engines\<close>, \<open>_prepare_shutdown\<close>, \<open>_close_runtime_state\<close>,
  \<open>_cleanup_scheduler_state\<close>, \<open>shutdown\<close>) and the handle an outer scheduler holds (\<open>runner.py\<close>).  How each awaited call ends is an
  argument; the calls are recorded in the order they are made.  Building the components is not modelled.
\<close>

section \<open>Calls and state\<close>

datatype terminal_signal = SigCompleted | SigFailed | SigCancelled

datatype crawl_call =
    PutTerminal terminal_signal
  | FreezeSessions | CancelTasks nat | Requeue string | PersistSessions string
  | CleanBroker string | CleanRedis string
  | StopSet
  | CloseProcesses | CloseSessions | StopSignals | CloseExtension nat
  | WakeWaiters
  | CloseResources

record scheduler_caps =
  cap_requeue :: bool
  cap_persist :: bool
  cap_broker :: bool
  cap_redis :: bool

text \<open>Settings and components: the spiders with what their schedulers offer, the number of engines and of extensions to close, and
  whether a process pool was made.\<close>

record crawl_config =
  cc_persist :: bool
  cc_persist_sessions :: bool
  cc_redis :: bool
  cc_spiders :: "(string \<times> scheduler_caps) list"
  cc_engines :: nat
  cc_processes :: bool
  cc_extensions :: nat

text \<open>The spiders cleaned so far are an attribute that does not exist before the first cleanup ends.\<close>

record crawler =
  cr_prepared :: bool
  cr_closed :: bool
  cr_cleaned :: "string set option"
  cr_trace :: "crawl_call list"

definition crawler_init :: crawler where
  "crawler_init = \<lparr>cr_prepared = False, cr_closed = False, cr_cleaned = None, cr_trace = []\<rparr>"

text \<open>How the calls end, and the spiders at whose cleanup the crawler itself is cancelled.\<close>

record 'e crawl_world =
  cw_call :: "crawl_call \<Rightarrow> ('e, unit) outcome"
  cw_interrupt :: "string \<Rightarrow> bool"

text \<open>Awaiting calls one after the other: the first that does not end well ends the sequence.\<close>

fun run_calls :: "(crawl_call \<Rightarrow> ('e, unit) outcome) \<Rightarrow> crawl_call list \<Rightarrow> crawl_call list \<times> ('e, unit) outcome" where
  "run_calls w [] = ([], Done ())"
| "run_calls w (c # cs) =
     (case w c of Done _ \<Rightarrow> (case run_calls w cs of (t, r) \<Rightarrow> (c # t, r)) | failure \<Rightarrow> ([c], failure))"

definition log_calls :: "crawl_call list \<Rightarrow> crawler \<Rightarrow> crawler" where
  "log_calls t s = s\<lparr>cr_trace := cr_trace s @ t\<rparr>"

section \<open>Cleanup of scheduler state\<close>

definition cleanup_ops :: "string \<times> scheduler_caps \<Rightarrow> crawl_call list" where
  "cleanup_ops sp =
     (if cap_broker (snd sp) then [CleanBroker (fst sp)] else []) @ (if cap_redis (snd sp) then [CleanRedis (fst sp)] else [])"

text \<open>A spider's operations run together and their failures are logged; it counts as cleaned when none failed.\<close>

fun clean_spiders ::
  "'e crawl_world \<Rightarrow> (string \<times> scheduler_caps) list \<Rightarrow> string set \<Rightarrow> crawl_call list \<times> string set \<times> ('e, unit) outcome" where
  "clean_spiders w [] cleaned = ([], cleaned, Done ())"
| "clean_spiders w (sp # sps) cleaned =
     (if fst sp \<in> cleaned then clean_spiders w sps cleaned
      else if cleanup_ops sp \<noteq> [] \<and> cw_interrupt w (fst sp) then (cleanup_ops sp, cleaned, Cancelled)
      else
        (case clean_spiders w sps
                (if \<forall>c \<in> set (cleanup_ops sp). cw_call w c = Done () then insert (fst sp) cleaned else cleaned) of
           (t, cleaned', r) \<Rightarrow> (cleanup_ops sp @ t, cleaned', r)))"

definition cleanup_scheduler_state ::
  "'e crawl_world \<Rightarrow> crawl_config \<Rightarrow> crawler \<Rightarrow> crawler \<times> ('e, unit) outcome" where
  "cleanup_scheduler_state w cfg s =
     (if cc_persist cfg then (s, Done ())
      else
        (case clean_spiders w (cc_spiders cfg) (case cr_cleaned s of None \<Rightarrow> {} | Some c \<Rightarrow> c) of
           (t, cleaned, r) \<Rightarrow>
             ((log_calls t s)\<lparr>cr_cleaned := (if r = Done () \<or> cr_cleaned s \<noteq> None then Some cleaned else None)\<rparr>, r)))"

section \<open>Shutdown\<close>

definition requeue_calls :: "crawl_config \<Rightarrow> crawl_call list" where
  "requeue_calls cfg = map (\<lambda>sp. Requeue (fst sp)) (filter (\<lambda>sp. cap_requeue (snd sp)) (cc_spiders cfg))"

definition persist_calls :: "crawl_config \<Rightarrow> crawl_call list" where
  "persist_calls cfg =
     (if \<not> cc_persist cfg \<or> \<not> cc_persist_sessions cfg \<or> \<not> cc_redis cfg then []
      else map (\<lambda>sp. PersistSessions (fst sp)) (filter (\<lambda>sp. cap_persist (snd sp)) (cc_spiders cfg)))"

definition prepare_calls :: "crawl_config \<Rightarrow> crawl_call list" where
  "prepare_calls cfg = FreezeSessions # map CancelTasks [0..<cc_engines cfg] @ requeue_calls cfg @ persist_calls cfg"

definition prepare_shutdown :: "'e crawl_world \<Rightarrow> crawl_config \<Rightarrow> crawler \<Rightarrow> crawler \<times> ('e, unit) outcome" where
  "prepare_shutdown w cfg s =
     (if cr_prepared s then (s, Done ())
      else
        (case run_calls (cw_call w) (prepare_calls cfg) of
           (t, Done _) \<Rightarrow>
             (case cleanup_scheduler_state w cfg (log_calls t s) of
                (s1, Done _) \<Rightarrow> ((log_calls [StopSet] s1)\<lparr>cr_prepared := True\<rparr>, Done ())
              | (s1, failure) \<Rightarrow> (s1, failure))
         | (t, failure) \<Rightarrow> (log_calls t s, failure)))"

text \<open>All extensions are closed together: their failures are logged, a cancellation is raised.\<close>

definition close_extensions :: "'e crawl_world \<Rightarrow> crawl_config \<Rightarrow> crawl_call list \<times> ('e, unit) outcome" where
  "close_extensions w cfg =
     (let calls = map CloseExtension [0..<cc_extensions cfg]
      in (calls, if \<exists>c \<in> set calls. cw_call w c = Cancelled then Cancelled else Done ()))"

definition close_calls :: "crawl_config \<Rightarrow> crawl_call list" where
  "close_calls cfg = (if cc_processes cfg then [CloseProcesses] else []) @ [CloseSessions, StopSignals]"

definition close_runtime_state :: "'e crawl_world \<Rightarrow> crawl_config \<Rightarrow> crawler \<Rightarrow> crawler \<times> ('e, unit) outcome" where
  "close_runtime_state w cfg s =
     (if cr_closed s then (s, Done ())
      else
        (case run_calls (cw_call w) (close_calls cfg) of
           (t, Done _) \<Rightarrow>
             (case close_extensions w cfg of
                (t', Done _) \<Rightarrow> ((log_calls (t @ t') s)\<lparr>cr_closed := True\<rparr>, Done ())
              | (t', failure) \<Rightarrow> (log_calls (t @ t') s, failure))
         | (t, failure) \<Rightarrow> (log_calls t s, failure)))"

text \<open>One call outside the locks.\<close>

definition one_call :: "'e crawl_world \<Rightarrow> crawl_call \<Rightarrow> crawler \<Rightarrow> crawler \<times> ('e, unit) outcome" where
  "one_call w c s = (log_calls [c] s, cw_call w c)"

definition and_then ::
  "crawler \<times> ('e, unit) outcome \<Rightarrow> (crawler \<Rightarrow> crawler \<times> ('e, unit) outcome) \<Rightarrow> crawler \<times> ('e, unit) outcome" where
  "and_then r f = (case r of (s, Done _) \<Rightarrow> f s | (s, failure) \<Rightarrow> (s, failure))"

definition crawler_shutdown :: "'e crawl_world \<Rightarrow> crawl_config \<Rightarrow> crawler \<Rightarrow> crawler \<times> ('e, unit) outcome" where
  "crawler_shutdown w cfg s =
     and_then (and_then (and_then (prepare_shutdown w cfg s)
       (\<lambda>s. close_runtime_state w cfg (log_calls [WakeWaiters] s)))
       (cleanup_scheduler_state w cfg))
       (one_call w CloseResources)"

text \<open>\<open>run_end\<close>: how the robots task and the engines ended.  A failure of the run wins over one of the cleanup.\<close>

definition terminal_of :: "('e, unit) outcome \<Rightarrow> terminal_signal" where
  "terminal_of run_end = (case run_end of Done _ \<Rightarrow> SigCompleted | Raised _ \<Rightarrow> SigFailed | Cancelled \<Rightarrow> SigCancelled)"

definition start_engines ::
  "'e crawl_world \<Rightarrow> ('e, unit) outcome \<Rightarrow> crawl_config \<Rightarrow> crawler \<Rightarrow> crawler \<times> ('e, unit) outcome" where
  "start_engines w run_end cfg s =
     (case and_then (and_then (one_call w (PutTerminal (terminal_of run_end)) s) (prepare_shutdown w cfg)) (close_runtime_state w cfg) of
        (s1, cleanup) \<Rightarrow> (s1, if run_end = Done () then cleanup else run_end))"

section \<open>The run handle\<close>

text \<open>What \<open>wait\<close> reports: the state and the error of a failed run.\<close>

record 'e run_handle =
  rh_outcome :: "(run_state \<times> 'e option) option"
  rh_stop :: bool

definition handle_init :: "'e run_handle" where
  "handle_init = \<lparr>rh_outcome = None, rh_stop = False\<rparr>"

text \<open>\<open>task\<close>: how the retained task ends; \<open>interrupted\<close>: the waiter is cancelled while it waits.\<close>

definition handle_wait ::
  "bool \<Rightarrow> ('e, unit) outcome \<Rightarrow> 'e run_handle \<Rightarrow> 'e run_handle \<times> ('e, run_state \<times> 'e option) outcome" where
  "handle_wait interrupted task h =
     (case rh_outcome h of
        Some r \<Rightarrow> (h, Done r)
      | None \<Rightarrow>
          if interrupted \<and> task \<noteq> Cancelled then (h, Cancelled)
          else
            let r = (case task of
                       Done _ \<Rightarrow> (if rh_stop h then RunWasCancelled else RunCompleted, None)
                     | Cancelled \<Rightarrow> (RunWasCancelled, None)
                     | Raised e \<Rightarrow> (RunFailed, Some e))
            in (h\<lparr>rh_outcome := Some r\<rparr>, Done r))"

definition handle_stop ::
  "'e crawl_world \<Rightarrow> crawl_config \<Rightarrow> crawler \<Rightarrow> ('e, unit) outcome \<Rightarrow> 'e run_handle \<Rightarrow>
   crawler \<times> 'e run_handle \<times> ('e, run_state \<times> 'e option) outcome" where
  "handle_stop w cfg s task h =
     (let h1 = h\<lparr>rh_stop := True\<rparr>
      in case crawler_shutdown w cfg s of
           (s1, Done _) \<Rightarrow> (case handle_wait False task h1 of (h2, r) \<Rightarrow> (s1, h2, r))
         | (s1, Raised e) \<Rightarrow> (s1, h1, Raised e)
         | (s1, Cancelled) \<Rightarrow> (s1, h1, Cancelled))"

section \<open>Interleaved callers\<close>

text \<open>The two locked phases run whole; between its phases any caller of \<open>start_engines\<close> or \<open>shutdown\<close> may be overtaken by another.  A
  phase that fails ends its caller.\<close>

datatype crawl_phase = PutPhase terminal_signal | PreparePhase | WakePhase | ClosePhase | CleanupPhase | ResourcesPhase

definition run_phase :: "'e crawl_world \<Rightarrow> crawl_config \<Rightarrow> crawl_phase \<Rightarrow> crawler \<Rightarrow> crawler \<times> ('e, unit) outcome" where
  "run_phase w cfg ph =
     (case ph of
        PutPhase t \<Rightarrow> one_call w (PutTerminal t)
      | PreparePhase \<Rightarrow> prepare_shutdown w cfg
      | WakePhase \<Rightarrow> (\<lambda>s. (log_calls [WakeWaiters] s, Done ()))
      | ClosePhase \<Rightarrow> close_runtime_state w cfg
      | CleanupPhase \<Rightarrow> cleanup_scheduler_state w cfg
      | ResourcesPhase \<Rightarrow> one_call w CloseResources)"

definition start_phases :: "terminal_signal \<Rightarrow> crawl_phase list" where
  "start_phases t = [PutPhase t, PreparePhase, ClosePhase]"

definition shutdown_phases :: "crawl_phase list" where
  "shutdown_phases = [PreparePhase, WakePhase, ClosePhase, CleanupPhase, ResourcesPhase]"

inductive crawl_reach :: "crawl_config \<Rightarrow> crawler \<Rightarrow> crawl_phase list list \<Rightarrow> bool" for cfg where
  Init: "crawl_reach cfg crawler_init []"
| StartCalled: "crawl_reach cfg s ps \<Longrightarrow> crawl_reach cfg s (start_phases t # ps)"
| ShutdownCalled: "crawl_reach cfg s ps \<Longrightarrow> crawl_reach cfg s (shutdown_phases # ps)"
| Phase: "crawl_reach cfg s (a @ (ph # rest) # b) \<Longrightarrow> run_phase (w :: string crawl_world) cfg ph s = (s', r) \<Longrightarrow>
    crawl_reach cfg s' (a @ (if r = Done () then rest else []) # b)"

text \<open>The phases in a row are the methods.\<close>

fun run_phases :: "'e crawl_world \<Rightarrow> crawl_config \<Rightarrow> crawl_phase list \<Rightarrow> crawler \<Rightarrow> crawler \<times> ('e, unit) outcome" where
  "run_phases w cfg [] s = (s, Done ())"
| "run_phases w cfg (ph # ps) s = and_then (run_phase w cfg ph s) (run_phases w cfg ps)"

lemma and_then_simps [simp]:
  "and_then (s, Done u) f = f s" "and_then (s, Raised e) f = (s, Raised e)" "and_then (s, Cancelled) f = (s, Cancelled)"
  by (simp_all add: and_then_def)

lemma and_then_Done [simp]: "and_then r (\<lambda>s. (s, Done ())) = r"
  by (cases r; cases "snd r") (auto simp: and_then_def)

lemma and_then_assoc: "and_then (and_then r f) g = and_then r (\<lambda>s. and_then (f s) g)"
  by (cases r; cases "snd r") (auto simp: and_then_def)

lemma run_phases_fun:
  "run_phases w cfg [] = (\<lambda>s. (s, Done ()))"
  "run_phases w cfg (ph # ps) = (\<lambda>s. and_then (run_phase w cfg ph s) (run_phases w cfg ps))"
  by (simp_all add: fun_eq_iff)

lemma shutdown_is_phases: "crawler_shutdown w cfg s = run_phases w cfg shutdown_phases s"
  by (simp add: crawler_shutdown_def shutdown_phases_def run_phase_def and_then_assoc run_phases_fun)

lemma start_is_phases:
  "start_engines w run_end cfg s =
     (case run_phases w cfg (start_phases (terminal_of run_end)) s of (s1, r) \<Rightarrow> (s1, if run_end = Done () then r else run_end))"
  by (simp add: start_engines_def start_phases_def run_phase_def and_then_assoc run_phases_fun)

section \<open>Lemmas\<close>

lemma log_calls_simps [simp]:
  "cr_trace (log_calls t s) = cr_trace s @ t" "cr_prepared (log_calls t s) = cr_prepared s" "cr_closed (log_calls t s) = cr_closed s"
  "cr_cleaned (log_calls t s) = cr_cleaned s"
  by (simp_all add: log_calls_def)

lemma run_calls_subset: "run_calls w cs = (t, r) \<Longrightarrow> set t \<subseteq> set cs"
proof (induction cs arbitrary: t r)
  case (Cons c cs)
  obtain t' r' where t': "run_calls w cs = (t', r')" by (metis prod.exhaust)
  then show ?case using Cons.IH [OF t'] Cons.prems by (cases "w c") auto
qed simp

lemma run_calls_done: "\<forall>c \<in> set cs. w c = Done () \<Longrightarrow> run_calls w cs = (cs, Done ())"
  by (induction cs) auto

lemma run_calls_fails:
  "c \<in> set cs \<Longrightarrow> w c \<noteq> Done () \<Longrightarrow> \<exists>t r. run_calls w cs = (t, r) \<and> r \<noteq> Done ()"
  by (induction cs) (auto split: outcome.splits)

text \<open>The stage a call belongs to: work that needs the brokers, the stop event, the closing of the runtime, that of the transports.\<close>

definition stage :: "crawl_call \<Rightarrow> nat option" where
  "stage c =
     (case c of
        FreezeSessions \<Rightarrow> Some 0 | CancelTasks _ \<Rightarrow> Some 0 | Requeue _ \<Rightarrow> Some 0 | PersistSessions _ \<Rightarrow> Some 0
      | StopSet \<Rightarrow> Some 1
      | CloseProcesses \<Rightarrow> Some 2 | CloseSessions \<Rightarrow> Some 2 | StopSignals \<Rightarrow> Some 2 | CloseExtension _ \<Rightarrow> Some 2
      | CloseResources \<Rightarrow> Some 3
      | _ \<Rightarrow> None)"

definition stages :: "crawl_call list \<Rightarrow> nat list" where
  "stages t = List.map_filter stage t"

lemma stages_simps [simp]:
  "stages [] = []" "stages (t @ t') = stages t @ stages t'"
  "stages (c # t) = (case stage c of None \<Rightarrow> stages t | Some k \<Rightarrow> k # stages t)"
  by (simp_all add: stages_def map_filter_def split: option.split)

lemma stages_none: "\<forall>c \<in> set t. stage c = None \<Longrightarrow> stages t = []"
  by (induction t) auto

lemma stages_const: "\<forall>c \<in> set t. stage c = Some k \<Longrightarrow> stages t = replicate (length t) k"
  by (induction t) auto

lemma clean_spiders_stages: "stages (fst (clean_spiders w sps cleaned)) = [] \<and> StopSet \<notin> set (fst (clean_spiders w sps cleaned))"
proof (induction sps arbitrary: cleaned)
  case (Cons sp sps)
  have "stages (cleanup_ops sp) = []" "StopSet \<notin> set (cleanup_ops sp)" by (auto simp: cleanup_ops_def stage_def)
  then show ?case using Cons by (auto simp: prod.case_eq_if)
qed simp

lemma cleanup_trace:
  assumes "cleanup_scheduler_state w cfg s = (s', r)"
  shows "\<exists>t. cr_trace s' = cr_trace s @ t \<and> stages t = [] \<and> StopSet \<notin> set t \<and> cr_prepared s' = cr_prepared s \<and> cr_closed s' = cr_closed s"
  using assms clean_spiders_stages [of w "cc_spiders cfg" "case cr_cleaned s of None \<Rightarrow> {} | Some c \<Rightarrow> c"]
  by (auto simp: cleanup_scheduler_state_def prod.case_eq_if split: if_splits)

lemma prepare_calls_stage: "c \<in> set (prepare_calls cfg) \<Longrightarrow> stage c = Some 0"
  by (auto simp: prepare_calls_def requeue_calls_def persist_calls_def stage_def split: if_splits)

lemma close_calls_stage: "c \<in> set (close_calls cfg) \<Longrightarrow> stage c = Some 2"
  by (auto simp: close_calls_def stage_def split: if_splits)

lemma stage_StopSet [simp]: "stage StopSet = Some 1"
  by (simp add: stage_def)

lemma prepare_eq:
  "\<not> cr_prepared s \<Longrightarrow> prepare_shutdown w cfg s =
     (let (t, r) = run_calls (cw_call w) (prepare_calls cfg); (s1, r') = cleanup_scheduler_state w cfg (log_calls t s)
      in if r \<noteq> Done () then (log_calls t s, r)
         else (if r' = Done () then (log_calls [StopSet] s1)\<lparr>cr_prepared := True\<rparr> else s1, r'))"
  by (auto simp: prepare_shutdown_def Let_def split: prod.split outcome.split)

lemma close_eq:
  "\<not> cr_closed s \<Longrightarrow> close_runtime_state w cfg s =
     (let (t, r) = run_calls (cw_call w) (close_calls cfg); (t', r') = close_extensions w cfg
      in if r \<noteq> Done () then (log_calls t s, r)
         else (if r' = Done () then (log_calls (t @ t') s)\<lparr>cr_closed := True\<rparr> else log_calls (t @ t') s, r'))"
  by (auto simp: close_runtime_state_def Let_def split: prod.split outcome.split)

text \<open>A phase of preparation: it adds calls of the first stage and, at its end, the stop event.\<close>

lemma prepare_trace:
  assumes "prepare_shutdown w cfg s = (s', r)" and "\<not> cr_prepared s"
  shows "\<exists>t k. cr_trace s' = cr_trace s @ t \<and> cr_closed s' = cr_closed s \<and> (cr_prepared s' \<longleftrightarrow> r = Done ()) \<and>
    stages t = replicate k 0 @ (if r = Done () then [1] else []) \<and> count_list t StopSet = (if r = Done () then 1 else 0)"
proof -
  obtain t1 r1 where t1: "run_calls (cw_call w) (prepare_calls cfg) = (t1, r1)" by (metis prod.exhaust)
  have "\<forall>c \<in> set t1. stage c = Some 0" using run_calls_subset [OF t1] prepare_calls_stage by blast
  then have st1: "stages t1 = replicate (length t1) 0" "count_list t1 StopSet = 0"
    using stages_const by (fastforce simp: count_list_0_iff)+
  obtain s1 r2 where c: "cleanup_scheduler_state w cfg (log_calls t1 s) = (s1, r2)" by (metis prod.exhaust)
  obtain t2 where t2: "cr_trace s1 = cr_trace s @ t1 @ t2" "stages t2 = []" "count_list t2 StopSet = 0" "cr_prepared s1 = cr_prepared s"
    "cr_closed s1 = cr_closed s" using cleanup_trace [OF c] by (auto simp: count_list_0_iff)
  have eq: "(s', r) = (if r1 \<noteq> Done () then (log_calls t1 s, r1)
      else (if r2 = Done () then (log_calls [StopSet] s1)\<lparr>cr_prepared := True\<rparr> else s1, r2))"
    using assms(1) unfolding prepare_eq [OF assms(2)] t1 Let_def prod.case c by simp
  show ?thesis
  proof (cases "r1 = Done ()")
    case False
    then show ?thesis using eq st1 assms(2) by (intro exI [of _ t1] exI [of _ "length t1"]) simp
  next
    case True
    then show ?thesis using eq t2 st1 assms(2)
      by (intro exI [of _ "t1 @ t2 @ (if r2 = Done () then [StopSet] else [])"] exI [of _ "length t1"]) simp
  qed
qed

lemma close_trace:
  assumes "close_runtime_state w cfg s = (s', r)" and "\<not> cr_closed s"
  shows "\<exists>t k. cr_trace s' = cr_trace s @ t \<and> cr_prepared s' = cr_prepared s \<and> (cr_closed s' \<longleftrightarrow> r = Done ()) \<and>
    stages t = replicate k 2 \<and> count_list t StopSet = 0"
proof -
  obtain t1 r1 where t1: "run_calls (cw_call w) (close_calls cfg) = (t1, r1)" by (metis prod.exhaust)
  obtain t2 r2 where t2: "close_extensions w cfg = (t2, r2)" by (metis prod.exhaust)
  have "\<forall>c \<in> set t1. stage c = Some 2" using run_calls_subset [OF t1] close_calls_stage by blast
  moreover have "\<forall>c \<in> set t2. stage c = Some 2" using t2 by (auto simp: close_extensions_def stage_def)
  ultimately have st: "stages t1 = replicate (length t1) 2" "stages t2 = replicate (length t2) 2"
    "count_list t1 StopSet = 0" "count_list t2 StopSet = 0"
    using stages_const by (fastforce simp: count_list_0_iff)+
  have eq: "(s', r) = (if r1 \<noteq> Done () then (log_calls t1 s, r1)
      else (if r2 = Done () then (log_calls (t1 @ t2) s)\<lparr>cr_closed := True\<rparr> else log_calls (t1 @ t2) s, r2))"
    using assms(1) unfolding close_eq [OF assms(2)] t1 t2 Let_def prod.case by simp
  show ?thesis
  proof (cases "r1 = Done ()")
    case False
    then show ?thesis using eq st assms(2) by (intro exI [of _ t1] exI [of _ "length t1"]) simp
  next
    case True
    then show ?thesis using eq st assms(2)
      by (intro exI [of _ "t1 @ t2"] exI [of _ "length t1 + length t2"]) (simp add: replicate_add)
  qed
qed

section \<open>The order of a shutdown\<close>

definition caller_ok :: "bool \<Rightarrow> bool \<Rightarrow> crawl_phase list \<Rightarrow> bool" where
  "caller_ok prepared closed ps \<longleftrightarrow>
     (prepared \<or> (\<forall>ph \<in> set (takeWhile (\<lambda>x. x \<noteq> PreparePhase) ps). \<exists>t. ph = PutPhase t)) \<and>
     (closed \<or> ResourcesPhase \<notin> set (takeWhile (\<lambda>x. x \<noteq> ClosePhase) ps))"

definition trace_inv :: "crawler \<Rightarrow> bool" where
  "trace_inv s \<longleftrightarrow>
     sorted (stages (cr_trace s)) \<and> set (stages (cr_trace s)) \<subseteq> {..3} \<and>
     count_list (cr_trace s) StopSet = (if cr_prepared s then 1 else 0) \<and>
     (\<not> cr_prepared s \<longrightarrow> set (stages (cr_trace s)) \<subseteq> {0} \<and> \<not> cr_closed s) \<and>
     (\<not> cr_closed s \<longrightarrow> 3 \<notin> set (stages (cr_trace s)))"

lemma caller_ok_mono:
  "caller_ok p c ps \<Longrightarrow> (p \<longrightarrow> p') \<Longrightarrow> (c \<longrightarrow> c') \<Longrightarrow> caller_ok p' c' ps"
  by (auto simp: caller_ok_def)

lemma caller_ok_simps:
  "caller_ok p c []" "caller_ok p c (start_phases t)" "caller_ok p c shutdown_phases"
  by (auto simp: caller_ok_def start_phases_def shutdown_phases_def)

lemma caller_ok_tl:
  "caller_ok p c (PutPhase t # ps) \<Longrightarrow> caller_ok p c ps"
  "caller_ok p c (PreparePhase # ps) \<Longrightarrow> caller_ok True c ps"
  "caller_ok p c (WakePhase # ps) \<Longrightarrow> caller_ok p c ps"
  "caller_ok p c (ClosePhase # ps) \<Longrightarrow> caller_ok p True ps"
  "caller_ok p c (CleanupPhase # ps) \<Longrightarrow> caller_ok p c ps"
  "caller_ok p c (ResourcesPhase # ps) \<Longrightarrow> caller_ok p c ps"
  by (auto simp: caller_ok_def)

lemma caller_ok_needs:
  "caller_ok p c (ClosePhase # ps) \<Longrightarrow> p" "caller_ok p c (ResourcesPhase # ps) \<Longrightarrow> p \<and> c"
  by (auto simp: caller_ok_def)

lemma sorted_subset_append: "sorted (xs @ ys) \<longleftrightarrow> sorted xs \<and> sorted ys \<and> (\<forall>x \<in> set xs. \<forall>y \<in> set ys. x \<le> (y :: nat))"
  by (rule sorted_append)

text \<open>Calls of no stage keep the invariant.\<close>

lemma trace_inv_neutral:
  assumes "trace_inv s" and "cr_trace s' = cr_trace s @ t" and "stages t = []" and "count_list t StopSet = 0"
    and "cr_prepared s' = cr_prepared s" and "cr_closed s' = cr_closed s"
  shows "trace_inv s'"
  using assms by (simp add: trace_inv_def)

lemma trace_inv_prepare:
  assumes "trace_inv s" and "prepare_shutdown w cfg s = (s', r)"
  shows "trace_inv s' \<and> (cr_prepared s \<longrightarrow> cr_prepared s') \<and> (r = Done () \<longrightarrow> cr_prepared s') \<and> cr_closed s' = cr_closed s"
proof (cases "cr_prepared s")
  case True
  then show ?thesis using assms by (simp add: prepare_shutdown_def)
next
  case False
  obtain t k where t: "cr_trace s' = cr_trace s @ t" "cr_closed s' = cr_closed s" "cr_prepared s' \<longleftrightarrow> r = Done ()"
    "stages t = replicate k 0 @ (if r = Done () then [1] else [])" "count_list t StopSet = (if r = Done () then 1 else 0)"
    using prepare_trace [OF assms(2) False] by blast
  have old: "set (stages (cr_trace s)) \<subseteq> {0}" "\<not> cr_closed s" "count_list (cr_trace s) StopSet = 0"
    using assms(1) False by (simp_all add: trace_inv_def)
  have "sorted (stages (cr_trace s) @ stages t)"
    using assms(1) old(1) t(4) by (auto simp: trace_inv_def sorted_append)
  moreover have "set (stages (cr_trace s) @ stages t) \<subseteq> {0, 1}" using old(1) t(4) by auto
  ultimately show ?thesis using t old False by (auto simp: trace_inv_def)
qed

lemma trace_inv_close:
  assumes "trace_inv s" and "close_runtime_state w cfg s = (s', r)" and "cr_prepared s"
  shows "trace_inv s' \<and> cr_prepared s' \<and> (cr_closed s \<longrightarrow> cr_closed s') \<and> (r = Done () \<longrightarrow> cr_closed s')"
proof (cases "cr_closed s")
  case True
  then show ?thesis using assms by (simp add: close_runtime_state_def)
next
  case False
  obtain t k where t: "cr_trace s' = cr_trace s @ t" "cr_prepared s' = cr_prepared s" "cr_closed s' \<longleftrightarrow> r = Done ()"
    "stages t = replicate k 2" "count_list t StopSet = 0"
    using close_trace [OF assms(2) False] by blast
  have upto: "\<forall>x \<in> set (stages (cr_trace s)). x \<le> 2"
  proof
    fix x assume "x \<in> set (stages (cr_trace s))"
    then have "x \<le> 3" "x \<noteq> 3" using assms(1) False by (auto simp: trace_inv_def)
    then show "x \<le> 2" by simp
  qed
  then show ?thesis using assms(1,3) False t by (fastforce simp: trace_inv_def sorted_append)
qed

lemma run_phase_inv:
  assumes "trace_inv s" and "caller_ok (cr_prepared s) (cr_closed s) (ph # rest)" and "run_phase w cfg ph s = (s', r)"
  shows "trace_inv s' \<and> (cr_prepared s \<longrightarrow> cr_prepared s') \<and> (cr_closed s \<longrightarrow> cr_closed s') \<and>
    (r = Done () \<longrightarrow> caller_ok (cr_prepared s') (cr_closed s') rest)"
proof (cases ph)
  case (PutPhase t)
  then have "s' = log_calls [PutTerminal t] s" using assms(3) by (simp add: run_phase_def one_call_def)
  then show ?thesis using trace_inv_neutral [OF assms(1), of s' "[PutTerminal t]"] caller_ok_tl(1) assms(2) PutPhase
    by (auto simp: stage_def)
next
  case PreparePhase
  then show ?thesis using trace_inv_prepare [OF assms(1)] caller_ok_tl(2) assms(2,3) by (fastforce simp: run_phase_def)
next
  case WakePhase
  then have "s' = log_calls [WakeWaiters] s" using assms(3) by (simp add: run_phase_def)
  then show ?thesis using trace_inv_neutral [OF assms(1), of s' "[WakeWaiters]"] caller_ok_tl(3) assms(2) WakePhase
    by (auto simp: stage_def)
next
  case ClosePhase
  then show ?thesis using trace_inv_close [OF assms(1), of w cfg s' r] caller_ok_needs(1) caller_ok_tl(4) assms(2,3)
    by (fastforce simp: run_phase_def)
next
  case CleanupPhase
  then have "cleanup_scheduler_state w cfg s = (s', r)" using assms(3) by (simp add: run_phase_def)
  from cleanup_trace [OF this] obtain t where "cr_trace s' = cr_trace s @ t" "stages t = []" "count_list t StopSet = 0"
    "cr_prepared s' = cr_prepared s" "cr_closed s' = cr_closed s" by (auto simp: count_list_0_iff)
  then show ?thesis using trace_inv_neutral [OF assms(1)] caller_ok_tl(5) assms(2) CleanupPhase by auto
next
  case ResourcesPhase
  then have "s' = log_calls [CloseResources] s" using assms(3) by (simp add: run_phase_def one_call_def)
  moreover have "cr_prepared s" "cr_closed s" using caller_ok_needs(2) assms(2) ResourcesPhase by blast+
  ultimately show ?thesis using assms(1) caller_ok_tl(6) assms(2) ResourcesPhase
    by (fastforce simp: trace_inv_def stage_def sorted_append)
qed

lemma crawl_reach_inv: "crawl_reach cfg s ps \<Longrightarrow> trace_inv s \<and> (\<forall>p \<in> set ps. caller_ok (cr_prepared s) (cr_closed s) p)"
proof (induction rule: crawl_reach.induct)
  case Init
  then show ?case by (simp add: trace_inv_def crawler_init_def)
next
  case (Phase s a ph rest b w s' r)
  have "trace_inv s" "caller_ok (cr_prepared s) (cr_closed s) (ph # rest)" using Phase.IH by simp_all
  from run_phase_inv [OF this Phase.hyps(2)]
  have step: "trace_inv s'" "cr_prepared s \<longrightarrow> cr_prepared s'" "cr_closed s \<longrightarrow> cr_closed s'"
    "r = Done () \<longrightarrow> caller_ok (cr_prepared s') (cr_closed s') rest" by auto
  have others: "caller_ok (cr_prepared s') (cr_closed s') p" if "p \<in> set a \<union> set b" for p
    by (rule caller_ok_mono [of "cr_prepared s" "cr_closed s"]) (use Phase.IH that step(2,3) in auto)
  have "caller_ok (cr_prepared s') (cr_closed s') (if r = Done () then rest else [])"
    using step(4) caller_ok_simps(1) by simp
  then show ?case using step(1) others by simp
qed (auto simp: caller_ok_simps)

section \<open>Properties\<close>

text \<open>C14.  However many tasks run the crawler and shut it down, however they overtake one another and whatever fails: work that needs the
  brokers (freezing, cancelling, requeueing, persisting) comes before the stop event, which is set once, then the closing of
  sessions, signals and extensions, then that of the transports.  Nothing of an earlier stage follows one of a later stage.\<close>

theorem shutdown_order:
  assumes "crawl_reach cfg s ps"
  shows "sorted (stages (cr_trace s)) \<and> count_list (cr_trace s) StopSet \<le> 1 \<and>
    (CloseSessions \<in> set (cr_trace s) \<longrightarrow> StopSet \<in> set (cr_trace s)) \<and>
    (CloseResources \<in> set (cr_trace s) \<longrightarrow> cr_closed s)"
proof -
  have inv: "trace_inv s" using crawl_reach_inv [OF assms] by blast
  have mem: "c \<in> set t \<Longrightarrow> stage c = Some k \<Longrightarrow> k \<in> set (stages t)" for c k t by (induction t) (auto split: option.split)
  have "CloseSessions \<in> set (cr_trace s) \<Longrightarrow> cr_prepared s"
    using mem [of CloseSessions "cr_trace s" 2] inv by (auto simp: trace_inv_def stage_def)
  moreover have "cr_prepared s \<Longrightarrow> StopSet \<in> set (cr_trace s)"
    using inv count_list_0_iff [of "cr_trace s" StopSet] by (auto simp: trace_inv_def)
  moreover have "CloseResources \<in> set (cr_trace s) \<Longrightarrow> cr_closed s"
    using mem [of CloseResources "cr_trace s" 3] inv by (auto simp: trace_inv_def stage_def)
  ultimately show ?thesis using inv by (auto simp: trace_inv_def)
qed

definition sample_caps :: scheduler_caps where
  "sample_caps = \<lparr>cap_requeue = True, cap_persist = False, cap_broker = True, cap_redis = False\<rparr>"

definition sample_config :: crawl_config where
  "sample_config = \<lparr>cc_persist = False, cc_persist_sessions = False, cc_redis = False, cc_spiders = [(''a'', sample_caps)],
     cc_engines = 1, cc_processes = False, cc_extensions = 1\<rparr>"

definition fine_world :: "string crawl_world" where
  "fine_world = \<lparr>cw_call = (\<lambda>_. Done ()), cw_interrupt = (\<lambda>_. False)\<rparr>"

text \<open>A caller whose phases all end well is reachable in a row.\<close>

lemma reach_run_phases:
  "crawl_reach cfg s (ps # rest) \<Longrightarrow> run_phases (w :: string crawl_world) cfg ps s = (s', Done ()) \<Longrightarrow> crawl_reach cfg s' ([] # rest)"
proof (induction ps arbitrary: s)
  case (Cons ph ps)
  obtain s1 r where r: "run_phase w cfg ph s = (s1, r)" by (metis prod.exhaust)
  then have d: "r = Done ()" "run_phases w cfg ps s1 = (s', Done ())" using Cons.prems(2) by (cases r; simp)+
  have "crawl_reach cfg s1 ([] @ (if r = Done () then ps else []) # rest)"
    using crawl_reach.Phase [of cfg s "[]" ph ps rest w s1 r] Cons.prems(1) r by simp
  then show ?case using Cons.IH d by simp
qed simp

theorem shutdown_order_witness:
  "stages (cr_trace (fst (crawler_shutdown fine_world sample_config crawler_init))) = [0, 0, 0, 1, 2, 2, 2, 3] \<and>
   sorted (stages (cr_trace (fst (crawler_shutdown fine_world sample_config crawler_init))))"
proof -
  let ?s = "fst (crawler_shutdown fine_world sample_config crawler_init)"
  have stages: "stages (cr_trace ?s) = [0, 0, 0, 1, 2, 2, 2, 3]" by code_simp
  have "snd (crawler_shutdown fine_world sample_config crawler_init) = Done ()" by code_simp
  then have "run_phases fine_world sample_config shutdown_phases crawler_init = (?s, Done ())"
    by (metis prod.collapse shutdown_is_phases)
  from reach_run_phases [OF crawl_reach.ShutdownCalled [OF crawl_reach.Init] this] stages
  show ?thesis using shutdown_order by blast
qed

text \<open>When no call fails, running the crawler and then shutting it down makes every call once and in order, whatever way the run ended: the
  terminal signal, the requeueing, persisting and cleaning of every spider, the stop event, the closing of the runtime, and only in
  \<open>shutdown\<close> the waking of the waiters and the closing of the transports.\<close>

theorem orderly_run_and_shutdown:
  assumes "\<forall>c. cw_call w c = Done ()" and "\<forall>n. \<not> cw_interrupt w n" and "distinct (map fst (cc_spiders cfg))"
    and "start_engines w run_end cfg crawler_init = (s1, r1)" and "crawler_shutdown w cfg s1 = (s2, r2)"
  shows "r1 = run_end \<and> r2 = Done () \<and>
    cr_trace s2 = PutTerminal (terminal_of run_end) # prepare_calls cfg @
      (if cc_persist cfg then [] else concat (map cleanup_ops (cc_spiders cfg))) @
      StopSet # close_calls cfg @ map CloseExtension [0..<cc_extensions cfg] @ [WakeWaiters, CloseResources]"
proof -
  have clean: "clean_spiders w sps cleaned = (concat (map cleanup_ops sps), cleaned \<union> fst ` set sps, Done ())"
    if "distinct (map fst sps)" "fst ` set sps \<inter> cleaned = {}" for sps cleaned
    using that assms(1,2) by (induction sps arbitrary: cleaned) auto
  have again: "clean_spiders w sps (fst ` set sps) = ([], fst ` set sps, Done ())" for sps
  proof -
    have "clean_spiders w xs cleaned = ([], cleaned, Done ())" if "fst ` set xs \<subseteq> cleaned" for xs cleaned
      using that by (induction xs) auto
    then show ?thesis by blast
  qed
  have calls: "run_calls (cw_call w) cs = (cs, Done ())" for cs using assms(1) by (simp add: run_calls_done)
  define s0 where "s0 = \<lparr>cr_prepared = True, cr_closed = True,
    cr_cleaned = (if cc_persist cfg then None else Some (fst ` set (cc_spiders cfg))),
    cr_trace = PutTerminal (terminal_of run_end) # prepare_calls cfg @
      (if cc_persist cfg then [] else concat (map cleanup_ops (cc_spiders cfg))) @ StopSet # close_calls cfg @ map CloseExtension [0..<cc_extensions cfg]\<rparr>"
  have "start_engines w run_end cfg crawler_init = (s0, run_end)"
    by (simp add: start_engines_def one_call_def assms(1) prepare_shutdown_def calls cleanup_scheduler_state_def
        clean [OF assms(3)] close_runtime_state_def close_extensions_def log_calls_def crawler_init_def s0_def Let_def)
  then have s1: "s1 = s0" "r1 = run_end" using assms(4) by simp_all
  have "crawler_shutdown w cfg s0 = (log_calls [WakeWaiters, CloseResources] s0, Done ())"
    by (simp add: crawler_shutdown_def one_call_def assms(1) prepare_shutdown_def close_runtime_state_def
        cleanup_scheduler_state_def again log_calls_def s0_def)
  then have s2: "s2 = log_calls [WakeWaiters, CloseResources] s0" "r2 = Done ()" using assms(5) unfolding s1(1) by simp_all
  show ?thesis unfolding s2 s1(2) by (simp add: s0_def log_calls_def)
qed

theorem orderly_run_and_shutdown_witness:
  "cr_trace (fst (crawler_shutdown fine_world sample_config (fst (start_engines fine_world (Raised ''x'') sample_config crawler_init)))) =
     [PutTerminal SigFailed, FreezeSessions, CancelTasks 0, Requeue ''a'', CleanBroker ''a'', StopSet, CloseSessions, StopSignals,
      CloseExtension 0, WakeWaiters, CloseResources]"
proof -
  have c: "\<forall>c. cw_call fine_world c = Done ()" "\<forall>n. \<not> cw_interrupt fine_world n" "distinct (map fst (cc_spiders sample_config))"
    by (simp_all add: fine_world_def sample_config_def)
  have "prepare_calls sample_config = [FreezeSessions, CancelTasks 0, Requeue ''a'']" "close_calls sample_config = [CloseSessions, StopSignals]"
    "concat (map cleanup_ops (cc_spiders sample_config)) = [CleanBroker ''a'']" by code_simp+
  then show ?thesis
    using orderly_run_and_shutdown [OF c surjective_pairing surjective_pairing, of "Raised ''x''"]
    by (simp add: terminal_of_def sample_config_def)
qed

definition shutdown_attempts :: "'e crawl_world list \<Rightarrow> crawl_config \<Rightarrow> crawler \<Rightarrow> crawler" where
  "shutdown_attempts ws cfg s = foldl (\<lambda>s w. fst (crawler_shutdown w cfg s)) s ws"

lemma shutdown_unprepared:
  assumes "\<not> cr_prepared s" and "c \<in> set (prepare_calls cfg)" and "cw_call w c \<noteq> Done ()"
  shows "\<exists>t r. crawler_shutdown w cfg s = (log_calls t s, r) \<and> r \<noteq> Done () \<and> set t \<subseteq> set (prepare_calls cfg)"
proof -
  obtain t r where t: "run_calls (cw_call w) (prepare_calls cfg) = (t, r)" "r \<noteq> Done ()"
    using run_calls_fails [of c "prepare_calls cfg" "cw_call w"] assms(2,3) by blast
  then have "prepare_shutdown w cfg s = (log_calls t s, r)" unfolding prepare_eq [OF assms(1)] by (simp add: case_prod_beta Let_def)
  then have "crawler_shutdown w cfg s = (log_calls t s, r)" using t(2) by (cases r) (simp_all add: crawler_shutdown_def)
  then show ?thesis using t run_calls_subset [OF t(1)] by blast
qed

text \<open>C15.  The stop event waits for the preparation: while some scheduler fails to requeue or to persist, no number of calls of \<open>shutdown\<close> sets the
  stop event or closes a session, an extension or a transport.\<close>

theorem failed_preparation_blocks_shutdown:
  assumes "\<forall>w \<in> set ws. \<exists>c \<in> set (prepare_calls cfg). cw_call w c \<noteq> Done ()"
  shows "set (cr_trace (shutdown_attempts ws cfg crawler_init)) \<subseteq> set (prepare_calls cfg) \<and>
    StopSet \<notin> set (cr_trace (shutdown_attempts ws cfg crawler_init)) \<and>
    CloseSessions \<notin> set (cr_trace (shutdown_attempts ws cfg crawler_init)) \<and>
    CloseResources \<notin> set (cr_trace (shutdown_attempts ws cfg crawler_init))"
proof -
  have "\<not> cr_prepared s \<Longrightarrow> set (cr_trace s) \<subseteq> set (prepare_calls cfg) \<Longrightarrow> set (cr_trace (shutdown_attempts ws cfg s)) \<subseteq> set (prepare_calls cfg)" for s
    using assms
  proof (induction ws arbitrary: s)
    case (Cons w ws)
    obtain c where "c \<in> set (prepare_calls cfg)" "cw_call w c \<noteq> Done ()" using Cons.prems(3) by auto
    from shutdown_unprepared [OF Cons.prems(1) this] obtain t where
      t: "fst (crawler_shutdown w cfg s) = log_calls t s" "set t \<subseteq> set (prepare_calls cfg)" by auto
    have "set (cr_trace (shutdown_attempts ws cfg (log_calls t s))) \<subseteq> set (prepare_calls cfg)"
      using Cons.IH [of "log_calls t s"] Cons.prems t(2) by simp
    then show ?case by (simp add: shutdown_attempts_def t(1))
  qed (simp add: shutdown_attempts_def)
  then have sub: "set (cr_trace (shutdown_attempts ws cfg crawler_init)) \<subseteq> set (prepare_calls cfg)" by (simp add: crawler_init_def)
  have "stage StopSet \<noteq> Some 0" "stage CloseSessions \<noteq> Some 0" "stage CloseResources \<noteq> Some 0" by (simp_all add: stage_def)
  then show ?thesis using sub prepare_calls_stage by blast
qed

definition broken_world :: "string crawl_world" where
  "broken_world = \<lparr>cw_call = (\<lambda>c. if c = Requeue ''a'' then Raised ''no broker'' else Done ()), cw_interrupt = (\<lambda>_. False)\<rparr>"

theorem failed_preparation_blocks_shutdown_witness:
  "CloseResources \<notin> set (cr_trace (shutdown_attempts [broken_world, broken_world] sample_config crawler_init))"
proof -
  have "Requeue ''a'' \<in> set (prepare_calls sample_config)" "cw_call broken_world (Requeue ''a'') \<noteq> Done ()"
    by (simp_all add: prepare_calls_def requeue_calls_def sample_config_def sample_caps_def broken_world_def)
  then have "\<forall>w \<in> set [broken_world, broken_world]. \<exists>c \<in> set (prepare_calls sample_config). cw_call w c \<noteq> Done ()" by auto
  from failed_preparation_blocks_shutdown [OF this] show ?thesis by blast
qed

definition failing_world :: "string crawl_world" where
  "failing_world = \<lparr>cw_call = (\<lambda>c. if c = CleanBroker ''a'' then Raised ''busy'' else Done ()), cw_interrupt = (\<lambda>_. False)\<rparr>"

section \<open>Repeated cleanup\<close>

abbreviation cleaned_well :: "'e crawl_world \<Rightarrow> string \<times> scheduler_caps \<Rightarrow> bool" where
  "cleaned_well w sp \<equiv> \<forall>c \<in> set (cleanup_ops sp). cw_call w c = Done ()"

lemma clean_spiders_uninterrupted:
  assumes "\<forall>n. \<not> cw_interrupt w n"
  shows "distinct (map fst sps) \<Longrightarrow> clean_spiders w sps cleaned =
    (concat (map cleanup_ops (filter (\<lambda>sp. fst sp \<notin> cleaned) sps)),
     cleaned \<union> fst ` {sp \<in> set sps. fst sp \<notin> cleaned \<and> cleaned_well w sp}, Done ())"
proof (induction sps arbitrary: cleaned)
  case (Cons sp sps)
  have fresh: "fst sp \<notin> fst ` set sps" "distinct (map fst sps)" using Cons.prems by simp_all
  then have other: "fst x \<noteq> fst sp" if "x \<in> set sps" for x using that by (metis image_eqI)
  then have same: "filter (\<lambda>x. fst x \<notin> insert (fst sp) cleaned) sps = filter (\<lambda>x. fst x \<notin> cleaned) sps"
    by (intro filter_cong) auto
  consider (old) "fst sp \<in> cleaned" | (good) "fst sp \<notin> cleaned" "cleaned_well w sp" | (bad) "fst sp \<notin> cleaned" "\<not> cleaned_well w sp" by blast
  then show ?case
  proof cases
    case old
    then have "{x \<in> set (sp # sps). fst x \<notin> cleaned \<and> cleaned_well w x} = {x \<in> set sps. fst x \<notin> cleaned \<and> cleaned_well w x}" by auto
    then show ?thesis using old Cons.IH [OF fresh(2), of cleaned] by simp
  next
    case good
    have "{x \<in> set (sp # sps). fst x \<notin> cleaned \<and> cleaned_well w x} =
        insert sp {x \<in> set sps. fst x \<notin> insert (fst sp) cleaned \<and> cleaned_well w x}" using good other by auto
    then show ?thesis using good assms Cons.IH [OF fresh(2), of "insert (fst sp) cleaned"] same by simp
  next
    case bad
    then have "{x \<in> set (sp # sps). fst x \<notin> cleaned \<and> cleaned_well w x} = {x \<in> set sps. fst x \<notin> cleaned \<and> cleaned_well w x}" by auto
    moreover have "clean_spiders w (sp # sps) cleaned =
        (case clean_spiders w sps cleaned of (t, cleaned', r) \<Rightarrow> (cleanup_ops sp @ t, cleaned', r))"
      unfolding clean_spiders.simps if_not_P [OF bad(1)] if_not_P [OF bad(2)] using assms by simp
    ultimately show ?thesis using bad(1) Cons.IH [OF fresh(2), of cleaned] by simp
  qed
qed simp

text \<open>A second cleanup runs the operations of exactly those spiders one of whose operations failed in the first.\<close>

theorem cleanup_retries_failed:
  assumes "\<forall>n. \<not> cw_interrupt w1 n" and "\<forall>n. \<not> cw_interrupt w2 n" and "distinct (map fst (cc_spiders cfg))" and "\<not> cc_persist cfg"
    and "cleanup_scheduler_state w1 cfg crawler_init = (s1, r1)" and "cleanup_scheduler_state w2 cfg s1 = (s2, r2)"
  shows "r1 = Done () \<and> r2 = Done () \<and> cr_trace s1 = concat (map cleanup_ops (cc_spiders cfg)) \<and>
    cr_trace s2 = cr_trace s1 @
      concat (map cleanup_ops (filter (\<lambda>sp. \<exists>c \<in> set (cleanup_ops sp). cw_call w1 c \<noteq> Done ()) (cc_spiders cfg)))"
proof -
  let ?good = "fst ` {sp \<in> set (cc_spiders cfg). cleaned_well w1 sp}"
  have "cleanup_scheduler_state w1 cfg crawler_init =
      (crawler_init\<lparr>cr_trace := concat (map cleanup_ops (cc_spiders cfg)), cr_cleaned := Some ?good\<rparr>, Done ())"
    using assms(4) clean_spiders_uninterrupted [OF assms(1,3), of "{}"]
    by (simp add: cleanup_scheduler_state_def crawler_init_def log_calls_def)
  note first = this [unfolded assms(5) prod.inject]
  note s1 = conjunct1 [OF first] conjunct2 [OF first]
  have failed: "filter (\<lambda>sp. fst sp \<notin> ?good) (cc_spiders cfg) = filter (\<lambda>sp. \<exists>c \<in> set (cleanup_ops sp). cw_call w1 c \<noteq> Done ()) (cc_spiders cfg)"
  proof (rule filter_cong [OF refl])
    fix sp assume sp: "sp \<in> set (cc_spiders cfg)"
    have "inj_on fst (set (cc_spiders cfg))" using assms(3) by (simp add: distinct_map)
    then have "fst sp \<in> ?good \<longleftrightarrow> sp \<in> {sp \<in> set (cc_spiders cfg). cleaned_well w1 sp}"
      using sp by (intro inj_on_image_mem_iff) auto
    then show "(fst sp \<notin> ?good) = (\<exists>c \<in> set (cleanup_ops sp). cw_call w1 c \<noteq> Done ())" using sp by blast
  qed
  have "cleanup_scheduler_state w2 cfg s1 =
      ((log_calls (concat (map cleanup_ops (filter (\<lambda>sp. fst sp \<notin> ?good) (cc_spiders cfg)))) s1)
        \<lparr>cr_cleaned := Some (?good \<union> fst ` {sp \<in> set (cc_spiders cfg). fst sp \<notin> ?good \<and> cleaned_well w2 sp})\<rparr>, Done ())"
    unfolding cleanup_scheduler_state_def s1(1) if_not_P [OF assms(4)]
    by (simp add: clean_spiders_uninterrupted [OF assms(2,3)])
  note second = this [unfolded assms(6) prod.inject]
  have "r2 = Done ()" by (rule conjunct2 [OF second])
  moreover have "cr_trace s2 = cr_trace s1 @ concat (map cleanup_ops (filter (\<lambda>sp. fst sp \<notin> ?good) (cc_spiders cfg)))"
    by (subst conjunct1 [OF second]) simp
  ultimately have r2: "r2 = Done ()"
    "cr_trace s2 = cr_trace s1 @ concat (map cleanup_ops (filter (\<lambda>sp. fst sp \<notin> ?good) (cc_spiders cfg)))" by blast+
  have "cr_trace s1 = concat (map cleanup_ops (cc_spiders cfg))" by (simp add: s1(1))
  then show ?thesis using r2 [unfolded failed] s1(2) by blast
qed

text \<open>The handle of a run: the first outcome stays, whoever waits and whatever is asked later; a run that was stopped counts as cancelled
  unless it failed, even one that had ended before.\<close>

theorem handle_outcome_final:
  assumes "handle_wait interrupted task h = (h1, Done r)"
  shows "handle_wait interrupted' task' h1 = (h1, Done r) \<and>
    (crawler_shutdown w cfg s = (s1, Done ()) \<longrightarrow> handle_stop w cfg s task' h1 = (s1, h1\<lparr>rh_stop := True\<rparr>, Done r)) \<and>
    (rh_outcome h = None \<longrightarrow> (fst r = RunFailed \<longleftrightarrow> (\<exists>e. task = Raised e)) \<and> (fst r = RunCompleted \<longleftrightarrow> task = Done () \<and> \<not> rh_stop h))"
proof -
  have kept: "rh_outcome h1 = Some r" using assms by (auto simp: handle_wait_def Let_def split: option.splits if_splits)
  have "fst r = RunFailed \<longleftrightarrow> (\<exists>e. task = Raised e)" "fst r = RunCompleted \<longleftrightarrow> task = Done () \<and> \<not> rh_stop h" if "rh_outcome h = None"
    using assms that by (cases task; auto simp: handle_wait_def Let_def split: if_splits)+
  then show ?thesis using kept by (simp add: handle_wait_def handle_stop_def)
qed

theorem handle_outcome_final_witness:
  "handle_wait True (Raised ''x'') (fst (handle_wait False (Done ()) handle_init)) =
     (handle_init\<lparr>rh_outcome := Some (RunCompleted, None)\<rparr>, Done (RunCompleted, None :: string option))"
proof -
  have "handle_wait False (Done ()) handle_init = (handle_init\<lparr>rh_outcome := Some (RunCompleted, None)\<rparr>, Done (RunCompleted, None :: string option))"
    by (simp add: handle_wait_def handle_init_def Let_def)
  from handle_outcome_final [OF this, of True "Raised ''x''"] this show ?thesis by simp
qed

text \<open>A run that has completed, and whose crawler reported so, is reported as cancelled when it is stopped before anyone waited for it.\<close>

theorem stop_after_completion_reports_cancelled:
  "snd (snd (handle_stop fine_world sample_config (fst (start_engines fine_world (Done ()) sample_config crawler_init)) (Done ()) handle_init)) =
     Done (RunWasCancelled, None) \<and>
   PutTerminal SigCompleted \<in> set (cr_trace (fst (start_engines fine_world (Done ()) sample_config crawler_init)))"
  by code_simp

theorem cleanup_retries_failed_witness:
  "cr_trace (fst (cleanup_scheduler_state fine_world sample_config (fst (cleanup_scheduler_state failing_world sample_config crawler_init)))) =
     [CleanBroker ''a'', CleanBroker ''a'']"
proof -
  have c: "\<forall>n. \<not> cw_interrupt failing_world n" "\<forall>n. \<not> cw_interrupt fine_world n" "distinct (map fst (cc_spiders sample_config))"
    "\<not> cc_persist sample_config"
    by (simp_all add: failing_world_def fine_world_def sample_config_def)
  have ops: "cleanup_ops (''a'', sample_caps) = [CleanBroker ''a'']" by code_simp
  show ?thesis
    using cleanup_retries_failed [OF c surjective_pairing surjective_pairing]
    by (simp add: sample_config_def ops failing_world_def)
qed

end
