(* ===== verification/JsonScan.thy ===== *)
theory JsonScan
  imports ClientHints
begin

text \<open>
  Finding JSON inside text (\<open>utils/jsonLoad.py\<close>: \<open>JSONExtractor\<close>, \<open>JSONScanner\<close>).  The JSON readers, \<open>json\<close>, \<open>orjson\<close> or
  \<open>json5\<close> by the strictness, and the digests of values are arguments.  The branches for a regular expression only call the
  \<open>regex\<close> package and are not modelled.
\<close>

section \<open>Comments and escapes\<close>

text \<open>\<open>//.*?(?=\n|$)\<close>: up to the end of the line.\<close>

function strip_line_comments :: "string \<Rightarrow> string" where
  "strip_line_comments [] = []"
| "strip_line_comments (c # s) =
     (if starts_with ''//'' (c # s) then strip_line_comments (dropWhile (\<lambda>x. x \<noteq> CHR 0x0A) s) else c # strip_line_comments s)"
  by pat_completeness auto

termination strip_line_comments
  by (relation "measure length") (auto simp: le_imp_less_Suc length_dropWhile_le)

text \<open>What follows the end of a block comment.\<close>

fun after_close :: "string \<Rightarrow> string option" where
  "after_close [] = None"
| "after_close (c # s) = (if starts_with ''*/'' (c # s) then Some (tl s) else after_close s)"

lemma after_close_length: "after_close s = Some r \<Longrightarrow> length r \<le> length s"
  by (induction s) (auto split: if_splits)

function strip_block_comments :: "string \<Rightarrow> string" where
  "strip_block_comments [] = []"
| "strip_block_comments (c # s) =
     (case (if starts_with ''/*'' (c # s) then after_close (tl s) else None) of
        None \<Rightarrow> c # strip_block_comments s
      | Some rest \<Rightarrow> strip_block_comments rest)"
  by pat_completeness auto

termination strip_block_comments
  by (relation "measure length") (auto split: if_splits dest!: after_close_length)

definition remove_json_comments :: "string \<Rightarrow> string" where
  "remove_json_comments text = strip_block_comments (strip_line_comments text)"

fun replace_pair :: "char \<Rightarrow> char \<Rightarrow> char \<Rightarrow> string \<Rightarrow> string" where
  "replace_pair a b r (c # c' # s) =
     (if c = a \<and> c' = b then r # replace_pair a b r s else c # replace_pair a b r (c' # s))"
| "replace_pair a b r s = s"

definition json_unescape :: "string \<Rightarrow> string" where
  "json_unescape s = replace_pair (CHR 0x5C) (CHR 0x5C) (CHR 0x5C) (replace_pair (CHR 0x5C) (CHR 0x22) (CHR 0x22) s)"

section \<open>Parsing a candidate\<close>

record json_env =
  je_parsers :: "(string \<Rightarrow> json option) list"
  je_digest :: "json \<Rightarrow> string"
  je_text :: "json \<Rightarrow> string"

record json_seen =
  js_texts :: "string set"
  js_strs :: "string set"
  js_objs :: "string set"

definition seen_init :: json_seen where
  "seen_init = \<lparr>js_texts = {}, js_strs = {}, js_objs = {}\<rparr>"

fun container :: "json \<Rightarrow> bool" where
  "container (JObj _) = True"
| "container (JList _) = True"
| "container _ = False"

fun json_truthy :: "json \<Rightarrow> bool" where
  "json_truthy JNull = False"
| "json_truthy (JBool b) = b"
| "json_truthy (JInt i) = (i \<noteq> 0)"
| "json_truthy (JStr s) = (s \<noteq> [])"
| "json_truthy (JList xs) = (xs \<noteq> [])"
| "json_truthy (JObj ms) = (ms \<noteq> [])"

text \<open>The first pass over the readers: a container ends the search, a string is the next text, anything else is passed over.\<close>

fun first_pass :: "(string \<Rightarrow> json option) list \<Rightarrow> string \<Rightarrow> string + json" where
  "first_pass [] t = Inl t"
| "first_pass (p # ps) t =
     (case p t of
        Some (JObj ms) \<Rightarrow> Inr (JObj ms)
      | Some (JList xs) \<Rightarrow> Inr (JList xs)
      | Some (JStr s) \<Rightarrow> Inl s
      | _ \<Rightarrow> first_pass ps t)"

fun first_parsed :: "(string \<Rightarrow> json option) list \<Rightarrow> string \<Rightarrow> json option" where
  "first_parsed [] t = None"
| "first_parsed (p # ps) t = (case p t of None \<Rightarrow> first_parsed ps t | Some v \<Rightarrow> Some v)"

fun parse_rounds :: "(string \<Rightarrow> json option) list \<Rightarrow> nat \<Rightarrow> string \<Rightarrow> json option" where
  "parse_rounds ps 0 t = None"
| "parse_rounds ps (Suc n) t =
     (case first_pass ps t of
        Inr v \<Rightarrow> Some v
      | Inl t1 \<Rightarrow>
          (case first_parsed ps (json_unescape t1) of
             None \<Rightarrow> None
           | Some JNull \<Rightarrow> None
           | Some (JStr s) \<Rightarrow> parse_rounds ps n s
           | Some v \<Rightarrow> if container v then Some v else parse_rounds ps n t1))"

definition try_parse :: "json_env \<Rightarrow> string \<Rightarrow> json_seen \<Rightarrow> json option \<times> json_seen" where
  "try_parse env text st =
     (let t = remove_json_comments (strip text)
      in if CHR '':'' \<notin> set t \<or> t \<in> js_texts st then (None, st)
         else (parse_rounds (je_parsers env) 5 t, st\<lparr>js_texts := insert t (js_texts st)\<rparr>))"

section \<open>Searching for a key\<close>

text \<open>The steps share the sets of what was seen; \<open>None\<close> means that the fuel ran out.\<close>

type_synonym search = "json_seen \<Rightarrow> (json list \<times> json_seen) option"

definition then_search :: "search \<Rightarrow> search \<Rightarrow> search" where
  "then_search f g st =
     (case f st of None \<Rightarrow> None | Some (a, st1) \<Rightarrow> (case g st1 of None \<Rightarrow> None | Some (b, st2) \<Rightarrow> Some (a @ b, st2)))"

definition found :: "json list \<Rightarrow> search" where
  "found ms st = Some (ms, st)"

text \<open>Text is parsed, and what it holds, if that is not empty, is searched.\<close>

definition search_text :: "json_env \<Rightarrow> (json \<Rightarrow> search) \<Rightarrow> string \<Rightarrow> search" where
  "search_text env rec s st =
     (case try_parse env s st of
        (Some v, st1) \<Rightarrow> if json_truthy v then rec v st1 else Some ([], st1)
      | (None, st1) \<Rightarrow> Some ([], st1))"

definition embedded :: "json_env \<Rightarrow> (json \<Rightarrow> search) \<Rightarrow> json \<Rightarrow> search" where
  "embedded env rec v =
     (case v of JStr s \<Rightarrow> if CHR ''{'' \<in> set s \<and> CHR ''}'' \<in> set s then search_text env rec s else found [] | _ \<Rightarrow> found [])"

fun search_members :: "json_env \<Rightarrow> (json \<Rightarrow> search) \<Rightarrow> string \<Rightarrow> (string \<times> json) list \<Rightarrow> search" where
  "search_members env rec key [] = found []"
| "search_members env rec key ((k, v) # ms) =
     then_search (found (if k = key then [v] else []))
       (then_search (rec v) (then_search (embedded env rec v) (search_members env rec key ms)))"

fun search_items :: "(json \<Rightarrow> search) \<Rightarrow> json list \<Rightarrow> search" where
  "search_items rec [] = found []"
| "search_items rec (x # xs) = then_search (rec x) (search_items rec xs)"

definition once :: "json_env \<Rightarrow> json \<Rightarrow> search \<Rightarrow> search" where
  "once env obj f st =
     (if je_digest env obj \<in> js_objs st then Some ([], st)
      else f (st\<lparr>js_objs := insert (je_digest env obj) (js_objs st)\<rparr>))"

fun find_key :: "nat \<Rightarrow> json_env \<Rightarrow> string \<Rightarrow> json \<Rightarrow> search" where
  "find_key 0 env key obj = (\<lambda>st. None)"
| "find_key (Suc n) env key obj =
     (case obj of
        JObj ms \<Rightarrow>
          once env obj (then_search (found (if key = [] then [obj] else [])) (search_members env (find_key n env key) key ms))
      | JList xs \<Rightarrow> once env obj (search_items (find_key n env key) xs)
      | JStr s \<Rightarrow>
          (\<lambda>st. if s \<in> js_strs st then Some ([], st)
                else search_text env (find_key n env key) s (st\<lparr>js_strs := insert s (js_strs st)\<rparr>))
      | _ \<Rightarrow> found [])"

section \<open>Objects between braces\<close>

text \<open>Every closing brace is paired with the last open one; each pair is a candidate.  The index of the character read is counted.\<close>

fun brace_pairs :: "json_env \<Rightarrow> string \<Rightarrow> nat \<Rightarrow> string \<Rightarrow> nat list \<Rightarrow> json_seen \<Rightarrow> json list \<times> json_seen" where
  "brace_pairs env text i [] stack st = ([], st)"
| "brace_pairs env text i (c # cs) stack st =
     (if c = CHR ''{'' then brace_pairs env text (i + 1) cs (i # stack) st
      else if c = CHR ''}'' then
        (case stack of
           [] \<Rightarrow> brace_pairs env text (i + 1) cs stack st
         | start # stack' \<Rightarrow>
             (case try_parse env (take (i + 1 - start) (drop start text)) st of
                (p, st1) \<Rightarrow>
                  (case brace_pairs env text (i + 1) cs stack' st1 of
                     (vs, st2) \<Rightarrow> ((case p of None \<Rightarrow> vs | Some v \<Rightarrow> v # vs), st2))))
      else brace_pairs env text (i + 1) cs stack st)"

section \<open>Extraction\<close>

text \<open>One match stands for itself, several for a list: a match that is a list cannot be told from several matches.\<close>

definition pack :: "json list \<Rightarrow> json" where
  "pack ms = (case ms of [m] \<Rightarrow> m | _ \<Rightarrow> JList ms)"

definition extract_json :: "nat \<Rightarrow> json_env \<Rightarrow> string \<Rightarrow> string \<Rightarrow> json option" where
  "extract_json fuel env key text =
     (let (whole, st) = try_parse env text seen_init;
          blocks = (\<lambda>st. case brace_pairs env text 0 text [] st of
             (objs, st1) \<Rightarrow>
               if key = [] then Some (JList objs)
               else map_option (\<lambda>r. pack (fst r)) (search_items (find_key fuel env key) objs st1))
      in case whole of
           None \<Rightarrow> blocks st
         | Some v \<Rightarrow>
             if \<not> json_truthy v then blocks st
             else (case find_key fuel env key v st of
                     None \<Rightarrow> None
                   | Some ([], st1) \<Rightarrow> blocks st1
                   | Some (ms, _) \<Rightarrow> Some (pack ms)))"

section \<open>Scanning\<close>

datatype scan_error = NotExtendable | NotIterable

text \<open>\<open>results.extend(inner)\<close> or \<open>results.append(inner)\<close>.\<close>

definition add_result :: "json \<Rightarrow> json \<Rightarrow> scan_error + json" where
  "add_result results inner =
     (if inner = JNull then Inr results
      else (case results of
              JList rs \<Rightarrow> Inr (JList (rs @ (case inner of JList xs \<Rightarrow> xs | _ \<Rightarrow> [inner])))
            | _ \<Rightarrow> Inl NotExtendable))"

text \<open>The children of a container: containers are pushed, strings are searched.\<close>

fun scan_children :: "(string \<Rightarrow> json option) \<Rightarrow> json list \<Rightarrow> json list \<Rightarrow> json \<Rightarrow> (scan_error + json list \<times> json) option" where
  "scan_children reader [] stack results = Some (Inr (stack, results))"
| "scan_children reader (v # vs) stack results =
     (if container v then scan_children reader vs (v # stack) results
      else (case v of
              JStr s \<Rightarrow>
                (case reader s of
                   None \<Rightarrow> None
                 | Some inner \<Rightarrow>
                     (case add_result results inner of
                        Inl e \<Rightarrow> Some (Inl e)
                      | Inr results' \<Rightarrow> scan_children reader vs stack results'))
            | _ \<Rightarrow> scan_children reader vs stack results))"

fun children :: "json \<Rightarrow> json list" where
  "children (JObj ms) = map snd ms"
| "children (JList xs) = xs"
| "children _ = []"

definition stack_size :: "json list \<Rightarrow> nat" where
  "stack_size stack = sum_list (map (\<lambda>v. size v + 1) stack)"

lemma stack_size_simps [simp]: "stack_size [] = 0" "stack_size (v # stack) = size v + 1 + stack_size stack"
  by (simp_all add: stack_size_def)

lemma scan_children_size:
  "scan_children reader vs stack results = Some (Inr (stack', results')) \<Longrightarrow> stack_size stack' \<le> stack_size vs + stack_size stack"
proof (induction reader vs stack results rule: scan_children.induct)
  case (2 reader v vs stack results)
  then show ?case by (cases v) (auto split: option.splits sum.splits intro!: le_SucI)
qed simp

lemma size_children: "stack_size (children v) < size v + 1"
proof (cases v)
  case (JList xs)
  have "stack_size xs \<le> size_list size xs" by (induction xs) auto
  then show ?thesis using JList by simp
next
  case (JObj ms)
  have "stack_size (map snd ms) \<le> size_list (size_prod (\<lambda>x. 0) size) ms" by (induction ms) auto
  then show ?thesis using JObj by simp
qed simp_all

text \<open>The stack, its top first.\<close>

function scan_stack :: "(string \<Rightarrow> json option) \<Rightarrow> json list \<Rightarrow> json \<Rightarrow> (scan_error + json) option" where
  "scan_stack reader [] results = Some (Inr results)"
| "scan_stack reader (v # stack) results =
     (case scan_children reader (children v) stack results of
        None \<Rightarrow> None
      | Some (Inl e) \<Rightarrow> Some (Inl e)
      | Some (Inr (stack', results')) \<Rightarrow> scan_stack reader stack' results')"
  by pat_completeness auto

termination scan_stack
proof (relation "measure (\<lambda>(reader, stack, results). stack_size stack)", goal_cases)
  case (2 reader v stack results x y stack' results')
  then have "stack_size stack' \<le> stack_size (children v) + stack_size stack" using scan_children_size by blast
  then show ?case using size_children [of v] by simp
qed simp

text \<open>Iterating over the results: a list, the characters of a string, the keys of a dictionary.\<close>

fun iterate :: "json \<Rightarrow> scan_error + json list" where
  "iterate (JList xs) = Inr xs"
| "iterate (JStr s) = Inr (map (\<lambda>c. JStr [c]) s)"
| "iterate (JObj ms) = Inr (map (\<lambda>kv. JStr (fst kv)) ms)"
| "iterate _ = Inl NotIterable"

definition parse_result :: "json_env \<Rightarrow> json \<Rightarrow> json" where
  "parse_result env r =
     (case r of
        JStr s \<Rightarrow>
          if CHR '':'' \<in> set s \<and> starts_with ''{'' (strip s) then
            (case last (je_parsers env) s of None \<Rightarrow> r | Some v \<Rightarrow> v)
          else r
      | _ \<Rightarrow> r)"

fun dedupe_by :: "('a \<Rightarrow> 'b) \<Rightarrow> 'b set \<Rightarrow> 'a list \<Rightarrow> 'a list" where
  "dedupe_by f seen [] = []"
| "dedupe_by f seen (x # xs) = (if f x \<in> seen then dedupe_by f seen xs else x # dedupe_by f (insert (f x) seen) xs)"

definition scan_text :: "nat \<Rightarrow> json_env \<Rightarrow> string \<Rightarrow> string \<Rightarrow> (scan_error + json) option" where
  "scan_text fuel env key text =
     (case extract_json fuel env key text of
        None \<Rightarrow> None
      | Some results \<Rightarrow>
          if json_truthy results then Some (Inr results)
          else (case extract_json fuel env [] text of
                  None \<Rightarrow> None
                | Some whole \<Rightarrow>
                    if \<not> json_truthy whole then Some (Inr (JList []))
                    else (case scan_stack (extract_json fuel env key) (if container whole then [whole] else []) results of
                            None \<Rightarrow> None
                          | Some (Inl e) \<Rightarrow> Some (Inl e)
                          | Some (Inr results') \<Rightarrow>
                              Some (case iterate results' of
                                      Inl e \<Rightarrow> Inl e
                                    | Inr rs \<Rightarrow>
                                        (case dedupe_by (je_text env) {} (map (parse_result env) rs) of
                                           [] \<Rightarrow> Inr (JList []) | r # _ \<Rightarrow> Inr r)))))"

section \<open>Chains of keys\<close>

fun normalize_results :: "json \<Rightarrow> json list" where
  "normalize_results JNull = []"
| "normalize_results (JList xs) = xs"
| "normalize_results v = [v]"

definition value_to_text :: "(json \<Rightarrow> string) \<Rightarrow> json \<Rightarrow> string" where
  "value_to_text dumps v = (case v of JStr s \<Rightarrow> s | _ \<Rightarrow> dumps v)"

text \<open>\<open>hash_value\<close> of a string is the digest of its text, not of its JSON notation.\<close>

definition unique_results :: "(json \<Rightarrow> string) \<Rightarrow> json list \<Rightarrow> json list" where
  "unique_results hash_value results = dedupe_by hash_value {} results"

fun scan_values :: "(string \<Rightarrow> (scan_error + json) option) \<Rightarrow> string list \<Rightarrow> (scan_error + json list) option" where
  "scan_values scan [] = Some (Inr [])"
| "scan_values scan (t # ts) =
     (case scan t of
        None \<Rightarrow> None
      | Some (Inl e) \<Rightarrow> Some (Inl e)
      | Some (Inr r) \<Rightarrow>
          (case scan_values scan ts of
             Some (Inr rs) \<Rightarrow> Some (Inr (normalize_results r @ rs))
           | failure \<Rightarrow> failure))"

fun scan_chain ::
  "(string \<Rightarrow> string \<Rightarrow> (scan_error + json) option) \<Rightarrow> (json \<Rightarrow> string) \<Rightarrow> (json \<Rightarrow> string) \<Rightarrow> string list \<Rightarrow> json list \<Rightarrow>
   (scan_error + json) option" where
  "scan_chain scan dumps hash_value [] current = Some (Inr (pack current))"
| "scan_chain scan dumps hash_value (key # ks) current =
     (case scan_values (scan key) (map (value_to_text dumps) current) of
        None \<Rightarrow> None
      | Some (Inl e) \<Rightarrow> Some (Inl e)
      | Some (Inr rs) \<Rightarrow>
          (case unique_results hash_value rs of
             [] \<Rightarrow> Some (Inr (JList [])) | rs' \<Rightarrow> scan_chain scan dumps hash_value ks rs'))"

definition scan_chain_text ::
  "nat \<Rightarrow> json_env \<Rightarrow> (json \<Rightarrow> string) \<Rightarrow> (json \<Rightarrow> string) \<Rightarrow> string list \<Rightarrow> string \<Rightarrow> (scan_error + json) option" where
  "scan_chain_text fuel env dumps hash_value ks text =
     (let ks' = filter (\<lambda>k. k \<noteq> []) ks
      in if ks' = [] then scan_text fuel env [] text
         else scan_chain (\<lambda>key t. scan_text fuel env key t) dumps hash_value ks' [JStr text])"

section \<open>Matching braces\<close>

text \<open>The pairs in the order of their closing braces, and what it means that two braces match: between them every brace that opens is
  closed and none is closed that was not opened.\<close>

fun brace_spans :: "nat \<Rightarrow> string \<Rightarrow> nat list \<Rightarrow> (nat \<times> nat) list" where
  "brace_spans i [] stack = []"
| "brace_spans i (c # cs) stack =
     (if c = CHR ''{'' then brace_spans (i + 1) cs (i # stack)
      else if c = CHR ''}'' then
        (case stack of [] \<Rightarrow> brace_spans (i + 1) cs stack | start # stack' \<Rightarrow> (start, i) # brace_spans (i + 1) cs stack')
      else brace_spans (i + 1) cs stack)"

fun parse_spans :: "json_env \<Rightarrow> string \<Rightarrow> (nat \<times> nat) list \<Rightarrow> json_seen \<Rightarrow> json list \<times> json_seen" where
  "parse_spans env text [] st = ([], st)"
| "parse_spans env text ((i, j) # spans) st =
     (case try_parse env (take (j + 1 - i) (drop i text)) st of
        (p, st1) \<Rightarrow> (case parse_spans env text spans st1 of (vs, st2) \<Rightarrow> ((case p of None \<Rightarrow> vs | Some v \<Rightarrow> v # vs), st2)))"

text \<open>The depth after a piece of text, unless it closes a brace that was open before.\<close>

fun brace_depth :: "nat \<Rightarrow> string \<Rightarrow> nat option" where
  "brace_depth d [] = Some d"
| "brace_depth d (c # s) =
     (if c = CHR ''{'' then brace_depth (d + 1) s
      else if c = CHR ''}'' then (case d of 0 \<Rightarrow> None | Suc d' \<Rightarrow> brace_depth d' s)
      else brace_depth d s)"

definition inner :: "string \<Rightarrow> nat \<Rightarrow> nat \<Rightarrow> string" where
  "inner text i j = take (j - (i + 1)) (drop (i + 1) text)"

definition braces_match :: "string \<Rightarrow> nat \<Rightarrow> nat \<Rightarrow> bool" where
  "braces_match text i j \<longleftrightarrow>
     i < j \<and> j < length text \<and> text ! i = CHR ''{'' \<and> text ! j = CHR ''}'' \<and> brace_depth 0 (inner text i j) = Some 0"

lemma brace_depth_append:
  "brace_depth d (a @ b) = (case brace_depth d a of None \<Rightarrow> None | Some e \<Rightarrow> brace_depth e b)"
  by (induction a arbitrary: d) (auto split: nat.split)

lemma inner_Suc: "i < j \<Longrightarrow> j < length text \<Longrightarrow> inner text i (Suc j) = inner text i j @ [text ! j]"
  using take_Suc_conv_app_nth [of "j - Suc i" "drop (Suc i) text"] by (simp add: inner_def Suc_diff_Suc)

lemma inner_self [simp]: "inner text i i = []" "inner text i (Suc i) = []"
  by (simp_all add: inner_def)

text \<open>The stack after a prefix: the braces still open, the last first, each with as many open braces after it as stand above it.\<close>

definition stack_inv :: "string \<Rightarrow> nat \<Rightarrow> nat list \<Rightarrow> bool" where
  "stack_inv text n stack \<longleftrightarrow>
     (\<forall>k < length stack. stack ! k < n \<and> text ! (stack ! k) = CHR ''{'' \<and> brace_depth 0 (inner text (stack ! k) n) = Some k) \<and>
     (\<forall>p < n. text ! p = CHR ''{'' \<and> p \<notin> set stack \<longrightarrow> brace_depth 0 (inner text p n) = None)"

lemma stack_inv_open:
  assumes "stack_inv text n stack" and "n < length text" and "text ! n = CHR ''{''"
  shows "stack_inv text (Suc n) (n # stack)"
proof -
  have "(n # stack) ! k < Suc n \<and> text ! ((n # stack) ! k) = CHR ''{'' \<and> brace_depth 0 (inner text ((n # stack) ! k) (Suc n)) = Some k"
    if "k < length (n # stack)" for k
    using that assms by (cases k) (auto simp: stack_inv_def inner_Suc brace_depth_append)
  moreover have "brace_depth 0 (inner text p (Suc n)) = None" if "p < Suc n" "text ! p = CHR ''{''" "p \<notin> set (n # stack)" for p
    using that assms by (auto simp: stack_inv_def inner_Suc brace_depth_append less_Suc_eq)
  ultimately show ?thesis by (simp add: stack_inv_def)
qed

lemma stack_inv_skip:
  assumes "stack_inv text n stack" and "n < length text" and "text ! n \<noteq> CHR ''{''" and "text ! n \<noteq> CHR ''}''"
  shows "stack_inv text (Suc n) stack"
  using assms by (auto simp: stack_inv_def inner_Suc brace_depth_append less_Suc_eq)

lemma stack_inv_close_none:
  assumes "stack_inv text n []" and "n < length text" and "text ! n = CHR ''}''"
  shows "stack_inv text (Suc n) []"
  using assms by (auto simp: stack_inv_def inner_Suc brace_depth_append less_Suc_eq)

lemma stack_inv_close:
  assumes "stack_inv text n (s # stack)" and "n < length text" and "text ! n = CHR ''}''"
  shows "stack_inv text (Suc n) stack"
proof -
  have "stack ! k < Suc n \<and> text ! (stack ! k) = CHR ''{'' \<and> brace_depth 0 (inner text (stack ! k) (Suc n)) = Some k"
    if "k < length stack" for k
  proof -
    have "(s # stack) ! Suc k < n \<and> text ! ((s # stack) ! Suc k) = CHR ''{'' \<and> brace_depth 0 (inner text ((s # stack) ! Suc k) n) = Some (Suc k)"
      using assms(1) that unfolding stack_inv_def by (metis Suc_less_eq length_Cons)
    then show ?thesis using assms(2,3) by (simp add: inner_Suc brace_depth_append)
  qed
  moreover have "brace_depth 0 (inner text p (Suc n)) = None" if "p < Suc n" "text ! p = CHR ''{''" "p \<notin> set stack" for p
  proof -
    have p: "p < n" using that assms(3) by (cases "p = n") auto
    have s0: "brace_depth 0 (inner text s n) = Some 0" using assms(1) by (force simp: stack_inv_def)
    have "brace_depth 0 (inner text p n) = None" if "p \<noteq> s"
      using assms(1) p \<open>text ! p = CHR ''{''\<close> \<open>p \<notin> set stack\<close> that by (auto simp: stack_inv_def)
    then show ?thesis using s0 p assms(2,3) by (cases "p = s") (simp_all add: inner_Suc brace_depth_append)
  qed
  ultimately show ?thesis by (simp add: stack_inv_def)
qed

lemma stack_top_matches:
  assumes "stack_inv text n stack" and "n < length text" and "text ! n = CHR ''}''"
  shows "braces_match text i n \<longleftrightarrow> stack \<noteq> [] \<and> i = hd stack"
proof
  assume m: "braces_match text i n"
  then have "i \<in> set stack" using assms(1) by (auto simp: braces_match_def stack_inv_def)
  then obtain k where k: "k < length stack" "i = stack ! k" by (metis in_set_conv_nth)
  then have "k = 0" using m assms(1) by (auto simp: braces_match_def stack_inv_def)
  then show "stack \<noteq> [] \<and> i = hd stack" using k by (simp add: hd_conv_nth)
next
  assume "stack \<noteq> [] \<and> i = hd stack"
  then obtain stack' where "stack = i # stack'" by (cases stack) auto
  then show "braces_match text i n" using assms by (force simp: stack_inv_def braces_match_def)
qed

lemma brace_spans_exact:
  "stack_inv text n stack \<Longrightarrow> n \<le> length text \<Longrightarrow>
   (i, j) \<in> set (brace_spans n (drop n text) stack) \<longleftrightarrow> n \<le> j \<and> braces_match text i j"
proof (induction "length text - n" arbitrary: n stack)
  case 0
  then show ?case by (simp add: braces_match_def)
next
  case (Suc m)
  then have n: "n < length text" by simp
  have d: "drop n text = text ! n # drop (Suc n) text" using n by (simp add: Cons_nth_drop_Suc)
  have IH: "(i, j) \<in> set (brace_spans (Suc n) (drop (Suc n) text) stack') \<longleftrightarrow> Suc n \<le> j \<and> braces_match text i j"
    if "stack_inv text (Suc n) stack'" for stack' using Suc.hyps(1) [of "Suc n" stack'] Suc.hyps(2) that n by simp
  have here: "n \<le> j \<and> braces_match text i j \<longleftrightarrow> j = n \<and> braces_match text i n \<or> Suc n \<le> j \<and> braces_match text i j"
    by (auto simp: Suc_le_eq order_le_less)
  consider (opens) "text ! n = CHR ''{''" | (closes) "text ! n = CHR ''}''" | (other) "text ! n \<noteq> CHR ''{''" "text ! n \<noteq> CHR ''}''" by blast
  then show ?case
  proof cases
    case opens
    have "\<not> braces_match text i n" using opens by (simp add: braces_match_def)
    then show ?thesis unfolding here using IH [OF stack_inv_open [OF Suc.prems(1) n opens]] opens by (simp add: d)
  next
    case closes
    then show ?thesis unfolding here stack_top_matches [OF Suc.prems(1) n closes]
      using IH stack_inv_close stack_inv_close_none Suc.prems(1) n by (cases stack) (auto simp: d)
  next
    case other
    have "\<not> braces_match text i n" using other by (simp add: braces_match_def)
    then show ?thesis unfolding here using IH [OF stack_inv_skip [OF Suc.prems(1) n other]] other by (simp add: d)
  qed
qed

lemma brace_spans_from: "x \<in> set (brace_spans i cs stack) \<Longrightarrow> i \<le> snd x"
proof (induction cs arbitrary: i stack)
  case (Cons c cs)
  have "x \<in> set (brace_spans (Suc i) cs st) \<Longrightarrow> i \<le> snd x" for st using Cons.IH [of "Suc i" st] by simp
  then show ?case using Cons.prems by (cases stack) (auto split: if_splits)
qed simp

lemma brace_spans_sorted: "sorted_wrt (\<lambda>x y. snd x < snd y) (brace_spans i cs stack)"
proof (induction cs arbitrary: i stack)
  case (Cons c cs)
  then show ?case by (cases stack) (auto dest: brace_spans_from)
qed simp

lemma brace_pairs_spans: "brace_pairs env text i cs stack st = parse_spans env text (brace_spans i cs stack) st"
proof (induction cs arbitrary: i stack st)
  case (Cons c cs)
  then show ?case by (cases stack) (simp_all add: case_prod_beta)
qed simp


section \<open>The search ends\<close>

text \<open>How much a value holds.  A reader shrinks its text: the notation of a value is at least as long as what it holds.\<close>

fun json_weight :: "json \<Rightarrow> nat" where
  "json_weight (JStr s) = 1 + length s"
| "json_weight (JList xs) = 1 + sum_list (map json_weight xs)"
| "json_weight (JObj ms) = 1 + sum_list (map (\<lambda>kv. json_weight (snd kv)) ms)"
| "json_weight v = 1"

definition readers_shrink :: "json_env \<Rightarrow> bool" where
  "readers_shrink env \<longleftrightarrow> (\<forall>p \<in> set (je_parsers env). \<forall>t v. p t = Some v \<longrightarrow> json_weight v \<le> length t)"

lemma strip_line_length: "length (strip_line_comments s) \<le> length s"
proof (induction s rule: strip_line_comments.induct)
  case (2 c s)
  then show ?case using length_dropWhile_le [of "\<lambda>x. x \<noteq> CHR 0x0A" s] by (auto intro: le_SucI order_trans)
qed simp

lemma strip_block_length: "length (strip_block_comments s) \<le> length s"
proof (induction s rule: strip_block_comments.induct)
  case (2 c s)
  show ?case
  proof (cases "if starts_with ''/*'' (c # s) then after_close (tl s) else None")
    case None
    then show ?thesis using 2(1) [OF None] by (simp del: starts_with.simps)
  next
    case (Some rest)
    then have "length rest \<le> length (tl s)" by (auto dest: after_close_length split: if_splits)
    then show ?thesis using 2(2) [OF Some] Some by (simp del: starts_with.simps)
  qed
qed simp

lemma strip_length: "length (strip s) \<le> length s"
  unfolding strip_def by (metis length_dropWhile_le length_rev order_trans)

lemma replace_pair_length: "length (replace_pair a b r s) \<le> length s"
  by (induction a b r s rule: replace_pair.induct) auto

lemma unescape_length: "length (json_unescape s) \<le> length s"
  unfolding json_unescape_def by (rule order_trans [OF replace_pair_length replace_pair_length])

lemma comments_length: "length (remove_json_comments (strip s)) \<le> length s"
  unfolding remove_json_comments_def
  by (rule order_trans [OF strip_block_length order_trans [OF strip_line_length strip_length]])

lemma first_pass_shrinks:
  assumes "\<forall>p \<in> set ps. \<forall>t v. p t = Some v \<longrightarrow> json_weight v \<le> length t"
  shows "(first_pass ps t = Inl t1 \<longrightarrow> length t1 \<le> length t) \<and> (first_pass ps t = Inr v \<longrightarrow> json_weight v \<le> length t)"
  using assms
proof (induction ps)
  case (Cons p ps)
  have p: "p t = Some u \<Longrightarrow> json_weight u \<le> length t" for u using Cons.prems by simp
  show ?case
  proof (cases "p t")
    case (Some u)
    then show ?thesis using Cons p [OF Some] by (cases u) auto
  qed (use Cons in simp)
qed simp

lemma first_parsed_shrinks:
  assumes "\<forall>p \<in> set ps. \<forall>t v. p t = Some v \<longrightarrow> json_weight v \<le> length t" and "first_parsed ps t = Some v"
  shows "json_weight v \<le> length t"
  using assms by (induction ps) (auto split: option.splits)

lemma parse_rounds_shrinks:
  assumes "\<forall>p \<in> set ps. \<forall>t v. p t = Some v \<longrightarrow> json_weight v \<le> length t"
  shows "parse_rounds ps n t = Some v \<Longrightarrow> json_weight v \<le> length t"
proof (induction n arbitrary: t)
  case (Suc n)
  show ?case
  proof (cases "first_pass ps t")
    case (Inr u)
    then show ?thesis using first_pass_shrinks [OF assms] Suc.prems by auto
  next
    case (Inl t1)
    then have t1: "length t1 \<le> length t" using first_pass_shrinks [OF assms] by blast
    then have u: "json_weight u \<le> length t" if "first_parsed ps (json_unescape t1) = Some u" for u
      using first_parsed_shrinks [OF assms that] unescape_length [of t1] by simp
    show ?thesis
    proof (cases "first_parsed ps (json_unescape t1)")
      case (Some w)
      have next_round: "parse_rounds ps n x = Some v \<Longrightarrow> length x \<le> length t \<Longrightarrow> json_weight v \<le> length t" for x
        using Suc.IH [of x] by simp
      show ?thesis using Suc.prems Some Inl u [OF Some] t1 next_round [of t1] by (cases w) (auto intro: next_round)
    qed (use Suc.prems Inl in simp)
  qed
qed simp

lemma try_parse_shrinks: "readers_shrink env \<Longrightarrow> try_parse env s st = (Some v, st1) \<Longrightarrow> json_weight v \<le> length s"
  using parse_rounds_shrinks [of "je_parsers env" 5 "remove_json_comments (strip s)" v] comments_length [of s]
  by (auto simp: try_parse_def readers_shrink_def Let_def split: if_splits)

text \<open>Properties of searches that the combinators keep: the code composes every search from these.\<close>

locale search_contract =
  fixes good :: "search \<Rightarrow> bool"
  assumes good_nothing: "good (found [])"
    and good_then: "good f \<Longrightarrow> good g \<Longrightarrow> good (then_search f g)"
    and good_once: "good f \<Longrightarrow> good (once env obj f)"
begin

lemma good_items: "(\<And>u. u \<in> set xs \<Longrightarrow> good (rec u)) \<Longrightarrow> good (search_items rec xs)"
  by (induction xs) (auto intro: good_nothing good_then)

lemma good_members:
  assumes "\<And>v. (key, v) \<in> set ms \<Longrightarrow> good (found [v])" and "\<And>k v. (k, v) \<in> set ms \<Longrightarrow> good (rec v) \<and> good (embedded env rec v)"
  shows "good (search_members env rec key ms)"
  using assms
proof (induction ms)
  case (Cons kv ms)
  obtain k v where kv: "kv = (k, v)" by (cases kv)
  have "good (search_members env rec key ms)"
  proof (rule Cons.IH)
    fix u assume "(key, u) \<in> set ms"
    then show "good (found [u])" using Cons.prems(1) [of u] by simp
  next
    fix k u assume "(k, u) \<in> set ms"
    then show "good (rec u) \<and> good (embedded env rec u)" using Cons.prems(2) [of k u] by simp
  qed
  moreover have "good (found (if k = key then [v] else []))" using Cons.prems(1) [of v] good_nothing by (simp add: kv)
  moreover have "good (rec v)" "good (embedded env rec v)" using Cons.prems(2) [of k v] by (simp_all add: kv)
  ultimately show ?case unfolding kv search_members.simps by (intro good_then)
qed (simp add: good_nothing)

lemma good_object:
  assumes "good (found [obj])" and "good (search_members env rec key ms)"
  shows "good (once env obj (then_search (found (if key = [] then [obj] else [])) (search_members env rec key ms)))"
  using assms by (intro good_once good_then) (auto intro: good_nothing)

end

text \<open>Searches that always answer.\<close>

definition answers :: "search \<Rightarrow> bool" where
  "answers f \<longleftrightarrow> (\<forall>st. f st \<noteq> None)"

lemma answers_found [intro]: "answers (found ms)"
  by (simp add: answers_def found_def)

lemma answers_then [intro]: "answers f \<Longrightarrow> answers g \<Longrightarrow> answers (then_search f g)"
  unfolding answers_def then_search_def by (metis (no_types, lifting) option.case_eq_if option.distinct(1) prod.case_eq_if)

lemma answers_text:
  assumes "readers_shrink env" and "\<And>v. json_weight v \<le> length s \<Longrightarrow> answers (rec v)"
  shows "answers (search_text env rec s)"
  unfolding answers_def
proof
  fix st
  show "search_text env rec s st \<noteq> None"
  proof (cases "try_parse env s st")
    case (Pair p st1)
    then show ?thesis using assms(2) try_parse_shrinks [OF assms(1)] by (cases p) (auto simp: search_text_def answers_def)
  qed
qed

lemma answers_embedded:
  assumes "readers_shrink env" and "\<And>u. json_weight u < json_weight v \<Longrightarrow> answers (rec u)"
  shows "answers (embedded env rec v)"
  using assms(2) answers_text [OF assms(1)] by (cases v) (auto simp: embedded_def)

interpretation answering: search_contract answers
  by unfold_locales (blast, blast, simp add: answers_def once_def)

lemma find_key_answers: "readers_shrink env \<Longrightarrow> json_weight v \<le> n \<Longrightarrow> answers (find_key n env key v)"
proof (induction n arbitrary: v)
  case 0
  then show ?case by (cases v) auto
next
  case (Suc n)
  have rec: "json_weight u \<le> n \<Longrightarrow> answers (find_key n env key u)" for u using Suc by blast
  show ?case
  proof (cases v)
    case (JStr s)
    then show ?thesis using Suc.prems(2) rec answers_text [OF Suc.prems(1), of s "find_key n env key"] by (simp add: answers_def)
  next
    case (JList xs)
    have "json_weight u \<le> n" if "u \<in> set xs" for u
      using Suc.prems(2) JList member_le_sum_list [of "json_weight u" "map json_weight xs"] that by simp
    then show ?thesis unfolding JList find_key.simps json.case using rec by (intro answering.good_once answering.good_items) blast
  next
    case (JObj ms)
    have below: "json_weight u \<le> n" if "(k, u) \<in> set ms" for k u
      using Suc.prems(2) JObj member_le_sum_list [of "json_weight u" "map (\<lambda>kv. json_weight (snd kv)) ms"] that by force
    have "answers (search_members env (find_key n env key) key ms)"
      using below rec answers_embedded [OF Suc.prems(1)] by (intro answering.good_members answers_found conjI) (blast, force)
    then show ?thesis unfolding JObj find_key.simps json.case by (intro answering.good_object answers_found)
  qed auto
qed

lemma parse_spans_weight:
  "readers_shrink env \<Longrightarrow> v \<in> set (fst (parse_spans env text spans st)) \<Longrightarrow> json_weight v \<le> length text"
proof (induction spans arbitrary: st)
  case (Cons ij spans)
  obtain i j where ij: "ij = (i, j)" by (cases ij)
  obtain p st2 where p: "try_parse env (take (j + 1 - i) (drop i text)) st = (p, st2)" by (metis prod.exhaust)
  have "json_weight u \<le> length text" if "p = Some u" for u
    using try_parse_shrinks [OF Cons.prems(1) p [unfolded that]] by (simp add: min_def split: if_splits)
  moreover have "set (fst (parse_spans env text (ij # spans) st)) =
      (case p of None \<Rightarrow> {} | Some u \<Rightarrow> {u}) \<union> set (fst (parse_spans env text spans st2))"
    unfolding ij parse_spans.simps p prod.case by (simp add: case_prod_beta split: option.split)
  ultimately show ?case using Cons.IH [OF Cons.prems(1), of st2] Cons.prems(2) by (cases p) auto
qed simp

text \<open>C40.  The search for a key in a text ends, however deep the text hides JSON in strings of JSON, when no value a reader returns holds more than
  its text: fuel of the length of the text suffices.\<close>

theorem json_search_ends:
  assumes "readers_shrink env" and "length text \<le> fuel"
  shows "\<exists>r. extract_json fuel env key text = Some r"
proof -
  have deep: "json_weight v \<le> length text \<Longrightarrow> answers (find_key fuel env key v)" for v
    using find_key_answers [OF assms(1)] assms(2) by simp
  have blocks: "(case brace_pairs env text 0 text [] st of
      (objs, st1) \<Rightarrow> if key = [] then Some (JList objs) else map_option (\<lambda>r. pack (fst r)) (search_items (find_key fuel env key) objs st1)) \<noteq> None" for st
  proof -
    obtain objs st1 where b: "brace_pairs env text 0 text [] st = (objs, st1)" by (metis prod.exhaust)
    then have "json_weight v \<le> length text" if "v \<in> set objs" for v
      using parse_spans_weight [OF assms(1)] that brace_pairs_spans b by (metis fst_conv)
    then have "answers (search_items (find_key fuel env key) objs)" using deep by (intro answering.good_items) blast
    then show ?thesis by (simp add: b answers_def)
  qed
  obtain p st where p: "try_parse env text seen_init = (p, st)" by (metis prod.exhaust)
  have "extract_json fuel env key text \<noteq> None"
  proof (cases p)
    case (Some v)
    have "find_key fuel env key v st \<noteq> None"
      using deep [of v] try_parse_shrinks [OF assms(1) p [unfolded Some]] by (simp add: answers_def del: not_None_eq)
    then obtain ms st1 where "find_key fuel env key v st = Some (ms, st1)" by (metis not_None_eq prod.exhaust)
    then show ?thesis using blocks p Some by (auto simp: extract_json_def split: list.split)
  qed (use blocks p in \<open>simp add: extract_json_def\<close>)
  then show ?thesis by blast
qed

definition sample_reader :: "string \<Rightarrow> json option" where
  "sample_reader t = (if t = ''{a:0}'' then Some (JObj [(''a'', JInt 0)]) else if t = ''{b:{a:1}}'' then Some (JObj [(''b'', JObj [(''a'', JInt 1)])])
     else None)"

definition sample_env :: json_env where
  "sample_env = \<lparr>je_parsers = [sample_reader], je_digest = (\<lambda>v. replicate (size v) (CHR ''x'')), je_text = (\<lambda>v. replicate (size v) (CHR ''x''))\<rparr>"

theorem json_search_ends_witness: "\<exists>r. extract_json 9 sample_env ''a'' ''{b:{a:1}}'' = Some r"
proof -
  have "readers_shrink sample_env" by (auto simp: readers_shrink_def sample_env_def sample_reader_def)
  then show ?thesis using json_search_ends [of sample_env "''{b:{a:1}}''" 9 "''a''"] by simp
qed

section \<open>What is found\<close>

text \<open>The values inside a value: members, items, and what a string holds as JSON.\<close>

inductive json_within :: "json_env \<Rightarrow> json \<Rightarrow> json \<Rightarrow> bool" for env root where
  Self: "json_within env root root"
| Member: "json_within env root (JObj ms) \<Longrightarrow> (k, v) \<in> set ms \<Longrightarrow> json_within env root v"
| Item: "json_within env root (JList xs) \<Longrightarrow> v \<in> set xs \<Longrightarrow> json_within env root v"
| Text: "json_within env root (JStr s) \<Longrightarrow> parse_rounds (je_parsers env) 5 (remove_json_comments (strip s)) = Some v \<Longrightarrow> json_within env root v"

definition held :: "json_env \<Rightarrow> json \<Rightarrow> string \<Rightarrow> json \<Rightarrow> bool" where
  "held env root key m \<longleftrightarrow>
     (\<exists>ms. json_within env root (JObj ms) \<and> ((key, m) \<in> set ms \<or> key = [] \<and> m = JObj ms))"

definition reports :: "(json \<Rightarrow> bool) \<Rightarrow> search \<Rightarrow> bool" where
  "reports P f \<longleftrightarrow> (\<forall>st ms st1. f st = Some (ms, st1) \<longrightarrow> (\<forall>m \<in> set ms. P m))"

lemma reports_found: "(\<And>m. m \<in> set ms \<Longrightarrow> P m) \<Longrightarrow> reports P (found ms)"
  by (simp add: reports_def found_def)

lemma reports_then: "reports P f \<Longrightarrow> reports P g \<Longrightarrow> reports P (then_search f g)"
  by (fastforce simp: reports_def then_search_def split: option.splits prod.splits)

lemma reports_once: "reports P f \<Longrightarrow> reports P (once env obj f)"
  by (auto simp: reports_def once_def split: if_splits)

lemma reports_text:
  assumes "\<And>v. parse_rounds (je_parsers env) 5 (remove_json_comments (strip s)) = Some v \<Longrightarrow> reports P (rec v)"
  shows "reports P (search_text env rec s)"
  unfolding reports_def
proof (intro allI impI)
  fix st ms st1 assume r: "search_text env rec s st = Some (ms, st1)"
  show "\<forall>m \<in> set ms. P m"
  proof (cases "try_parse env s st")
    case (Pair p st2)
    show ?thesis
    proof (cases p)
      case (Some v)
      then have "reports P (rec v)" using assms Pair by (auto simp: try_parse_def Let_def split: if_splits)
      then show ?thesis using r Pair Some by (auto simp: search_text_def reports_def split: if_splits)
    qed (use r Pair in \<open>simp add: search_text_def\<close>)
  qed
qed

interpretation reporting: search_contract "reports P" for P
  by unfold_locales (auto intro: reports_found reports_then reports_once)

lemma find_key_reports: "json_within env root v \<Longrightarrow> reports (held env root key) (find_key n env key v)"
proof (induction n arbitrary: v)
  case 0
  then show ?case by (simp add: reports_def)
next
  case (Suc n)
  show ?case
  proof (cases v)
    case (JStr s)
    have "reports (held env root key) (search_text env (find_key n env key) s)"
      using Suc JStr json_within.Text by (intro reports_text) blast
    then show ?thesis using JStr by (auto simp: reports_def)
  next
    case (JList xs)
    have "reports (held env root key) (search_items (find_key n env key) xs)"
      using Suc JList json_within.Item by (intro reporting.good_items) blast
    then show ?thesis unfolding JList find_key.simps json.case by (rule reports_once)
  next
    case (JObj ms)
    have w: "json_within env root (JObj ms)" using Suc.prems JObj by simp
    have "reports (held env root key) (search_members env (find_key n env key) key ms)"
    proof (rule reporting.good_members)
      fix u assume "(key, u) \<in> set ms"
      then show "reports (held env root key) (found [u])" using w by (intro reports_found) (auto simp: held_def)
    next
      fix k u assume u: "(k, u) \<in> set ms"
      have "reports (held env root key) (embedded env (find_key n env key) u)"
      proof (cases u)
        case (JStr s)
        then have "reports (held env root key) (search_text env (find_key n env key) s)"
          using u Suc.IH json_within.Text [OF json_within.Member [OF w]] by (intro reports_text) blast
        then show ?thesis using JStr by (simp add: embedded_def reporting.good_nothing)
      qed (simp_all add: embedded_def reporting.good_nothing)
      then show "reports (held env root key) (find_key n env key u) \<and> reports (held env root key) (embedded env (find_key n env key) u)"
        using u Suc.IH json_within.Member [OF w] by blast
    qed
    moreover have "reports (held env root key) (found [v])" if "key = []"
      using w JObj that by (intro reports_found) (auto simp: held_def)
    ultimately show ?thesis unfolding JObj find_key.simps json.case
      by (cases "key = []") (auto intro: reporting.good_object reporting.good_once reporting.good_then reporting.good_nothing)
  qed (auto intro!: reports_found)
qed

text \<open>The search reports nothing that is not there: every match is the value of the key in an object inside the value searched, or inside
  JSON that one of its strings holds; without a key, every match is such an object.\<close>

theorem json_matches_held:
  assumes "find_key fuel env key root st = Some (ms, st1)" and "m \<in> set ms"
  shows "held env root key m"
  using find_key_reports [OF json_within.Self, of env root key fuel] assms by (auto simp: reports_def)

theorem json_matches_held_witness: "held sample_env (JObj [(''b'', JObj [(''a'', JInt 1)])]) ''a'' (JInt 1)"
proof -
  have "map_option fst (find_key 3 sample_env ''a'' (JObj [(''b'', JObj [(''a'', JInt 1)])]) seen_init) = Some [JInt 1]"
    by code_simp
  then obtain st where "find_key 3 sample_env ''a'' (JObj [(''b'', JObj [(''a'', JInt 1)])]) seen_init = Some ([JInt 1], st)" by auto
  from json_matches_held [OF this] show ?thesis by simp
qed

section \<open>Two failures\<close>

text \<open>Line comments are cut out of strings too: the address in a JSON text is taken for a comment, and what is handed to the readers is cut
  off behind the scheme.\<close>

theorem address_taken_for_comment:
  "remove_json_comments ([CHR ''{'', CHR 0x22] @ ''url'' @ [CHR 0x22] @ '': '' @ [CHR 0x22] @ ''http://a/b'' @ [CHR 0x22, CHR ''}'']) =
     [CHR ''{'', CHR 0x22] @ ''url'' @ [CHR 0x22] @ '': '' @ [CHR 0x22] @ ''http:''"
  by code_simp

text \<open>A key whose only value is zero, false or null is found, but the scanner takes the value for no result and then iterates over it.\<close>

theorem zero_value_raises:
  "extract_json 9 sample_env ''a'' ''{a:0}'' = Some (JInt 0) \<and> scan_text 9 sample_env ''a'' ''{a:0}'' = Some (Inl NotIterable)"
  by code_simp

end
