(* ===== verification/TaskThreads.thy ===== *)
theory TaskThreads
  imports Resilience
begin

text \<open>
  Work outside the event loop: the future of a thread (\<open>utils/concurrency.py\<close>, \<open>ThreadFuture\<close>) and the lazily made process pool
  (\<open>utils/process.py\<close>).  Threads interleave between the statements that touch shared state: step relations over the attributes, with
  fields for the threads that are between two such statements.
\<close>

section \<open>Futures of threads\<close>

text \<open>The worker runs its function, then walks over the callbacks by index, and ends.\<close>

datatype worker_phase = Working | Calling nat | WorkerDone

text \<open>Callbacks are numbers.  \<open>tf_adding\<close>: those whose caller found the future not done and has not yet appended them; \<open>tf_asked\<close> and
  \<open>tf_called\<close> record what was asked for and what was called.\<close>

record ('e, 'r) thread_future =
  tf_result :: "'r option"
  tf_exception :: "'e option"
  tf_done :: bool
  tf_callbacks :: "nat list"
  tf_worker :: worker_phase
  tf_adding :: "nat list"
  tf_asked :: "nat list"
  tf_called :: "nat list"

definition future_init :: "('e, 'r) thread_future" where
  "future_init = \<lparr>tf_result = None, tf_exception = None, tf_done = False, tf_callbacks = [], tf_worker = Working, tf_adding = [],
     tf_asked = [], tf_called = []\<rparr>"

text \<open>The end of the function: its value or its exception is kept and the event is set.  An exception that is no \<open>Exception\<close>, such as the
  one of \<open>sys.exit\<close>, leaves neither.\<close>

definition future_finish :: "('e, 'r) outcome \<Rightarrow> ('e, 'r) thread_future \<Rightarrow> ('e, 'r) thread_future" where
  "future_finish r f =
     (case r of
        Done v \<Rightarrow> f\<lparr>tf_result := Some v, tf_done := True, tf_worker := Calling 0\<rparr>
      | Raised e \<Rightarrow> f\<lparr>tf_exception := Some e, tf_done := True, tf_worker := Calling 0\<rparr>
      | Cancelled \<Rightarrow> f\<lparr>tf_done := True, tf_worker := Calling 0\<rparr>)"

text \<open>One turn of the worker's loop; the list may have grown since the last.\<close>

definition future_call :: "nat \<Rightarrow> ('e, 'r) thread_future \<Rightarrow> ('e, 'r) thread_future" where
  "future_call i f =
     (if i < length (tf_callbacks f) then f\<lparr>tf_called := tf_called f @ [tf_callbacks f ! i], tf_worker := Calling (i + 1)\<rparr>
      else f\<lparr>tf_worker := WorkerDone\<rparr>)"

text \<open>\<open>add_done_callback\<close> in its two steps: the question whether the future is done, and the append.\<close>

definition callback_ask :: "nat \<Rightarrow> ('e, 'r) thread_future \<Rightarrow> ('e, 'r) thread_future" where
  "callback_ask c f =
     (if tf_done f then f\<lparr>tf_asked := tf_asked f @ [c], tf_called := tf_called f @ [c]\<rparr>
      else f\<lparr>tf_asked := tf_asked f @ [c], tf_adding := tf_adding f @ [c]\<rparr>)"

definition callback_append :: "nat \<Rightarrow> ('e, 'r) thread_future \<Rightarrow> ('e, 'r) thread_future" where
  "callback_append c f = f\<lparr>tf_adding := remove1 c (tf_adding f), tf_callbacks := tf_callbacks f @ [c]\<rparr>"

inductive future_step :: "('e, 'r) thread_future \<Rightarrow> ('e, 'r) thread_future \<Rightarrow> bool" where
  Finish: "tf_worker f = Working \<Longrightarrow> future_step f (future_finish r f)"
| Turn: "tf_worker f = Calling i \<Longrightarrow> future_step f (future_call i f)"
| Ask: "future_step f (callback_ask c f)"
| Append: "c \<in> set (tf_adding f) \<Longrightarrow> future_step f (callback_append c f)"

inductive future_reach :: "('e, 'r) thread_future \<Rightarrow> bool" where
  Init: "future_reach future_init"
| Step: "future_reach f \<Longrightarrow> future_step f f' \<Longrightarrow> future_reach f'"

inductive_cases future_stepE: "future_step f f'"

text \<open>\<open>result\<close>, when the wait ends: a timeout, the exception, or the value, which is missing after an exit.\<close>

definition future_result :: "('e, 'r) thread_future \<Rightarrow> ('e option, 'r option) outcome" where
  "future_result f =
     (if \<not> tf_done f then Raised None
      else (case tf_exception f of Some e \<Rightarrow> Raised (Some e) | None \<Rightarrow> Done (tf_result f)))"

text \<open>What was asked for is still being added, waits in the list behind the worker's index, was passed over at the end, or was called.\<close>

fun worker_left :: "worker_phase \<Rightarrow> nat list \<Rightarrow> nat list \<Rightarrow> bool" where
  "worker_left Working callbacks left = (left = callbacks)"
| "worker_left (Calling i) callbacks left = (i \<le> length callbacks \<and> left = drop i callbacks)"
| "worker_left WorkerDone callbacks left = True"

definition future_acc :: "('e, 'r) thread_future \<Rightarrow> nat list \<Rightarrow> bool" where
  "future_acc f left \<longleftrightarrow>
     (tf_done f \<longleftrightarrow> tf_worker f \<noteq> Working) \<and> (tf_result f = None \<or> tf_exception f = None) \<and>
     (\<not> tf_done f \<longrightarrow> tf_called f = [] \<and> tf_result f = None \<and> tf_exception f = None) \<and>
     worker_left (tf_worker f) (tf_callbacks f) left \<and>
     mset (tf_asked f) = mset (tf_adding f) + mset left + mset (tf_called f)"

lemma acc_finish: "future_acc f left \<Longrightarrow> tf_worker f = Working \<Longrightarrow> future_acc (future_finish r f) left"
  by (cases r) (auto simp: future_acc_def future_finish_def)

lemma acc_call:
  assumes "future_acc f left" and "tf_worker f = Calling i"
  shows "\<exists>left'. future_acc (future_call i f) left'"
proof (cases "i < length (tf_callbacks f)")
  case True
  then have "left = tf_callbacks f ! i # drop (Suc i) (tf_callbacks f)" using assms by (simp add: future_acc_def Cons_nth_drop_Suc)
  then have "future_acc (future_call i f) (drop (Suc i) (tf_callbacks f))"
    using assms True by (simp add: future_acc_def future_call_def)
  then show ?thesis by blast
next
  case False
  then have "future_acc (future_call i f) left" using assms by (simp add: future_acc_def future_call_def)
  then show ?thesis by blast
qed

lemma acc_ask: "future_acc f left \<Longrightarrow> future_acc (callback_ask c f) left"
  by (cases "tf_worker f") (simp_all add: future_acc_def callback_ask_def)

lemma acc_append:
  assumes "future_acc f left" and "c \<in> set (tf_adding f)"
  shows "future_acc (callback_append c f) (left @ [c])"
proof -
  have "mset (tf_adding f) = add_mset c (mset (remove1 c (tf_adding f)))" using assms(2) by simp
  moreover have "worker_left (tf_worker f) (tf_callbacks f @ [c]) (left @ [c])"
    using assms(1) by (cases "tf_worker f") (simp_all add: future_acc_def)
  ultimately show ?thesis using assms(1) by (simp add: future_acc_def callback_append_def)
qed

lemma future_reach_acc: "future_reach f \<Longrightarrow> \<exists>left. future_acc f left"
proof (induction rule: future_reach.induct)
  case Init
  have "future_acc future_init []" by (simp add: future_acc_def future_init_def)
  then show ?case by blast
next
  case (Step f f')
  then obtain left where left: "future_acc f left" by blast
  from Step.hyps(2) show ?case
    by (cases rule: future_stepE) (use left acc_finish acc_call acc_ask acc_append in blast)+
qed

text \<open>Whatever the threads do, a callback is called at most as often as it was added, and never before the future is done.\<close>

theorem callbacks_once:
  assumes "future_reach f"
  shows "mset (tf_called f) \<subseteq># mset (tf_asked f) \<and> (tf_done f \<or> tf_called f = []) \<and> (tf_result f = None \<or> tf_exception f = None)"
proof -
  obtain left where "future_acc f left" using future_reach_acc [OF assms] by blast
  then show ?thesis by (simp add: future_acc_def)
qed

theorem callbacks_once_witness: "mset (tf_called (callback_ask 1 (future_finish (Done 7) future_init))) \<subseteq># {#1#}"
proof -
  have "future_reach (callback_ask 1 (future_finish (Done 7) (future_init :: (nat, nat) thread_future)))"
    by (rule future_reach.Step [OF future_reach.Step [OF future_reach.Init future_step.Finish] future_step.Ask])
      (simp add: future_init_def)
  from callbacks_once [OF this] show ?thesis by (simp add: callback_ask_def future_finish_def future_init_def)
qed

text \<open>A callback can be lost: its caller asks before the worker ends and appends after, when nobody reads the list any more.\<close>

theorem late_callback_lost:
  "\<exists>f :: (nat, nat) thread_future. future_reach f \<and> tf_worker f = WorkerDone \<and> tf_adding f = [] \<and> tf_asked f = [1] \<and> tf_called f = []"
proof -
  let ?f1 = "callback_ask 1 (future_init :: (nat, nat) thread_future)"
  let ?f2 = "future_finish (Done 7) ?f1"
  let ?f3 = "future_call 0 ?f2"
  let ?f4 = "callback_append 1 ?f3"
  note defs = callback_ask_def future_finish_def future_call_def callback_append_def future_init_def
  have "future_reach ?f1" by (rule future_reach.Step [OF future_reach.Init future_step.Ask])
  then have "future_reach ?f2" by (rule future_reach.Step [OF _ future_step.Finish]) (simp add: defs)
  then have "future_reach ?f3" by (rule future_reach.Step [OF _ future_step.Turn]) (simp add: defs)
  then have "future_reach ?f4" by (rule future_reach.Step [OF _ future_step.Append]) (simp add: defs)
  moreover have "tf_worker ?f4 = WorkerDone" "tf_adding ?f4 = []" "tf_asked ?f4 = [1]" "tf_called ?f4 = []" by (simp_all add: defs)
  ultimately show ?thesis by blast
qed

section \<open>The process pool\<close>

text \<open>Executors are numbered in the order they are made.  \<open>pp_closing\<close>: the executor a closer has taken and not yet shut down.\<close>

record process_pool =
  pp_workers :: nat
  pp_executor :: "nat option"
  pp_made :: nat
  pp_closed :: bool
  pp_closing :: "nat option"
  pp_shut :: "nat set"
  pp_pending :: "nat set"

definition pool_init :: "int \<Rightarrow> process_pool option" where
  "pool_init max_workers =
     (if max_workers \<le> 0 then None
      else Some \<lparr>pp_workers = nat max_workers, pp_executor = None, pp_made = 0, pp_closed = False, pp_closing = None, pp_shut = {},
        pp_pending = {}\<rparr>)"

definition get_executor :: "process_pool \<Rightarrow> process_pool \<times> nat option" where
  "get_executor p =
     (if pp_closed p then (p, None)
      else (case pp_executor p of
              Some e \<Rightarrow> (p, Some e)
            | None \<Rightarrow> (p\<lparr>pp_executor := Some (pp_made p), pp_made := pp_made p + 1\<rparr>, Some (pp_made p))))"

text \<open>\<open>run\<close> up to its await; \<open>None\<close> is the error of a closed pool.  \<open>c\<close> names the call.\<close>

definition pool_run :: "nat \<Rightarrow> process_pool \<Rightarrow> process_pool \<times> nat option" where
  "pool_run c p =
     (case get_executor p of
        (p1, None) \<Rightarrow> (p1, None)
      | (p1, Some e) \<Rightarrow> (p1\<lparr>pp_pending := insert c (pp_pending p1)\<rparr>, Some e))"

definition run_ended :: "nat \<Rightarrow> process_pool \<Rightarrow> process_pool" where
  "run_ended c p = p\<lparr>pp_pending := pp_pending p - {c}\<rparr>"

text \<open>\<open>close\<close> up to its await, and after it.  A second call returns at once.\<close>

definition close_begin :: "process_pool \<Rightarrow> process_pool" where
  "close_begin p =
     (if pp_closed p then p
      else (case pp_executor p of
              None \<Rightarrow> p\<lparr>pp_closed := True, pp_pending := {}\<rparr>
            | Some e \<Rightarrow> p\<lparr>pp_closed := True, pp_executor := None, pp_closing := Some e\<rparr>))"

definition close_end :: "process_pool \<Rightarrow> process_pool" where
  "close_end p =
     (case pp_closing p of
        None \<Rightarrow> p | Some e \<Rightarrow> p\<lparr>pp_closing := None, pp_shut := insert e (pp_shut p), pp_pending := {}\<rparr>)"

datatype pool_op = PoolRun nat | RunEnded nat | CloseBegin | CloseEnd

fun pool_step :: "pool_op \<Rightarrow> process_pool \<Rightarrow> process_pool" where
  "pool_step (PoolRun c) p = fst (pool_run c p)"
| "pool_step (RunEnded c) p = run_ended c p"
| "pool_step CloseBegin p = close_begin p"
| "pool_step CloseEnd p = close_end p"

definition pool_inv :: "process_pool \<Rightarrow> bool" where
  "pool_inv p \<longleftrightarrow>
     0 < pp_workers p \<and> pp_made p \<le> 1 \<and>
     (pp_executor p = (if pp_made p = 1 \<and> \<not> pp_closed p then Some 0 else None)) \<and>
     (pp_closing p \<noteq> None \<longrightarrow> pp_closing p = Some 0 \<and> pp_made p = 1 \<and> pp_closed p \<and> 0 \<notin> pp_shut p) \<and>
     pp_shut p = (if pp_made p = 1 \<and> pp_closed p \<and> pp_closing p = None then {0} else {}) \<and>
     (pp_closed p \<and> pp_closing p = None \<longrightarrow> pp_pending p = {}) \<and> (pp_made p = 0 \<longrightarrow> pp_pending p = {})"

lemma pool_inv_step: "pool_inv p \<Longrightarrow> pool_inv (pool_step op p)"
  by (cases op; cases "pp_closed p"; cases "pp_made p = 0"; cases "pp_closing p")
    (auto simp: pool_inv_def pool_run_def get_executor_def run_ended_def close_begin_def close_end_def split: if_splits)

text \<open>Over any calls in any order at most one executor is made, none before the first submission and none after a close; once a close has
  ended, every executor that was made has been shut down, nothing is pending and every submission fails.\<close>

theorem pool_lifecycle:
  assumes "pool_init n = Some p0" and "p = fold pool_step ops p0"
  shows "pp_made p \<le> 1 \<and> (pp_pending p \<noteq> {} \<longrightarrow> pp_made p = 1) \<and>
    (pp_closed p \<and> pp_closing p = None \<longrightarrow> pp_shut p = {..<pp_made p} \<and> pp_pending p = {} \<and> pool_run c p = (p, None))"
proof -
  have "pool_inv p0" using assms(1) by (auto simp: pool_init_def pool_inv_def split: if_splits)
  then have "pool_inv (fold pool_step ops p0)" by (induction ops arbitrary: p0) (auto intro: pool_inv_step)
  then have inv: "pool_inv p" using assms(2) by simp
  then have "pp_made p = 0 \<or> pp_made p = 1" by (auto simp: pool_inv_def)
  then show ?thesis using inv by (auto simp: pool_inv_def pool_run_def get_executor_def lessThan_Suc)
qed

theorem pool_lifecycle_witness:
  "\<exists>p0. pool_init 2 = Some p0 \<and> pp_shut (fold pool_step [PoolRun 1, PoolRun 2, CloseBegin, PoolRun 3, CloseEnd] p0) = {0}"
proof -
  obtain p0 where p0: "pool_init 2 = Some p0" by (simp add: pool_init_def)
  let ?p = "fold pool_step [PoolRun 1, PoolRun 2, CloseBegin, PoolRun 3, CloseEnd] p0"
  have "pp_closed ?p \<and> pp_closing ?p = None \<and> pp_made ?p = 1"
    using p0 by (auto simp: pool_init_def pool_run_def get_executor_def close_begin_def close_end_def)
  then show ?thesis using pool_lifecycle [OF p0 refl, of "[PoolRun 1, PoolRun 2, CloseBegin, PoolRun 3, CloseEnd]" 0] p0
    by (intro exI [of _ p0]) (auto simp: lessThan_Suc)
qed

end
