(* ===== verification/EngineLoops.thy ===== *)
theory EngineLoops
  imports SpiderInterceptors EngineWork
begin

text \<open>
  The engine's own loops (\<open>core/engine.py\<close>): a spider's output on its way to the next boundary and the acknowledgement of the request it
  came from, WebSocket requests, the wait for completion, and the order in which an engine starts and stops.
\<close>

section \<open>A callback's output\<close>

text \<open>
  A generator is what it yields and whether it then ends without an exception; an item is one result of the interceptor chain, with
  whether the wait for its boundary returns.
\<close>

datatype ('r, 'i) output_effect = MarkStart 'r | AtBoundary 'i | Spawned 'i | StreamClosed | Completed

text \<open>With a source request every boundary is waited for; without one a task takes the item.\<close>

fun item_effects :: "bool \<Rightarrow> ('i \<times> bool) list \<Rightarrow> ('r, 'i) output_effect list \<times> bool" where
  "item_effects source [] = ([], True)"
| "item_effects source ((i, ok) # items) =
     (let (rest, ended) = item_effects source items
      in if \<not> source then (Spawned i # rest, ended) else if ok then (AtBoundary i # rest, ended) else ([AtBoundary i], False))"

fun result_effects ::
  "bool \<Rightarrow> bool \<Rightarrow> ('r \<Rightarrow> bool) \<Rightarrow> ('r \<times> ('i \<times> bool) list \<times> bool) list \<Rightarrow> ('r, 'i) output_effect list \<times> bool" where
  "result_effects source mark is_request [] = ([], True)"
| "result_effects source mark is_request ((r, items, chain_ends) # results) =
     (let marked = (if is_request r \<and> mark then [MarkStart r] else []);
          (first, ended) = item_effects source items;
          (rest, all_ended) = result_effects source mark is_request results
      in if ended \<and> chain_ends then (marked @ first @ rest, all_ended) else (marked @ first, False))"

text \<open>
  \<open>get_spider_output\<close>: the effects, and whether it returns without an exception.  The stream of the response is closed in any case,
  which may fail; \<open>complete_ok\<close> says how the scheduler's completion ends.
\<close>

definition get_spider_output ::
  "bool \<Rightarrow> bool \<Rightarrow> ('r \<Rightarrow> bool) \<Rightarrow> ('r \<times> ('i \<times> bool) list \<times> bool) list \<Rightarrow> bool \<Rightarrow> bool option \<Rightarrow> bool \<Rightarrow> bool \<Rightarrow>
   ('r, 'i) output_effect list \<times> bool" where
  "get_spider_output source mark is_request results output_ends stream websocket complete_ok =
     (let (effects, ended) = result_effects source mark is_request results;
          completed = (ended \<and> output_ends);
          closing = (if stream \<noteq> None then [StreamClosed] else [])
      in if stream = Some False then (effects @ closing, False)
         else if completed \<and> source \<and> \<not> websocket then (effects @ closing @ [Completed], complete_ok)
         else (effects @ closing, completed))"

text \<open>The items that were brought to their boundary, or handed to a task.\<close>

definition boundaries :: "('r, 'i) output_effect list \<Rightarrow> 'i list" where
  "boundaries effects = List.map_filter (\<lambda>e. case e of AtBoundary i \<Rightarrow> Some i | _ \<Rightarrow> None) effects"

definition spawned :: "('r, 'i) output_effect list \<Rightarrow> 'i list" where
  "spawned effects = List.map_filter (\<lambda>e. case e of Spawned i \<Rightarrow> Some i | _ \<Rightarrow> None) effects"

lemma boundaries_simps [simp]:
  "boundaries [] = []" "boundaries (a @ b) = boundaries a @ boundaries b" "boundaries (AtBoundary i # a) = i # boundaries a"
  "boundaries (Spawned i # a) = boundaries a" "boundaries (MarkStart r # a) = boundaries a"
  "boundaries (StreamClosed # a) = boundaries a" "boundaries (Completed # a) = boundaries a"
  by (simp_all add: boundaries_def map_filter_def)

lemma spawned_simps [simp]:
  "spawned [] = []" "spawned (a @ b) = spawned a @ spawned b" "spawned (AtBoundary i # a) = spawned a"
  "spawned (Spawned i # a) = i # spawned a" "spawned (MarkStart r # a) = spawned a"
  "spawned (StreamClosed # a) = spawned a" "spawned (Completed # a) = spawned a"
  by (simp_all add: spawned_def map_filter_def)

lemma item_effects_run:
  fixes effs :: "('r, 'i) output_effect list"
  assumes "item_effects source items = (effs, ended)"
  shows "StreamClosed \<notin> set effs \<and> Completed \<notin> set effs \<and> (ended \<longleftrightarrow> \<not> source \<or> list_all snd items) \<and>
    (source \<longrightarrow> spawned effs = [] \<and> (ended \<longrightarrow> boundaries effs = map fst items)) \<and>
    (\<not> source \<longrightarrow> boundaries effs = [] \<and> spawned effs = map fst items)"
  using assms
proof (induction items arbitrary: effs ended)
  case (Cons p items)
  obtain i ok where p: "p = (i, ok)" by (cases p)
  obtain rest :: "('r, 'i) output_effect list" and e where r: "item_effects source items = (rest, e)"
    by (cases "item_effects source items :: ('r, 'i) output_effect list \<times> bool")
  show ?case using Cons.IH [OF r] Cons.prems by (auto simp: p r split: if_splits)
qed auto

definition all_items :: "('r \<times> ('i \<times> bool) list \<times> bool) list \<Rightarrow> 'i list" where
  "all_items results = concat (map (\<lambda>(r, items, chain_ends). map fst items) results)"

definition all_return :: "bool \<Rightarrow> ('r \<times> ('i \<times> bool) list \<times> bool) list \<Rightarrow> bool" where
  "all_return source results \<longleftrightarrow> list_all (\<lambda>(r, items, chain_ends). (source \<longrightarrow> list_all snd items) \<and> chain_ends) results"

lemma result_effects_run:
  fixes effs :: "('r, 'i) output_effect list"
  assumes "result_effects source mark isr results = (effs, ended)"
  shows "StreamClosed \<notin> set effs \<and> Completed \<notin> set effs \<and> (ended \<longleftrightarrow> all_return source results) \<and>
    (source \<longrightarrow> spawned effs = [] \<and> (ended \<longrightarrow> boundaries effs = all_items results)) \<and>
    (\<not> source \<longrightarrow> boundaries effs = [] \<and> (ended \<longrightarrow> spawned effs = all_items results))"
  using assms
proof (induction results arbitrary: effs ended)
  case (Cons p results)
  obtain r items chain_ends where p: "p = (r, items, chain_ends)" by (cases p)
  obtain rest e where rest: "result_effects source mark isr results = (rest, e)" by (cases "result_effects source mark isr results")
  obtain first f where first: "item_effects source items = (first :: ('r, 'i) output_effect list, f)"
    by (cases "item_effects source items :: ('r, 'i) output_effect list \<times> bool")
  let ?marked = "if isr r \<and> mark then [MarkStart r] else [] :: ('r, 'i) output_effect list"
  have turn: "(effs, ended) = (if f \<and> chain_ends then (?marked @ first @ rest, e) else (?marked @ first, False))"
    using Cons.prems unfolding p result_effects.simps first rest Let_def prod.case by simp
  have marked: "boundaries ?marked = []" "spawned ?marked = []" "StreamClosed \<notin> set ?marked" "Completed \<notin> set ?marked" by simp_all
  have items: "all_items (p # results) = map fst items @ all_items results" by (simp add: all_items_def p)
  have return: "all_return source (p # results) \<longleftrightarrow> ((source \<longrightarrow> list_all snd items) \<and> chain_ends) \<and> all_return source results"
    by (simp add: all_return_def p)
  note tail = Cons.IH [OF rest] and head = item_effects_run [OF first]
  show ?case
  proof (cases "f \<and> chain_ends")
    case True
    then have "effs = ?marked @ first @ rest" "ended = e" using turn unfolding if_P [OF True] by simp_all
    then show ?thesis unfolding items return using head tail marked True by (cases source) (simp_all split del: if_split)
  next
    case False
    then have "effs = ?marked @ first" "\<not> ended" using turn unfolding if_not_P [OF False] by simp_all
    moreover have "\<not> all_return source (p # results)" unfolding return using False head by blast
    ultimately show ?thesis using head marked by (cases source) (simp_all split del: if_split)
  qed
qed (auto simp: all_items_def all_return_def)



section \<open>WebSocket requests\<close>

text \<open>
  Where a step of \<open>process_websocket_request\<close> or \<open>do_websocket_connect\<close> leaves off: an exception, the error of a closed connection given to
  the response chain, messages to send over the entry of a key, the wait for a listener to end; then what the wait came to.
\<close>

datatype ws_step =
    WsFailed
  | WsAnswered
  | WsSending string string
  | WsConnecting string

definition on_pool :: "manager \<Rightarrow> string \<Rightarrow> (ws_pool \<Rightarrow> ws_pool) \<Rightarrow> manager" where
  "on_pool m sid f = on_wrapper m sid (\<lambda>w. w\<lparr>sw_pool := f (sw_pool w)\<rparr>)"

text \<open>\<open>fetch_websocket\<close>: the entry is registered before its listener, a task \<open>t\<close>, is attached.\<close>

definition fetch_websocket :: "update_env \<Rightarrow> manager \<Rightarrow> string \<Rightarrow> string \<Rightarrow> string option \<Rightarrow> task_id \<Rightarrow> manager" where
  "fetch_websocket ue m sid url ping t =
     on_pool m sid (\<lambda>pool.
       let pool1 = fst (pool_init_websocket (ue_key_of ue) pool url ping)
       in case pool_set_listener_task (ue_key_of ue) pool1 url t of Inl e \<Rightarrow> pool1 | Inr pool2 \<Rightarrow> pool2)"

text \<open>Up to the first wait.  A request with the id of a connection is a message for it, also when it has a URL.\<close>

definition process_websocket_request ::
  "update_env \<Rightarrow> manager \<Rightarrow> spider_req \<Rightarrow> bool \<Rightarrow> string option \<Rightarrow> task_id \<Rightarrow> manager \<times> ws_step" where
  "process_websocket_request ue m r has_messages ping t =
     (case get_or_create_session (ue_sessions ue) m (sr_session r) (sr_cookies r) of
        Inl e \<Rightarrow> (m, WsFailed)
      | Inr (m1, sid) \<Rightarrow>
          if sr_url r = [] then (m1, WsFailed)
          else let key = (if sr_websocket_id r \<noteq> [] then sr_websocket_id r else ue_key_of ue (sr_url r));
                   entry = entry_of_key m1 sid key
               in if sr_websocket_id r \<noteq> [] \<and> (case entry of None \<Rightarrow> True | Some e \<Rightarrow> we_websocket e = None)
                  then (release m1 (sr_session r), WsAnswered)
                  else if entry \<noteq> None \<and> has_messages then (m1, WsSending sid key)
                  else (fetch_websocket ue m1 sid (sr_url r) ping t, WsConnecting sid))"

text \<open>After the messages, unless sending one raised.\<close>

definition messages_sent :: "manager \<Rightarrow> spider_req \<Rightarrow> string \<Rightarrow> string \<Rightarrow> manager" where
  "messages_sent m r sid key = release (on_pool m sid (\<lambda>pool. release_from_key pool key)) (sr_session r)"

text \<open>
  How connecting ends: the listener has ended, an exception, or the engine's task is cancelled.  The session and the connection are given up
  in each case; the request is completed (\<open>True\<close>) but for a cancellation, and after an exception \<open>end_websocket\<close> runs first.
\<close>

datatype connect_end = ListenerEnded | ConnectRaised | ConnectCancelled

definition connect_over :: "update_env \<Rightarrow> manager \<Rightarrow> spider_req \<Rightarrow> string \<Rightarrow> connect_end \<Rightarrow> manager \<times> bool" where
  "connect_over ue m r sid how =
     (let finally = \<lambda>m. on_wrapper (release m (sr_session r)) sid (\<lambda>w. fst (close_websocket (ue_key_of ue) None w (sr_url r)))
      in case how of
           ListenerEnded \<Rightarrow> (finally m, True)
         | ConnectCancelled \<Rightarrow> (finally m, False)
         | ConnectRaised \<Rightarrow>
             (case end_websocket ue m \<lparr>cs_session = sr_session r, cs_key = [], cs_url = sr_url r, cs_end = False\<rparr> of
                Inl e \<Rightarrow> (finally m, False)
              | Inr m1 \<Rightarrow> (finally m1, True)))"

text \<open>The references to a session.\<close>

definition session_refs :: "manager \<Rightarrow> string \<Rightarrow> int" where
  "session_refs m s = dict_get (sm_ref_counts m) s 0"

definition referenced :: "manager \<Rightarrow> string \<Rightarrow> bool" where
  "referenced m s \<longleftrightarrow> \<not> is_default_session m s \<and> s \<noteq> [] \<and> map_of (sm_ref_counts m) s \<noteq> None"

lemma session_refs_release:
  "referenced m s \<Longrightarrow> session_refs (release m s) x = session_refs m x - (if x = s then 1 else 0) \<and> referenced (release m s) s"
  by (cases "s \<in> sm_end_flags m \<and> the (map_of (sm_ref_counts m) s) \<le> 1 \<and> s \<notin> sm_pending m")
    (auto simp: referenced_def session_refs_def release_def enqueue_close_def Let_def dict_get_def is_default_session_def)

lemma session_refs_on_wrapper [simp]: "session_refs (on_wrapper m sid f) s = session_refs m s" "referenced (on_wrapper m sid f) s = referenced m s"
  by (simp_all add: session_refs_def referenced_def is_default_session_def)

lemma session_refs_on_pool [simp]: "session_refs (on_pool m sid f) s = session_refs m s" "referenced (on_pool m sid f) s = referenced m s"
  by (simp_all add: on_pool_def)

lemma session_refs_get_or_create:
  assumes "get_or_create_session env m s cookies = Inr (m', sid)"
  shows "session_refs m' x = session_refs m x" "referenced m' x = referenced m x"
  using assms by (cases rule: get_or_create_cases; simp add: session_refs_def referenced_def is_default_session_def)+

lemma session_refs_end_websocket:
  assumes "end_websocket ue m c = Inr m'" and "referenced m (cs_session c)"
  shows "(session_refs m' = session_refs m \<or> session_refs m' = (session_refs m)(cs_session c := session_refs m (cs_session c) - 1)) \<and>
    referenced m' (cs_session c)"
proof -
  obtain m1 sid where g: "get_or_create_session (ue_sessions ue) m (cs_session c) None = Inr (m1, sid)"
    using assms(1) by (auto simp: end_websocket_def split: sum.splits)
  note same = session_refs_get_or_create [OF g]
  have "referenced m1 (cs_session c)" using assms(2) same(2) by simp
  note rel = session_refs_release [of "on_wrapper m1 sid f" "cs_session c" for f, simplified, OF this]
  show ?thesis
    using assms same rel unfolding end_websocket_def g sum.case prod.case Let_def
    by (auto split: option.splits simp: fun_eq_iff)
qed

text \<open>
  Whatever way a WebSocket request takes, it gives up its own reference to its session once and touches no other session's: when the
  connection it was meant for is gone, after its messages, when its listener has ended or its task is cancelled.  Only when connecting raises
  it may give up two.
\<close>

theorem websocket_references:
  assumes "referenced m (sr_session r)"
  shows "let s = sr_session r; left = (session_refs m)(s := session_refs m s - 1);
      raised = session_refs (fst (connect_over ue m r sid ConnectRaised))
    in (case process_websocket_request ue m r has_messages ping t of
          (m', WsAnswered) \<Rightarrow> session_refs m' = left | (m', _) \<Rightarrow> session_refs m' = session_refs m) \<and>
       session_refs (messages_sent m r sid key) = left \<and>
       session_refs (fst (connect_over ue m r sid ListenerEnded)) = left \<and>
       session_refs (fst (connect_over ue m r sid ConnectCancelled)) = left \<and>
       (raised = left \<or> raised = left(s := left s - 1))"
proof -
  let ?s = "sr_session r"
  let ?left = "\<lambda>m. (session_refs m)(?s := session_refs m ?s - 1)"
  have rel: "session_refs (release m ?s) = ?left m" if "referenced m ?s" for m
    using session_refs_release [OF that] by (auto simp: fun_eq_iff)
  have "case process_websocket_request ue m r has_messages ping t of
      (m', WsAnswered) \<Rightarrow> session_refs m' = ?left m | (m', _) \<Rightarrow> session_refs m' = session_refs m"
  proof (cases "get_or_create_session (ue_sessions ue) m ?s (sr_cookies r)")
    case (Inr p)
    obtain m1 sid' where p: "p = (m1, sid')" by (cases p)
    note same = session_refs_get_or_create [OF Inr [unfolded p]]
    have "session_refs m1 = session_refs m" "referenced m1 ?s" using same assms by (auto simp: fun_eq_iff)
    then show ?thesis using rel [of m1]
      by (simp add: process_websocket_request_def Inr p Let_def fetch_websocket_def fun_eq_iff)
  qed (simp add: process_websocket_request_def)
  moreover have "session_refs (messages_sent m r sid key) = ?left m"
    using rel [of "on_pool m sid f" for f] assms by (simp add: messages_sent_def fun_eq_iff)
  moreover have final: "session_refs (on_wrapper (release m ?s) sid f) = ?left m" if "referenced m ?s" for m f
    using rel [OF that] by (simp add: fun_eq_iff)
  moreover have "session_refs (fst (connect_over ue m r sid how)) = ?left m" if "how \<noteq> ConnectRaised" for how
    using that final [OF assms] by (cases how) (simp_all add: connect_over_def Let_def)
  moreover have "session_refs (fst (connect_over ue m r sid ConnectRaised)) \<in> {?left m, (?left m)(?s := ?left m ?s - 1)}"
  proof (cases "end_websocket ue m \<lparr>cs_session = ?s, cs_key = [], cs_url = sr_url r, cs_end = False\<rparr>")
    case (Inl e)
    then show ?thesis using final [OF assms] by (simp add: connect_over_def Let_def)
  next
    case (Inr m1)
    from session_refs_end_websocket [OF this] assms
    have "session_refs m1 = session_refs m \<or> session_refs m1 = ?left m" and "referenced m1 ?s" by simp_all
    then show ?thesis using final [of m1] Inr by (auto simp: connect_over_def Let_def)
  qed
  ultimately show ?thesis unfolding Let_def by simp
qed

theorem websocket_references_witness:
  "session_refs (fst (connect_over sample_update_env (acquire sample_manager ''s'') (sample_spider_req True) ''s'' ListenerEnded)) ''s'' = 0"
proof -
  have "referenced (acquire sample_manager ''s'') (sr_session (sample_spider_req True))" "session_refs (acquire sample_manager ''s'') ''s'' = 1"
    by (simp_all add: referenced_def session_refs_def acquire_def sample_manager_def manager_init_def is_default_session_def
        sample_spider_req_def dict_get_def)
  moreover have "sr_session (sample_spider_req True) = ''s''" by (simp add: sample_spider_req_def)
  ultimately show ?thesis using websocket_references [of "acquire sample_manager ''s''" "sample_spider_req True"] by (simp add: Let_def)
qed

text \<open>None of these steps breaks the invariant of the session manager: whatever a WebSocket request does, no session is queued for closing
  while another holds it.\<close>

lemma wrapper_ok_pool:
  assumes "wrapper_ok key_of w" and "pool_inv key_of (sw_pool w) \<Longrightarrow> pool_inv key_of (f (sw_pool w))"
  shows "wrapper_ok key_of (w\<lparr>sw_pool := f (sw_pool w)\<rparr>)"
  using assms by (simp add: wrapper_ok_def)

lemma sm_inv_on_pool:
  assumes "sm_inv key_of m fl" and "\<And>pool. pool_inv key_of pool \<Longrightarrow> pool_inv key_of (f pool)"
  shows "sm_inv key_of (on_pool m sid f) fl"
  unfolding on_pool_def using assms by (intro sm_inv_on_wrapper wrapper_ok_pool) simp_all

lemma wrapper_ok_close:
  assumes "wrapper_ok key_of w"
  shows "wrapper_ok key_of (fst (close_websocket key_of c w url))"
proof -
  have "pool_inv key_of (sw_pool w)" using assms by (simp add: wrapper_ok_def)
  then have "pool_inv key_of (fst (pool_remove (sw_pool w) k))" for k by (rule pool_inv_ops)
  then show ?thesis using assms
    by (auto simp: close_websocket_def wrapper_ok_def remove_from_url_def split: option.splits)
qed

theorem websocket_steps_safe:
  assumes inv: "sm_inv (ue_key_of ue) m fl" and env: "env_ok (ue_sessions ue)"
  shows "sm_inv (ue_key_of ue) (fst (process_websocket_request ue m r has_messages ping t)) fl \<and>
    sm_inv (ue_key_of ue) (messages_sent m r sid key) fl \<and> sm_inv (ue_key_of ue) (fst (connect_over ue m r sid how)) fl"
proof (intro conjI)
  have fetched: "sm_inv (ue_key_of ue) (fetch_websocket ue m1 sid url ping t) fl" if "sm_inv (ue_key_of ue) m1 fl" for m1 sid url
    unfolding fetch_websocket_def Let_def
  proof (rule sm_inv_on_pool [OF that])
    fix pool assume "pool_inv (ue_key_of ue) pool"
    then have "pool_inv (ue_key_of ue) (fst (pool_init_websocket (ue_key_of ue) pool url ping))" by (rule pool_inv_ops)
    then show "pool_inv (ue_key_of ue) (case pool_set_listener_task (ue_key_of ue)
        (fst (pool_init_websocket (ue_key_of ue) pool url ping)) url t of
          Inl e \<Rightarrow> fst (pool_init_websocket (ue_key_of ue) pool url ping) | Inr pool2 \<Rightarrow> pool2)"
      by (auto split: sum.splits dest: pool_inv_ops(2))
  qed
  show "sm_inv (ue_key_of ue) (fst (process_websocket_request ue m r has_messages ping t)) fl"
  proof (cases "get_or_create_session (ue_sessions ue) m (sr_session r) (sr_cookies r)")
    case (Inr p)
    obtain m1 sid' where p: "p = (m1, sid')" by (cases p)
    have "sm_inv (ue_key_of ue) m1 fl" using sm_inv_get_or_create [OF inv env Inr [unfolded p]] .
    then have "sm_inv (ue_key_of ue) (release m1 (sr_session r)) fl" "sm_inv (ue_key_of ue) (fetch_websocket ue m1 sid' (sr_url r) ping t) fl"
      by (rule sm_inv_release fetched)+
    then show ?thesis using \<open>sm_inv (ue_key_of ue) m1 fl\<close> unfolding process_websocket_request_def Inr p Let_def sum.case prod.case
      by (simp only: if_split_asm fst_conv split: if_split) simp
  qed (simp add: process_websocket_request_def inv)
  show "sm_inv (ue_key_of ue) (messages_sent m r sid key) fl"
    unfolding messages_sent_def by (intro sm_inv_release sm_inv_on_pool inv pool_inv_ops(5))
  have final: "sm_inv (ue_key_of ue)
      (on_wrapper (release m1 (sr_session r)) sid (\<lambda>w. fst (close_websocket (ue_key_of ue) None w (sr_url r)))) fl"
    if "sm_inv (ue_key_of ue) m1 fl" for m1
    by (intro sm_inv_on_wrapper sm_inv_release that wrapper_ok_close)
  show "sm_inv (ue_key_of ue) (fst (connect_over ue m r sid how)) fl"
  proof (cases how)
    case ConnectRaised
    then show ?thesis using final [OF inv] final [OF sm_inv_end_websocket [OF inv env]]
      by (simp add: connect_over_def Let_def split: sum.splits)
  qed (simp_all add: connect_over_def Let_def final [OF inv])
qed

theorem websocket_steps_safe_witness:
  "sm_inv (ue_key_of sample_update_env) (fst (connect_over sample_update_env sample_manager (sample_spider_req True) ''s'' ConnectRaised)) []"
  using websocket_steps_safe [of sample_update_env sample_manager "[]"] sm_inv_sample env_ok_sample by (simp add: sample_update_env_def)

text \<open>A message request without messages does not end where one with messages does: although its connection is open, a listener is started for it
  in the place of the one that runs.\<close>

theorem empty_message_reconnects:
  assumes "get_or_create_session (ue_sessions ue) m (sr_session r) (sr_cookies r) = Inr (m1, sid)" and "sr_url r \<noteq> []"
    and "entry_of_key m1 sid (sr_websocket_id r) = Some e" and "we_websocket e = Some h"
  shows "snd (process_websocket_request ue m r False ping t) = WsConnecting sid"
  using assms by (cases "sr_websocket_id r = []") (simp_all add: process_websocket_request_def Let_def)

section \<open>Completion\<close>

text \<open>
  \<open>_wait_for_explicit_completion\<close> after the producer has ended: each time the idle event was set and the engine's tasks have come to rest it looks
  at the event again, here in the states \<open>ws\<close>, and ends at the first in which it is still set.
\<close>

fun explicit_completion :: "engine_work list \<Rightarrow> engine_work option" where
  "explicit_completion [] = None"
| "explicit_completion (w # ws) = (if ew_idle w then Some w else explicit_completion ws)"

text \<open>The engine announces an empty scheduler only in a state in which no accepted request is outstanding, and in the first such state it looks at.\<close>

theorem completion_sound:
  assumes "explicit_completion ws = Some w" and "\<forall>w \<in> set ws. engine_reach self (w, outs w)"
  shows "outs w = {} \<and> (\<exists>before after. ws = before @ w # after \<and> (\<forall>v \<in> set before. outs v \<noteq> {}))"
  using assms
proof (induction ws)
  case (Cons v ws)
  have exact: "ew_idle v \<longleftrightarrow> outs v = {}" using engine_reach_inv [of self "(v, outs v)"] Cons.prems(2) by (simp add: engine_inv_def)
  show ?case
  proof (cases "ew_idle v")
    case True
    then have "w = v" using Cons.prems(1) by simp
    then show ?thesis using exact True by (auto intro: exI [of _ "[]"])
  next
    case False
    then have "outs w = {} \<and> (\<exists>before after. ws = before @ w # after \<and> (\<forall>v \<in> set before. outs v \<noteq> {}))"
      using Cons.prems by (intro Cons.IH) simp_all
    then obtain before after where "outs w = {}" "ws = before @ w # after" "\<forall>v \<in> set before. outs v \<noteq> {}" by blast
    then show ?thesis using exact False by (intro conjI exI [of _ "v # before"] exI [of _ after]) auto
  qed
qed simp

theorem completion_sound_witness:
  "explicit_completion [enqueue_request False (engine_init 7 (\<lambda>_. None)) 3 PutAccepted, engine_init 7 (\<lambda>_. None)] = Some (engine_init 7 (\<lambda>_. None))
   \<and> (\<exists>outs. outs (engine_init 7 (\<lambda>_. None)) = ({} :: nat set))"
proof -
  let ?w0 = "engine_init 7 (\<lambda>_. None)" and ?w1 = "enqueue_request False (engine_init 7 (\<lambda>_. None)) 3 PutAccepted"
  let ?outs = "\<lambda>w. if ew_idle w then {} else {3 :: nat}"
  have idle: "ew_idle ?w0" "\<not> ew_idle ?w1"
    by (simp_all add: engine_init_def enqueue_request_def track_request_def has_work_id_def Let_def)
  have run: "explicit_completion [?w1, ?w0] = Some ?w0" using idle by simp
  have "\<forall>w \<in> set [?w1, ?w0]. engine_reach 7 (w, ?outs w)" using idle engine_one_request [of 3] engine_begin by simp
  from completion_sound [OF run this] run show ?thesis by blast
qed

section \<open>An engine's life\<close>

datatype life_effect =
    EngineStarted | OpenSpider | SpiderOpened | CreateProducer | CreateLoops nat
  | CancelLoops | GatherLoops | CancelErrorWait | CancelCompletionWait | GatherWaits | CancelProducer | GatherProducer | WaitObjectIdle
  | CloseSpider | SpiderClosed | EngineStopped

text \<open>
  \<open>start\<close>, given what has happened when the first of the three waits returns: the error event, the wait for completion and the group of
  scheduler loops, the last two with whether they end without an exception.  The second component says whether \<open>start\<close> itself does.
  Creating tasks and the hooks of the pipelines are taken to succeed.
\<close>

definition engine_start ::
  "bool \<Rightarrow> nat \<Rightarrow> bool \<Rightarrow> bool option \<Rightarrow> bool option \<Rightarrow> bool \<Rightarrow> life_effect list \<times> bool" where
  "engine_start pipelines n error completion loops producer_done =
     (let opening = [EngineStarted] @ (if pipelines then [OpenSpider] else []) @ [SpiderOpened, CreateProducer, CreateLoops n];
          ok = (error \<or> (case completion of Some c \<Rightarrow> c | None \<Rightarrow> (case loops of Some l \<Rightarrow> l | None \<Rightarrow> True)));
          cancelled = (error \<or> completion = Some True);
          body = (if cancelled then [CancelLoops, GatherLoops] else []);
          finally = (if error then [] else [CancelErrorWait]) @ (if completion = None then [CancelCompletionWait] else []) @
            (if loops = None \<and> \<not> cancelled then [CancelLoops] else []) @ [GatherWaits] @
            (if producer_done then [] else [CancelProducer]) @ [GatherProducer, WaitObjectIdle];
          closing = (if ok then (if pipelines then [CloseSpider] else []) @ [SpiderClosed, EngineStopped] else [])
      in (opening @ body @ finally @ closing, ok))"

text \<open>
  However a run ends, the engine waits for its last task once, after the group of scheduler loops has ended or been cancelled and the producer too; only
  then, and only if no exception is on its way, the pipelines are closed and the end of the spider and of the engine is announced, in this
  order.
\<close>

theorem engine_stops_last:
  assumes "engine_start pipelines n error completion loops producer_done = (effects, ok)"
  shows "\<exists>before. effects = before @ WaitObjectIdle # (if ok then (if pipelines then [CloseSpider] else []) @ [SpiderClosed, EngineStopped] else []) \<and>
    WaitObjectIdle \<notin> set before \<and> set before \<inter> {CloseSpider, SpiderClosed, EngineStopped} = {} \<and>
    (loops = None \<longrightarrow> CancelLoops \<in> set before) \<and> (\<not> producer_done \<longrightarrow> CancelProducer \<in> set before)"
proof -
  let ?closing = "if ok then (if pipelines then [CloseSpider] else []) @ [SpiderClosed, EngineStopped] else []"
  let ?before = "[EngineStarted] @ (if pipelines then [OpenSpider] else []) @ [SpiderOpened, CreateProducer, CreateLoops n] @
      (if error \<or> completion = Some True then [CancelLoops, GatherLoops] else []) @
      (if error then [] else [CancelErrorWait]) @ (if completion = None then [CancelCompletionWait] else []) @
      (if loops = None \<and> \<not> (error \<or> completion = Some True) then [CancelLoops] else []) @ [GatherWaits] @
      (if producer_done then [] else [CancelProducer]) @ [GatherProducer]"
  have effects: "effects = ?before @ WaitObjectIdle # ?closing"
    using assms by (simp only: engine_start_def Let_def prod.inject append.simps append_assoc) auto
  have "WaitObjectIdle \<notin> set ?before" "set ?before \<inter> {CloseSpider, SpiderClosed, EngineStopped} = {}"
    "loops = None \<longrightarrow> CancelLoops \<in> set ?before" "\<not> producer_done \<longrightarrow> CancelProducer \<in> set ?before"
    by simp_all
  with effects show ?thesis by blast
qed

theorem engine_stops_last_witness:
  "\<exists>before. fst (engine_start True 2 False (Some True) None True) = before @ [WaitObjectIdle, CloseSpider, SpiderClosed, EngineStopped] \<and>
    CancelLoops \<in> set before"
proof -
  have "engine_start True 2 False (Some True) None True = (fst (engine_start True 2 False (Some True) None True), True)"
    by (simp add: engine_start_def Let_def)
  from engine_stops_last [OF this] show ?thesis by auto
qed

end
