(* ===== verification/Spec2Isabelle.thy ===== *)
theory Spec2Isabelle
  imports Profiles ClientHints WebSockets StateCodec Requests SessionLifecycle MediaRange TaskManager JumpHash
    BloomFilter DupeFilter KafkaOffsets Ingress MemoryScheduler LeaseScheduler KafkaScheduler InterceptorChains
    EngineWork RobotsRules SpiderInterceptors Resilience ResourceRegistry ProtoWire ProtoReencode GrpcFraming
    MonitorStore MonitorExtension SignalQueue Downloader SseStream EnvConfig CrawlerRun JsonScan TaskThreads
    EngineLoops
begin

text \<open>
  scrapy_cffi, a model.

  The program.  A \<open>Crawler\<close> (\<open>src/scrapy_cffi/crawler.py\<close>) runs one engine for each spider on one asyncio loop.  An engine takes
  requests from a scheduler, passes them through the spider and download interceptors, hands them to the downloader and routes
  what comes back to callbacks, pipelines or the scheduler again.  The downloader sends through HTTP sessions, which a session
  manager shares by reference counts and a reaper closes.  A scheduler keeps requests in memory, in Redis, in RabbitMQ or in Kafka
  and filters duplicates by fingerprint.  Around them stand the task manager, which knows when a run is done, the signal manager,
  which carries observations to extensions, the registry of runtime resources, the retry service for broker clients and the
  monitoring hub.  Separate tools read settings from the environment, find JSON in text and code protobuf and gRPC.

  Where what is modelled.

  Foundations: \<open>Prelude\<close> (ordered dictionaries, slices, counting dictionaries, the collections \<open>dict_simps\<close> and \<open>inv_intros\<close>) and \<open>PyStrings\<close>
  (string methods).

  Sessions and requests, \<open>core/sessions.py\<close>, \<open>core/client_hints.py\<close>, \<open>interceptors/client_hints.py\<close>, \<open>profiles/registry.py\<close>,
  \<open>utils/state_codec.py\<close>, \<open>core/downloader/internet/request.py\<close>: \<open>Sessions\<close> has the manager, its step relation and invariant; \<open>SessionState\<close>
  the limiter, cookies and snapshots of one session; \<open>SessionLifecycle\<close> the reaper, closing and persistence; \<open>WebSockets\<close> the
  pool and its event; \<open>MediaRange\<close> ranged downloads and retries; \<open>ClientHints\<close>, \<open>Profiles\<close>, \<open>StateCodec\<close> and \<open>Requests\<close> the rest.

  Scheduling, \<open>core/scheduler\<close>, \<open>dupefilter\<close>, \<open>platform/bloom.py\<close>, \<open>repo\<close>, \<open>infra/kafka\<close>, \<open>utils/algorithm.py\<close>: \<open>Ingress\<close> has the keys of
  the queues and the Redis ingress; \<open>BloomFilter\<close>, \<open>DupeFilter\<close> and \<open>JumpHash\<close> the filters and their placement; \<open>MemoryScheduler\<close>,
  \<open>LeaseScheduler\<close> (Redis and RabbitMQ) and \<open>KafkaScheduler\<close> over \<open>KafkaOffsets\<close> the schedulers.

  The run: \<open>TaskManager\<close> (\<open>core/tasks.py\<close>), \<open>InterceptorChains\<close> and \<open>SpiderInterceptors\<close> (\<open>interceptors\<close>), \<open>RobotsRules\<close> (\<open>utils/domain.py\<close>,
  \<open>utils/robot.py\<close>), \<open>EngineWork\<close> and \<open>EngineLoops\<close> (\<open>core/engine.py\<close>: what the engine owns and how it
  routes results; a callback's output, WebSocket requests, completion, start and stop), \<open>Downloader\<close> and \<open>SseStream\<close> (\<open>core/downloader\<close>), \<open>CrawlerRun\<close> (\<open>crawler.py\<close>, \<open>runner.py\<close>).

  Services: \<open>Resilience\<close> (\<open>service/resilience.py\<close>, \<open>repo/queue.py\<close>), \<open>ResourceRegistry\<close> (\<open>runtime/resources.py\<close>), \<open>SignalQueue\<close>
  (\<open>extensions/signal_manager.py\<close>, \<open>extensions/statistics.py\<close>), \<open>MonitorStore\<close> and \<open>MonitorExtension\<close> (\<open>monitoring/store.py\<close>,
  \<open>extensions/monitoring.py\<close>).

  Tools: \<open>ProtoWire\<close> (the wire format), \<open>ProtoTypes\<close>, \<open>ProtoMessage\<close> and \<open>ProtoReencode\<close> (type definitions, messages, and what decoding
  and encoding together keep) and \<open>GrpcFraming\<close> (\<open>utils/blackboxprotobuf\<close>, \<open>platform/protobuf.py\<close>), \<open>EnvConfig\<close> (\<open>utils/envConfig.py\<close>), \<open>JsonScan\<close>
  (\<open>utils/jsonLoad.py\<close>), \<open>TaskThreads\<close> (\<open>utils/concurrency.py\<close>, \<open>utils/process.py\<close>).

  How the code becomes definitions.  A class is a record of its attributes and a method a function from it to it; exceptions are
  values (\<open>Inl\<close>, \<open>None\<close>, or \<open>Raised\<close> and \<open>Cancelled\<close> of the type \<open>outcome\<close>).  The event loop runs one task at a time up to its next
  await: what lies between two awaits is one function, and the interleavings are step relations (\<open>sm_step\<close>, \<open>tm_step\<close>, \<open>kafka_step\<close>,
  \<open>kafka_run_step\<close>, \<open>lease_step\<close>, \<open>engine_step\<close>, \<open>sq_step\<close>, \<open>crawl_reach\<close>), about which invariants are proved by rule induction.  How awaited
  calls into brokers, transports and user code end, the clock, fresh identifiers, digests, compression and the JSON readers and
  writers are arguments; where a theorem relies on their documented behaviour (a reader never returns more than its text held,
  a codec reads back what it wrote, identifiers are fresh), that is a hypothesis with a name.  Dictionaries whose order can be
  seen are association lists; others are maps.

  Interfaces.  \<open>bloom_backend\<close> (what a Bloom filter owes its users; both filters), \<open>dupefilter\<close> and \<open>exact_dupefilter\<close> (marking and
  asking; the in-memory and Bloom filters), \<open>wire_codec\<close> and \<open>byte_codec\<close> (reading back and emitting bytes; all scalar codecs, and
  from them the packed lists), \<open>lossless\<close> (a chunk decodes to a value that encodes to the same chunk; the field types of messages),
  \<open>retried\<close> and \<open>metered\<close> (what one attempt keeps and costs; the repository call), \<open>search_contract\<close>
  (what the combinators of the JSON search keep; that a search answers, and that what it reports is there).

  What is shown.  Sessions: no session is closed or queued while referenced, the queue is emptied, snapshots restore.  Downloads:
  the parts joined are the resource, and the loop ends.  Schedulers: nothing put is lost or handed out twice, offsets are
  committed contiguously and only for finished requests.  Filters: no repeats, and exactness for those that promise it.
  Chains and engine: references balance over all paths, streams have one owner, the engine is idle exactly when it owns nothing.
  Tasks, slots, resources and signals: counts balance, whatever fails and whatever is cancelled.  Shutdown: the stages come in
  order however callers interleave.  Codecs and settings: round trips, canonical forms, detection of truncation, precedence.
  Searches: exactly the matching braces, only what is there, and an end.  Some theorems state defects as they are in the code;
  their texts say so.

  Bounds and fuel.  Integers of Python are unbounded and stay \<open>int\<close> or \<open>nat\<close>; the keys of \<open>JumpHash\<close> and the hashes and bitmaps of \<open>BloomFilter\<close> are words.
  Loops are total functions with their measures where they end.  Fuel stands where they may not: \<open>group_by_number\<close> in \<open>ProtoWire\<close>,
  for which the number of fields is enough on well-formed messages and no number is on one whose length is negative;
  \<open>media_loop\<close> in \<open>MediaRange\<close>, with the fuel of \<open>media_download_ends\<close>; \<open>find_key\<close> in \<open>JsonScan\<close>, for which the length of the text is
  enough; \<open>packed_loop\<close> in \<open>ProtoWire\<close>, which gets one more than the length of what it reads; and \<open>decode_message\<close> in \<open>ProtoMessage\<close>, for
  which one more than the length of the message is enough by \<open>reencode_exact\<close>.

  Not modelled.  The transports and clients (\<open>platform/curl_cffi.py\<close>, \<open>platform/curl_native.py\<close>, \<open>infra\<close>, \<open>monitoring/client.py\<close>,
  \<open>monitoring/hub.py\<close>) only translate calls to vendor libraries.  Settings and wiring (\<open>settings.py\<close>, \<open>composition.py\<close>,
  \<open>Crawler.do_initialization\<close>) hold no behaviour of their own.  Spiders, items and hooks are interfaces for user code.  The media
  tools drive \<open>ffmpeg\<close>, the logging and e-mail utilities the operating system, and the commands and templates generate projects.
  The engine's scheduler loops hand what the scheduler gives to tasks; Python's limit on recursion and the texts of error messages are
  left out, and so are the adapters to the optional Rust packages.
\<close>

end
